(* ===== verification/Xv6_Prelude.thy ===== *)
theory Xv6_Prelude
  imports Main "HOL-Library.Word"
begin

text \<open>
  Shared vocabulary of the development.

  The kernel is C code: a call returns, panics, runs into undefined behaviour (an access outside
  an array), or cannot go on until another thread of control moves (it spins on a lock that is
  held, or it sleeps). The type \<open>outcome\<close> has one constructor for each, and \<open>obind\<close> sequences
  calls: the first one that does not return decides the outcome of the whole. The machine types of
  \<^verbatim>\<open>kernel/types.h\<close> are words of the same width.
\<close>

section \<open>Machine types\<close>

type_synonym uchar = "8 word"
type_synonym ushort = "16 word"
type_synonym uint32 = "32 word"
type_synonym uint64 = "64 word"

section \<open>Outcomes of kernel code\<close>

datatype 'a outcome =
    Ok 'a             \<comment> \<open>the call returns\<close>
  | Panic string      \<comment> \<open>\<^verbatim>\<open>panic(s)\<close>: prints and spins for ever\<close>
  | Undef string      \<comment> \<open>undefined behaviour of C, e.g. an index outside an array\<close>
  | Wait              \<comment> \<open>cannot return until another thread moves\<close>

fun obind :: "'a outcome \<Rightarrow> ('a \<Rightarrow> 'b outcome) \<Rightarrow> 'b outcome" where
  "obind (Ok a) f = f a"
| "obind (Panic m) f = Panic m"
| "obind (Undef m) f = Undef m"
| "obind Wait f = Wait"

fun is_Ok :: "'a outcome \<Rightarrow> bool" where
  "is_Ok (Ok a) = True"
| "is_Ok _ = False"

named_theorems outcome_simps \<open>inversion of \<open>obind\<close>\<close>

lemma obind_eq_Ok [outcome_simps]: "(obind m f = Ok b) \<longleftrightarrow> (\<exists>a. m = Ok a \<and> f a = Ok b)"
  by (cases m) auto

lemma obind_eq_Panic [outcome_simps]:
  "(obind m f = Panic e) \<longleftrightarrow> (m = Panic e \<or> (\<exists>a. m = Ok a \<and> f a = Panic e))"
  by (cases m) auto

lemma obind_eq_Undef [outcome_simps]:
  "(obind m f = Undef e) \<longleftrightarrow> (m = Undef e \<or> (\<exists>a. m = Ok a \<and> f a = Undef e))"
  by (cases m) auto

lemma obind_eq_Wait [outcome_simps]:
  "(obind m f = Wait) \<longleftrightarrow> (m = Wait \<or> (\<exists>a. m = Ok a \<and> f a = Wait))"
  by (cases m) auto

lemma obind_assoc: "obind (obind m f) g = obind m (\<lambda>a. obind (f a) g)"
  by (cases m) auto

lemma obind_Ok_right [simp]: "obind m Ok = m"
  by (cases m) auto

lemma obind_unit:
  fixes x :: "(unit \<times> 's) outcome"
  shows "obind x (\<lambda>p. Ok ((), snd p)) = x" "obind x (\<lambda>(a, t). Ok ((), t)) = x"
  by (cases x; auto)+

lemma obind_cong [fundef_cong]:
  "m = m' \<Longrightarrow> (\<And>a. m' = Ok a \<Longrightarrow> f a = f' a) \<Longrightarrow> obind m f = obind m' f'"
  by (cases m') auto

lemma is_Ok_iff: "is_Ok m \<longleftrightarrow> (\<exists>a. m = Ok a)"
  by (cases m) auto

section \<open>Stateful kernel code\<close>

text \<open>
  A kernel routine takes the state and gives an outcome with a result and the new state. The
  sequencing operators read the C statements in order: \<open>bnd m (\<lambda>x. k)\<close> is \<^verbatim>\<open>x = m; k\<close>,
  \<open>thn m k\<close> is \<^verbatim>\<open>m; k\<close>, \<open>seqs\<close> a block of statements.
\<close>

type_synonym ('s, 'a) kern = "'s \<Rightarrow> ('a \<times> 's) outcome"

definition ret :: "'a \<Rightarrow> ('s, 'a) kern" where
  "ret a = (\<lambda>s. Ok (a, s))"

definition bnd :: "('s, 'a) kern \<Rightarrow> ('a \<Rightarrow> ('s, 'b) kern) \<Rightarrow> ('s, 'b) kern" where
  "bnd m f = (\<lambda>s. obind (m s) (\<lambda>(a, s'). f a s'))"

definition thn :: "('s, 'a) kern \<Rightarrow> ('s, 'b) kern \<Rightarrow> ('s, 'b) kern" where
  "thn m k = bnd m (\<lambda>_. k)"

definition gets :: "('s \<Rightarrow> 'a) \<Rightarrow> ('s, 'a) kern" where
  "gets f = (\<lambda>s. Ok (f s, s))"

definition modify :: "('s \<Rightarrow> 's) \<Rightarrow> ('s, unit) kern" where
  "modify f = (\<lambda>s. Ok ((), f s))"

definition panic :: "string \<Rightarrow> ('s, 'a) kern" where
  "panic m = (\<lambda>s. Panic m)"

definition undef :: "string \<Rightarrow> ('s, 'a) kern" where
  "undef m = (\<lambda>s. Undef m)"

definition blocks :: "('s, 'a) kern" where
  "blocks = (\<lambda>s. Wait)"

definition whenb :: "bool \<Rightarrow> ('s, unit) kern \<Rightarrow> ('s, unit) kern" where
  "whenb b m = (if b then m else ret ())"

fun seqs :: "('s, unit) kern list \<Rightarrow> ('s, unit) kern" where
  "seqs [] = ret ()"
| "seqs (m # ms) = thn m (seqs ms)"

named_theorems kern_simps \<open>evaluation of the sequencing operators\<close>

lemma ret_apply [kern_simps]: "ret a s = Ok (a, s)"
  by (simp add: ret_def)

lemma bnd_apply [kern_simps]: "bnd m f s = obind (m s) (\<lambda>(a, s'). f a s')"
  by (simp add: bnd_def)

lemma thn_apply [kern_simps]: "thn m k s = obind (m s) (\<lambda>(a, s'). k s')"
  by (simp add: thn_def bnd_def)

lemma gets_apply [kern_simps]: "gets f s = Ok (f s, s)"
  by (simp add: gets_def)

lemma modify_apply [kern_simps]: "modify f s = Ok ((), f s)"
  by (simp add: modify_def)

lemma panic_apply [kern_simps]: "panic m s = Panic m"
  by (simp add: panic_def)

lemma undef_apply [kern_simps]: "undef m s = Undef m"
  by (simp add: undef_def)

lemma blocks_apply [kern_simps]: "blocks s = Wait"
  by (simp add: blocks_def)

lemma whenb_apply [kern_simps]: "whenb b m s = (if b then m s else Ok ((), s))"
  by (simp add: whenb_def ret_def)

text \<open>Congruence rules for recursive routines.\<close>

lemma bnd_cong [fundef_cong]:
  "m s = m' s \<Longrightarrow> s = s' \<Longrightarrow> (\<And>a t. m' s' = Ok (a, t) \<Longrightarrow> f a t = f' a t) \<Longrightarrow> bnd m f s = bnd m' f' s'"
  by (cases "m' s'") (auto simp: bnd_def)

lemma thn_cong [fundef_cong]:
  "m s = m' s \<Longrightarrow> s = s' \<Longrightarrow> (\<And>a t. m' s' = Ok (a, t) \<Longrightarrow> k t = k' t) \<Longrightarrow> thn m k s = thn m' k' s'"
  by (cases "m' s'") (auto simp: thn_def bnd_def)

lemma if_apply_cong [fundef_cong]:
  "b = b' \<Longrightarrow> s = s' \<Longrightarrow> (b' \<Longrightarrow> x s' = x' s') \<Longrightarrow> (\<not> b' \<Longrightarrow> y s' = y' s') \<Longrightarrow>
   (if b then x else y) s = (if b' then x' else y') s'"
  by simp

lemma let_apply_cong [fundef_cong]:
  "v = v' \<Longrightarrow> s = s' \<Longrightarrow> (\<And>x. x = v' \<Longrightarrow> f x s' = f' x s') \<Longrightarrow> (Let v f) s = (Let v' f') s'"
  by simp

lemma if_apply [kern_simps]: "(if b then x else y) s = (if b then x s else y s)"
  by simp

section \<open>What a routine leaves unchanged\<close>

text \<open>
  \<open>keeps f m\<close>: whenever \<open>m\<close> returns, the part \<open>f\<close> of the state is what it was. The rules of the collection follow
  the shape of a routine.
\<close>

definition keeps :: "('s \<Rightarrow> 'b) \<Rightarrow> ('s, 'a) kern \<Rightarrow> bool" where
  "keeps f m \<longleftrightarrow> (\<forall>s a t. m s = Ok (a, t) \<longrightarrow> f t = f s)"

named_theorems keeps_rules \<open>frame rules of the sequencing operators\<close>

lemma keepsI: "(\<And>s a t. m s = Ok (a, t) \<Longrightarrow> f t = f s) \<Longrightarrow> keeps f m"
  by (simp add: keeps_def)

lemma keepsD: "keeps f m \<Longrightarrow> m s = Ok (a, t) \<Longrightarrow> f t = f s"
  by (auto simp: keeps_def)

lemma keeps_ret [keeps_rules]: "keeps f (ret a)"
  by (simp add: keeps_def ret_def)

lemma keeps_gets [keeps_rules]: "keeps f (gets g)"
  by (simp add: keeps_def gets_def)

lemma keeps_panic [keeps_rules]: "keeps f (panic m)" "keeps f (undef m)" "keeps f blocks"
  by (simp_all add: keeps_def panic_def undef_def blocks_def)

lemma keeps_modify [keeps_rules]: "(\<And>s. f (g s) = f s) \<Longrightarrow> keeps f (modify g)"
  by (simp add: keeps_def modify_def)

lemma keeps_bnd [keeps_rules]: "keeps f m \<Longrightarrow> (\<And>a. keeps f (k a)) \<Longrightarrow> keeps f (bnd m k)"
  unfolding keeps_def bnd_def by (auto simp: obind_eq_Ok)

lemma keeps_thn [keeps_rules]: "keeps f m \<Longrightarrow> keeps f k \<Longrightarrow> keeps f (thn m k)"
  unfolding thn_def by (rule keeps_bnd)

lemma keeps_whenb [keeps_rules]: "keeps f m \<Longrightarrow> keeps f (whenb b m)"
  by (simp add: whenb_def keeps_ret)

lemma keeps_if [keeps_rules]: "(b \<Longrightarrow> keeps f m) \<Longrightarrow> (\<not> b \<Longrightarrow> keeps f k) \<Longrightarrow> keeps f (if b then m else k)"
  by simp

lemma keeps_seqs_Nil [keeps_rules]: "keeps f (seqs [])"
  by (simp add: keeps_ret)

lemma keeps_seqs_Cons [keeps_rules]: "keeps f m \<Longrightarrow> keeps f (seqs ms) \<Longrightarrow> keeps f (seqs (m # ms))"
  by (simp add: keeps_thn)

lemma keeps_option [keeps_rules]:
  "keeps f m \<Longrightarrow> (\<And>x. keeps f (k x)) \<Longrightarrow> keeps f (case r of None \<Rightarrow> m | Some x \<Rightarrow> k x)"
  by (cases r) auto

lemma keeps_prod [keeps_rules]: "(\<And>x y. keeps f (k x y)) \<Longrightarrow> keeps f (case r of (x, y) \<Rightarrow> k x y)"
  by (cases r) auto

lemma keeps_sum [keeps_rules]:
  "(\<And>x. keeps f (j x)) \<Longrightarrow> (\<And>x. keeps f (k x)) \<Longrightarrow> keeps f (case r of Inl x \<Rightarrow> j x | Inr x \<Rightarrow> k x)"
  by (cases r) auto

lemma keeps_state: "(\<And>s. keeps f (m s)) \<Longrightarrow> keeps f (\<lambda>s. m s s)"
  by (simp add: keeps_def)

lemma keeps_comp: "keeps f m \<Longrightarrow> keeps (\<lambda>s. g (f s)) m"
  by (simp add: keeps_def)

text \<open>The same from one given state, for recursive routines that take the state as an argument.\<close>

definition keeps_at :: "('s \<Rightarrow> 'b) \<Rightarrow> ('s, 'a) kern \<Rightarrow> 's \<Rightarrow> bool" where
  "keeps_at f m s \<longleftrightarrow> (\<forall>a t. m s = Ok (a, t) \<longrightarrow> f t = f s)"

lemma keeps_at_all: "(\<And>s. keeps_at f m s) \<Longrightarrow> keeps f m"
  by (simp add: keeps_def keeps_at_def)

lemma keeps_at: "keeps f m \<Longrightarrow> keeps_at f m s"
  by (simp add: keeps_def keeps_at_def)

lemma keeps_at_bnd: "keeps f m \<Longrightarrow> (\<And>a t. m s = Ok (a, t) \<Longrightarrow> keeps_at f (k a) t) \<Longrightarrow> keeps_at f (bnd m k) s"
  by (auto simp: keeps_def keeps_at_def bnd_def obind_eq_Ok)

lemma keeps_at_thn: "keeps f m \<Longrightarrow> (\<And>a t. m s = Ok (a, t) \<Longrightarrow> keeps_at f k t) \<Longrightarrow> keeps_at f (thn m k) s"
  by (auto simp: keeps_def keeps_at_def thn_def bnd_def obind_eq_Ok)

lemma keeps_at_call: "keeps_at f m s \<Longrightarrow> (\<And>a. keeps f (k a)) \<Longrightarrow> keeps_at f (bnd m k) s"
  by (auto simp: keeps_def keeps_at_def bnd_def obind_eq_Ok)

lemma keeps_at_if: "(b \<Longrightarrow> keeps_at f m s) \<Longrightarrow> (\<not> b \<Longrightarrow> keeps_at f k s) \<Longrightarrow> keeps_at f (if b then m else k) s"
  by simp

lemma keeps_at_let: "keeps_at f (k v) s \<Longrightarrow> keeps_at f (Let v k) s"
  by (simp add: Let_def)

lemma keeps_at_prod: "(\<And>x y. keeps_at f (k x y) s) \<Longrightarrow> keeps_at f (case r of (x, y) \<Rightarrow> k x y) s"
  by (cases r) auto

lemma keeps_at_loop:
  "m s = (if b then k s else Ok (a, s)) \<Longrightarrow> (b \<Longrightarrow> keeps_at f k s) \<Longrightarrow> keeps_at f m s"
  by (simp add: keeps_at_def)

lemma keeps_at_eq: "m s = k s \<Longrightarrow> keeps_at f k s \<Longrightarrow> keeps_at f m s"
  by (simp add: keeps_at_def)

section \<open>Linked lists\<close>

text \<open>Following the links \<open>f\<close> from node \<open>q\<close>, the next nodes are \<open>ws\<close>, in this order.\<close>

fun follows :: "('a \<Rightarrow> 'a) \<Rightarrow> 'a \<Rightarrow> 'a list \<Rightarrow> bool" where
  "follows f q [] = True"
| "follows f q (w # ws) = (f q = w \<and> follows f w ws)"

lemma follows_append: "follows f q (xs @ ys) \<longleftrightarrow> follows f q xs \<and> follows f (last (q # xs)) ys"
  by (induction xs arbitrary: q) auto

lemma follows_cong: "(\<And>a. a \<in> set (butlast (q # ws)) \<Longrightarrow> f a = g a) \<Longrightarrow> follows f q ws = follows g q ws"
  by (induction ws arbitrary: q) auto

unbundle bit_operations_syntax

section \<open>Bits of small integers\<close>

lemma role_bit_cases: "x AND 1 = 0 \<or> x AND 1 = (1::int)"
  by (simp add: and_one_eq) presburger

end
