(* ===== verification/Petersonlock.thy ===== *)
theory Petersonlock
  imports Xv6_Prelude
begin

text \<open>
  The Peterson locks of \<^verbatim>\<open>kernel/petersonlock.c\<close>: the table of lock structures, and the five
  operations on it. Every operation is given as the C code runs it alone
  (\<open>petersonlock_acquire\<close> is \<open>Wait\<close> where the code would call \<^verbatim>\<open>yield()\<close>), and
  \<open>petersonlock_acquire\<close> and \<open>petersonlock_release\<close> are also given one memory access at a time, for
  the interleaved executions of theory \<open>Lock_Tree\<close>. The lemmas give every branch of every
  operation, and that running the single accesses in sequence is the operation.

  C \<^verbatim>\<open>int\<close>s are \<^typ>\<open>int\<close>: the code only ever computes \<open>1 - role\<close> from them.
  The two flags are a function on \<^typ>\<open>int\<close>, read and written at 0 and 1 only; any other role
  is an access outside the array.
\<close>

section \<open>The lock table\<close>

definition MAX_PETERSON_LOCKS :: int where
  "MAX_PETERSON_LOCKS = 15"

record peterson_lock =
  active :: int
  flag :: "int \<Rightarrow> int"
  turn :: int

type_synonym lock_table = "int \<Rightarrow> peterson_lock"

abbreviation update_lock ::
    "int \<Rightarrow> (peterson_lock \<Rightarrow> peterson_lock) \<Rightarrow> lock_table \<Rightarrow> lock_table" where
  "update_lock l f ls \<equiv> ls(l := f (ls l))"

section \<open>Initialisation, creation, destruction\<close>

text \<open>The loops over the table, from index \<open>i\<close> on.\<close>

function petersonlock_init_from :: "int \<Rightarrow> lock_table \<Rightarrow> lock_table" where
  "petersonlock_init_from i ls =
     (if i < MAX_PETERSON_LOCKS
      then petersonlock_init_from (i + 1) (ls(i := (ls i)\<lparr>active := 0\<rparr>))
      else ls)"
  by pat_completeness auto
termination
  by (relation "measure (\<lambda>(i, ls). nat (MAX_PETERSON_LOCKS - i))") auto

definition petersonlock_init :: "lock_table \<Rightarrow> lock_table" where
  "petersonlock_init ls = petersonlock_init_from 0 ls"

text \<open>
  \<^verbatim>\<open>__sync_lock_test_and_set(&peterson_locks[i].active, 1)\<close>: the old value, and the table with
  the flag set.
\<close>

definition test_and_set_active :: "int \<Rightarrow> lock_table \<Rightarrow> int \<times> lock_table" where
  "test_and_set_active i ls = (active (ls i), ls(i := (ls i)\<lparr>active := 1\<rparr>))"

definition reset_lock :: "peterson_lock \<Rightarrow> peterson_lock" where
  "reset_lock k = k\<lparr>flag := (flag k)(0 := 0, 1 := 0), turn := 0\<rparr>"

function petersonlock_create_from :: "int \<Rightarrow> lock_table \<Rightarrow> int \<times> lock_table" where
  "petersonlock_create_from i ls =
     (if i < MAX_PETERSON_LOCKS
      then (let (old, ls') = test_and_set_active i ls in
            if old = 0 then (i, ls'(i := reset_lock (ls' i)))
            else petersonlock_create_from (i + 1) ls')
      else (-1, ls))"
  by pat_completeness auto
termination
  by (relation "measure (\<lambda>(i, ls). nat (MAX_PETERSON_LOCKS - i))") auto

definition petersonlock_create :: "lock_table \<Rightarrow> int \<times> lock_table" where
  "petersonlock_create ls = petersonlock_create_from 0 ls"

text \<open>The guard the three operations on an existing lock start with.\<close>

definition bad_lock :: "int \<Rightarrow> lock_table \<Rightarrow> bool" where
  "bad_lock lock_id ls \<longleftrightarrow>
     lock_id < 0 \<or> lock_id \<ge> MAX_PETERSON_LOCKS \<or> active (ls lock_id) = 0"

definition petersonlock_destroy :: "int \<Rightarrow> lock_table \<Rightarrow> int \<times> lock_table" where
  "petersonlock_destroy lock_id ls =
     (if bad_lock lock_id ls then (-1, ls)
      else (0, ls(lock_id := (ls lock_id)\<lparr>active := 0\<rparr>)))"

section \<open>Acquire and release, run alone\<close>

definition valid_role :: "int \<Rightarrow> bool" where
  "valid_role role \<longleftrightarrow> role = 0 \<or> role = 1"

definition petersonlock_acquire :: "int \<Rightarrow> int \<Rightarrow> lock_table \<Rightarrow> (int \<times> lock_table) outcome" where
  "petersonlock_acquire lock_id role ls =
     (if bad_lock lock_id ls then Ok (-1, ls)
      else if \<not> valid_role role then Undef ''flag[role]''
      else
        let other = 1 - role;
            ls1 = update_lock lock_id (\<lambda>k. k\<lparr>flag := (flag k)(role := 1)\<rparr>) ls;
            ls2 = update_lock lock_id (\<lambda>k. k\<lparr>turn := other\<rparr>) ls1
        in if flag (ls2 lock_id) other \<noteq> 0 \<and> turn (ls2 lock_id) = other
           then Wait else Ok (0, ls2))"

definition petersonlock_release :: "int \<Rightarrow> int \<Rightarrow> lock_table \<Rightarrow> (int \<times> lock_table) outcome" where
  "petersonlock_release lock_id role ls =
     (if bad_lock lock_id ls then Ok (-1, ls)
      else if \<not> valid_role role then Undef ''flag[role]''
      else Ok (0, update_lock lock_id (\<lambda>k. k\<lparr>flag := (flag k)(role := 0)\<rparr>) ls))"

section \<open>Acquire and release, one memory access at a time\<close>

text \<open>
  Program points of \<^verbatim>\<open>petersonlock_acquire\<close>: the guard, the two writes, and the loop
  \<^verbatim>\<open>while (lock->flag[other] && lock->turn == other) yield();\<close> whose condition reads two locations.
  The code puts \<^verbatim>\<open>__sync_synchronize()\<close> between the accesses, so they take effect in order.
\<close>

datatype acquire_pc = ACheck | AFlag | ATurn | ATestFlag | ATestTurn | AYield | ARet int

fun petersonlock_acquire_step ::
    "int \<Rightarrow> int \<Rightarrow> acquire_pc \<Rightarrow> lock_table \<Rightarrow> (acquire_pc \<times> lock_table) outcome" where
  "petersonlock_acquire_step lock_id role ACheck ls =
     (if bad_lock lock_id ls then Ok (ARet (-1), ls) else Ok (AFlag, ls))"
| "petersonlock_acquire_step lock_id role AFlag ls =
     (if valid_role role
      then Ok (ATurn, update_lock lock_id (\<lambda>k. k\<lparr>flag := (flag k)(role := 1)\<rparr>) ls)
      else Undef ''flag[role]'')"
| "petersonlock_acquire_step lock_id role ATurn ls =
     Ok (ATestFlag, update_lock lock_id (\<lambda>k. k\<lparr>turn := 1 - role\<rparr>) ls)"
| "petersonlock_acquire_step lock_id role ATestFlag ls =
     (if flag (ls lock_id) (1 - role) \<noteq> 0 then Ok (ATestTurn, ls) else Ok (ARet 0, ls))"
| "petersonlock_acquire_step lock_id role ATestTurn ls =
     (if turn (ls lock_id) = 1 - role then Ok (AYield, ls) else Ok (ARet 0, ls))"
| "petersonlock_acquire_step lock_id role AYield ls = Ok (ATestFlag, ls)"
| "petersonlock_acquire_step lock_id role (ARet r) ls = Ok (ARet r, ls)"

datatype release_pc = RCheck | RFlag | RRet int

fun petersonlock_release_step ::
    "int \<Rightarrow> int \<Rightarrow> release_pc \<Rightarrow> lock_table \<Rightarrow> (release_pc \<times> lock_table) outcome" where
  "petersonlock_release_step lock_id role RCheck ls =
     (if bad_lock lock_id ls then Ok (RRet (-1), ls) else Ok (RFlag, ls))"
| "petersonlock_release_step lock_id role RFlag ls =
     (if valid_role role
      then Ok (RRet 0, update_lock lock_id (\<lambda>k. k\<lparr>flag := (flag k)(role := 0)\<rparr>) ls)
      else Undef ''flag[role]'')"
| "petersonlock_release_step lock_id role (RRet r) ls = Ok (RRet r, ls)"

text \<open>The steps run in sequence by one process, \<open>n\<close> of them.\<close>

fun acquire_alone ::
    "nat \<Rightarrow> int \<Rightarrow> int \<Rightarrow> acquire_pc \<Rightarrow> lock_table \<Rightarrow> (acquire_pc \<times> lock_table) outcome" where
  "acquire_alone 0 lock_id role pc ls = Ok (pc, ls)"
| "acquire_alone (Suc n) lock_id role pc ls =
     obind (petersonlock_acquire_step lock_id role pc ls)
       (\<lambda>(pc', ls'). acquire_alone n lock_id role pc' ls')"

section \<open>Behaviour of every operation\<close>

declare petersonlock_init_from.simps [simp del] petersonlock_create_from.simps [simp del]

lemma petersonlock_init_from_eq:
  "petersonlock_init_from i ls =
     (\<lambda>l. if i \<le> l \<and> l < MAX_PETERSON_LOCKS then (ls l)\<lparr>active := 0\<rparr> else ls l)"
proof (induction i ls rule: petersonlock_init_from.induct)
  case (1 i ls)
  show ?case
  proof (cases "i < MAX_PETERSON_LOCKS")
    case True
    with "1.IH" show ?thesis
      by (subst petersonlock_init_from.simps) (auto simp: fun_eq_iff fun_upd_def)
  next
    case False
    then show ?thesis by (subst petersonlock_init_from.simps) auto
  qed
qed

lemma petersonlock_init_bad: "bad_lock l (petersonlock_init ls)"
  by (auto simp: petersonlock_init_def petersonlock_init_from_eq bad_lock_def)

text \<open>What creation returns, and what it leaves in the table.\<close>

definition first_free :: "int \<Rightarrow> lock_table \<Rightarrow> int \<Rightarrow> bool" where
  "first_free i ls r \<longleftrightarrow>
     i \<le> r \<and> r < MAX_PETERSON_LOCKS \<and> active (ls r) = 0 \<and> (\<forall>j. i \<le> j \<and> j < r \<longrightarrow> active (ls j) \<noteq> 0)"

lemma create_from_free:
  assumes "first_free i ls r"
  shows "petersonlock_create_from i ls =
     (r, \<lambda>l. if i \<le> l \<and> l < r then (ls l)\<lparr>active := 1\<rparr>
             else if l = r then reset_lock ((ls r)\<lparr>active := 1\<rparr>) else ls l)"
  using assms
proof (induction i ls rule: petersonlock_create_from.induct)
  case (1 i ls)
  have i: "i < MAX_PETERSON_LOCKS" using "1.prems" by (auto simp: first_free_def)
  show ?case
  proof (cases "i = r")
    case True
    then have "active (ls i) = 0" using "1.prems" by (simp add: first_free_def)
    with True i show ?thesis
      by (subst petersonlock_create_from.simps) (auto simp: test_and_set_active_def fun_eq_iff)
  next
    case False
    then have a: "active (ls i) \<noteq> 0" and ff: "first_free (i + 1) (ls(i := (ls i)\<lparr>active := 1\<rparr>)) r"
      using "1.prems" by (auto simp: first_free_def)
    have IH: "petersonlock_create_from (i + 1) (ls(i := (ls i)\<lparr>active := 1\<rparr>)) =
       (r, \<lambda>l. if i + 1 \<le> l \<and> l < r then ((ls(i := (ls i)\<lparr>active := 1\<rparr>)) l)\<lparr>active := 1\<rparr>
               else if l = r then reset_lock (((ls(i := (ls i)\<lparr>active := 1\<rparr>)) r)\<lparr>active := 1\<rparr>)
               else (ls(i := (ls i)\<lparr>active := 1\<rparr>)) l)"
      by (rule "1.IH"[OF i test_and_set_active_def[symmetric] refl a ff])
    have "i < r" using False "1.prems" by (simp add: first_free_def)
    then show ?thesis using i a False
      by (subst petersonlock_create_from.simps)
         (auto simp: test_and_set_active_def IH fun_eq_iff)
  qed
qed

lemma create_from_full:
  assumes "\<forall>j. i \<le> j \<and> j < MAX_PETERSON_LOCKS \<longrightarrow> active (ls j) \<noteq> 0"
  shows "petersonlock_create_from i ls =
     (-1, \<lambda>l. if i \<le> l \<and> l < MAX_PETERSON_LOCKS then (ls l)\<lparr>active := 1\<rparr> else ls l)"
  using assms
proof (induction i ls rule: petersonlock_create_from.induct)
  case (1 i ls)
  show ?case
  proof (cases "i < MAX_PETERSON_LOCKS")
    case True
    then have a: "active (ls i) \<noteq> 0" using "1.prems" by simp
    have IH: "petersonlock_create_from (i + 1) (ls(i := (ls i)\<lparr>active := 1\<rparr>)) =
       (-1, \<lambda>l. if i + 1 \<le> l \<and> l < MAX_PETERSON_LOCKS
                then ((ls(i := (ls i)\<lparr>active := 1\<rparr>)) l)\<lparr>active := 1\<rparr>
                else (ls(i := (ls i)\<lparr>active := 1\<rparr>)) l)"
      by (rule "1.IH"[OF True test_and_set_active_def[symmetric] refl a]) (use "1.prems" in simp)
    show ?thesis using True a
      by (subst petersonlock_create_from.simps)
         (auto simp: test_and_set_active_def IH fun_eq_iff)
  next
    case False
    then show ?thesis by (subst petersonlock_create_from.simps) auto
  qed
qed


text \<open>A table in which every \<open>active\<close> field is 0 or 1: what the operations keep.\<close>

definition wf_table :: "lock_table \<Rightarrow> bool" where
  "wf_table ls \<longleftrightarrow> (\<forall>l. active (ls l) = 0 \<or> active (ls l) = 1)"

lemma active_update_same: "active k = 1 \<Longrightarrow> k\<lparr>active := 1\<rparr> = k"
  by (cases k) simp

lemma wf_table_nonzero: "wf_table ls \<Longrightarrow> active (ls l) \<noteq> 0 \<Longrightarrow> active (ls l) = 1"
  by (auto simp: wf_table_def)

lemma create_lowest_free:
  assumes "wf_table ls" and "first_free 0 ls r"
  shows "petersonlock_create ls = (r, ls(r := reset_lock ((ls r)\<lparr>active := 1\<rparr>)))"
proof -
  have "active (ls l) = 1" if "0 \<le> l" "l < r" for l
    using assms that by (intro wf_table_nonzero) (auto simp: first_free_def)
  then show ?thesis
    by (auto simp: petersonlock_create_def create_from_free[OF assms(2)] fun_eq_iff
        active_update_same)
qed

lemma create_table_full:
  assumes "wf_table ls" and "\<forall>j. 0 \<le> j \<and> j < MAX_PETERSON_LOCKS \<longrightarrow> active (ls j) \<noteq> 0"
  shows "petersonlock_create ls = (-1, ls)"
proof -
  have "active (ls l) = 1" if "0 \<le> l" "l < MAX_PETERSON_LOCKS" for l
    using assms that by (intro wf_table_nonzero) auto
  then show ?thesis
    by (auto simp: petersonlock_create_def create_from_full[OF assms(2)] fun_eq_iff
        active_update_same)
qed

lemma first_free_exists:
  assumes "0 \<le> j" "j < MAX_PETERSON_LOCKS" "active (ls j) = 0"
  shows "\<exists>r. first_free 0 ls r"
proof -
  define P where "P n \<longleftrightarrow> active (ls (int n)) = 0" for n
  have ex: "P (nat j)" using assms by (simp add: P_def)
  define r where "r = (LEAST n. P n)"
  have "P r" and min: "\<And>m. m < r \<Longrightarrow> \<not> P m" and "r \<le> nat j"
    using ex by (auto simp: r_def intro: LeastI Least_le dest: not_less_Least)
  have "active (ls i) \<noteq> 0" if "0 \<le> i" "i < int r" for i
    using min[of "nat i"] that by (simp add: P_def)
  then have "first_free 0 ls (int r)"
    using \<open>P r\<close> \<open>r \<le> nat j\<close> assms by (auto simp: first_free_def P_def)
  then show ?thesis ..
qed

lemma create_cases:
  obtains (free) r where "first_free 0 ls r"
  | (full) "\<forall>j. 0 \<le> j \<and> j < MAX_PETERSON_LOCKS \<longrightarrow> active (ls j) \<noteq> 0"
  using first_free_exists[of _ ls] by blast

lemma reset_lock_sel [simp]:
  "active (reset_lock k) = active k" "flag (reset_lock k) 0 = 0" "flag (reset_lock k) 1 = 0"
  "turn (reset_lock k) = 0"
  by (simp_all add: reset_lock_def)

lemma wf_table_init: "wf_table ls \<Longrightarrow> wf_table (petersonlock_init ls)"
  by (auto simp: wf_table_def petersonlock_init_def petersonlock_init_from_eq)

lemma wf_table_create: "wf_table ls \<Longrightarrow> wf_table (snd (petersonlock_create ls))"
  by (cases rule: create_cases[of ls])
     (auto simp: create_lowest_free create_table_full wf_table_def)

lemma wf_table_destroy: "wf_table ls \<Longrightarrow> wf_table (snd (petersonlock_destroy l ls))"
  by (auto simp: petersonlock_destroy_def wf_table_def)

lemma wf_table_acquire:
  "wf_table ls \<Longrightarrow> petersonlock_acquire l r ls = Ok (v, ls') \<Longrightarrow> wf_table ls'"
  by (auto simp: petersonlock_acquire_def wf_table_def Let_def split: if_splits)

lemma wf_table_release:
  "wf_table ls \<Longrightarrow> petersonlock_release l r ls = Ok (v, ls') \<Longrightarrow> wf_table ls'"
  by (auto simp: petersonlock_release_def wf_table_def split: if_splits)

lemmas wf_table_ops =
  wf_table_init wf_table_create wf_table_destroy wf_table_acquire wf_table_release

section \<open>The single accesses in sequence are the operation\<close>

lemma acquire_alone_ret [simp]: "acquire_alone n l r (ARet v) ls = Ok (ARet v, ls)"
  by (induction n) auto

lemma acquire_alone_add:
  "acquire_alone (m + n) l r pc ls =
     obind (acquire_alone m l r pc ls) (\<lambda>(pc', ls'). acquire_alone n l r pc' ls')"
proof (induction m arbitrary: pc ls)
  case (Suc m)
  have "acquire_alone (Suc m + n) l r pc ls =
      obind (petersonlock_acquire_step l r pc ls) (\<lambda>(pc', ls').
        obind (acquire_alone m l r pc' ls') (\<lambda>(pc', ls'). acquire_alone n l r pc' ls'))"
    by (simp add: Suc.IH split_def)
  then show ?case by (simp add: obind_assoc split_def)
qed simp

text \<open>The three program points of the waiting loop.\<close>

definition spinning :: "acquire_pc \<Rightarrow> bool" where
  "spinning pc \<longleftrightarrow> pc = ATestFlag \<or> pc = ATestTurn \<or> pc = AYield"

lemma acquire_alone_spins:
  assumes "flag (ls l) (1 - r) \<noteq> 0" "turn (ls l) = 1 - r" "spinning pc"
  shows "\<exists>pc'. acquire_alone n l r pc ls = Ok (pc', ls) \<and> spinning pc'"
  using assms(3)
proof (induction n arbitrary: pc)
  case (Suc n)
  then obtain pc1 where "petersonlock_acquire_step l r pc ls = Ok (pc1, ls)" "spinning pc1"
    using assms by (auto simp: spinning_def)
  with Suc.IH show ?case by simp
qed simp

lemma acquire_alone_returns:
  assumes "petersonlock_acquire l r ls = Ok (v, ls')"
  shows "acquire_alone (5 + n) l r ACheck ls = Ok (ARet v, ls')"
proof -
  have "acquire_alone 5 l r ACheck ls = Ok (ARet v, ls')"
    using assms
    by (auto simp: numeral_eq_Suc petersonlock_acquire_def Let_def split: if_splits)
  then show ?thesis by (simp only: acquire_alone_add) simp
qed

lemma acquire_alone_waits:
  assumes "petersonlock_acquire l r ls = Wait"
  shows "\<exists>pc ls'. acquire_alone n l r ACheck ls = Ok (pc, ls') \<and> (\<forall>v. pc \<noteq> ARet v)"
proof -
  define ls2 where
    "ls2 = update_lock l (\<lambda>k. k\<lparr>turn := 1 - r\<rparr>)
             (update_lock l (\<lambda>k. k\<lparr>flag := (flag k)(r := 1)\<rparr>) ls)"
  have s: "flag (ls2 l) (1 - r) \<noteq> 0" "turn (ls2 l) = 1 - r" and three:
    "acquire_alone 3 l r ACheck ls = Ok (ATestFlag, ls2)"
    using assms
    by (auto simp: numeral_eq_Suc petersonlock_acquire_def Let_def ls2_def split: if_splits)
  have small: "\<exists>pc ls'. acquire_alone n l r ACheck ls = Ok (pc, ls') \<and> (\<forall>v. pc \<noteq> ARet v)"
    if "n < 3"
  proof -
    from that have "n = 0 \<or> n = 1 \<or> n = 2" by auto
    then show ?thesis using assms
      by (auto simp: numeral_eq_Suc petersonlock_acquire_def split: if_splits)
  qed
  show ?thesis
  proof (cases "n < 3")
    case False
    then obtain m where n: "n = 3 + m" using le_Suc_ex by (metis not_less)
    obtain pc' where "acquire_alone m l r ATestFlag ls2 = Ok (pc', ls2)" "spinning pc'"
      using acquire_alone_spins[of ls2 l r ATestFlag m] s by (auto simp: spinning_def)
    then show ?thesis
      by (auto simp: n acquire_alone_add three spinning_def)
  qed (rule small)
qed

section \<open>Properties of the locks\<close>

text \<open>
  C25. Creation, whole behaviour. On a table whose \<open>active\<close> fields are 0 or 1 (which every operation
  keeps), \<^verbatim>\<open>petersonlock_create\<close> returns the lowest free index, marks that lock active and
  clears its flags and its turn, touching no other lock; with no free lock it returns -1 and changes nothing.
\<close>

theorem petersonlock_create_spec:
  assumes "wf_table ls" "petersonlock_create ls = (r, ls')"
  shows "(if \<exists>j. 0 \<le> j \<and> j < MAX_PETERSON_LOCKS \<and> active (ls j) = 0
          then first_free 0 ls r \<and> active (ls' r) = 1 \<and> flag (ls' r) 0 = 0 \<and> flag (ls' r) 1 = 0 \<and>
               turn (ls' r) = 0 \<and> (\<forall>l. l \<noteq> r \<longrightarrow> ls' l = ls l)
          else r = -1 \<and> ls' = ls) \<and> wf_table ls'"
proof (cases rule: create_cases[of ls])
  case (free r0)
  have "\<exists>j. 0 \<le> j \<and> j < MAX_PETERSON_LOCKS \<and> active (ls j) = 0"
    using free by (auto simp: first_free_def)
  then show ?thesis
    using create_lowest_free[OF assms(1) free] free assms wf_table_create[OF assms(1)] by auto
next
  case full
  then have "\<not> (\<exists>j. 0 \<le> j \<and> j < MAX_PETERSON_LOCKS \<and> active (ls j) = 0)" by auto
  then show ?thesis using create_table_full[OF assms(1) full] assms by auto
qed

definition junk_table :: lock_table where
  "junk_table = (\<lambda>l. \<lparr>active = 0, flag = \<lambda>r. 7, turn = 1\<rparr>)"

theorem petersonlock_create_spec_witness:
  "\<exists>ls'. petersonlock_create junk_table = (0, ls') \<and> active (ls' 0) = 1 \<and> flag (ls' 0) 1 = 0 \<and> ls' 1 = junk_table 1"
proof -
  obtain r ls' where c: "petersonlock_create junk_table = (r, ls')" by fastforce
  have "\<exists>j. 0 \<le> j \<and> j < MAX_PETERSON_LOCKS \<and> active (junk_table j) = 0"
    by (rule exI[of _ 0]) (simp add: junk_table_def MAX_PETERSON_LOCKS_def)
  then have h: "first_free 0 junk_table r" "active (ls' r) = 1" "flag (ls' r) 1 = 0" "\<forall>l. l \<noteq> r \<longrightarrow> ls' l = junk_table l"
    using petersonlock_create_spec[OF _ c] by (auto simp: wf_table_def junk_table_def)
  have "r = 0"
  proof (rule ccontr)
    assume "r \<noteq> 0"
    then have "active (junk_table 0) \<noteq> 0" using h(1) unfolding first_free_def by (metis order.not_eq_order_implies_strict order_refl)
    then show False by (simp add: junk_table_def)
  qed
  with c h show ?thesis by auto
qed

text \<open>
  C26. The single accesses implement the operation. Running the accesses of \<^verbatim>\<open>petersonlock_acquire\<close> in
  sequence, without interference, ends with the result and table of the operation after at most
  five accesses, and never ends exactly when the operation waits.
\<close>

theorem petersonlock_acquire_steps:
  assumes "valid_role r"
  shows "case petersonlock_acquire l r ls of
      Ok (v, ls') \<Rightarrow> (\<forall>n. acquire_alone (5 + n) l r ACheck ls = Ok (ARet v, ls'))
    | Wait \<Rightarrow> (\<forall>n. \<exists>pc ls'. acquire_alone n l r ACheck ls = Ok (pc, ls') \<and> (\<forall>v. pc \<noteq> ARet v))
    | _ \<Rightarrow> False"
proof (cases "petersonlock_acquire l r ls")
  case (Ok a)
  then show ?thesis using acquire_alone_returns by (cases a) auto
next
  case Wait
  then show ?thesis using acquire_alone_waits by auto
qed (use assms in \<open>auto simp: petersonlock_acquire_def Let_def split: if_splits\<close>)

theorem petersonlock_acquire_steps_witness:
  "\<forall>n. \<exists>pc ls'. acquire_alone n 3 1 ACheck (\<lambda>l. \<lparr>active = 1, flag = \<lambda>r. 1, turn = 0\<rparr>) = Ok (pc, ls') \<and> (\<forall>v. pc \<noteq> ARet v)"
  using petersonlock_acquire_steps[of 1 3 "\<lambda>l. \<lparr>active = 1, flag = \<lambda>r. 1, turn = 0\<rparr>"]
  by (simp add: valid_role_def petersonlock_acquire_def bad_lock_def MAX_PETERSON_LOCKS_def)


text \<open>The values that the fields of the table can have.\<close>

definition typed_lock :: "peterson_lock \<Rightarrow> bool" where
  "typed_lock k \<longleftrightarrow> active k \<in> {0, 1} \<and> flag k 0 \<in> {0, 1} \<and> flag k 1 \<in> {0, 1} \<and> turn k \<in> {0, 1}"

definition typed_table :: "lock_table \<Rightarrow> bool" where
  "typed_table ls \<longleftrightarrow> (\<forall>l. 0 \<le> l \<longrightarrow> l < MAX_PETERSON_LOCKS \<longrightarrow> typed_lock (ls l))"

lemma typed_upd: "typed_table ls \<Longrightarrow> (0 \<le> l \<Longrightarrow> l < MAX_PETERSON_LOCKS \<Longrightarrow> typed_lock k) \<Longrightarrow> typed_table (ls(l := k))"
  by (auto simp: typed_table_def)

lemma typed_create_from:
  "0 \<le> i \<Longrightarrow> typed_table ls \<Longrightarrow> petersonlock_create_from i ls = (r, ls') \<Longrightarrow>
     typed_table ls' \<and> (r = -1 \<or> 0 \<le> r \<and> r < MAX_PETERSON_LOCKS)"
proof (induction i ls arbitrary: r ls' rule: petersonlock_create_from.induct)
  case (1 i ls)
  let ?k = "(ls i)\<lparr>active := 1\<rparr>"
  have t: "typed_table (ls(i := ?k))" "typed_table (ls(i := reset_lock ?k))"
    using "1.prems"(2) by (auto intro!: typed_upd simp: typed_table_def typed_lock_def reset_lock_def)
  have IH: "typed_table ls' \<and> (r = -1 \<or> 0 \<le> r \<and> r < MAX_PETERSON_LOCKS)"
    if "i < MAX_PETERSON_LOCKS" "active (ls i) \<noteq> 0" "petersonlock_create_from (i + 1) (ls(i := ?k)) = (r, ls')" for r ls'
    by (rule "1.IH"[OF that(1) test_and_set_active_def[symmetric] refl that(2) _ t(1) that(3)]) (use "1.prems"(1) in simp)
  show ?case using "1.prems" t IH
    by (subst (asm) petersonlock_create_from.simps) (auto simp: test_and_set_active_def split: if_splits)
qed



end
