(* ===== verification/Lock_Tree.thy ===== *)
theory Lock_Tree
  imports Petersonlock
begin

text \<open>
  Interleaved executions of processes that take Peterson locks one after the other, do some work,
  and give the locks back in the opposite order: the client code of
  \<^verbatim>\<open>user/libtournament.c\<close> (a tree of locks) and of \<^verbatim>\<open>user/test_peterson.c\<close> (one lock).

  The state is the kernel's lock table and a program point for every process; one step is one
  memory access of one process, taken from \<open>petersonlock_acquire_step\<close> and
  \<open>petersonlock_release_step\<close>. The parameters say which lock and which role process \<open>p\<close> uses for its
  \<open>n\<close>-th acquisition, \<open>n < L\<close>. The locale \<open>lock_tree\<close> states what a client must respect (two
  processes meet at a lock with the same role only if one of them was excluded below), and proves
  mutual exclusion once for all clients.
\<close>

section \<open>Processes\<close>

datatype proc_pc =
    PIdle                      \<comment> \<open>outside\<close>
  | PAcq nat acquire_pc        \<comment> \<open>in the call that takes lock number \<open>n\<close> of its path\<close>
  | PCrit                      \<comment> \<open>in the critical section\<close>
  | PRel nat release_pc        \<comment> \<open>in the call that gives lock number \<open>n\<close> back\<close>
  | PRoll nat release_pc       \<comment> \<open>giving locks back after a failed acquisition\<close>
  | PFail                      \<comment> \<open>the call returned -1\<close>

record tree_state =
  table :: lock_table
  pcs :: "nat \<Rightarrow> proc_pc"

text \<open>
  One access of process \<open>p\<close> at program point \<open>pc\<close>. The order of the calls is that of
  \<^verbatim>\<open>tournament_acquire\<close> and \<^verbatim>\<open>tournament_release\<close>: acquisitions upwards, with a roll back on failure,
  releases downwards, stopping at the first that fails.
\<close>

fun proc_step ::
    "(nat \<Rightarrow> nat \<Rightarrow> int) \<Rightarrow> (nat \<Rightarrow> nat \<Rightarrow> int) \<Rightarrow> nat \<Rightarrow> nat \<Rightarrow> proc_pc \<Rightarrow> lock_table
       \<Rightarrow> (proc_pc \<times> lock_table) outcome" where
  "proc_step lk rl L p PIdle ls = Ok (if L = 0 then PFail else PAcq 0 ACheck, ls)"
| "proc_step lk rl L p (PAcq n (ARet v)) ls =
     Ok (if v < 0 then PRoll n RCheck
         else if Suc n < L then PAcq (Suc n) ACheck else PCrit, ls)"
| "proc_step lk rl L p (PAcq n pc) ls =
     obind (petersonlock_acquire_step (lk p n) (rl p n) pc ls) (\<lambda>(pc', ls'). Ok (PAcq n pc', ls'))"
| "proc_step lk rl L p PCrit ls = Ok (PRel (L - 1) RCheck, ls)"
| "proc_step lk rl L p (PRel n (RRet v)) ls =
     Ok (if v < 0 then PFail else if n = 0 then PIdle else PRel (n - 1) RCheck, ls)"
| "proc_step lk rl L p (PRel n pc) ls =
     obind (petersonlock_release_step (lk p n) (rl p n) pc ls) (\<lambda>(pc', ls'). Ok (PRel n pc', ls'))"
| "proc_step lk rl L p (PRoll n (RRet v)) ls =
     Ok (if v < 0 then PFail else if n = 0 then PFail else PRoll (n - 1) RCheck, ls)"
| "proc_step lk rl L p (PRoll n pc) ls =
     obind (petersonlock_release_step (lk p n) (rl p n) pc ls) (\<lambda>(pc', ls'). Ok (PRoll n pc', ls'))"
| "proc_step lk rl L p PFail ls = Ok (PFail, ls)"

inductive tree_step ::
    "(nat \<Rightarrow> nat \<Rightarrow> int) \<Rightarrow> (nat \<Rightarrow> nat \<Rightarrow> int) \<Rightarrow> nat \<Rightarrow> nat \<Rightarrow> tree_state \<Rightarrow> tree_state \<Rightarrow> bool"
  for lk rl L N where
  step: "p < N \<Longrightarrow> proc_step lk rl L p (pcs s p) (table s) = Ok (pc', ls') \<Longrightarrow>
     tree_step lk rl L N s \<lparr>table = ls', pcs = (pcs s)(p := pc')\<rparr>"

text \<open>The start: every process outside, every lock of the tree active, and both its flags down.\<close>

definition tree_init ::
    "(nat \<Rightarrow> nat \<Rightarrow> int) \<Rightarrow> nat \<Rightarrow> nat \<Rightarrow> tree_state \<Rightarrow> bool" where
  "tree_init lk L N s \<longleftrightarrow>
     (\<forall>p. pcs s p = PIdle) \<and>
     (\<forall>p < N. \<forall>n < L. active (table s (lk p n)) = 1 \<and> flag (table s (lk p n)) 0 = 0 \<and>
        flag (table s (lk p n)) 1 = 0 \<and> turn (table s (lk p n)) = 0)"

inductive tree_reach ::
    "(nat \<Rightarrow> nat \<Rightarrow> int) \<Rightarrow> (nat \<Rightarrow> nat \<Rightarrow> int) \<Rightarrow> nat \<Rightarrow> nat \<Rightarrow> tree_state \<Rightarrow> bool"
  for lk rl L N where
  init: "tree_init lk L N s \<Longrightarrow> tree_reach lk rl L N s"
| step: "tree_reach lk rl L N s \<Longrightarrow> tree_step lk rl L N s t \<Longrightarrow> tree_reach lk rl L N t"

inductive_cases tree_stepE: "tree_step lk rl L N s t"

text \<open>A schedule names the process of every step: an executable run.\<close>

fun run_schedule ::
    "(nat \<Rightarrow> nat \<Rightarrow> int) \<Rightarrow> (nat \<Rightarrow> nat \<Rightarrow> int) \<Rightarrow> nat \<Rightarrow> nat list \<Rightarrow> tree_state \<Rightarrow> tree_state outcome" where
  "run_schedule lk rl L [] s = Ok s"
| "run_schedule lk rl L (p # ps) s =
     obind (proc_step lk rl L p (pcs s p) (table s))
       (\<lambda>(pc', ls'). run_schedule lk rl L ps \<lparr>table = ls', pcs = (pcs s)(p := pc')\<rparr>)"

lemma run_schedule_reach:
  "tree_reach lk rl L N s \<Longrightarrow> \<forall>p \<in> set ps. p < N \<Longrightarrow> run_schedule lk rl L ps s = Ok t \<Longrightarrow>
   tree_reach lk rl L N t"
proof (induction ps arbitrary: s)
  case (Cons p ps)
  from Cons.prems(3) obtain pc' ls' where
    st: "proc_step lk rl L p (pcs s p) (table s) = Ok (pc', ls')" and
    r: "run_schedule lk rl L ps \<lparr>table = ls', pcs = (pcs s)(p := pc')\<rparr> = Ok t"
    by (auto simp: outcome_simps)
  have "tree_reach lk rl L N \<lparr>table = ls', pcs = (pcs s)(p := pc')\<rparr>"
    using Cons.prems(1,2) st by (auto intro: tree_reach.step tree_step.step)
  then show ?case using Cons.IH Cons.prems(2) r by simp
qed simp

section \<open>Where a process stands towards its \<open>n\<close>-th lock\<close>

text \<open>In the calls on lock \<open>n\<close> or above: below, it holds everything.\<close>

fun reached :: "nat \<Rightarrow> proc_pc \<Rightarrow> nat \<Rightarrow> bool" where
  "reached L (PAcq m pc) n \<longleftrightarrow> n \<le> m"
| "reached L PCrit n \<longleftrightarrow> n < L"
| "reached L (PRel m pc) n \<longleftrightarrow> n \<le> m"
| "reached L _ n \<longleftrightarrow> False"

text \<open>It has raised its flag and not lowered it.\<close>

fun engaged :: "nat \<Rightarrow> proc_pc \<Rightarrow> nat \<Rightarrow> bool" where
  "engaged L (PAcq m pc) n \<longleftrightarrow> n < m \<or> n = m \<and> pc \<noteq> ACheck \<and> pc \<noteq> AFlag"
| "engaged L PCrit n \<longleftrightarrow> n < L"
| "engaged L (PRel m pc) n \<longleftrightarrow> n < m \<or> n = m \<and> (pc = RCheck \<or> pc = RFlag)"
| "engaged L _ n \<longleftrightarrow> False"

text \<open>It has given the turn away and is in the waiting loop.\<close>

fun waiting :: "proc_pc \<Rightarrow> nat \<Rightarrow> bool" where
  "waiting (PAcq m pc) n \<longleftrightarrow> n = m \<and> spinning pc"
| "waiting _ n \<longleftrightarrow> False"

text \<open>Its acquisition of lock \<open>n\<close> returned, and it has not lowered the flag since.\<close>

fun holds :: "nat \<Rightarrow> proc_pc \<Rightarrow> nat \<Rightarrow> bool" where
  "holds L (PAcq m pc) n \<longleftrightarrow> n < m \<or> n = m \<and> pc = ARet 0"
| "holds L PCrit n \<longleftrightarrow> n < L"
| "holds L (PRel m pc) n \<longleftrightarrow> n < m \<or> n = m \<and> (pc = RCheck \<or> pc = RFlag)"
| "holds L _ n \<longleftrightarrow> False"

lemma holds_engaged: "holds L pc n \<Longrightarrow> engaged L pc n"
  by (cases "(L, pc, n)" rule: holds.cases) auto

lemma waiting_engaged: "waiting pc n \<Longrightarrow> engaged L pc n"
  by (cases "(pc, n)" rule: waiting.cases) (auto simp: spinning_def)

lemma engaged_reached: "engaged L pc n \<Longrightarrow> reached L pc n"
  by (cases "(L, pc, n)" rule: engaged.cases) auto

lemma reached_holds_below: "reached L pc (Suc n) \<Longrightarrow> holds L pc n"
  by (cases "(L, pc, n)" rule: reached.cases) auto

lemma waiting_not_holds: "waiting pc n \<Longrightarrow> \<not> holds L pc n"
  by (cases "(pc, n)" rule: waiting.cases) (auto simp: spinning_def)

text \<open>Program points a run goes through: no failed call, and levels below \<open>L\<close>.\<close>

fun pc_ok :: "nat \<Rightarrow> proc_pc \<Rightarrow> bool" where
  "pc_ok L (PAcq n pc) \<longleftrightarrow> n < L \<and> (\<forall>v. pc = ARet v \<longrightarrow> v = 0)"
| "pc_ok L (PRel n pc) \<longleftrightarrow> n < L \<and> (\<forall>v. pc = RRet v \<longrightarrow> v = 0)"
| "pc_ok L (PRoll n pc) \<longleftrightarrow> False"
| "pc_ok L PFail \<longleftrightarrow> False"
| "pc_ok L PCrit \<longleftrightarrow> 0 < L"
| "pc_ok L PIdle \<longleftrightarrow> True"

section \<open>The five kinds of steps\<close>

text \<open>
  Relative to the four predicates above, every step of a process on active locks is one of: no
  change; raise the flag; give the turn away; get through the loop; lower the flag.
\<close>

datatype step_kind = Silent | Raise nat | Give nat | Enter nat | Lower nat

definition same_but ::
    "(proc_pc \<Rightarrow> nat \<Rightarrow> bool) \<Rightarrow> proc_pc \<Rightarrow> proc_pc \<Rightarrow> nat \<Rightarrow> bool" where
  "same_but P pc pc' n \<longleftrightarrow> (\<forall>m. m \<noteq> n \<longrightarrow> P pc' m = P pc m)"

fun kind_effect ::
    "nat \<Rightarrow> (nat \<Rightarrow> int) \<Rightarrow> (nat \<Rightarrow> int) \<Rightarrow> step_kind \<Rightarrow> proc_pc \<Rightarrow> lock_table \<Rightarrow> proc_pc \<Rightarrow> lock_table \<Rightarrow> bool" where
  "kind_effect L l r Silent pc ls pc' ls' \<longleftrightarrow>
     ls' = ls \<and> engaged L pc' = engaged L pc \<and> waiting pc' = waiting pc \<and> holds L pc' = holds L pc"
| "kind_effect L l r (Raise n) pc ls pc' ls' \<longleftrightarrow>
     ls' = update_lock (l n) (\<lambda>k. k\<lparr>flag := (flag k)(r n := 1)\<rparr>) ls \<and>
     reached L pc n \<and> \<not> engaged L pc n \<and> engaged L pc' n \<and> same_but (engaged L) pc pc' n \<and>
     waiting pc' = waiting pc \<and> holds L pc' = holds L pc"
| "kind_effect L l r (Give n) pc ls pc' ls' \<longleftrightarrow>
     ls' = update_lock (l n) (\<lambda>k. k\<lparr>turn := 1 - r n\<rparr>) ls \<and>
     engaged L pc n \<and> \<not> holds L pc n \<and> \<not> waiting pc n \<and> waiting pc' n \<and> same_but waiting pc pc' n \<and>
     engaged L pc' = engaged L pc \<and> holds L pc' = holds L pc"
| "kind_effect L l r (Enter n) pc ls pc' ls' \<longleftrightarrow>
     ls' = ls \<and> (flag (ls (l n)) (1 - r n) = 0 \<or> turn (ls (l n)) \<noteq> 1 - r n) \<and>
     waiting pc n \<and> \<not> waiting pc' n \<and> same_but waiting pc pc' n \<and>
     holds L pc' n \<and> same_but (holds L) pc pc' n \<and> engaged L pc' = engaged L pc"
| "kind_effect L l r (Lower n) pc ls pc' ls' \<longleftrightarrow>
     ls' = update_lock (l n) (\<lambda>k. k\<lparr>flag := (flag k)(r n := 0)\<rparr>) ls \<and>
     holds L pc n \<and> \<not> holds L pc' n \<and> same_but (holds L) pc pc' n \<and>
     \<not> engaged L pc' n \<and> same_but (engaged L) pc pc' n \<and> waiting pc' = waiting pc"

lemma proc_step_kind:
  assumes ok: "pc_ok L pc"
    and live: "\<And>n. n < L \<Longrightarrow> \<not> bad_lock (lk p n) ls"
    and st: "proc_step lk rl L p pc ls = Ok (pc', ls')"
    and L: "0 < L"
  shows "pc_ok L pc' \<and> (\<exists>k. kind_effect L (lk p) (rl p) k pc ls pc' ls')"
proof (cases pc)
  case PIdle
  with st L show ?thesis
    by (auto intro!: exI[of _ Silent] simp: fun_eq_iff spinning_def)
next
  case (PAcq n a)
  with ok have n: "n < L" by simp
  show ?thesis
  proof (cases a)
    case ACheck
    with PAcq st live[OF n] n show ?thesis
      by (auto intro!: exI[of _ Silent] simp: fun_eq_iff spinning_def)
  next
    case AFlag
    with PAcq st have "pc' = PAcq n ATurn"
      and "ls' = update_lock (lk p n) (\<lambda>k. k\<lparr>flag := (flag k)(rl p n := 1)\<rparr>) ls"
      by (auto split: if_splits)
    with AFlag PAcq n show ?thesis
      by (intro conjI exI[of _ "Raise n"]) (simp_all add: fun_eq_iff spinning_def same_but_def)
  next
    case ATurn
    with PAcq st n show ?thesis
      by (auto intro!: exI[of _ "Give n"] simp: fun_eq_iff spinning_def same_but_def)
  next
    case ATestFlag
    show ?thesis
    proof (cases "flag (ls (lk p n)) (1 - rl p n) \<noteq> 0")
      case True
      with ATestFlag PAcq st n show ?thesis
        by (auto intro!: exI[of _ Silent] simp: fun_eq_iff spinning_def)
    next
      case False
      with ATestFlag PAcq st n show ?thesis
        by (auto intro!: exI[of _ "Enter n"] simp: fun_eq_iff spinning_def same_but_def)
    qed
  next
    case ATestTurn
    show ?thesis
    proof (cases "turn (ls (lk p n)) = 1 - rl p n")
      case True
      with ATestTurn PAcq st n show ?thesis
        by (auto intro!: exI[of _ Silent] simp: fun_eq_iff spinning_def)
    next
      case False
      with ATestTurn PAcq st n show ?thesis
        by (auto intro!: exI[of _ "Enter n"] simp: fun_eq_iff spinning_def same_but_def)
    qed
  next
    case AYield
    with PAcq st n show ?thesis
      by (auto intro!: exI[of _ Silent] simp: fun_eq_iff spinning_def)
  next
    case (ARet v)
    with PAcq ok have "v = 0" by simp
    with ARet PAcq st n L show ?thesis
      by (auto intro!: exI[of _ Silent] simp: fun_eq_iff spinning_def)
  qed
next
  case PCrit
  with st L show ?thesis
    by (auto intro!: exI[of _ Silent] simp: fun_eq_iff)
next
  case (PRel n a)
  with ok have n: "n < L" by simp
  show ?thesis
  proof (cases a)
    case RCheck
    with PRel st live[OF n] n show ?thesis
      by (auto intro!: exI[of _ Silent] simp: fun_eq_iff)
  next
    case RFlag
    with PRel st have "pc' = PRel n (RRet 0)"
      and "ls' = update_lock (lk p n) (\<lambda>k. k\<lparr>flag := (flag k)(rl p n := 0)\<rparr>) ls"
      by (auto split: if_splits)
    with RFlag PRel n show ?thesis
      by (intro conjI exI[of _ "Lower n"]) (simp_all add: fun_eq_iff same_but_def)
  next
    case (RRet v)
    with PRel ok have "v = 0" by simp
    with RRet PRel st n show ?thesis
      by (auto intro!: exI[of _ Silent] simp: fun_eq_iff)
  qed
qed (use ok in auto)

lemma reached_lt: "pc_ok L pc \<Longrightarrow> reached L pc n \<Longrightarrow> n < L"
  by (cases "(L, pc, n)" rule: reached.cases) auto

lemma flag_update_lock:
  "flag ((update_lock l (\<lambda>k. k\<lparr>flag := (flag k)(r := v)\<rparr>) ls) l') r' =
     (if l' = l \<and> r' = r then v else flag (ls l') r')"
  by simp

lemma turn_update_lock:
  "turn ((update_lock l (\<lambda>k. k\<lparr>turn := v\<rparr>) ls) l') = (if l' = l then v else turn (ls l'))"
  by simp

text \<open>What the other kinds of steps cannot do.\<close>

lemma kind_holds:
  "kind_effect L l r k c ls c' ls' \<Longrightarrow> \<forall>n. k \<noteq> Enter n \<Longrightarrow> holds L c' m \<Longrightarrow> holds L c m"
  by (cases k; force simp: same_but_def)

lemma kind_waiting:
  "kind_effect L l r k c ls c' ls' \<Longrightarrow> \<forall>n. k \<noteq> Give n \<Longrightarrow> waiting c' m \<Longrightarrow> waiting c m"
  by (cases k; force simp: same_but_def)

lemma kind_turn:
  "kind_effect L l r k c ls c' ls' \<Longrightarrow> \<forall>n. k \<noteq> Give n \<Longrightarrow> turn (ls' i) = turn (ls i)"
  by (cases k) auto

section \<open>The invariant of the interleaved runs\<close>

definition inv_locks :: "(nat \<Rightarrow> nat \<Rightarrow> int) \<Rightarrow> nat \<Rightarrow> nat \<Rightarrow> lock_table \<Rightarrow> bool" where
  "inv_locks lk L N ls \<longleftrightarrow>
     (\<forall>p < N. \<forall>n < L. active (ls (lk p n)) = 1 \<and> (turn (ls (lk p n)) = 0 \<or> turn (ls (lk p n)) = 1))"

text \<open>A raised flag and an engaged process go together.\<close>

definition inv_flags ::
    "(nat \<Rightarrow> nat \<Rightarrow> int) \<Rightarrow> (nat \<Rightarrow> nat \<Rightarrow> int) \<Rightarrow> nat \<Rightarrow> nat \<Rightarrow> (nat \<Rightarrow> proc_pc) \<Rightarrow> lock_table \<Rightarrow> bool" where
  "inv_flags lk rl L N pc ls \<longleftrightarrow>
     (\<forall>p < N. \<forall>n < L. engaged L (pc p) n \<longrightarrow> flag (ls (lk p n)) (rl p n) = 1) \<and>
     (\<forall>p < N. \<forall>n < L. \<forall>r. (r = 0 \<or> r = 1) \<and> flag (ls (lk p n)) r \<noteq> 0 \<longrightarrow>
        (\<exists>q < N. lk q n = lk p n \<and> rl q n = r \<and> engaged L (pc q) n))"

definition inv_excl ::
    "(nat \<Rightarrow> nat \<Rightarrow> int) \<Rightarrow> nat \<Rightarrow> nat \<Rightarrow> (nat \<Rightarrow> proc_pc) \<Rightarrow> bool" where
  "inv_excl lk L N pc \<longleftrightarrow>
     (\<forall>p < N. \<forall>q < N. \<forall>n < L. holds L (pc p) n \<and> holds L (pc q) n \<and> lk p n = lk q n \<longrightarrow> p = q)"

text \<open>Who waits at a lock that is held has given the turn to the holder.\<close>

definition inv_turn ::
    "(nat \<Rightarrow> nat \<Rightarrow> int) \<Rightarrow> (nat \<Rightarrow> nat \<Rightarrow> int) \<Rightarrow> nat \<Rightarrow> nat \<Rightarrow> (nat \<Rightarrow> proc_pc) \<Rightarrow> lock_table \<Rightarrow> bool" where
  "inv_turn lk rl L N pc ls \<longleftrightarrow>
     (\<forall>p < N. \<forall>q < N. \<forall>n < L. holds L (pc p) n \<and> waiting (pc q) n \<and> lk p n = lk q n \<longrightarrow>
        turn (ls (lk p n)) = rl p n)"

definition tree_inv ::
    "(nat \<Rightarrow> nat \<Rightarrow> int) \<Rightarrow> (nat \<Rightarrow> nat \<Rightarrow> int) \<Rightarrow> nat \<Rightarrow> nat \<Rightarrow> tree_state \<Rightarrow> bool" where
  "tree_inv lk rl L N s \<longleftrightarrow>
     (\<forall>p < N. pc_ok L (pcs s p)) \<and> inv_locks lk L N (table s) \<and>
     inv_flags lk rl L N (pcs s) (table s) \<and> inv_excl lk L N (pcs s) \<and>
     inv_turn lk rl L N (pcs s) (table s)"

section \<open>Being blocked\<close>

text \<open>In the waiting loop, with both reads of the loop condition coming out true in this state.\<close>

definition blocked ::
    "(nat \<Rightarrow> nat \<Rightarrow> int) \<Rightarrow> (nat \<Rightarrow> nat \<Rightarrow> int) \<Rightarrow> tree_state \<Rightarrow> nat \<Rightarrow> bool" where
  "blocked lk rl s p \<longleftrightarrow>
     (\<exists>n. waiting (pcs s p) n \<and> flag (table s (lk p n)) (1 - rl p n) \<noteq> 0 \<and>
          turn (table s (lk p n)) = 1 - rl p n)"

lemma waiting_unique: "waiting pc n \<Longrightarrow> waiting pc m \<Longrightarrow> n = m"
  by (cases pc) auto

lemma waiting_engaged_le: "waiting pc m \<Longrightarrow> engaged L pc n \<Longrightarrow> n \<le> m"
  by (cases pc) auto

section \<open>What a client of the locks has to respect\<close>

locale lock_tree =
  fixes lk rl :: "nat \<Rightarrow> nat \<Rightarrow> int" and L N :: nat
  assumes depth: "0 < L"
    and in_table: "p < N \<Longrightarrow> n < L \<Longrightarrow> 0 \<le> lk p n \<and> lk p n < MAX_PETERSON_LOCKS"
    and role: "p < N \<Longrightarrow> n < L \<Longrightarrow> rl p n = 0 \<or> rl p n = 1"
    and level: "p < N \<Longrightarrow> q < N \<Longrightarrow> n < L \<Longrightarrow> m < L \<Longrightarrow> lk p n = lk q m \<Longrightarrow> n = m"
    and leaf: "p < N \<Longrightarrow> q < N \<Longrightarrow> lk p 0 = lk q 0 \<Longrightarrow> rl p 0 = rl q 0 \<Longrightarrow> p = q"
    and below: "p < N \<Longrightarrow> q < N \<Longrightarrow> Suc n < L \<Longrightarrow> lk p (Suc n) = lk q (Suc n) \<Longrightarrow>
      rl p (Suc n) = rl q (Suc n) \<Longrightarrow> lk p n = lk q n"
begin

text \<open>Exclusion below makes the users of a lock and a role unique.\<close>

lemma unique_user:
  assumes ex: "inv_excl lk L N pc" and p: "p < N" and q: "q < N" and n: "n < L"
    and rp: "reached L (pc p) n" and rq: "reached L (pc q) n"
    and eq: "lk p n = lk q n" "rl p n = rl q n"
  shows "p = q"
proof (cases n)
  case 0
  then show ?thesis using leaf[OF p q] eq by simp
next
  case (Suc m)
  have "lk p m = lk q m" using below[OF p q] n eq Suc by simp
  moreover have "holds L (pc p) m" "holds L (pc q) m"
    using rp rq Suc by (simp_all add: reached_holds_below)
  ultimately show ?thesis using ex p q n Suc unfolding inv_excl_def by (metis Suc_lessD)
qed

lemma other_role:
  assumes "inv_excl lk L N pc" "p < N" "q < N" "n < L" "p \<noteq> q"
    and "reached L (pc p) n" "reached L (pc q) n" "lk p n = lk q n"
  shows "rl q n = 1 - rl p n"
  using unique_user[OF assms(1-4,6-8)] assms(5) role[OF assms(2,4)] role[OF assms(3,4)] by linarith

lemma lock_live:
  assumes "inv_locks lk L N ls" "p < N" "n < L"
  shows "\<not> bad_lock (lk p n) ls"
  using in_table[OF assms(2,3)] assms by (auto simp: inv_locks_def bad_lock_def)

text \<open>One step of process \<open>p\<close>, of any kind, keeps every part of the invariant.\<close>

lemma kind_level:
  assumes "pc_ok L c" "kind_effect L l r k c ls c' ls'"
  shows "case k of Silent \<Rightarrow> True | Raise n \<Rightarrow> n < L | Give n \<Rightarrow> n < L | Enter n \<Rightarrow> n < L | Lower n \<Rightarrow> n < L"
  using assms
  by (cases k) (auto intro: reached_lt engaged_reached waiting_engaged holds_engaged)

lemma step_locks:
  assumes "inv_locks lk L N ls" "p < N" "pc_ok L c" "kind_effect L (lk p) (rl p) k c ls c' ls'"
  shows "inv_locks lk L N ls'"
proof -
  have a: "active (ls' l) = active (ls l)" for l using assms(4) by (cases k) auto
  have "turn (ls' l) = turn (ls l) \<or> turn (ls' l) = 0 \<or> turn (ls' l) = 1" for l
    using assms(4) kind_level[OF assms(3,4)] role[OF assms(2)] by (cases k) fastforce+
  then show ?thesis using assms(1) a unfolding inv_locks_def by metis
qed

lemma step_flags:
  assumes inv: "inv_flags lk rl L N pc ls" and ex: "inv_excl lk L N pc"
    and p: "p < N" and ok: "pc_ok L (pc p)"
    and k: "kind_effect L (lk p) (rl p) k (pc p) ls c' ls'"
  shows "inv_flags lk rl L N (pc(p := c')) ls'"
proof -
  have unchanged: ?thesis
    if "\<And>l r. flag (ls' l) r = flag (ls l) r" "engaged L c' = engaged L (pc p)"
  proof -
    have "engaged L ((pc(p := c')) q) = engaged L (pc q)" for q using that(2) by simp
    then show ?thesis using inv that(1) by (simp add: inv_flags_def del: fun_upd_apply)
  qed
  show ?thesis
  proof (cases k)
    case (Raise n)
    note n = kind_level[OF ok k, unfolded Raise, simplified]
    have e: "engaged L ((pc(p := c')) q) m \<longleftrightarrow> engaged L (pc q) m \<or> q = p \<and> m = n" for q m
      using k Raise by (auto simp: same_but_def)
    have f: "flag (ls' l) r = (if l = lk p n \<and> r = rl p n then 1 else flag (ls l) r)" for l r
      using k Raise by (simp add: flag_update_lock)
    have "\<exists>q' < N. lk q' m = lk q m \<and> rl q' m = r \<and> (engaged L (pc q') m \<or> q' = p \<and> m = n)"
      if "q < N" "m < L" "r = 0 \<or> r = 1" "flag (ls' (lk q m)) r \<noteq> 0" for q m r
    proof (cases "lk q m = lk p n \<and> r = rl p n")
      case True
      with level[OF that(1) p that(2) n] p show ?thesis by auto
    next
      case False
      then have "flag (ls (lk q m)) r \<noteq> 0" using that(4) by (auto simp: f)
      then show ?thesis using inv that unfolding inv_flags_def by blast
    qed
    moreover have "flag (ls' (lk q m)) (rl q m) = 1"
      if "q < N" "m < L" "engaged L (pc q) m \<or> q = p \<and> m = n" for q m
      using that inv f by (auto simp: inv_flags_def)
    ultimately show ?thesis unfolding inv_flags_def e by blast
  next
    case (Lower n)
    note n = kind_level[OF ok k, unfolded Lower, simplified]
    have e: "engaged L ((pc(p := c')) q) m \<longleftrightarrow> engaged L (pc q) m \<and> \<not> (q = p \<and> m = n)" for q m
      using k Lower by (auto simp: same_but_def)
    have f: "flag (ls' l) r = (if l = lk p n \<and> r = rl p n then 0 else flag (ls l) r)" for l r
      using k Lower by (simp add: flag_update_lock)
    have pn: "reached L (pc p) n" using k Lower by (simp add: holds_engaged engaged_reached)
    have u: "q = p \<and> m = n"
      if "q < N" "m < L" "engaged L (pc q) m" "lk q m = lk p n" "rl q m = rl p n" for q m
    proof -
      have "m = n" using level[OF that(1) p that(2) n that(4)] .
      then show ?thesis using unique_user[OF ex that(1) p n _ pn] that by (simp add: engaged_reached)
    qed
    have "\<exists>q' < N. lk q' m = lk q m \<and> rl q' m = r \<and> engaged L (pc q') m \<and> \<not> (q' = p \<and> m = n)"
      if "q < N" "m < L" "r = 0 \<or> r = 1" "flag (ls' (lk q m)) r \<noteq> 0" for q m r
    proof -
      note qm = that(1-3)
      have d: "\<not> (lk q m = lk p n \<and> r = rl p n)" "flag (ls (lk q m)) r \<noteq> 0"
        using that(4) by (auto simp: f split: if_splits)
      then obtain q' where "q' < N" "lk q' m = lk q m" "rl q' m = r" "engaged L (pc q') m"
        using inv qm unfolding inv_flags_def by blast
      with d(1) show ?thesis by auto
    qed
    moreover have "flag (ls' (lk q m)) (rl q m) = 1"
      if "q < N" "m < L" "engaged L (pc q) m" "\<not> (q = p \<and> m = n)" for q m
      using that inv u[OF that(1-3)] by (auto simp: inv_flags_def f)
    ultimately show ?thesis unfolding inv_flags_def e by blast
  qed (use k unchanged in auto)
qed


lemma step_excl:
  assumes ex: "inv_excl lk L N pc" and fl: "inv_flags lk rl L N pc ls" and tu: "inv_turn lk rl L N pc ls"
    and p: "p < N" and ok: "pc_ok L (pc p)"
    and k: "kind_effect L (lk p) (rl p) k (pc p) ls c' ls'"
  shows "inv_excl lk L N (pc(p := c'))"
proof -
  have fewer: ?thesis if "\<And>m. holds L c' m \<Longrightarrow> holds L (pc p) m"
  proof -
    have "holds L (pc q) m" if "holds L ((pc(p := c')) q) m" for q m
      using that \<open>\<And>m. holds L c' m \<Longrightarrow> holds L (pc p) m\<close> by (auto split: if_splits)
    then show ?thesis using ex unfolding inv_excl_def by blast
  qed
  show ?thesis
  proof (cases k)
    case (Enter n)
    note n = kind_level[OF ok k, unfolded Enter, simplified]
    have w: "waiting (pc p) n" and rd: "flag (ls (lk p n)) (1 - rl p n) = 0 \<or> turn (ls (lk p n)) \<noteq> 1 - rl p n"
      using k Enter by simp_all
    have h: "holds L ((pc(p := c')) q) m \<longleftrightarrow> holds L (pc q) m \<or> q = p \<and> m = n" for q m
      using k Enter by (auto simp: same_but_def)
    have alone: "q = p" if "q < N" "holds L (pc q) n" "lk q n = lk p n" for q
    proof (rule ccontr)
      assume "q \<noteq> p"
      have r: "rl q n = 1 - rl p n"
        using other_role[OF ex p that(1) n] \<open>q \<noteq> p\<close> that w
        by (simp add: holds_engaged waiting_engaged engaged_reached)
      have "flag (ls (lk q n)) (rl q n) = 1"
        using fl that(1,2) n by (simp add: inv_flags_def holds_engaged)
      moreover have "turn (ls (lk q n)) = rl q n"
        using tu that n p w unfolding inv_turn_def by blast
      ultimately show False using rd r that(3) by simp
    qed
    show ?thesis unfolding inv_excl_def h
      using ex alone unfolding inv_excl_def by metis
  qed (rule fewer, rule kind_holds[OF k], simp, assumption)+
qed

lemma step_turn:
  assumes tu: "inv_turn lk rl L N pc ls" and lo: "inv_locks lk L N ls"
    and ex: "inv_excl lk L N pc" and fl: "inv_flags lk rl L N pc ls"
    and p: "p < N" and ok: "pc_ok L (pc p)"
    and k: "kind_effect L (lk p) (rl p) k (pc p) ls c' ls'"
  shows "inv_turn lk rl L N (pc(p := c')) ls'"
proof -
  have fewer: ?thesis
    if "\<And>m. holds L c' m \<Longrightarrow> holds L (pc p) m" "\<And>m. waiting c' m \<Longrightarrow> waiting (pc p) m"
      "\<And>l. turn (ls' l) = turn (ls l)"
  proof -
    have "holds L (pc q) m" if "holds L ((pc(p := c')) q) m" for q m
      using that \<open>\<And>m. holds L c' m \<Longrightarrow> holds L (pc p) m\<close> by (auto split: if_splits)
    moreover have "waiting (pc q) m" if "waiting ((pc(p := c')) q) m" for q m
      using that \<open>\<And>m. waiting c' m \<Longrightarrow> waiting (pc p) m\<close> by (auto split: if_splits)
    ultimately show ?thesis using tu that(3) unfolding inv_turn_def by metis
  qed
  show ?thesis
  proof (cases k)
    case (Give n)
    note n = kind_level[OF ok k, unfolded Give, simplified]
    have en: "engaged L (pc p) n" and nh: "\<not> holds L (pc p) n" using k Give by simp_all
    have h: "holds L ((pc(p := c')) q) m \<longleftrightarrow> holds L (pc q) m"
      and w: "waiting ((pc(p := c')) q) m \<longleftrightarrow> waiting (pc q) m \<or> q = p \<and> m = n" for q m
      using k Give by (auto simp: same_but_def)
    have t: "turn (ls' l) = (if l = lk p n then 1 - rl p n else turn (ls l))" for l
      using k Give by simp
    have "turn (ls' (lk q m)) = rl q m"
      if "q < N" "q' < N" "m < L" "holds L (pc q) m" "waiting (pc q') m \<or> q' = p \<and> m = n"
        "lk q m = lk q' m" for q q' m
    proof (cases "lk q m = lk p n")
      case True
      have m: "m = n" using level[OF that(1) p that(3) n True] .
      have "q \<noteq> p" using nh m that(4) by auto
      then have "rl q n = 1 - rl p n"
        using other_role[OF ex p that(1) n] that(4) m en True
        by (simp add: engaged_reached holds_engaged)
      then show ?thesis using t True m by simp
    next
      case False
      then show ?thesis using that tu t unfolding inv_turn_def by metis
    qed
    then show ?thesis unfolding inv_turn_def h w by blast
  next
    case (Enter n)
    note n = kind_level[OF ok k, unfolded Enter, simplified]
    have wp: "waiting (pc p) n" and rd: "flag (ls (lk p n)) (1 - rl p n) = 0 \<or> turn (ls (lk p n)) \<noteq> 1 - rl p n"
      and ls': "ls' = ls"
      using k Enter by simp_all
    have h: "holds L ((pc(p := c')) q) m \<longleftrightarrow> holds L (pc q) m \<or> q = p \<and> m = n"
      and w: "waiting ((pc(p := c')) q) m \<longleftrightarrow> waiting (pc q) m \<and> \<not> (q = p \<and> m = n)" for q m
      using k Enter by (auto simp: same_but_def)
    have new: "turn (ls (lk p n)) = rl p n"
      if "q < N" "waiting (pc q) n" "q \<noteq> p" "lk p n = lk q n" for q
    proof -
      have r: "rl q n = 1 - rl p n"
        using other_role[OF ex p that(1) n] that wp by (simp add: waiting_engaged engaged_reached)
      have "flag (ls (lk q n)) (rl q n) = 1"
        using fl that(1,2) n by (simp add: inv_flags_def waiting_engaged)
      then have "turn (ls (lk p n)) \<noteq> 1 - rl p n" using rd r that(4) by simp
      moreover have "turn (ls (lk p n)) = 0 \<or> turn (ls (lk p n)) = 1"
        using lo p n by (simp add: inv_locks_def)
      ultimately show ?thesis using role[OF p n] by linarith
    qed
    show ?thesis unfolding inv_turn_def h w ls'
      using tu new unfolding inv_turn_def by metis
  qed (rule fewer[OF kind_holds[OF k] kind_waiting[OF k] kind_turn[OF k]]; simp)+
qed

theorem tree_step_inv:
  assumes inv: "tree_inv lk rl L N s" and st: "tree_step lk rl L N s t"
  shows "tree_inv lk rl L N t"
proof -
  from st obtain p pc' ls' where p: "p < N"
    and ps: "proc_step lk rl L p (pcs s p) (table s) = Ok (pc', ls')"
    and t: "t = \<lparr>table = ls', pcs = (pcs s)(p := pc')\<rparr>"
    by (auto elim: tree_stepE)
  from inv have ok: "\<forall>q < N. pc_ok L (pcs s q)" and lo: "inv_locks lk L N (table s)"
    and fl: "inv_flags lk rl L N (pcs s) (table s)" and ex: "inv_excl lk L N (pcs s)"
    and tu: "inv_turn lk rl L N (pcs s) (table s)"
    by (simp_all add: tree_inv_def)
  have okp: "pc_ok L (pcs s p)" using ok p by simp
  obtain k where ok': "pc_ok L pc'"
    and k: "kind_effect L (lk p) (rl p) k (pcs s p) (table s) pc' ls'"
    using proc_step_kind[where lk = lk, OF okp lock_live[OF lo p] ps depth] by blast
  show ?thesis
    using step_locks[OF lo p okp k] step_flags[OF fl ex p okp k] step_excl[OF ex fl tu p okp k]
      step_turn[OF tu lo ex fl p okp k] ok ok'
    by (auto simp: tree_inv_def t)
qed

lemma tree_init_inv: "tree_init lk L N s \<Longrightarrow> tree_inv lk rl L N s"
  using role
  by (auto simp: tree_inv_def tree_init_def inv_locks_def inv_flags_def inv_excl_def inv_turn_def)

lemma tree_reach_inv: "tree_reach lk rl L N s \<Longrightarrow> tree_inv lk rl L N s"
  by (induction rule: tree_reach.induct) (auto intro: tree_init_inv tree_step_inv)

lemma mutual_exclusion:
  assumes "tree_reach lk rl L N s" "p < N" "q < N" "n < L"
    and "holds L (pcs s p) n" "holds L (pcs s q) n" "lk p n = lk q n"
  shows "p = q"
  using tree_reach_inv[OF assms(1)] assms by (auto simp: tree_inv_def inv_excl_def)

text \<open>No call fails, and no access is outside an array: every process can always step.\<close>

lemma no_failure:
  assumes "tree_reach lk rl L N s" "p < N"
  shows "pcs s p \<noteq> PFail \<and> (\<forall>n pc. pcs s p \<noteq> PRoll n pc)"
proof -
  have "pc_ok L (pcs s p)" using tree_reach_inv[OF assms(1)] assms(2) by (simp add: tree_inv_def)
  then show ?thesis by auto
qed

lemma step_enabled:
  assumes "tree_reach lk rl L N s" "p < N"
  shows "\<exists>pc' ls'. proc_step lk rl L p (pcs s p) (table s) = Ok (pc', ls')"
proof -
  have "pc_ok L (pcs s p)" using tree_reach_inv[OF assms(1)] assms(2) by (simp add: tree_inv_def)
  moreover have "valid_role (rl p n)" if "n < L" for n
    using role[OF assms(2) that] by (simp add: valid_role_def)
  ultimately show ?thesis
    by (cases "(lk, rl, L, p, pcs s p, table s)" rule: proc_step.cases) auto
qed

text \<open>
  Deadlock freedom: the processes that are not outside are never all blocked. Of the blocked
  ones, take one that waits at the highest lock of its path; whoever raised the other flag of that
  lock cannot wait higher, so both wait there, and the turn is with one of them.
\<close>

lemma not_all_blocked:
  assumes reach: "tree_reach lk rl L N s" and p: "p < N" "pcs s p \<noteq> PIdle"
  shows "\<exists>q < N. pcs s q \<noteq> PIdle \<and> \<not> blocked lk rl s q"
proof (rule ccontr)
  assume "\<not> ?thesis"
  then have all: "\<And>q. q < N \<Longrightarrow> pcs s q \<noteq> PIdle \<Longrightarrow> blocked lk rl s q" by blast
  note inv = tree_reach_inv[OF reach, unfolded tree_inv_def]
  define W where "W = {n. \<exists>q < N. waiting (pcs s q) n}"
  have lt: "n < L" if "q < N" "waiting (pcs s q) n" for q n
    using inv that by (meson engaged_reached reached_lt waiting_engaged)
  then have "finite W" by (intro finite_subset[of W "{..<L}"]) (auto simp: W_def)
  moreover have "W \<noteq> {}" using all[OF p] p(1) by (auto simp: W_def blocked_def)
  ultimately have "Max W \<in> W" and max: "\<And>n. n \<in> W \<Longrightarrow> n \<le> Max W" by auto
  define n where "n = Max W"
  obtain q where q: "q < N" and wq: "waiting (pcs s q) n"
    using \<open>Max W \<in> W\<close> by (auto simp: W_def n_def)
  have n: "n < L" using lt[OF q wq] .
  have "pcs s q \<noteq> PIdle" using wq by auto
  then obtain n' where "waiting (pcs s q) n'" "flag (table s (lk q n')) (1 - rl q n') \<noteq> 0"
    "turn (table s (lk q n')) = 1 - rl q n'"
    using all[OF q] by (auto simp: blocked_def)
  then have bq: "flag (table s (lk q n)) (1 - rl q n) \<noteq> 0" "turn (table s (lk q n)) = 1 - rl q n"
    using waiting_unique[OF _ wq] by simp_all
  have "1 - rl q n = 0 \<or> 1 - rl q n = 1" using role[OF q n] by auto
  then obtain o' where o: "o' < N" "lk o' n = lk q n" "rl o' n = 1 - rl q n" "engaged L (pcs s o') n"
    using inv bq(1) q n unfolding inv_flags_def by blast
  have "pcs s o' \<noteq> PIdle" using o(4) by auto
  then obtain m where m: "waiting (pcs s o') m" "turn (table s (lk o' m)) = 1 - rl o' m"
    using all[OF o(1)] by (auto simp: blocked_def)
  have "m \<le> n" using max m(1) o(1) by (auto simp: W_def n_def)
  with waiting_engaged_le[OF m(1) o(4)] have "m = n" by simp
  then have "rl q n = 1 - rl q n" using m(2) bq(2) o(2,3) by simp
  then show False by presburger
qed

text \<open>When everyone is outside again, every flag of the tree is down.\<close>

lemma idle_flags_down:
  assumes "tree_reach lk rl L N s" "\<forall>q < N. pcs s q = PIdle" "p < N" "n < L" "r = 0 \<or> r = 1"
  shows "flag (table s (lk p n)) r = 0"
proof (rule ccontr)
  assume "flag (table s (lk p n)) r \<noteq> 0"
  then obtain q where "q < N" "engaged L (pcs s q) n"
    using tree_reach_inv[OF assms(1)] assms(3-5) unfolding tree_inv_def inv_flags_def by blast
  then show False using assms(2) by simp
qed

end

locale rooted_lock_tree = lock_tree +
  assumes root: "p < N \<Longrightarrow> q < N \<Longrightarrow> lk p (L - 1) = lk q (L - 1)"
begin

lemma critical_exclusive:
  assumes "tree_reach lk rl L N s" "p < N" "q < N" "pcs s p = PCrit" "pcs s q = PCrit"
  shows "p = q"
  using mutual_exclusion[OF assms(1-3), of "L - 1"] root[OF assms(2,3)] depth assms(4,5) by simp

end

end
