(* ===== verification/Libtournament.thy ===== *)
theory Libtournament
  imports Lock_Tree
begin

text \<open>
  The tournament tree of \<^verbatim>\<open>user/libtournament.c\<close>: \<open>2^L\<close> processes, a binary tree of Peterson locks,
  a process takes the locks on the path from its leaf to the root.

  The static variables of the library are a record. \<open>tournament_create\<close>,
  \<open>tournament_acquire\<close> and \<open>tournament_release\<close> follow the C code, on the kernel's lock table; what
  \<^verbatim>\<open>malloc\<close> and \<^verbatim>\<open>fork\<close> return is given from outside. The node and role computed for a level are those
  that instantiate theory \<open>Lock_Tree\<close>, so its results hold for concurrent runs of this code.
  The texts that the code prints are not represented.
\<close>

record tournament =
  proc_id :: int
  num_processes :: int
  num_levels :: nat
  lock_ids :: "int list option"  \<comment> \<open>\<open>None\<close> is the null pointer\<close>

section \<open>Creation\<close>

text \<open>The argument check of \<^verbatim>\<open>tournament_create\<close>: between 1 and 16, and a power of two.\<close>

definition bad_process_count :: "int \<Rightarrow> bool" where
  "bad_process_count processes \<longleftrightarrow>
     processes \<le> 0 \<or> processes > 16 \<or> processes AND (processes - 1) \<noteq> 0"

text \<open>\<^verbatim>\<open>for (int j = 0; j < i; j++) peterson_destroy(lock_ids[j]);\<close>\<close>

fun destroy_locks :: "int list \<Rightarrow> lock_table \<Rightarrow> lock_table" where
  "destroy_locks [] ls = ls"
| "destroy_locks (l # ids) ls = destroy_locks ids (snd (petersonlock_destroy l ls))"

text \<open>
  The loop that creates the locks: \<open>k\<close> more to create, \<open>ids\<close> created so far (in order). On failure
  the created ones are destroyed and there is no array.
\<close>

fun create_locks :: "nat \<Rightarrow> int list \<Rightarrow> lock_table \<Rightarrow> int list option \<times> lock_table" where
  "create_locks 0 ids ls = (Some ids, ls)"
| "create_locks (Suc k) ids ls =
     (let (l, ls') = petersonlock_create ls in
      if l < 0 then (None, destroy_locks ids ls')
      else create_locks k (ids @ [l]) ls')"

text \<open>\<^verbatim>\<open>while (temp > 1) { temp >>= 1; num_levels++; }\<close>\<close>

function count_levels :: "int \<Rightarrow> nat \<Rightarrow> nat" where
  "count_levels temp n = (if temp > 1 then count_levels (drop_bit 1 temp) (n + 1) else n)"
  by pat_completeness auto
termination
  by (relation "measure (\<lambda>(temp, n). nat temp)") (auto simp: drop_bit_eq_div)

text \<open>
  The loop that forks, from \<open>i\<close> on: \<open>fork i\<close> is what the call of round \<open>i\<close> returned to this process.
\<close>

function fork_loop :: "int \<Rightarrow> int \<Rightarrow> (int \<Rightarrow> int) \<Rightarrow> tournament \<Rightarrow> int \<times> tournament" where
  "fork_loop i processes fork t =
     (if i < processes then
        if fork i < 0 then (-1, t)
        else if fork i = 0 then (i, t\<lparr>proc_id := i\<rparr>)
        else fork_loop (i + 1) processes fork t
      else (proc_id t, t))"
  by pat_completeness auto
termination
  by (relation "measure (\<lambda>(i, n, f, t). nat (n - i))") auto

definition tournament_create ::
    "bool \<Rightarrow> (int \<Rightarrow> int) \<Rightarrow> int \<Rightarrow> tournament \<Rightarrow> lock_table \<Rightarrow> int \<times> tournament \<times> lock_table" where
  "tournament_create malloc_ok fork processes t ls =
     (if bad_process_count processes then (-1, t, ls)
      else
        let t1 = t\<lparr>num_processes := processes\<rparr> in
        if \<not> malloc_ok then (-1, t1\<lparr>lock_ids := None\<rparr>, ls)
        else case create_locks (nat (processes - 1)) [] ls of
          (None, ls') \<Rightarrow> (-1, t1\<lparr>lock_ids := None\<rparr>, ls')
        | (Some ids, ls') \<Rightarrow>
            (let t2 = t1\<lparr>lock_ids := Some ids, num_levels := count_levels processes 0\<rparr>;
                 (r, t3) = fork_loop 1 processes fork t2
             in (r, t3, ls')))"

section \<open>The lock and the role of a process at a level\<close>

text \<open>
  Level 0 is the root, level \<open>L - 1\<close> the leaves.
  \<^verbatim>\<open>shift = num_levels - i - 1; role = (proc_id & (1 << shift)) >> shift;\<close>
  \<^verbatim>\<open>node = (proc_id >> (num_levels - i)) + (1 << i) - 1;\<close>
\<close>

definition tournament_role :: "nat \<Rightarrow> int \<Rightarrow> nat \<Rightarrow> int" where
  "tournament_role L pid i =
     (let shift = L - i - 1 in drop_bit shift (pid AND push_bit shift 1))"

definition tournament_node :: "nat \<Rightarrow> int \<Rightarrow> nat \<Rightarrow> int" where
  "tournament_node L pid i = drop_bit (L - i) pid + push_bit i 1 - 1"

section \<open>Acquire and release\<close>

text \<open>The loop that gives locks back, for \<open>k\<close> levels from level \<open>i\<close> on, until a call fails.\<close>

fun release_levels ::
    "tournament \<Rightarrow> nat \<Rightarrow> nat \<Rightarrow> lock_table \<Rightarrow> (int \<times> lock_table) outcome" where
  "release_levels t i 0 ls = Ok (0, ls)"
| "release_levels t i (Suc k) ls =
     obind (petersonlock_release (tournament_node (num_levels t) (proc_id t) i)
              (tournament_role (num_levels t) (proc_id t) i) ls)
       (\<lambda>(r, ls'). if r < 0 then Ok (-1, ls') else release_levels t (Suc i) k ls')"

text \<open>
  The loop of \<^verbatim>\<open>tournament_acquire\<close>, which counts \<open>i\<close> down; the argument is \<open>i + 1\<close>. A failed call
  gives the locks of levels \<open>i\<close> to \<open>L - 1\<close> back and returns -1.
\<close>

fun acquire_levels ::
    "tournament \<Rightarrow> nat \<Rightarrow> lock_table \<Rightarrow> (int \<times> lock_table) outcome" where
  "acquire_levels t 0 ls = Ok (0, ls)"
| "acquire_levels t (Suc i) ls =
     obind (petersonlock_acquire (tournament_node (num_levels t) (proc_id t) i)
              (tournament_role (num_levels t) (proc_id t) i) ls)
       (\<lambda>(r, ls').
          if r < 0 then
            obind (release_levels t i (num_levels t - i) ls') (\<lambda>(_, ls''). Ok (-1, ls''))
          else acquire_levels t i ls')"

definition tournament_acquire :: "tournament \<Rightarrow> lock_table \<Rightarrow> (int \<times> lock_table) outcome" where
  "tournament_acquire t ls =
     (if num_processes t = 0 \<or> num_levels t = 0 \<or> lock_ids t = None then Ok (-1, ls)
      else acquire_levels t (num_levels t) ls)"

definition tournament_release :: "tournament \<Rightarrow> lock_table \<Rightarrow> (int \<times> lock_table) outcome" where
  "tournament_release t ls = release_levels t 0 (num_levels t) ls"

section \<open>The path of a process through the tree\<close>

text \<open>The \<open>n\<close>-th acquisition of a process is at level \<open>L - 1 - n\<close>.\<close>

definition path_lock :: "nat \<Rightarrow> nat \<Rightarrow> nat \<Rightarrow> int" where
  "path_lock L p n = tournament_node L (int p) (L - 1 - n)"

definition path_role :: "nat \<Rightarrow> nat \<Rightarrow> nat \<Rightarrow> int" where
  "path_role L p n = tournament_role L (int p) (L - 1 - n)"

lemma path_lock_eq:
  assumes "n < L"
  shows "path_lock L p n = int (p div 2 ^ Suc n + 2 ^ (L - 1 - n) - 1)"
proof -
  have "L - (L - 1 - n) = Suc n" using assms by simp
  moreover have "1 \<le> p div 2 ^ Suc n + 2 ^ (L - 1 - n)" by (simp add: trans_le_add2)
  ultimately show ?thesis
    by (simp add: path_lock_def tournament_node_def drop_bit_eq_div zdiv_int push_bit_eq_mult
        of_nat_diff del: power_Suc)
qed

lemma path_role_eq:
  assumes "n < L"
  shows "path_role L p n = int (p div 2 ^ n mod 2)"
proof -
  have s: "L - Suc (L - Suc n) = n" using assms by simp
  have "drop_bit n (push_bit n (1::int)) = 1" by (simp add: drop_bit_eq_div)
  then have "drop_bit n (int p AND push_bit n 1) = drop_bit n (int p) AND 1"
    by (simp only: drop_bit_and)
  then show ?thesis
    by (simp add: path_role_def tournament_role_def s drop_bit_eq_div zdiv_int and_one_eq zmod_int)
qed

lemma path_index_lt:
  fixes p :: nat
  assumes "n < L" "p < 2 ^ L"
  shows "p div 2 ^ Suc n < 2 ^ (L - 1 - n)"
proof -
  have "(2::nat) ^ L = 2 ^ (L - 1 - n) * 2 ^ Suc n"
    using assms(1) by (simp flip: power_add power_Suc)
  then show ?thesis using assms(2) by (metis less_mult_imp_div_less)
qed

text \<open>A level occupies the indices from \<open>2^i - 1\<close> up to \<open>2^(i+1) - 2\<close>.\<close>

lemma level_of_index:
  fixes a b :: nat
  assumes "a < 2 ^ i" "b < 2 ^ j" "a + 2 ^ i = b + 2 ^ j"
  shows "i = j"
proof (rule ccontr)
  have no: False if "a < 2 ^ i" "i < j" "a + 2 ^ i = b + 2 ^ j" for a b i j :: nat
  proof -
    have "(2::nat) ^ Suc i \<le> 2 ^ j" using that(2) by (intro power_increasing) auto
    then show False using that by simp
  qed
  assume "i \<noteq> j"
  then show False using no[of a i j b] no[of b j i a] assms by (cases "i < j") auto
qed

lemma path_lock_level:
  assumes "p < 2 ^ L" "q < 2 ^ L" "n < L" "m < L" "path_lock L p n = path_lock L q m"
  shows "n = m \<and> p div 2 ^ Suc n = q div 2 ^ Suc m"
proof -
  have "1 \<le> p div 2 ^ Suc n + 2 ^ (L - 1 - n)" "1 \<le> q div 2 ^ Suc m + 2 ^ (L - 1 - m)"
    by (simp_all add: trans_le_add2)
  then have eq: "p div 2 ^ Suc n + 2 ^ (L - 1 - n) = q div 2 ^ Suc m + 2 ^ (L - 1 - m)"
    using assms(5) unfolding path_lock_eq[OF assms(3)] path_lock_eq[OF assms(4)] by linarith
  then have "L - 1 - n = L - 1 - m"
    by (rule level_of_index[OF path_index_lt[OF assms(3,1)] path_index_lt[OF assms(4,2)]])
  then have "n = m" using assms(3,4) by arith
  then show ?thesis using eq by simp
qed

lemma path_lock_below:
  assumes "p div 2 ^ Suc n = q div 2 ^ Suc n" "p div 2 ^ n mod 2 = q div 2 ^ n mod 2"
  shows "p div 2 ^ n = q div (2 ^ n :: nat)"
proof -
  have "p div 2 ^ n div 2 = q div 2 ^ n div 2"
    using assms(1) by (simp only: power_Suc2 div_mult2_eq)
  then show ?thesis using assms(2) by (metis div_mult_mod_eq)
qed

text \<open>The processes of a tournament of at most four levels respect the contract of \<open>Lock_Tree\<close>.\<close>

lemma tournament_lock_tree:
  assumes "0 < L" "L \<le> 4"
  shows "rooted_lock_tree (path_lock L) (path_role L) L (2 ^ L)"
proof
  show "0 < L" by fact
next
  fix p n :: nat assume p: "p < 2 ^ L" "n < L"
  have "p div 2 ^ Suc n + 2 ^ (L - 1 - n) < 2 ^ Suc (L - 1 - n)" using path_index_lt[OF p(2,1)] by simp
  also have "(2::nat) ^ Suc (L - 1 - n) \<le> 2 ^ 4" using assms by (intro power_increasing) auto
  finally show "0 \<le> path_lock L p n \<and> path_lock L p n < MAX_PETERSON_LOCKS"
    by (simp add: path_lock_eq[OF p(2)] MAX_PETERSON_LOCKS_def)
  show "path_role L p n = 0 \<or> path_role L p n = 1"
    by (simp add: path_role_eq[OF p(2)]) presburger
next
  fix p q n m :: nat assume "p < 2 ^ L" "q < 2 ^ L" "n < L" "m < L" "path_lock L p n = path_lock L q m"
  then show "n = m" using path_lock_level by blast
next
  fix p q :: nat assume h: "p < 2 ^ L" "q < 2 ^ L" "path_lock L p 0 = path_lock L q 0" "path_role L p 0 = path_role L q 0"
  have "p div 2 ^ Suc 0 = q div 2 ^ Suc 0" using path_lock_level[OF h(1,2) assms(1,1) h(3)] by blast
  moreover have "p div 2 ^ 0 mod 2 = q div 2 ^ 0 mod 2"
    using h(4) unfolding path_role_eq[OF assms(1)] by (simp only: of_nat_eq_iff)
  ultimately have "p div 2 ^ 0 = q div 2 ^ 0" by (rule path_lock_below)
  then show "p = q" by simp
next
  fix p q n :: nat assume h: "p < 2 ^ L" "q < 2 ^ L" "Suc n < L"
    "path_lock L p (Suc n) = path_lock L q (Suc n)" "path_role L p (Suc n) = path_role L q (Suc n)"
  have "p div 2 ^ Suc (Suc n) = q div 2 ^ Suc (Suc n)" using path_lock_level[OF h(1,2) h(3,3) h(4)] by blast
  moreover have "p div 2 ^ Suc n mod 2 = q div 2 ^ Suc n mod 2"
    using h(5) unfolding path_role_eq[OF h(3)] by (simp only: of_nat_eq_iff)
  ultimately have "p div 2 ^ Suc n = q div 2 ^ Suc n" by (rule path_lock_below)
  then show "path_lock L p n = path_lock L q n" using h(3) by (simp add: path_lock_eq del: power_Suc)
next
  fix p q :: nat assume h: "p < 2 ^ L" "q < 2 ^ L"
  have "L - 1 < L" "Suc (L - 1) = L" using assms(1) by simp_all
  then show "path_lock L p (L - 1) = path_lock L q (L - 1)"
    using h by (simp add: path_lock_eq del: power_Suc)
qed


section \<open>One process alone\<close>

text \<open>The record of a process of an initialised tournament.\<close>

definition valid_player :: "nat \<Rightarrow> nat \<Rightarrow> tournament \<Rightarrow> bool" where
  "valid_player L p t \<longleftrightarrow>
     0 < L \<and> L \<le> 4 \<and> p < 2 ^ L \<and> proc_id t = int p \<and> num_levels t = L \<and>
     num_processes t = 2 ^ L \<and> lock_ids t \<noteq> None"

lemma path_lock_node: "i < L \<Longrightarrow> tournament_node L (int p) i = path_lock L p (L - 1 - i)"
  by (simp add: path_lock_def)

lemma path_role_node: "i < L \<Longrightarrow> tournament_role L (int p) i = path_role L p (L - 1 - i)"
  by (simp add: path_role_def)

lemma player_tree: "valid_player L p t \<Longrightarrow> rooted_lock_tree (path_lock L) (path_role L) L (2 ^ L)"
  by (simp add: valid_player_def tournament_lock_tree)

lemma player_lock_tree: "valid_player L p t \<Longrightarrow> lock_tree (path_lock L) (path_role L) L (2 ^ L)"
  using player_tree by (simp add: rooted_lock_tree_def)

lemma path_role_valid: "valid_player L p t \<Longrightarrow> n < L \<Longrightarrow> valid_role (path_role L p n)"
  using lock_tree.role[OF player_lock_tree, of L p t p n]
  by (auto simp: valid_role_def valid_player_def)

lemma path_lock_inj: "valid_player L p t \<Longrightarrow> n < L \<Longrightarrow> m < L \<Longrightarrow> path_lock L p n = path_lock L p m \<Longrightarrow> n = m"
  using path_lock_level[of p L p n m] by (auto simp: valid_player_def)

text \<open>The writes of an undisturbed walk: up to level \<open>n\<close> of the path, and back.\<close>

definition raise_flag :: "int \<Rightarrow> peterson_lock \<Rightarrow> peterson_lock" where
  "raise_flag r k = k\<lparr>flag := (flag k)(r := 1), turn := 1 - r\<rparr>"

definition lower_flag :: "int \<Rightarrow> peterson_lock \<Rightarrow> peterson_lock" where
  "lower_flag r k = k\<lparr>flag := (flag k)(r := 0)\<rparr>"

lemma raise_flag_sel [simp]: "active (raise_flag r k) = active k" "flag (raise_flag r k) r = 1"
    "turn (raise_flag r k) = 1 - r" "r' \<noteq> r \<Longrightarrow> flag (raise_flag r k) r' = flag k r'"
  by (simp_all add: raise_flag_def)

lemma lower_flag_sel [simp]: "active (lower_flag r k) = active k" "flag (lower_flag r k) r = 0"
    "turn (lower_flag r k) = turn k" "r' \<noteq> r \<Longrightarrow> flag (lower_flag r k) r' = flag k r'"
  by (simp_all add: lower_flag_def)

lemma acquire_free:
  assumes "\<not> bad_lock l ls" "valid_role r" "flag (ls l) (1 - r) = 0"
  shows "petersonlock_acquire l r ls = Ok (0, update_lock l (raise_flag r) ls)"
  using assms by (auto simp: petersonlock_acquire_def Let_def raise_flag_def valid_role_def)

lemma release_live:
  assumes "\<not> bad_lock l ls" "valid_role r"
  shows "petersonlock_release l r ls = Ok (0, update_lock l (lower_flag r) ls)"
  using assms by (simp add: petersonlock_release_def lower_flag_def)

lemma bad_lock_cong: "active (ls l) = active (ls' l) \<Longrightarrow> bad_lock l ls = bad_lock l ls'"
  by (simp add: bad_lock_def)

text \<open>The node and the role of process \<open>p\<close> at level \<open>i\<close>.\<close>

lemma node_inj:
  assumes "valid_player L p t" "i < L" "j < L" "tournament_node L (int p) i = tournament_node L (int p) j"
  shows "i = j"
proof -
  have "L - 1 - i = L - 1 - j"
    using assms path_lock_inj[of L p t "L - 1 - i" "L - 1 - j"] by (simp add: path_lock_node)
  then show ?thesis using assms(2,3) by arith
qed

lemma node_role_valid: "valid_player L p t \<Longrightarrow> i < L \<Longrightarrow> valid_role (tournament_role L (int p) i)"
  by (simp add: path_role_node path_role_valid)

lemma acquire_levels_free:
  assumes vp: "valid_player L p t" and "k \<le> L"
    and "\<forall>i < k. \<not> bad_lock (tournament_node L (int p) i) ls \<and>
           flag (ls (tournament_node L (int p) i)) (1 - tournament_role L (int p) i) = 0"
  shows "\<exists>ls'. acquire_levels t k ls = Ok (0, ls') \<and>
           (\<forall>i < k. ls' (tournament_node L (int p) i) =
              raise_flag (tournament_role L (int p) i) (ls (tournament_node L (int p) i))) \<and>
           (\<forall>l. (\<forall>i < k. l \<noteq> tournament_node L (int p) i) \<longrightarrow> ls' l = ls l)"
  using assms(2-)
proof (induction k arbitrary: ls)
  case (Suc k)
  let ?nd = "tournament_node L (int p)" and ?r = "tournament_role L (int p)"
  define ls1 where "ls1 = update_lock (?nd k) (raise_flag (?r k)) ls"
  have a: "petersonlock_acquire (?nd k) (?r k) ls = Ok (0, ls1)"
    unfolding ls1_def using Suc.prems by (intro acquire_free node_role_valid[OF vp]) auto
  have ne: "?nd i \<noteq> ?nd k" if "i < k" for i
    using node_inj[OF vp, of i k] that Suc.prems(1) by auto
  have same: "ls1 (?nd i) = ls (?nd i)" if "i < k" for i
    using ne[OF that] by (simp add: ls1_def)
  have "\<forall>i < k. \<not> bad_lock (?nd i) ls1 \<and> flag (ls1 (?nd i)) (1 - ?r i) = 0"
    using Suc.prems(2) same bad_lock_cong[of ls1 _ ls] by auto
  then obtain ls' where ls': "acquire_levels t k ls1 = Ok (0, ls')"
      "\<forall>i < k. ls' (?nd i) = raise_flag (?r i) (ls1 (?nd i))"
      "\<And>l. \<forall>i < k. l \<noteq> ?nd i \<Longrightarrow> ls' l = ls1 l"
    using Suc.IH[of ls1] Suc.prems(1) by auto
  have "ls' (?nd k) = raise_flag (?r k) (ls (?nd k))"
    using ls'(3)[of "?nd k"] ne by (metis fun_upd_same ls1_def)
  then have "\<forall>i < Suc k. ls' (?nd i) = raise_flag (?r i) (ls (?nd i))"
    using ls'(2) same by (auto simp: less_Suc_eq)
  moreover have "\<forall>l. (\<forall>i < Suc k. l \<noteq> ?nd i) \<longrightarrow> ls' l = ls l"
    using ls'(3) by (auto simp: ls1_def less_Suc_eq)
  ultimately show ?case using a ls'(1) vp by (auto simp: valid_player_def)
qed auto

lemma release_levels_live:
  assumes vp: "valid_player L p t" and "j + k \<le> L"
    and "\<forall>i. j \<le> i \<and> i < j + k \<longrightarrow> \<not> bad_lock (tournament_node L (int p) i) ls"
  shows "\<exists>ls'. release_levels t j k ls = Ok (0, ls') \<and>
           (\<forall>i. j \<le> i \<and> i < j + k \<longrightarrow> ls' (tournament_node L (int p) i) =
              lower_flag (tournament_role L (int p) i) (ls (tournament_node L (int p) i))) \<and>
           (\<forall>l. (\<forall>i. j \<le> i \<and> i < j + k \<longrightarrow> l \<noteq> tournament_node L (int p) i) \<longrightarrow> ls' l = ls l)"
  using assms(2-)
proof (induction k arbitrary: j ls)
  case (Suc k)
  let ?nd = "tournament_node L (int p)" and ?r = "tournament_role L (int p)"
  define ls1 where "ls1 = update_lock (?nd j) (lower_flag (?r j)) ls"
  have a: "petersonlock_release (?nd j) (?r j) ls = Ok (0, ls1)"
    unfolding ls1_def using Suc.prems by (intro release_live node_role_valid[OF vp]) auto
  have ne: "?nd i \<noteq> ?nd j" if "Suc j \<le> i" "i < Suc j + k" for i
    using node_inj[OF vp, of i j] that Suc.prems(1) by auto
  have same: "ls1 (?nd i) = ls (?nd i)" if "Suc j \<le> i" "i < Suc j + k" for i
    using ne[OF that] by (simp add: ls1_def)
  have "\<forall>i. Suc j \<le> i \<and> i < Suc j + k \<longrightarrow> \<not> bad_lock (?nd i) ls1"
    using Suc.prems(2) same bad_lock_cong[of ls1 _ ls] by auto
  then obtain ls' where ls': "release_levels t (Suc j) k ls1 = Ok (0, ls')"
      "\<And>i. Suc j \<le> i \<Longrightarrow> i < Suc j + k \<Longrightarrow> ls' (?nd i) = lower_flag (?r i) (ls1 (?nd i))"
      "\<And>l. \<forall>i. Suc j \<le> i \<and> i < Suc j + k \<longrightarrow> l \<noteq> ?nd i \<Longrightarrow> ls' l = ls1 l"
    using Suc.IH[of "Suc j" ls1] Suc.prems(1) by auto
  have at_j: "ls' (?nd j) = lower_flag (?r j) (ls (?nd j))"
    using ls'(3)[of "?nd j"] ne by (metis fun_upd_same ls1_def)
  have "\<forall>i. j \<le> i \<and> i < j + Suc k \<longrightarrow> ls' (?nd i) = lower_flag (?r i) (ls (?nd i))"
  proof (intro allI impI)
    fix i assume "j \<le> i \<and> i < j + Suc k"
    then consider "i = j" | "Suc j \<le> i" "i < Suc j + k" by linarith
    then show "ls' (?nd i) = lower_flag (?r i) (ls (?nd i))"
      using at_j ls'(2) same by cases auto
  qed
  moreover have "\<forall>l. (\<forall>i. j \<le> i \<and> i < j + Suc k \<longrightarrow> l \<noteq> ?nd i) \<longrightarrow> ls' l = ls l"
    using ls'(3) by (auto simp: ls1_def)
  ultimately show ?case using a ls'(1) vp by (auto simp: valid_player_def)
qed auto

lemma release_levels_bad:
  assumes "valid_player L p t" "bad_lock (tournament_node L (int p) i) ls"
  shows "release_levels t i (Suc k) ls = Ok (-1, ls)"
  using assms by (auto simp: petersonlock_release_def valid_player_def)

text \<open>
  A failed acquisition starts its roll back at the lock that failed, which is bad for the
  release too: nothing is given back.
\<close>

lemma acquire_levels_bad:
  assumes vp: "valid_player L p t" and "k \<le> L" "i < k" "bad_lock (tournament_node L (int p) i) ls"
    and "\<forall>j. i < j \<and> j < k \<longrightarrow> \<not> bad_lock (tournament_node L (int p) j) ls \<and>
           flag (ls (tournament_node L (int p) j)) (1 - tournament_role L (int p) j) = 0"
  shows "\<exists>ls'. acquire_levels t k ls = Ok (-1, ls') \<and>
           (\<forall>j. i < j \<and> j < k \<longrightarrow> flag (ls' (tournament_node L (int p) j)) (tournament_role L (int p) j) = 1) \<and>
           (\<forall>l. (\<forall>j < k. l \<noteq> tournament_node L (int p) j) \<longrightarrow> ls' l = ls l)"
  using assms(2-)
proof (induction k arbitrary: ls)
  case (Suc k)
  let ?nd = "tournament_node L (int p)" and ?r = "tournament_role L (int p)"
  show ?case
  proof (cases "i = k")
    case True
    then have "release_levels t k (Suc (L - k - 1)) ls = Ok (-1, ls)"
      using Suc.prems by (intro release_levels_bad[OF vp]) auto
    moreover have "Suc (L - k - 1) = L - k" using Suc.prems by simp
    ultimately have "release_levels t k (L - k) ls = Ok (-1, ls)" by (simp only:)
    then show ?thesis using True Suc.prems vp
      by (auto simp: petersonlock_acquire_def valid_player_def)
  next
    case False
    define ls1 where "ls1 = update_lock (?nd k) (raise_flag (?r k)) ls"
    have a: "petersonlock_acquire (?nd k) (?r k) ls = Ok (0, ls1)"
      unfolding ls1_def using Suc.prems False by (intro acquire_free node_role_valid[OF vp]) auto
    have ne: "?nd j \<noteq> ?nd k" if "j < k" for j
      using node_inj[OF vp, of j k] that Suc.prems(1) by auto
    have same: "ls1 (?nd j) = ls (?nd j)" if "j < k" for j
      using ne[OF that] by (simp add: ls1_def)
    have live: "\<not> bad_lock (?nd j) ls1 \<and> flag (ls1 (?nd j)) (1 - ?r j) = 0" if "i < j" "j < k" for j
      using Suc.prems(4) same[of j] bad_lock_cong[of ls1 "?nd j" ls] that by auto
    have "bad_lock (?nd i) ls1"
      using Suc.prems(2,3) False same[of i] bad_lock_cong[of ls1 "?nd i" ls] by auto
    then obtain ls' where ls': "acquire_levels t k ls1 = Ok (-1, ls')"
        "\<And>j. i < j \<Longrightarrow> j < k \<Longrightarrow> flag (ls' (?nd j)) (?r j) = 1"
        "\<And>l. \<forall>j < k. l \<noteq> ?nd j \<Longrightarrow> ls' l = ls1 l"
      using Suc.IH[of ls1] Suc.prems(1,2) False live by auto
    have at_k: "flag (ls' (?nd k)) (?r k) = 1"
      using ls'(3)[of "?nd k"] ne by (metis fun_upd_same ls1_def raise_flag_sel(2))
    have "\<forall>j. i < j \<and> j < Suc k \<longrightarrow> flag (ls' (?nd j)) (?r j) = 1"
      using at_k ls'(2) by (auto simp: less_Suc_eq)
    moreover have "\<forall>l. (\<forall>j < Suc k. l \<noteq> ?nd j) \<longrightarrow> ls' l = ls l"
      using ls'(3) by (auto simp: ls1_def less_Suc_eq)
    ultimately show ?thesis using a ls'(1) vp by (auto simp: valid_player_def)
  qed
qed auto

section \<open>The calls of one process are runs of the interleaved model\<close>

lemma walk_acquire:
  assumes "petersonlock_acquire (lk p n) (rl p n) ls = Ok (v, ls')" "0 \<le> v"
  shows "run_schedule lk rl L (replicate 5 p) \<lparr>table = ls, pcs = f(p := PAcq n ACheck)\<rparr> =
     Ok \<lparr>table = ls', pcs = f(p := if Suc n < L then PAcq (Suc n) ACheck else PCrit)\<rparr>"
  using assms by (auto simp: numeral_eq_Suc petersonlock_acquire_def Let_def split: if_splits)

lemma walk_release:
  assumes "petersonlock_release (lk p n) (rl p n) ls = Ok (v, ls')" "0 \<le> v"
  shows "run_schedule lk rl L (replicate 3 p) \<lparr>table = ls, pcs = f(p := PRel n RCheck)\<rparr> =
     Ok \<lparr>table = ls', pcs = f(p := if n = 0 then PIdle else PRel (n - 1) RCheck)\<rparr>"
  using assms by (auto simp: numeral_eq_Suc petersonlock_release_def split: if_splits)

lemma run_schedule_append:
  "run_schedule lk rl L (ps @ qs) s = obind (run_schedule lk rl L ps s) (run_schedule lk rl L qs)"
proof (induction ps arbitrary: s)
  case (Cons p ps)
  show ?case by (cases "proc_step lk rl L p (pcs s p) (table s)") (auto simp: Cons.IH split_def)
qed simp

lemma acquire_levels_walk:
  assumes vp: "valid_player L p t"
    and "acquire_levels t k ls = Ok (0, ls')" "0 < k" "k \<le> L"
  shows "run_schedule (path_lock L) (path_role L) L (replicate (5 * k) p)
           \<lparr>table = ls, pcs = f(p := PAcq (L - k) ACheck)\<rparr> = Ok \<lparr>table = ls', pcs = f(p := PCrit)\<rparr>"
  using assms(2-)
proof (induction k arbitrary: ls)
  case (Suc k)
  have n: "path_lock L p (L - Suc k) = tournament_node L (int p) k"
    "path_role L p (L - Suc k) = tournament_role L (int p) k"
    using Suc.prems(3) by (simp_all add: path_lock_node path_role_node)
  obtain v ls1 where a: "petersonlock_acquire (path_lock L p (L - Suc k)) (path_role L p (L - Suc k)) ls = Ok (v, ls1)"
    and v: "0 \<le> v" and rest: "acquire_levels t k ls1 = Ok (0, ls')"
    using Suc.prems(1) vp unfolding n
    by (auto simp: valid_player_def outcome_simps split: if_splits)
  have step: "run_schedule (path_lock L) (path_role L) L (replicate (5 * Suc k) p)
      \<lparr>table = ls, pcs = f(p := PAcq (L - Suc k) ACheck)\<rparr> =
    run_schedule (path_lock L) (path_role L) L (replicate (5 * k) p)
      \<lparr>table = ls1, pcs = f(p := if Suc (L - Suc k) < L then PAcq (Suc (L - Suc k)) ACheck else PCrit)\<rparr>"
    by (simp only: mult_Suc_right replicate_add run_schedule_append walk_acquire[of "path_lock L" p _ "path_role L", OF a v] obind.simps)
  show ?case
  proof (cases "k = 0")
    case True
    then show ?thesis using step rest Suc.prems(3) by (simp add: fun_upd_def)
  next
    case False
    then have "Suc (L - Suc k) = L - k" "L - k < L" using Suc.prems(3) by simp_all
    then show ?thesis using step Suc.IH[OF rest] False Suc.prems(3) by (simp add: fun_upd_def)
  qed
qed simp

lemma release_levels_walk:
  assumes vp: "valid_player L p t"
    and "release_levels t j k ls = Ok (0, ls')" "0 < k" "j + k = L"
  shows "run_schedule (path_lock L) (path_role L) L (replicate (3 * k) p)
           \<lparr>table = ls, pcs = f(p := PRel (k - 1) RCheck)\<rparr> = Ok \<lparr>table = ls', pcs = f(p := PIdle)\<rparr>"
  using assms(2-)
proof (induction k arbitrary: j ls)
  case (Suc k)
  have "L - 1 - j = k" using Suc.prems(3) by simp
  then have n: "path_lock L p k = tournament_node L (int p) j" "path_role L p k = tournament_role L (int p) j"
    using path_lock_node[of j L p] path_role_node[of j L p] Suc.prems(3) by simp_all
  obtain v ls1 where a: "petersonlock_release (path_lock L p k) (path_role L p k) ls = Ok (v, ls1)"
    and v: "0 \<le> v" and rest: "release_levels t (Suc j) k ls1 = Ok (0, ls')"
    using Suc.prems(1) vp unfolding n
    by (auto simp: valid_player_def outcome_simps split: if_splits)
  have step: "run_schedule (path_lock L) (path_role L) L (replicate (3 * Suc k) p)
      \<lparr>table = ls, pcs = f(p := PRel k RCheck)\<rparr> =
    run_schedule (path_lock L) (path_role L) L (replicate (3 * k) p)
      \<lparr>table = ls1, pcs = f(p := if k = 0 then PIdle else PRel (k - 1) RCheck)\<rparr>"
    by (simp only: mult_Suc_right replicate_add run_schedule_append walk_release[of "path_lock L" p _ "path_role L", OF a v] obind.simps)
  show ?case
  proof (cases "k = 0")
    case True
    then show ?thesis using step rest by (simp add: fun_upd_def)
  next
    case False
    then show ?thesis using step Suc.IH[OF rest] Suc.prems(3) by (simp add: fun_upd_def)
  qed
qed simp

section \<open>Creation on a fresh table\<close>

declare count_levels.simps [simp del] fork_loop.simps [simp del]

lemma count_levels_power: "count_levels (2 ^ L) n = n + L"
proof (induction L arbitrary: n)
  case 0
  show ?case by (subst count_levels.simps) simp
next
  case (Suc L)
  have "(1::int) < 2 ^ Suc L" by (rule one_less_power) auto
  then show ?case
    by (subst count_levels.simps) (simp add: Suc.IH drop_bit_eq_div)
qed

lemma process_count_ok:
  assumes "0 < L" "L \<le> 4" shows "\<not> bad_process_count (2 ^ L)"
proof -
  from assms have "L = 1 \<or> L = 2 \<or> L = 3 \<or> L = 4" by auto
  then show ?thesis by (auto simp: bad_process_count_def)
qed

lemma fork_loop_parent:
  "\<forall>j. i \<le> j \<and> j < n \<longrightarrow> fork j > 0 \<Longrightarrow> fork_loop i n fork t = (proc_id t, t)"
proof (induction i n fork t rule: fork_loop.induct)
  case (1 i n fork t)
  then show ?case by (cases "i < n") (subst fork_loop.simps, auto)+
qed

lemma fork_loop_child:
  "i \<le> p \<Longrightarrow> p < n \<Longrightarrow> fork p = 0 \<Longrightarrow> \<forall>j. i \<le> j \<and> j < p \<longrightarrow> fork j > 0 \<Longrightarrow>
   fork_loop i n fork t = (p, t\<lparr>proc_id := p\<rparr>)"
proof (induction i n fork t rule: fork_loop.induct)
  case (1 i n fork t)
  show ?case
  proof (cases "i = p")
    case True
    then show ?thesis using "1.prems" by (subst fork_loop.simps) auto
  next
    case False
    then have "0 < fork i" "i < n" using "1.prems" by auto
    then show ?thesis using "1.IH" "1.prems" False by (subst fork_loop.simps) auto
  qed
qed

text \<open>The first \<open>m\<close> locks taken, the others free.\<close>

definition taken_below :: "nat \<Rightarrow> lock_table \<Rightarrow> bool" where
  "taken_below m ls \<longleftrightarrow> (\<forall>l. 0 \<le> l \<and> l < MAX_PETERSON_LOCKS \<longrightarrow> active (ls l) = (if l < int m then 1 else 0))"

lemma create_next:
  assumes "wf_table ls" "taken_below m ls" "m < 15"
  shows "petersonlock_create ls = (int m, ls(int m := reset_lock ((ls (int m))\<lparr>active := 1\<rparr>)))"
  using assms by (intro create_lowest_free) (auto simp: first_free_def taken_below_def MAX_PETERSON_LOCKS_def)

lemma create_locks_fresh:
  assumes "wf_table ls" "taken_below m ls" "m + k \<le> 15"
  shows "create_locks k ids ls =
     (Some (ids @ map int [m..<m + k]),
      \<lambda>l. if int m \<le> l \<and> l < int (m + k) then reset_lock ((ls l)\<lparr>active := 1\<rparr>) else ls l)"
  using assms
proof (induction k arbitrary: m ids ls)
  case (Suc k)
  define ls1 where "ls1 = ls(int m := reset_lock ((ls (int m))\<lparr>active := 1\<rparr>))"
  have c: "petersonlock_create ls = (int m, ls1)"
    unfolding ls1_def using Suc.prems by (intro create_next) auto
  have "wf_table ls1" using wf_table_create[OF Suc.prems(1)] by (simp add: c)
  moreover have "taken_below (Suc m) ls1"
    using Suc.prems(2) by (auto simp: taken_below_def ls1_def)
  ultimately have "create_locks k (ids @ [int m]) ls1 =
     (Some ((ids @ [int m]) @ map int [Suc m..<Suc m + k]),
      \<lambda>l. if int (Suc m) \<le> l \<and> l < int (Suc m + k) then reset_lock ((ls1 l)\<lparr>active := 1\<rparr>) else ls1 l)"
    using Suc.prems(3) by (intro Suc.IH) auto
  moreover have "[m..<m + Suc k] = m # [Suc m..<Suc m + k]"
    using upt_conv_Cons[of m "m + Suc k"] by simp
  ultimately show ?case
    by (auto simp: c ls1_def fun_eq_iff)
qed (auto simp: fun_eq_iff)

lemma init_taken: "taken_below 0 (petersonlock_init ls)"
  by (auto simp: taken_below_def petersonlock_init_def petersonlock_init_from_eq)

text \<open>What \<^verbatim>\<open>fork\<close> returned to process number \<open>p\<close> of \<open>n\<close>: a child's pid, until its own turn.\<close>

definition forked_as :: "nat \<Rightarrow> int \<Rightarrow> (int \<Rightarrow> int) \<Rightarrow> bool" where
  "forked_as p n fork \<longleftrightarrow>
     (if p = 0 then (\<forall>j. 1 \<le> j \<and> j < n \<longrightarrow> fork j > 0)
      else fork (int p) = 0 \<and> (\<forall>j. 1 \<le> j \<and> j < int p \<longrightarrow> fork j > 0))"

lemma fork_loop_as:
  assumes "forked_as p n fork" "int p < n" "proc_id t = 0"
  shows "fork_loop 1 n fork t = (int p, t\<lparr>proc_id := int p\<rparr>)"
  using assms fork_loop_parent[of 1 n fork t] fork_loop_child[of 1 "int p" n fork t]
  by (cases "p = 0") (auto simp: forked_as_def)

lemma tournament_create_result:
  assumes L: "0 < L" "L \<le> 4" and p: "p < 2 ^ L" and wf: "wf_table ls"
    and f: "forked_as p (2 ^ L) fork" and t: "proc_id t = 0"
  shows "tournament_create True fork (2 ^ L) t (petersonlock_init ls) =
     (int p,
      t\<lparr>num_processes := 2 ^ L, lock_ids := Some (map int [0..<2 ^ L - 1]), num_levels := L, proc_id := int p\<rparr>,
      \<lambda>l. if 0 \<le> l \<and> l < 2 ^ L - 1 then reset_lock ((petersonlock_init ls l)\<lparr>active := 1\<rparr>)
          else petersonlock_init ls l)"
proof -
  have "(2::nat) ^ L \<le> 2 ^ 4" using L(2) by (intro power_increasing) auto
  then have k: "0 + nat (2 ^ L - 1) \<le> 15" by (simp add: nat_diff_distrib nat_power_eq)
  have n: "nat (2 ^ L - 1) = 2 ^ L - 1" by (simp add: nat_diff_distrib nat_power_eq)
  have "int p < 2 ^ L" using p by (metis of_nat_less_iff of_nat_numeral of_nat_power)
  then show ?thesis
    using process_count_ok[OF L] create_locks_fresh[OF wf_table_init[OF wf] init_taken k, of "[]"]
    by (simp add: tournament_create_def n count_levels_power fork_loop_as[OF f] t of_nat_diff Let_def)
qed

text \<open>The full tournament of 16 processes, and the two processes of \<^verbatim>\<open>user/test_peterson.c\<close> on lock 0.\<close>

interpretation tournament16: rooted_lock_tree "path_lock 4" "path_role 4" 4 16
  using tournament_lock_tree[of 4] by simp

interpretation lock_pair: rooted_lock_tree "\<lambda>p n. 0" "\<lambda>p n. int p" 1 2
  by unfold_locales (auto simp: MAX_PETERSON_LOCKS_def)

section \<open>Properties of the tournament\<close>

text \<open>A table with every lock active and down, and all processes outside: for the witnesses.\<close>

definition fresh_state :: tree_state where
  "fresh_state = \<lparr>table = \<lambda>l. \<lparr>active = 1, flag = \<lambda>r. 0, turn = 0\<rparr>, pcs = \<lambda>p. PIdle\<rparr>"

lemma fresh_state_reach: "tree_reach lk rl L N fresh_state"
  by (rule tree_reach.init) (simp add: tree_init_def fresh_state_def)

text \<open>
  C1. Mutual exclusion. In every interleaving of the memory accesses of the \<open>2^L\<close> processes of a
  tournament of up to four levels, at most one process is in the critical section.
\<close>

theorem tournament_mutual_exclusion:
  assumes "0 < L" "L \<le> 4" "tree_reach (path_lock L) (path_role L) L (2 ^ L) s"
    and "p < 2 ^ L" "q < 2 ^ L" "pcs s p = PCrit" "pcs s q = PCrit"
  shows "p = q"
  using rooted_lock_tree.critical_exclusive[OF tournament_lock_tree[OF assms(1,2)] assms(3-7)] .

lemma fresh_run_reaches_crit:
  "\<exists>s. run_schedule (path_lock 2) (path_role 2) 2 (replicate 11 1) fresh_state = Ok s \<and> pcs s 1 = PCrit"
  by (simp add: numeral_eq_Suc fresh_state_def path_lock_def path_role_def tournament_node_def
      tournament_role_def bad_lock_def MAX_PETERSON_LOCKS_def valid_role_def)

theorem tournament_mutual_exclusion_witness:
  "\<exists>s. tree_reach (path_lock 2) (path_role 2) 2 4 s \<and> pcs s 1 = PCrit \<and> (\<forall>q < 4. pcs s q = PCrit \<longrightarrow> q = 1)"
proof -
  obtain s where s: "run_schedule (path_lock 2) (path_role 2) 2 (replicate 11 1) fresh_state = Ok s" "pcs s 1 = PCrit"
    using fresh_run_reaches_crit by blast
  have r: "tree_reach (path_lock 2) (path_role 2) 2 4 s"
    by (rule run_schedule_reach[OF fresh_state_reach _ s(1)]) simp
  then show ?thesis using s(2) tournament_mutual_exclusion[of 2 s _ 1] by auto
qed



text \<open>
  C7. No failure. In every interleaving no call of a process of the tournament returns -1 (so no roll
  back ever starts), no access is outside an array, and when all are outside again every flag is down.
\<close>

theorem tournament_never_fails:
  assumes "0 < L" "L \<le> 4" "tree_reach (path_lock L) (path_role L) L (2 ^ L) s" "p < 2 ^ L"
  shows "pcs s p \<noteq> PFail \<and> (\<forall>n pc. pcs s p \<noteq> PRoll n pc) \<and>
     (\<exists>pc' ls'. proc_step (path_lock L) (path_role L) L p (pcs s p) (table s) = Ok (pc', ls')) \<and>
     ((\<forall>q < 2 ^ L. pcs s q = PIdle) \<longrightarrow>
        (\<forall>n < L. flag (table s (path_lock L p n)) 0 = 0 \<and> flag (table s (path_lock L p n)) 1 = 0))"
proof -
  have lt: "lock_tree (path_lock L) (path_role L) L (2 ^ L)"
    using tournament_lock_tree[OF assms(1,2)] by (simp add: rooted_lock_tree_def)
  show ?thesis
    using lock_tree.no_failure[OF lt assms(3,4)] lock_tree.step_enabled[OF lt assms(3,4)]
      lock_tree.idle_flags_down[OF lt assms(3) _ assms(4)] by auto
qed

theorem tournament_never_fails_witness:
  "pcs fresh_state 3 \<noteq> PFail \<and>
   flag (table fresh_state (path_lock 2 3 0)) 0 = 0 \<and> flag (table fresh_state (path_lock 2 3 1)) 1 = 0"
  using tournament_never_fails[of 2 fresh_state 3] fresh_state_reach[of "path_lock 2" "path_role 2" 2 4]
  by (auto simp: fresh_state_def)

text \<open>
  C14. Creation. On the table that the kernel sets up at boot, \<^verbatim>\<open>tournament_create(2^L)\<close> takes the locks
  0 to \<open>2^L - 2\<close>, sets \<open>L\<close> levels, gives process number \<open>p\<close> (by what \<^verbatim>\<open>fork\<close> returned to it) the
  identifier \<open>p\<close>, and leaves the table in a start state of the interleaved executions.
\<close>

theorem tournament_create_fresh:
  assumes "0 < L" "L \<le> 4" "p < 2 ^ L" "wf_table ls" "forked_as p (2 ^ L) fork" "proc_id t = 0"
  shows "\<exists>t' ls'. tournament_create True fork (2 ^ L) t (petersonlock_init ls) = (int p, t', ls') \<and>
     valid_player L p t' \<and> lock_ids t' = Some (map int [0..<2 ^ L - 1]) \<and>
     tree_init (path_lock L) L (2 ^ L) \<lparr>table = ls', pcs = \<lambda>q. PIdle\<rparr>"
proof -
  have "0 \<le> path_lock L q n \<and> path_lock L q n < 2 ^ L - 1" if "q < 2 ^ L" "n < L" for q n
  proof -
    have "q div 2 ^ Suc n + 2 ^ (L - 1 - n) < 2 ^ Suc (L - 1 - n)" using path_index_lt[OF that(2,1)] by simp
    also have "(2::nat) ^ Suc (L - 1 - n) \<le> 2 ^ L" using that by (intro power_increasing) auto
    finally have "q div 2 ^ Suc n + 2 ^ (L - 1 - n) < 2 ^ L" .
    moreover have "0 < q div 2 ^ Suc n + 2 ^ (L - 1 - n)" by simp
    ultimately have "int (q div 2 ^ Suc n + 2 ^ (L - 1 - n) - 1) < int (2 ^ L) - 1" by linarith
    then show ?thesis by (simp add: path_lock_eq[OF that(2)])
  qed
  then show ?thesis
    using tournament_create_result[OF assms] assms(1-3)
    by (auto simp: tree_init_def valid_player_def)
qed

theorem tournament_create_fresh_witness:
  "\<exists>t' ls'. tournament_create True (\<lambda>j. if j = 3 then 0 else 7 + j) 4
      \<lparr>proc_id = 0, num_processes = 0, num_levels = 0, lock_ids = None\<rparr>
      (petersonlock_init (\<lambda>l. \<lparr>active = 0, flag = \<lambda>r. 0, turn = 0\<rparr>)) = (3, t', ls') \<and>
    lock_ids t' = Some [0, 1, 2]"
  using tournament_create_fresh[of 2 3 "\<lambda>l. \<lparr>active = 0, flag = \<lambda>r. 0, turn = 0\<rparr>" "\<lambda>j. if j = 3 then 0 else 7 + j"
      "\<lparr>proc_id = 0, num_processes = 0, num_levels = 0, lock_ids = None\<rparr>"]
  by (simp add: wf_table_def forked_as_def numeral_eq_Suc) blast

text \<open>
  C28. Round trip. A process that finds the locks on its path live and down acquires the tournament,
  with its flag up and the turn given away in each of them; its release then succeeds and restores
  every flag of the table, touching no lock off the path.
\<close>

theorem tournament_round_trip:
  assumes vp: "valid_player L p t"
    and free: "\<forall>i < L. \<not> bad_lock (tournament_node L (int p) i) ls \<and>
       flag (ls (tournament_node L (int p) i)) 0 = 0 \<and> flag (ls (tournament_node L (int p) i)) 1 = 0"
  shows "\<exists>ls1 ls2. tournament_acquire t ls = Ok (0, ls1) \<and> tournament_release t ls1 = Ok (0, ls2) \<and>
     (\<forall>i < L. flag (ls1 (tournament_node L (int p) i)) (tournament_role L (int p) i) = 1 \<and>
        turn (ls1 (tournament_node L (int p) i)) = 1 - tournament_role L (int p) i) \<and>
     (\<forall>l r. flag (ls2 l) r = flag (ls l) r) \<and>
     (\<forall>l. (\<forall>i < L. l \<noteq> tournament_node L (int p) i) \<longrightarrow> ls2 l = ls l)"
proof -
  let ?nd = "tournament_node L (int p)" and ?r = "tournament_role L (int p)"
  have role: "?r i = 0 \<or> ?r i = 1" if "i < L" for i
    using node_role_valid[OF vp that] by (simp add: valid_role_def)
  obtain ls1 where a: "acquire_levels t L ls = Ok (0, ls1)"
      "\<And>i. i < L \<Longrightarrow> ls1 (?nd i) = raise_flag (?r i) (ls (?nd i))"
      "\<And>l. \<forall>i < L. l \<noteq> ?nd i \<Longrightarrow> ls1 l = ls l"
    using acquire_levels_free[OF vp order_refl, of ls] free role by fastforce
  have "\<forall>i < L. \<not> bad_lock (?nd i) ls1"
    using free a(2) bad_lock_cong[of ls1 _ ls] by auto
  then obtain ls2 where b: "release_levels t 0 L ls1 = Ok (0, ls2)"
      "\<And>i. i < L \<Longrightarrow> ls2 (?nd i) = lower_flag (?r i) (ls1 (?nd i))"
      "\<And>l. \<forall>i < L. l \<noteq> ?nd i \<Longrightarrow> ls2 l = ls1 l"
    using release_levels_live[OF vp, of 0 L ls1] by auto
  have "flag (ls2 l) r = flag (ls l) r" for l r
  proof (cases "\<exists>i < L. l = ?nd i")
    case True
    then obtain i where i: "i < L" "l = ?nd i" by blast
    then show ?thesis using a(2) b(2) free role by (cases "r = ?r i") fastforce+
  next
    case False
    then show ?thesis using a(3) b(3) by simp
  qed
  then show ?thesis
    using a b vp by (auto simp: tournament_acquire_def tournament_release_def valid_player_def)
qed

text \<open>Process 2 of four, for the witnesses.\<close>

definition player2of4 :: tournament where
  "player2of4 = \<lparr>proc_id = 2, num_processes = 4, num_levels = 2, lock_ids = Some [0, 1, 2]\<rparr>"

lemma player2of4_valid: "valid_player 2 2 player2of4"
  by (simp add: valid_player_def player2of4_def)

theorem tournament_round_trip_witness:
  "\<exists>ls1 ls2. tournament_acquire player2of4 (table fresh_state) = Ok (0, ls1) \<and>
     tournament_release player2of4 ls1 = Ok (0, ls2) \<and> flag (ls1 2) 0 = 1 \<and> flag (ls1 0) 1 = 1 \<and>
     (\<forall>l r. flag (ls2 l) r = flag (table fresh_state l) r)"
proof -
  have "\<forall>i < 2. \<not> bad_lock (tournament_node 2 (int 2) i) (table fresh_state) \<and>
       flag (table fresh_state (tournament_node 2 (int 2) i)) 0 = 0 \<and>
       flag (table fresh_state (tournament_node 2 (int 2) i)) 1 = 0"
    by (simp add: fresh_state_def bad_lock_def numeral_eq_Suc All_less_Suc tournament_node_def MAX_PETERSON_LOCKS_def)
  from tournament_round_trip[OF player2of4_valid this] show ?thesis
    by (simp add: numeral_eq_Suc All_less_Suc tournament_node_def tournament_role_def) blast
qed

text \<open>
  C15. The calls are runs of the interleaved model. Where the code of \<^verbatim>\<open>tournament_acquire\<close>, run without
  interruption, returns 0, the steps of that process alone lead the interleaved model from outside to
  the critical section with the same table, whatever the other processes stand at; likewise
  \<^verbatim>\<open>tournament_release\<close>, back to outside.
\<close>

theorem tournament_calls_are_runs:
  assumes "valid_player L p t"
  shows "(tournament_acquire t ls = Ok (0, ls') \<longrightarrow>
      run_schedule (path_lock L) (path_role L) L (replicate (5 * L + 1) p) \<lparr>table = ls, pcs = f(p := PIdle)\<rparr> =
        Ok \<lparr>table = ls', pcs = f(p := PCrit)\<rparr>) \<and>
    (tournament_release t ls = Ok (0, ls') \<longrightarrow>
      run_schedule (path_lock L) (path_role L) L (replicate (3 * L + 1) p) \<lparr>table = ls, pcs = f(p := PCrit)\<rparr> =
        Ok \<lparr>table = ls', pcs = f(p := PIdle)\<rparr>)"
  using acquire_levels_walk[OF assms, of L ls ls' f] release_levels_walk[OF assms, of 0 L ls ls' f] assms
  by (auto simp: tournament_acquire_def tournament_release_def valid_player_def split: if_splits)

theorem tournament_calls_are_runs_witness:
  "\<exists>ls'. tournament_acquire player2of4 (table fresh_state) = Ok (0, ls') \<and>
     run_schedule (path_lock 2) (path_role 2) 2 (replicate 11 2)
        \<lparr>table = table fresh_state, pcs = (\<lambda>q. PIdle)(2 := PIdle)\<rparr> = Ok \<lparr>table = ls', pcs = (\<lambda>q. PIdle)(2 := PCrit)\<rparr>"
proof -
  obtain ls' where "tournament_acquire player2of4 (table fresh_state) = Ok (0, ls')"
    by (simp add: player2of4_def fresh_state_def tournament_acquire_def tournament_node_def numeral_eq_Suc
        tournament_role_def petersonlock_acquire_def bad_lock_def MAX_PETERSON_LOCKS_def valid_role_def Let_def)
  then show ?thesis
    using tournament_calls_are_runs[OF player2of4_valid, of "table fresh_state" ls' "\<lambda>q. PIdle"] by auto
qed

text \<open>
  C38. A failed acquisition keeps its locks. When the lock of level \<open>i\<close> is not live and the locks below
  it are acquired, \<^verbatim>\<open>tournament_acquire\<close> returns -1 with the flags of all the locks it took
  below still up: the roll back starts with the lock that failed, fails there too, and gives nothing back.
\<close>

theorem tournament_failed_acquire_keeps_locks:
  assumes "valid_player L p t" "i < L" "bad_lock (tournament_node L (int p) i) ls"
    and "\<forall>j. i < j \<and> j < L \<longrightarrow> \<not> bad_lock (tournament_node L (int p) j) ls \<and>
       flag (ls (tournament_node L (int p) j)) (1 - tournament_role L (int p) j) = 0"
  shows "\<exists>ls'. tournament_acquire t ls = Ok (-1, ls') \<and>
     (\<forall>j. i < j \<and> j < L \<longrightarrow> flag (ls' (tournament_node L (int p) j)) (tournament_role L (int p) j) = 1)"
  using acquire_levels_bad[OF assms(1) order_refl assms(2-4)] assms(1)
  by (auto simp: tournament_acquire_def valid_player_def)

theorem tournament_failed_acquire_keeps_locks_witness:
  "\<exists>ls'. tournament_acquire player2of4 ((table fresh_state)(0 := \<lparr>active = 0, flag = \<lambda>r. 0, turn = 0\<rparr>)) = Ok (-1, ls') \<and>
     flag (ls' 2) 0 = 1"
proof -
  let ?ls = "(table fresh_state)(0 := \<lparr>active = 0, flag = \<lambda>r. 0, turn = 0\<rparr>)"
  have b: "bad_lock (tournament_node 2 (int 2) 0) ?ls"
    by (simp add: bad_lock_def tournament_node_def)
  have "\<forall>j. 0 < j \<and> j < 2 \<longrightarrow> \<not> bad_lock (tournament_node 2 (int 2) j) ?ls \<and>
       flag (?ls (tournament_node 2 (int 2) j)) (1 - tournament_role 2 (int 2) j) = 0"
  proof (intro allI impI)
    fix j :: nat assume "0 < j \<and> j < 2"
    then have "j = 1" by simp
    then show "\<not> bad_lock (tournament_node 2 (int 2) j) ?ls \<and>
       flag (?ls (tournament_node 2 (int 2) j)) (1 - tournament_role 2 (int 2) j) = 0"
      by (simp add: bad_lock_def tournament_node_def fresh_state_def MAX_PETERSON_LOCKS_def)
  qed
  from tournament_failed_acquire_keeps_locks[OF player2of4_valid _ b this]
  obtain ls' where ls': "tournament_acquire player2of4 ?ls = Ok (-1, ls')"
    "\<forall>j. 0 < j \<and> j < 2 \<longrightarrow> flag (ls' (tournament_node 2 (int 2) j)) (tournament_role 2 (int 2) j) = 1" by auto
  from ls'(2)[rule_format, of 1] have "flag (ls' 2) 0 = 1"
    by (simp add: tournament_node_def tournament_role_def)
  with ls'(1) show ?thesis by blast
qed


end
