(* ===== verification/Spinlock.thy ===== *)
theory Spinlock
  imports Xv6_Prelude
begin

text \<open>
  The harts and the spin locks: \<^verbatim>\<open>kernel/spinlock.c\<close>, with the part of \<^verbatim>\<open>struct cpu\<close> it uses.

  The record \<open>core\<close> has, for every hart, whether interrupts are enabled and its \<^verbatim>\<open>struct cpu\<close>, the hart that is
  executing, and all the spin locks of the kernel, named by \<open>lockid\<close>. A lock that is held by another hart makes
  \<open>acquire\<close> spin, which is \<open>Wait\<close>. The names of the locks, kept for debugging only, are left out.

  The lemmas give normal forms for what acquiring and releasing do to the core (\<open>acquired\<close>,
  \<open>released\<close>, \<open>settled\<close>), so that the critical sections of the other components evaluate by simplification.
  The properties: interrupts stay off while a lock is held, and a lock has at most one holder.
\<close>

section \<open>Harts and locks\<close>

record cpu =
  cproc :: "nat option"   \<comment> \<open>index of the process running on this cpu\<close>
  noff :: int             \<comment> \<open>depth of \<open>push_off\<close> nesting\<close>
  intena :: bool          \<comment> \<open>were interrupts enabled before \<open>push_off\<close>\<close>

record spinlock =
  locked :: bool
  holder :: "nat option"  \<comment> \<open>the field \<^verbatim>\<open>cpu\<close>\<close>

datatype lockid =
    LKmem | LPid | LWait | LProc nat | LBcache | LBuf nat | LLog | LItable | LInode nat
  | LFtable | LPipe uint64 | LTicks | LCons | LPr | LUart | LDisk

record core =
  hart :: nat
  intr :: "nat \<Rightarrow> bool"
  cpus :: "nat \<Rightarrow> cpu"
  locks :: "lockid \<Rightarrow> spinlock"

definition NCPU :: nat where
  "NCPU = 8"

definition mycpu :: "core \<Rightarrow> cpu" where
  "mycpu c = cpus c (hart c)"

definition intr_get :: "core \<Rightarrow> bool" where
  "intr_get c = intr c (hart c)"

definition intr_off :: "core \<Rightarrow> core" where
  "intr_off c = c\<lparr>intr := (intr c)(hart c := False)\<rparr>"

definition intr_on :: "core \<Rightarrow> core" where
  "intr_on c = c\<lparr>intr := (intr c)(hart c := True)\<rparr>"

abbreviation upd_mycpu :: "(cpu \<Rightarrow> cpu) \<Rightarrow> core \<Rightarrow> core" where
  "upd_mycpu f c \<equiv> c\<lparr>cpus := (cpus c)(hart c := f (cpus c (hart c)))\<rparr>"

abbreviation upd_lock :: "lockid \<Rightarrow> (spinlock \<Rightarrow> spinlock) \<Rightarrow> core \<Rightarrow> core" where
  "upd_lock l f c \<equiv> c\<lparr>locks := (locks c)(l := f (locks c l))\<rparr>"

section \<open>The operations\<close>

definition initlock :: "lockid \<Rightarrow> core \<Rightarrow> core" where
  "initlock l c = upd_lock l (\<lambda>k. k\<lparr>locked := False, holder := None\<rparr>) c"

definition push_off :: "core \<Rightarrow> core" where
  "push_off c =
     (let old = intr_get c;
          c1 = intr_off c;
          c2 = (if noff (mycpu c1) = 0 then upd_mycpu (\<lambda>k. k\<lparr>intena := old\<rparr>) c1 else c1)
      in upd_mycpu (\<lambda>k. k\<lparr>noff := noff k + 1\<rparr>) c2)"

definition pop_off :: "core \<Rightarrow> core outcome" where
  "pop_off c =
     (if intr_get c then Panic ''pop_off - interruptible''
      else if noff (mycpu c) < 1 then Panic ''pop_off''
      else
        let c1 = upd_mycpu (\<lambda>k. k\<lparr>noff := noff k - 1\<rparr>) c
        in Ok (if noff (mycpu c1) = 0 \<and> intena (mycpu c1) then intr_on c1 else c1))"

definition holding :: "lockid \<Rightarrow> core \<Rightarrow> bool" where
  "holding l c \<longleftrightarrow> locked (locks c l) \<and> holder (locks c l) = Some (hart c)"

text \<open>\<^verbatim>\<open>__sync_lock_test_and_set(&lk->locked, 1)\<close>: the old value and the core with the lock taken.\<close>

definition test_and_set :: "lockid \<Rightarrow> core \<Rightarrow> bool \<times> core" where
  "test_and_set l c = (locked (locks c l), upd_lock l (\<lambda>k. k\<lparr>locked := True\<rparr>) c)"

definition acquire :: "lockid \<Rightarrow> core \<Rightarrow> core outcome" where
  "acquire l c =
     (let c1 = push_off c in
      if holding l c1 then Panic ''acquire''
      else
        let (busy, c2) = test_and_set l c1 in
        if busy then Wait
        else Ok (upd_lock l (\<lambda>k. k\<lparr>holder := Some (hart c2)\<rparr>) c2))"

definition release :: "lockid \<Rightarrow> core \<Rightarrow> core outcome" where
  "release l c =
     (if \<not> holding l c then Panic ''release''
      else
        let c1 = upd_lock l (\<lambda>k. k\<lparr>holder := None\<rparr>) c;
            c2 = upd_lock l (\<lambda>k. k\<lparr>locked := False\<rparr>) c1
        in pop_off c2)"

section \<open>Normal forms\<close>

text \<open>No lock held, nothing to restore: an unlocked lock has no holder.\<close>

definition lock_free :: "lockid \<Rightarrow> core \<Rightarrow> bool" where
  "lock_free l c \<longleftrightarrow> \<not> locked (locks c l) \<and> holder (locks c l) = None"

text \<open>The executing hart's nesting depth is sensible.\<close>

definition core_ok :: "core \<Rightarrow> bool" where
  "core_ok c \<longleftrightarrow> 0 \<le> noff (mycpu c) \<and> (0 < noff (mycpu c) \<longrightarrow> \<not> intr_get c)"

definition acquired :: "lockid \<Rightarrow> core \<Rightarrow> core" where
  "acquired l c = upd_lock l (\<lambda>k. \<lparr>locked = True, holder = Some (hart c)\<rparr>) (push_off c)"

definition settled :: "core \<Rightarrow> core" where
  "settled c = (if noff (mycpu c) = 0 then upd_mycpu (\<lambda>k. k\<lparr>intena := intr_get c\<rparr>) c else c)"

lemmas core_defs = mycpu_def intr_get_def intr_off_def intr_on_def push_off_def pop_off_def holding_def
  test_and_set_def lock_free_def core_ok_def acquired_def settled_def Let_def

lemma acquire_lock_free [simp]: "lock_free l c \<Longrightarrow> acquire l c = Ok (acquired l c)"
  by (cases c) (auto simp: acquire_def core_defs fun_eq_iff)

lemma acquire_cases:
  "acquire l c = (if locked (locks c l) then if holder (locks c l) = Some (hart c) then Panic ''acquire'' else Wait
                  else Ok (acquired l c))"
  by (cases c) (auto simp: acquire_def core_defs fun_eq_iff)

lemma release_acquired [simp]: "lock_free l c \<Longrightarrow> core_ok c \<Longrightarrow> release l (acquired l c) = Ok (settled c)"
  by (cases c) (auto simp: release_def core_defs fun_eq_iff)

lemma lock_free_record: "lock_free l c \<Longrightarrow> locks c l = \<lparr>locked = False, holder = None\<rparr>"
  by (cases "locks c l") (simp add: lock_free_def)

lemma acquired_fields:
  "acquired l c =
     c\<lparr>intr := (intr c)(hart c := False),
       cpus := (cpus c)(hart c := (mycpu c)\<lparr>intena := if noff (mycpu c) = 0 then intr_get c else intena (mycpu c),
          noff := noff (mycpu c) + 1\<rparr>),
       locks := (locks c)(l := \<lparr>locked = True, holder = Some (hart c)\<rparr>)\<rparr>"
  by (simp add: core_defs)

lemma release_fields:
  assumes "holding l c" "\<not> intr_get c" "1 < noff (mycpu c)"
  shows "release l c =
     Ok (c\<lparr>locks := (locks c)(l := (locks c l)\<lparr>holder := None, locked := False\<rparr>),
           cpus := (cpus c)(hart c := (mycpu c)\<lparr>noff := noff (mycpu c) - 1\<rparr>)\<rparr>)"
  using assms by (simp add: release_def core_defs)

lemma release_below [simp]:
  assumes "lock_free l c" "core_ok c" "l \<noteq> l'"
  shows "release l (acquired l' (acquired l c)) = Ok (acquired l' c)"
proof -
  have "holding l (acquired l' (acquired l c))" "\<not> intr_get (acquired l' (acquired l c))"
    "1 < noff (mycpu (acquired l' (acquired l c)))"
    using assms by (auto simp: acquired_fields holding_def intr_get_def mycpu_def core_ok_def)
  moreover have "(locks c)(l' := k, l := \<lparr>locked = False, holder = None\<rparr>) = (locks c)(l' := k)" for k
    using lock_free_record[OF assms(1)] assms(3) by (metis fun_upd_triv fun_upd_twist)
  ultimately show ?thesis
    using assms by (cases c) (auto simp: release_fields acquired_fields mycpu_def intr_get_def core_ok_def)
qed

lemma core_ok_acquired [simp]: "core_ok c \<Longrightarrow> core_ok (acquired l c)"
  by (cases c) (auto simp: core_defs)

lemma core_ok_settled [simp]: "core_ok (settled c) \<longleftrightarrow> core_ok c"
  by (cases c) (auto simp: core_defs)

lemma lock_free_acquired [simp]: "lock_free l (acquired l' c) \<longleftrightarrow> l \<noteq> l' \<and> lock_free l c"
  by (cases c) (auto simp: core_defs)

lemma lock_free_settled [simp]: "lock_free l (settled c) \<longleftrightarrow> lock_free l c"
  by (cases c) (auto simp: core_defs)

lemma holding_acquired [simp]: "holding l (acquired l' c) \<longleftrightarrow> l = l' \<or> holding l c"
  by (cases c) (auto simp: core_defs)

lemma holding_settled [simp]: "holding l (settled c) \<longleftrightarrow> holding l c"
  by (cases c) (auto simp: core_defs)

lemma acquired_settled [simp]: "acquired l (settled c) = acquired l c"
  by (cases c) (auto simp: core_defs fun_eq_iff)

lemma settled_settled [simp]: "settled (settled c) = settled c"
  by (cases c) (auto simp: core_defs fun_eq_iff)

lemma core_sel [simp]:
  "hart (acquired l c) = hart c" "hart (settled c) = hart c"
  "cproc (cpus (acquired l c) h) = cproc (cpus c h)" "cproc (cpus (settled c) h) = cproc (cpus c h)"
  "locks (settled c) = locks c" "intr (settled c) = intr c"
  by (cases c, auto simp: core_defs)+

lemma noff_acquired [simp]: "noff (mycpu (acquired l c)) = noff (mycpu c) + 1"
  by (cases c) (auto simp: core_defs)

lemma noff_settled [simp]: "noff (mycpu (settled c)) = noff (mycpu c)"
  by (cases c) (auto simp: core_defs)

lemma lock_free_not_holding: "lock_free l c \<Longrightarrow> \<not> holding l c"
  by (simp add: lock_free_def holding_def)

section \<open>The kernel state\<close>

text \<open>The other components extend this record by their own state.\<close>

record kernel =
  kcore :: core

definition on_core :: "(core \<Rightarrow> core outcome) \<Rightarrow> ('z kernel_scheme, unit) kern" where
  "on_core f = (\<lambda>s. obind (f (kcore s)) (\<lambda>c. Ok ((), s\<lparr>kcore := c\<rparr>)))"

abbreviation acq :: "lockid \<Rightarrow> ('z kernel_scheme, unit) kern" where
  "acq l \<equiv> on_core (acquire l)"

abbreviation rel :: "lockid \<Rightarrow> ('z kernel_scheme, unit) kern" where
  "rel l \<equiv> on_core (release l)"

lemma on_core_apply [kern_simps]: "on_core f s = obind (f (kcore s)) (\<lambda>c. Ok ((), s\<lparr>kcore := c\<rparr>))"
  by (simp add: on_core_def)

section \<open>Locks and interrupts on all harts\<close>

text \<open>
  One step of one hart: it acquires a lock, releases one, or changes its interrupt flag outside every
  \<^verbatim>\<open>push_off\<close>, as the scheduler and the trap handlers do.
\<close>

inductive hart_step :: "core \<Rightarrow> core \<Rightarrow> bool" where
  acq: "acquire l (c\<lparr>hart := h\<rparr>) = Ok c' \<Longrightarrow> hart_step c c'"
| rel: "release l (c\<lparr>hart := h\<rparr>) = Ok c' \<Longrightarrow> hart_step c c'"
| on: "noff (cpus c h) = 0 \<Longrightarrow> hart_step c (intr_on (c\<lparr>hart := h\<rparr>))"
| off: "noff (cpus c h) = 0 \<Longrightarrow> hart_step c (intr_off (c\<lparr>hart := h\<rparr>))"

inductive harts_reach :: "core \<Rightarrow> bool" where
  start: "(\<And>l. locks c l = \<lparr>locked = False, holder = None\<rparr>) \<Longrightarrow> (\<And>h. noff (cpus c h) = 0) \<Longrightarrow> harts_reach c"
| step: "harts_reach c \<Longrightarrow> hart_step c c' \<Longrightarrow> harts_reach c'"

definition held_by :: "core \<Rightarrow> nat \<Rightarrow> lockid set" where
  "held_by c h = {l. locked (locks c l) \<and> holder (locks c l) = Some h}"

definition spin_inv :: "core \<Rightarrow> bool" where
  "spin_inv c \<longleftrightarrow>
     (\<forall>l. locked (locks c l) \<longleftrightarrow> holder (locks c l) \<noteq> None) \<and>
     (\<forall>h. finite (held_by c h) \<and> noff (cpus c h) = int (card (held_by c h)) \<and>
          (0 < noff (cpus c h) \<longrightarrow> \<not> intr c h))"

lemma acquire_ok_iff: "acquire l c = Ok c' \<longleftrightarrow> \<not> locked (locks c l) \<and> c' = acquired l c"
  by (auto simp: acquire_cases)

lemma spin_inv_acquired:
  assumes inv: "spin_inv c" and l: "\<not> locked (locks c l)"
  shows "spin_inv (acquired l (c\<lparr>hart := h\<rparr>))"
proof -
  have "held_by (acquired l (c\<lparr>hart := h\<rparr>)) k = (if k = h then insert l (held_by c k) else held_by c k)" for k
    using l by (auto simp: held_by_def acquired_fields)
  moreover have "l \<notin> held_by c h" using l by (simp add: held_by_def)
  ultimately show ?thesis using inv l
    by (auto simp: spin_inv_def acquired_fields mycpu_def)
qed

lemma spin_inv_release:
  assumes inv: "spin_inv c" and r: "release l (c\<lparr>hart := h\<rparr>) = Ok c'"
  shows "spin_inv c'"
proof -
  have l: "l \<in> held_by c h" using r by (auto simp: release_def holding_def held_by_def split: if_splits)
  have f: "finite (held_by c h)" and n: "noff (cpus c h) = int (card (held_by c h))"
    using inv by (auto simp: spin_inv_def)
  then have pos: "0 < card (held_by c h)" using l by (auto simp: card_gt_0_iff)
  have locks': "locks c' = (locks c)(l := \<lparr>locked = False, holder = None\<rparr>)"
    and cpus': "cpus c' = (cpus c)(h := (cpus c h)\<lparr>noff := noff (cpus c h) - 1\<rparr>)"
    and intr': "intr c' = (if noff (cpus c h) = 1 \<and> intena (cpus c h) then (intr c)(h := True) else intr c)"
    using r by (cases "locks c l", auto simp: release_def core_defs split: if_splits)+
  have held': "held_by c' k = (if k = h then held_by c h - {l} else held_by c k)" for k
    using l by (auto simp: held_by_def locks')
  have "int (card (held_by c h - {l})) = noff (cpus c h) - 1"
    using f l n pos by (simp add: card_Diff_singleton of_nat_diff)
  then show ?thesis
    using inv f by (auto simp: spin_inv_def held' locks' cpus' intr')
qed

lemma harts_reach_inv: "harts_reach c \<Longrightarrow> spin_inv c"
proof (induction rule: harts_reach.induct)
  case (start c)
  then show ?case by (auto simp: spin_inv_def held_by_def)
next
  case (step c c')
  from step.hyps(2) step.IH show ?case
  proof cases
    case (acq l h)
    then show ?thesis using step.IH spin_inv_acquired by (auto simp: acquire_ok_iff)
  next
    case (rel l h)
    then show ?thesis using step.IH spin_inv_release by blast
  next
    case (on h)
    then show ?thesis using step.IH by (auto simp: spin_inv_def intr_on_def held_by_def)
  next
    case (off h)
    then show ?thesis using step.IH by (auto simp: spin_inv_def intr_off_def held_by_def)
  qed
qed

section \<open>Properties\<close>

text \<open>
  C23. Spin locks. Whatever sequence of acquisitions and releases the harts run, a hart that holds a lock
  has its interrupts off, every other hart that tries to acquire that lock spins, and the holder itself
  panics on a second acquisition; the nesting depth counts exactly the locks a hart holds.
\<close>

theorem spinlock_exclusion:
  assumes "harts_reach c" "holding l (c\<lparr>hart := h\<rparr>)"
  shows "\<not> intr c h \<and> (\<forall>k. k \<noteq> h \<longrightarrow> acquire l (c\<lparr>hart := k\<rparr>) = Wait \<and> release l (c\<lparr>hart := k\<rparr>) = Panic ''release'') \<and>
     acquire l (c\<lparr>hart := h\<rparr>) = Panic ''acquire'' \<and> noff (cpus c h) = int (card (held_by c h))"
proof -
  have l: "l \<in> held_by c h" using assms(2) by (simp add: holding_def held_by_def)
  have inv: "spin_inv c" using harts_reach_inv[OF assms(1)] .
  then have "0 < card (held_by c h)" using l by (auto simp: spin_inv_def card_gt_0_iff)
  then show ?thesis using inv l
    by (auto simp: spin_inv_def held_by_def acquire_cases release_def holding_def)
qed

definition boot_core :: core where
  "boot_core = \<lparr>hart = 0, intr = \<lambda>h. True, cpus = \<lambda>h. \<lparr>cproc = None, noff = 0, intena = False\<rparr>,
     locks = \<lambda>l. \<lparr>locked = False, holder = None\<rparr>\<rparr>"

theorem spinlock_exclusion_witness:
  "acquire LKmem ((acquired LKmem (boot_core\<lparr>hart := 1\<rparr>))\<lparr>hart := 2\<rparr>) = Wait \<and>
   \<not> intr (acquired LKmem (boot_core\<lparr>hart := 1\<rparr>)) 1"
proof -
  have "harts_reach boot_core" by (rule harts_reach.start) (simp_all add: boot_core_def)
  then have "harts_reach (acquired LKmem (boot_core\<lparr>hart := 1\<rparr>))"
    by (rule harts_reach.step) (rule hart_step.acq, simp add: boot_core_def lock_free_def)
  moreover have "holding LKmem ((acquired LKmem (boot_core\<lparr>hart := 1\<rparr>))\<lparr>hart := 1\<rparr>)"
    by (simp add: holding_def acquired_fields)
  ultimately show ?thesis using spinlock_exclusion[of "acquired LKmem (boot_core\<lparr>hart := 1\<rparr>)" LKmem 1] by auto
qed

text \<open>
  Matched nesting. \<open>n\<close> calls of \<^verbatim>\<open>push_off\<close> followed by \<open>n\<close> of \<^verbatim>\<open>pop_off\<close> never panic and give back the
  interrupt flag and the nesting depth they started with.
\<close>

fun pop_offs :: "nat \<Rightarrow> core \<Rightarrow> core outcome" where
  "pop_offs 0 c = Ok c"
| "pop_offs (Suc n) c = obind (pop_off c) (pop_offs n)"

lemma pop_push: "core_ok c \<Longrightarrow> pop_off (push_off c) = Ok (settled c)"
  by (cases c) (auto simp: core_defs fun_eq_iff)

lemma core_ok_push: "core_ok c \<Longrightarrow> core_ok (push_off c) \<and> settled (push_off c) = push_off c"
  by (auto simp: core_defs)

theorem push_pop_nested:
  assumes "core_ok c"
  shows "\<exists>c'. pop_offs n ((push_off ^^ n) c) = Ok c' \<and> intr c' = intr c \<and> noff (mycpu c') = noff (mycpu c) \<and>
     locks c' = locks c"
proof -
  have "n = 0 \<or> pop_offs n ((push_off ^^ n) c) = Ok (settled c)"
  proof (induction n)
    case (Suc n)
    have ok: "core_ok ((push_off ^^ n) c)" for n
      using assms core_ok_push by (induction n) auto
    have st: "n = 0 \<or> settled ((push_off ^^ n) c) = (push_off ^^ n) c"
      using core_ok_push[OF ok[of "n - 1"]] by (cases n) auto
    have "pop_offs (Suc n) ((push_off ^^ Suc n) c) = pop_offs n (settled ((push_off ^^ n) c))"
      by (simp add: pop_push[OF ok])
    then show ?case using Suc.IH st by (cases "n = 0") auto
  qed simp
  then show ?thesis by (cases "n = 0") auto
qed

theorem push_pop_nested_witness:
  "\<exists>c'. pop_offs 2 ((push_off ^^ 2) boot_core) = Ok c' \<and> intr c' 0"
  using push_pop_nested[of boot_core 2] by (auto simp: core_ok_def boot_core_def mycpu_def)

end
