(* ===== verification/Memory.thy ===== *)
theory Memory
  imports Xv6_Prelude
begin

text \<open>
  Physical memory as bytes, and the constants and macros of \<^verbatim>\<open>kernel/riscv.h\<close> and
  \<^verbatim>\<open>kernel/memlayout.h\<close> that the memory code uses. Pointers are 64-bit words and wrap around as in C.
  A \<^verbatim>\<open>uint64\<close> is stored in eight bytes, the low one first.
\<close>

type_synonym phys = "uint64 \<Rightarrow> uchar"

section \<open>Loads and stores\<close>

definition load64 :: "phys \<Rightarrow> uint64 \<Rightarrow> uint64" where
  "load64 m a =
     ucast (m a) OR push_bit 8 (ucast (m (a + 1))) OR push_bit 16 (ucast (m (a + 2))) OR
     push_bit 24 (ucast (m (a + 3))) OR push_bit 32 (ucast (m (a + 4))) OR push_bit 40 (ucast (m (a + 5))) OR
     push_bit 48 (ucast (m (a + 6))) OR push_bit 56 (ucast (m (a + 7)))"

definition store64 :: "phys \<Rightarrow> uint64 \<Rightarrow> uint64 \<Rightarrow> phys" where
  "store64 m a v =
     m(a := ucast v, a + 1 := ucast (drop_bit 8 v), a + 2 := ucast (drop_bit 16 v),
       a + 3 := ucast (drop_bit 24 v), a + 4 := ucast (drop_bit 32 v), a + 5 := ucast (drop_bit 40 v),
       a + 6 := ucast (drop_bit 48 v), a + 7 := ucast (drop_bit 56 v))"

text \<open>Address \<open>x\<close> is one of the \<open>n\<close> bytes from \<open>a\<close> on.\<close>

definition in_range :: "uint64 \<Rightarrow> nat \<Rightarrow> uint64 \<Rightarrow> bool" where
  "in_range a n x \<longleftrightarrow> unat (x - a) < n"

lemma bytes_of_word:
  fixes v :: uint64
  shows "ucast (ucast v :: uchar) OR push_bit 8 (ucast (ucast (drop_bit 8 v) :: uchar)) OR
     push_bit 16 (ucast (ucast (drop_bit 16 v) :: uchar)) OR push_bit 24 (ucast (ucast (drop_bit 24 v) :: uchar)) OR
     push_bit 32 (ucast (ucast (drop_bit 32 v) :: uchar)) OR push_bit 40 (ucast (ucast (drop_bit 40 v) :: uchar)) OR
     push_bit 48 (ucast (ucast (drop_bit 48 v) :: uchar)) OR push_bit 56 (ucast (ucast (drop_bit 56 v) :: uchar)) = v"
  (is "?bytes = v")
proof (rule bit_word_eqI)
  fix n assume "n < LENGTH(64)"
  then consider "n < 8" | "8 \<le> n" "n < 16" | "16 \<le> n" "n < 24" | "24 \<le> n" "n < 32" | "32 \<le> n" "n < 40"
    | "40 \<le> n" "n < 48" | "48 \<le> n" "n < 56" | "56 \<le> n" "n < 64" by fastforce
  then show "bit ?bytes n = bit v n"
    by cases (auto simp: bit_simps)
qed

lemma load_store_same [simp]: "load64 (store64 m a v) a = v"
  using bytes_of_word[of v] by (simp add: load64_def store64_def)

lemma in_range_8: "in_range a 8 x \<longleftrightarrow>
  x = a \<or> x = a + 1 \<or> x = a + 2 \<or> x = a + 3 \<or> x = a + 4 \<or> x = a + 5 \<or> x = a + 6 \<or> x = a + 7"
proof -
  have "unat d < 8 \<longleftrightarrow> d = 0 \<or> d = 1 \<or> d = 2 \<or> d = 3 \<or> d = 4 \<or> d = 5 \<or> d = 6 \<or> d = 7" for d :: uint64
  proof
    assume "unat d < 8"
    then have "unat d \<in> {0, 1, 2, 3, 4, 5, 6, 7}" by auto
    then show "d = 0 \<or> d = 1 \<or> d = 2 \<or> d = 3 \<or> d = 4 \<or> d = 5 \<or> d = 6 \<or> d = 7"
      by (auto simp: word_unat_eq_iff)
  qed auto
  from this[of "x - a"] show ?thesis unfolding in_range_def
    by (auto simp: diff_eq_eq add.commute)
qed

lemma store64_other: "\<not> in_range a 8 x \<Longrightarrow> store64 m a v x = m x"
  by (simp add: in_range_8 store64_def)

lemma load64_cong: "(\<And>x. in_range b 8 x \<Longrightarrow> m x = m' x) \<Longrightarrow> load64 m b = load64 m' b"
  by (simp add: load64_def in_range_8)

section \<open>Pages\<close>

definition PGSIZE :: uint64 where
  "PGSIZE = 4096"

definition PGROUNDUP :: "uint64 \<Rightarrow> uint64" where
  "PGROUNDUP sz = (sz + PGSIZE - 1) AND NOT (PGSIZE - 1)"

definition PGROUNDDOWN :: "uint64 \<Rightarrow> uint64" where
  "PGROUNDDOWN a = a AND NOT (PGSIZE - 1)"

definition page_aligned :: "uint64 \<Rightarrow> bool" where
  "page_aligned a \<longleftrightarrow> a mod PGSIZE = 0"

abbreviation on_page :: "uint64 \<Rightarrow> uint64 \<Rightarrow> bool" where
  "on_page a x \<equiv> in_range a 4096 x"

lemma unat_64: "unat (x :: uint64) < 18446744073709551616"
  using unsigned_less[of x] by simp

lemma page_aligned_unat: "page_aligned a \<longleftrightarrow> unat a mod 4096 = 0"
  by (simp add: page_aligned_def PGSIZE_def word_unat_eq_iff unat_mod_distrib)

lemma on_page_iff:
  assumes "page_aligned a"
  shows "on_page a x \<longleftrightarrow> unat x div 4096 = unat a div 4096"
proof -
  obtain k where k: "unat a = 4096 * k" using assms by (auto simp: page_aligned_unat mod_eq_0_iff_dvd)
  have kx: "k < 4503599627370496" "unat x < 18446744073709551616"
    using unat_64[of a] unat_64[of x] by (simp_all add: k)
  have "unat (x - a) = (if a \<le> x then unat x - unat a else 2 ^ 64 + unat x - unat a)"
    by (auto simp: unat_sub_if_size word_size word_le_nat_alt)
  then show ?thesis using kx k
    by (auto simp: in_range_def word_le_nat_alt split: if_splits)
qed

lemma on_page_self: "on_page a a"
  by (simp add: in_range_def)

lemma pages_disjoint:
  "page_aligned a \<Longrightarrow> page_aligned b \<Longrightarrow> on_page a x \<Longrightarrow> on_page b x \<Longrightarrow> a = b"
  by (auto simp: on_page_iff page_aligned_unat word_unat_eq_iff dvd_div_eq_iff mod_eq_0_iff_dvd)

lemma in_range_mono: "in_range a m x \<Longrightarrow> m \<le> n \<Longrightarrow> in_range a n x"
  by (simp add: in_range_def)

lemma load64_other_page:
  assumes "page_aligned a" "page_aligned b" "a \<noteq> b" "\<And>x. \<not> on_page a x \<Longrightarrow> m' x = m x"
  shows "load64 m' b = load64 m b"
proof (rule load64_cong)
  fix x assume "in_range b 8 x"
  then have "on_page b x" by (rule in_range_mono) simp
  then show "m' x = m x" using assms pages_disjoint by metis
qed

section \<open>Page table entries\<close>

definition PTE_V :: uint64 where "PTE_V = push_bit 0 1"
definition PTE_R :: uint64 where "PTE_R = push_bit 1 1"
definition PTE_W :: uint64 where "PTE_W = push_bit 2 1"
definition PTE_X :: uint64 where "PTE_X = push_bit 3 1"
definition PTE_U :: uint64 where "PTE_U = push_bit 4 1"

lemmas PTE_bits = PTE_V_def PTE_R_def PTE_W_def PTE_X_def PTE_U_def

definition PA2PTE :: "uint64 \<Rightarrow> uint64" where
  "PA2PTE pa = push_bit 10 (drop_bit 12 pa)"

definition PTE2PA :: "uint64 \<Rightarrow> uint64" where
  "PTE2PA pte = push_bit 12 (drop_bit 10 pte)"

definition PTE_FLAGS :: "uint64 \<Rightarrow> uint64" where
  "PTE_FLAGS pte = pte AND 0x3FF"

definition PXMASK :: uint64 where
  "PXMASK = 0x1FF"

definition PXSHIFT :: "nat \<Rightarrow> nat" where
  "PXSHIFT level = 12 + 9 * level"

definition PX :: "nat \<Rightarrow> uint64 \<Rightarrow> uint64" where
  "PX level va = drop_bit (PXSHIFT level) va AND PXMASK"

definition MAXVA :: uint64 where
  "MAXVA = push_bit (9 + 9 + 9 + 12 - 1) 1"

section \<open>Memory layout\<close>

definition UART0 :: uint64 where "UART0 = 0x10000000"
definition VIRTIO0 :: uint64 where "VIRTIO0 = 0x10001000"
definition PLIC :: uint64 where "PLIC = 0x0c000000"
definition KERNBASE :: uint64 where "KERNBASE = 0x80000000"
definition PHYSTOP :: uint64 where "PHYSTOP = KERNBASE + 128 * 1024 * 1024"
definition TRAMPOLINE :: uint64 where "TRAMPOLINE = MAXVA - PGSIZE"
definition TRAPFRAME :: uint64 where "TRAPFRAME = TRAMPOLINE - PGSIZE"
definition KSTACK :: "nat \<Rightarrow> uint64" where "KSTACK p = TRAMPOLINE - of_nat (p + 1) * 2 * PGSIZE"

lemma bit_below:
  assumes "unat (w :: 'a::len word) < 2 ^ k" "bit w n"
  shows "n < k"
proof (rule ccontr)
  assume "\<not> n < k"
  then have "(2::nat) ^ k \<le> 2 ^ n" by (intro power_increasing) auto
  with assms(1) have "unat w < 2 ^ n" by (rule less_le_trans)
  then have "unat w div 2 ^ n = 0" by (rule div_less)
  moreover have "bit (unat w) n" using assms(2) by (simp add: bit_unsigned_iff)
  ultimately show False by (simp add: bit_iff_odd)
qed

lemma bit_page_aligned: "page_aligned a \<Longrightarrow> bit a n \<Longrightarrow> 12 \<le> n"
proof (rule ccontr)
  assume a: "page_aligned a" "bit a n" "\<not> 12 \<le> n"
  have "take_bit 12 a = 0" using a(1) by (simp add: page_aligned_def PGSIZE_def take_bit_eq_mod)
  moreover have "bit (take_bit 12 a) n" using a(2,3) by (simp add: bit_take_bit_iff)
  ultimately show False by simp
qed

lemma page_aligned_bits: "page_aligned a \<longleftrightarrow> (\<forall>n < 12. \<not> bit a n)"
proof
  assume "\<forall>n < 12. \<not> bit a n"
  then have "take_bit 12 a = 0" by (intro bit_word_eqI) (simp add: bit_take_bit_iff)
  then show "page_aligned a" by (simp add: page_aligned_def PGSIZE_def take_bit_eq_mod)
qed (use bit_page_aligned in force)

lemma bit_mask_const:
  "bit (0x3FF :: int) n \<longleftrightarrow> n < 10" "bit (0x1FF :: int) n \<longleftrightarrow> n < 9" "bit (0xFFF :: int) n \<longleftrightarrow> n < 12"
proof -
  have "bit (mask k :: int) n \<longleftrightarrow> n < k" for k
    by (simp add: bit_mask_iff)
  from this[of 10] this[of 9] this[of 12]
  show "bit (0x3FF :: int) n \<longleftrightarrow> n < 10" "bit (0x1FF :: int) n \<longleftrightarrow> n < 9" "bit (0xFFF :: int) n \<longleftrightarrow> n < 12"
    by (simp_all add: mask_eq_exp_minus_1)
qed

lemma PTE2PA_PA2PTE:
  assumes "page_aligned pa" "unat pa < 2 ^ 56" "unat perm < 2 ^ 10"
  shows "PTE2PA (PA2PTE pa OR perm) = pa" and "PTE_FLAGS (PA2PTE pa OR perm) = perm"
proof -
  have pa: "\<And>n. bit pa n \<Longrightarrow> 12 \<le> n \<and> n < 56" and perm: "\<And>n. bit perm n \<Longrightarrow> n < 10"
    using bit_page_aligned[OF assms(1)] bit_below[OF assms(2)] bit_below[OF assms(3)] by auto
  show "PTE2PA (PA2PTE pa OR perm) = pa"
    by (rule bit_word_eqI) (use pa perm in \<open>auto simp: PTE2PA_def PA2PTE_def bit_simps\<close>)
  show "PTE_FLAGS (PA2PTE pa OR perm) = perm"
    by (rule bit_word_eqI) (use perm in \<open>auto simp: PTE_FLAGS_def PA2PTE_def bit_simps bit_mask_const\<close>)
qed

lemma page_aligned_PTE2PA [simp]: "page_aligned (PTE2PA pte)"
  by (simp add: page_aligned_bits PTE2PA_def bit_simps)

lemma page_aligned_PGROUNDDOWN [simp]: "page_aligned (PGROUNDDOWN a)"
  by (simp add: page_aligned_bits PGROUNDDOWN_def PGSIZE_def bit_simps bit_mask_const)

lemma page_aligned_PGROUNDUP [simp]: "page_aligned (PGROUNDUP a)"
  by (simp add: page_aligned_bits PGROUNDUP_def PGSIZE_def bit_simps bit_mask_const)

lemma unat_PGROUNDDOWN: "unat (PGROUNDDOWN a) = unat a div 4096 * 4096"
proof -
  have "unat (PGROUNDDOWN a) = push_bit 12 (drop_bit 12 (unat a))"
    by (rule bit_eqI) (auto simp: PGROUNDDOWN_def PGSIZE_def bit_simps bit_mask_const bit_unsigned_iff dest: bit_imp_le_length)
  then show ?thesis by (simp add: push_bit_eq_mult drop_bit_eq_div)
qed

lemma PGROUNDUP_down: "PGROUNDUP a = PGROUNDDOWN (a + 4095)"
  by (simp add: PGROUNDUP_def PGROUNDDOWN_def PGSIZE_def add.commute)

lemma unat_PGROUNDUP:
  assumes "unat a + 4095 < 2 ^ 64"
  shows "unat (PGROUNDUP a) = (unat a + 4095) div 4096 * 4096"
proof -
  have "unat (a + 4095) = unat a + 4095" using assms by (simp add: unat_word_ariths(1))
  then show ?thesis by (simp add: PGROUNDUP_down unat_PGROUNDDOWN)
qed

end
