(* ===== verification/Kstring.thy ===== *)
theory Kstring
  imports Memory
begin

text \<open>
  The byte and string routines of \<^verbatim>\<open>kernel/string.c\<close> on physical memory. Lengths are natural numbers
  (the callers pass at most a page or a block), pointers are words. The lemmas give each routine in closed form:
  what a loop over the bytes leaves at every address. \<^verbatim>\<open>strlen\<close> runs until it finds a zero byte, so it is a
  partial function, with a lemma that it returns whenever there is one.
\<close>

section \<open>The routines\<close>

fun memset_loop :: "phys \<Rightarrow> uint64 \<Rightarrow> uchar \<Rightarrow> nat \<Rightarrow> nat \<Rightarrow> phys" where
  "memset_loop m dst c i 0 = m"
| "memset_loop m dst c i (Suc k) = memset_loop (m(dst + of_nat i := c)) dst c (Suc i) k"

definition memset :: "phys \<Rightarrow> uint64 \<Rightarrow> uchar \<Rightarrow> nat \<Rightarrow> phys" where
  "memset m dst c n = memset_loop m dst c 0 n"

fun memcmp :: "phys \<Rightarrow> uint64 \<Rightarrow> uint64 \<Rightarrow> nat \<Rightarrow> int" where
  "memcmp m s1 s2 0 = 0"
| "memcmp m s1 s2 (Suc n) =
     (if m s1 \<noteq> m s2 then uint (m s1) - uint (m s2) else memcmp m (s1 + 1) (s2 + 1) n)"

fun move_down :: "phys \<Rightarrow> uint64 \<Rightarrow> uint64 \<Rightarrow> nat \<Rightarrow> phys" where
  "move_down m d s 0 = m"
| "move_down m d s (Suc n) = move_down (m(d - 1 := m (s - 1))) (d - 1) (s - 1) n"

fun move_up :: "phys \<Rightarrow> uint64 \<Rightarrow> uint64 \<Rightarrow> nat \<Rightarrow> phys" where
  "move_up m d s 0 = m"
| "move_up m d s (Suc n) = move_up (m(d := m s)) (d + 1) (s + 1) n"

definition memmove :: "phys \<Rightarrow> uint64 \<Rightarrow> uint64 \<Rightarrow> nat \<Rightarrow> phys" where
  "memmove m dst src n =
     (if n = 0 then m
      else if src < dst \<and> src + of_nat n > dst
      then move_down m (dst + of_nat n) (src + of_nat n) n
      else move_up m dst src n)"

definition memcpy :: "phys \<Rightarrow> uint64 \<Rightarrow> uint64 \<Rightarrow> nat \<Rightarrow> phys" where
  "memcpy m dst src n = memmove m dst src n"

fun strncmp :: "phys \<Rightarrow> uint64 \<Rightarrow> uint64 \<Rightarrow> nat \<Rightarrow> int" where
  "strncmp m p q 0 = 0"
| "strncmp m p q (Suc n) =
     (if m p \<noteq> 0 \<and> m p = m q then strncmp m (p + 1) (q + 1) n
      else uint (m p) - uint (m q))"

fun strncpy_pad :: "phys \<Rightarrow> uint64 \<Rightarrow> nat \<Rightarrow> phys" where
  "strncpy_pad m s 0 = m"
| "strncpy_pad m s (Suc n) = strncpy_pad (m(s := 0)) (s + 1) n"

fun strncpy :: "phys \<Rightarrow> uint64 \<Rightarrow> uint64 \<Rightarrow> nat \<Rightarrow> phys" where
  "strncpy m s t 0 = m"
| "strncpy m s t (Suc n) =
     (let m' = m(s := m t) in
      if m t \<noteq> 0 then strncpy m' (s + 1) (t + 1) n else strncpy_pad m' (s + 1) n)"

text \<open>The loop of \<^verbatim>\<open>safestrcpy\<close> copies at most \<open>n\<close> bytes, then stores the terminating zero.\<close>

fun safestrcpy_loop :: "phys \<Rightarrow> uint64 \<Rightarrow> uint64 \<Rightarrow> nat \<Rightarrow> phys" where
  "safestrcpy_loop m s t 0 = m(s := 0)"
| "safestrcpy_loop m s t (Suc n) =
     (let m' = m(s := m t) in
      if m t \<noteq> 0 then safestrcpy_loop m' (s + 1) (t + 1) n else m'(s + 1 := 0))"

definition safestrcpy :: "phys \<Rightarrow> uint64 \<Rightarrow> uint64 \<Rightarrow> int \<Rightarrow> phys" where
  "safestrcpy m s t n = (if n \<le> 0 then m else safestrcpy_loop m s t (nat (n - 1)))"

partial_function (option) strlen_from :: "phys \<Rightarrow> uint64 \<Rightarrow> nat \<Rightarrow> nat option" where
  "strlen_from m s n = (if m (s + of_nat n) = 0 then Some n else strlen_from m s (n + 1))"

definition strlen :: "phys \<Rightarrow> uint64 \<Rightarrow> nat option" where
  "strlen m s = strlen_from m s 0"

section \<open>Closed forms\<close>

lemma in_range_0 [simp]: "\<not> in_range a 0 x"
  by (simp add: in_range_def)

lemma in_range_Suc:
  assumes "Suc n \<le> 2 ^ 64"
  shows "in_range a (Suc n) x \<longleftrightarrow> x = a \<or> in_range (a + 1) n x"
proof (cases "x = a")
  case False
  then have "x - a \<noteq> 0" by simp
  then have "unat (x - (a + 1)) = unat (x - a) - 1" "unat (x - a) \<noteq> 0"
    unfolding diff_diff_eq[symmetric] by (simp_all add: unat_minus_one unat_eq_zero del: diff_diff_eq)
  then show ?thesis using False unfolding in_range_def by auto
qed (simp add: in_range_def)

lemma not_in_range_self: "n < 2 ^ 64 \<Longrightarrow> \<not> in_range (a + 1) n a"
  by (simp add: in_range_def unsigned_minus_1_eq_mask mask_eq_exp_minus_1)

lemma memset_loop_eq:
  "i + k \<le> 2 ^ 64 \<Longrightarrow>
   memset_loop m dst c i k = (\<lambda>x. if in_range (dst + of_nat i) k x then c else m x)"
proof (induction k arbitrary: m i)
  case (Suc k)
  then have "memset_loop m dst c i (Suc k) =
      (\<lambda>x. if in_range (dst + of_nat (Suc i)) k x then c else (m(dst + of_nat i := c)) x)"
    by simp
  then show ?case using Suc.prems
    by (auto simp: fun_eq_iff in_range_Suc[of k] add_ac)
qed simp

lemma memset_eq: "n \<le> 2 ^ 64 \<Longrightarrow> memset m dst c n = (\<lambda>x. if in_range dst n x then c else m x)"
  by (simp add: memset_def memset_loop_eq)

lemma in_range_iff: "in_range a n x \<longleftrightarrow> (\<exists>i < n. x = a + of_nat i)"
proof
  assume "in_range a n x"
  then show "\<exists>i < n. x = a + of_nat i"
    by (intro exI[of _ "unat (x - a)"]) (simp add: in_range_def)
next
  assume "\<exists>i < n. x = a + of_nat i"
  then obtain i where i: "i < n" "x = a + of_nat i" by blast
  have "unat (of_nat i :: uint64) \<le> i" by (simp add: unsigned_of_nat take_bit_eq_mod)
  then show "in_range a n x" using i by (simp add: in_range_def)
qed

lemma move_up_spec:
  assumes "\<And>i j. j < i \<Longrightarrow> i < n \<Longrightarrow> d + of_nat j \<noteq> s + of_nat i" "n \<le> 2 ^ 64"
  shows "(\<forall>i < n. move_up m d s n (d + of_nat i) = m (s + of_nat i)) \<and>
         (\<forall>x. \<not> in_range d n x \<longrightarrow> move_up m d s n x = m x)"
  using assms
proof (induction n arbitrary: m d s)
  case (Suc n)
  let ?m = "m(d := m s)" let ?res = "move_up ?m (d + 1) (s + 1) n"
  have "d + 1 + of_nat j \<noteq> s + 1 + of_nat i" if "j < i" "i < n" for i j
    using Suc.prems(1)[of "Suc j" "Suc i"] that by (simp add: add_ac)
  then have "(\<forall>i < n. ?res (d + 1 + of_nat i) = ?m (s + 1 + of_nat i)) \<and>
      (\<forall>x. \<not> in_range (d + 1) n x \<longrightarrow> ?res x = ?m x)"
    using Suc.prems(2) by (intro Suc.IH) simp_all
  then have IH: "\<And>i. i < n \<Longrightarrow> ?res (d + 1 + of_nat i) = ?m (s + 1 + of_nat i)"
      "\<And>x. \<not> in_range (d + 1) n x \<Longrightarrow> ?res x = ?m x"
    by blast+
  have "?res (d + of_nat i) = m (s + of_nat i)" if "i < Suc n" for i
  proof (cases i)
    case 0
    then show ?thesis using IH(2)[of d] not_in_range_self[of n d] Suc.prems(2) by simp
  next
    case (Suc k)
    then have "s + 1 + of_nat k \<noteq> d" using Suc.prems(1)[of 0 "Suc k"] that by (simp add: add_ac)
    then show ?thesis using IH(1)[of k] Suc that by (simp add: add_ac)
  qed
  moreover have "?res x = m x" if "\<not> in_range d (Suc n) x" for x
    using that IH(2)[of x] Suc.prems(2) by (simp add: in_range_Suc)
  ultimately show ?case by simp
qed simp

lemma move_down_spec:
  assumes "\<And>i j. i < j \<Longrightarrow> j < n \<Longrightarrow> D + of_nat j \<noteq> S + of_nat i" "n \<le> 2 ^ 64"
  shows "(\<forall>i < n. move_down m (D + of_nat n) (S + of_nat n) n (D + of_nat i) = m (S + of_nat i)) \<and>
         (\<forall>x. \<not> in_range D n x \<longrightarrow> move_down m (D + of_nat n) (S + of_nat n) n x = m x)"
  using assms
proof (induction n arbitrary: m)
  case (Suc n)
  let ?m = "m(D + of_nat n := m (S + of_nat n))"
  let ?res = "move_down ?m (D + of_nat n) (S + of_nat n) n"
  have "(\<forall>i < n. ?res (D + of_nat i) = ?m (S + of_nat i)) \<and> (\<forall>x. \<not> in_range D n x \<longrightarrow> ?res x = ?m x)"
    using Suc.prems by (intro Suc.IH) simp_all
  then have IH: "\<And>i. i < n \<Longrightarrow> ?res (D + of_nat i) = ?m (S + of_nat i)"
      "\<And>x. \<not> in_range D n x \<Longrightarrow> ?res x = ?m x"
    by blast+
  have eq: "move_down m (D + of_nat (Suc n)) (S + of_nat (Suc n)) (Suc n) = ?res"
    by (simp add: add_ac diff_add_eq)
  have last: "\<not> in_range D n (D + of_nat n)"
    using Suc.prems(2) by (simp add: in_range_def unsigned_of_nat take_bit_eq_mod)
  have "?res (D + of_nat i) = m (S + of_nat i)" if "i < Suc n" for i
  proof (cases "i = n")
    case True
    then show ?thesis using IH(2)[OF last] by simp
  next
    case False
    then have "i < n" using that by simp
    then show ?thesis using IH(1)[of i] Suc.prems(1)[of i n] by auto
  qed
  moreover have "?res x = m x" if "\<not> in_range D (Suc n) x" for x
  proof -
    have "x \<noteq> D + of_nat n" "\<not> in_range D n x" using that by (auto simp: in_range_iff less_Suc_eq)
    then show ?thesis using IH(2)[of x] by simp
  qed
  ultimately show ?case unfolding eq by blast
qed simp

text \<open>Addresses in a range that does not wrap around.\<close>

lemma unat_add_offset: "unat (a :: uint64) + i < 2 ^ 64 \<Longrightarrow> unat (a + of_nat i) = unat a + i"
  by (simp add: unat_word_ariths(1) unsigned_of_nat take_bit_eq_mod)

lemma memmove_spec:
  assumes "unat src + n < 2 ^ 64" "unat dst + n < 2 ^ 64"
  shows "memmove m dst src n = (\<lambda>x. if in_range dst n x then m (src + (x - dst)) else m x)"
proof -
  have ne: "dst + of_nat j \<noteq> src + of_nat i" if "unat dst + j \<noteq> unat src + i" "i < n" "j < n" for i j
    using unat_add_offset[of dst j] unat_add_offset[of src i] assms that by auto
  let ?r = "memmove m dst src n"
  have "(\<forall>i < n. ?r (dst + of_nat i) = m (src + of_nat i)) \<and> (\<forall>x. \<not> in_range dst n x \<longrightarrow> ?r x = m x)"
  proof (cases "src < dst \<and> src + of_nat n > dst")
    case True
    then have "unat src < unat dst" by (simp add: word_less_nat_alt)
    then show ?thesis using True move_down_spec[of n dst src m] ne assms
      by (auto simp: memmove_def)
  next
    case False
    then have "unat dst \<le> unat src \<or> unat src + n \<le> unat dst"
      using unat_add_offset[OF assms(1)] by (auto simp: word_less_nat_alt)
    then have "d + j \<noteq> s + i" if "j < i" "i < n" "d = unat dst" "s = unat src" for d s i j
      using that by auto
    then show ?thesis using False move_up_spec[of n dst src m] ne assms
      by (auto simp: memmove_def)
  qed
  then show ?thesis by (auto simp: fun_eq_iff in_range_iff)
qed

section \<open>Buffers and C strings as lists\<close>

text \<open>The \<open>n\<close> bytes at an address, and the C string in a buffer: the bytes before the first zero.\<close>

definition bytes_at :: "phys \<Rightarrow> uint64 \<Rightarrow> nat \<Rightarrow> uchar list" where
  "bytes_at m a n = map (\<lambda>i. m (a + of_nat i)) [0..<n]"

definition cstr :: "uchar list \<Rightarrow> uchar list" where
  "cstr xs = takeWhile (\<lambda>c. c \<noteq> 0) xs"

text \<open>The same routines on buffers that are fields of kernel structures.\<close>

fun strncmp_list :: "uchar list \<Rightarrow> uchar list \<Rightarrow> int" where
  "strncmp_list (a # as) (b # bs) =
     (if a \<noteq> 0 \<and> a = b then strncmp_list as bs else uint a - uint b)"
| "strncmp_list _ _ = 0"

definition strncpy_list :: "uchar list \<Rightarrow> nat \<Rightarrow> uchar list" where
  "strncpy_list t n = take n (cstr t) @ replicate (n - length (cstr t)) 0"

definition safestrcpy_list :: "uchar list \<Rightarrow> nat \<Rightarrow> uchar list" where
  "safestrcpy_list t n = take (n - 1) (cstr t)"

lemma bytes_at_0 [simp]: "bytes_at m a 0 = []"
  by (simp add: bytes_at_def)

lemma bytes_at_Suc [simp]: "bytes_at m a (Suc n) = m a # bytes_at m (a + 1) n"
  by (simp add: bytes_at_def upt_conv_Cons map_Suc_upt[symmetric] add_ac del: upt_Suc)

lemma bytes_at_numeral [simp]:
  "bytes_at m a (numeral k) = m a # bytes_at m (a + 1) (pred_numeral k)"
  by (simp only: numeral_eq_Suc bytes_at_Suc)

lemma length_bytes_at [simp]: "length (bytes_at m a n) = n"
  by (simp add: bytes_at_def)

lemma bytes_at_nth: "i < n \<Longrightarrow> bytes_at m a n ! i = m (a + of_nat i)"
  by (simp add: bytes_at_def)

lemma bytes_at_cong: "(\<And>x. in_range a n x \<Longrightarrow> m x = m' x) \<Longrightarrow> bytes_at m a n = bytes_at m' a n"
  by (fastforce simp: bytes_at_def in_range_iff)

lemma cstr_simps [simp]: "cstr [] = []" "cstr (c # xs) = (if c = 0 then [] else c # cstr xs)"
  by (simp_all add: cstr_def)

lemma strncmp_bytes: "strncmp m p q n = strncmp_list (bytes_at m p n) (bytes_at m q n)"
  by (induction n arbitrary: p q) simp_all

lemma strncmp_list_0: "length p = length q \<Longrightarrow> strncmp_list p q = 0 \<longleftrightarrow> cstr p = cstr q"
  by (induction p q rule: strncmp_list.induct) (auto simp: word_uint_eq_iff)

lemma strlen_from_cstr:
  assumes "m (s + of_nat k) = 0" "n \<le> k" "\<And>i. n \<le> i \<Longrightarrow> i < k \<Longrightarrow> m (s + of_nat i) \<noteq> 0"
  shows "strlen_from m s n = Some k"
  using assms(2,3)
proof (induction "k - n" arbitrary: n)
  case 0
  then show ?case using assms(1) by (subst strlen_from.simps) simp
next
  case (Suc d)
  then have "strlen_from m s (n + 1) = Some k" by simp
  then show ?case using Suc by (subst strlen_from.simps) auto
qed

lemma strncpy_pad_eq: "n \<le> 2 ^ 64 \<Longrightarrow> strncpy_pad m s n = (\<lambda>x. if in_range s n x then 0 else m x)"
proof (induction n arbitrary: m s)
  case (Suc n)
  then have "strncpy_pad (m(s := 0)) (s + 1) n = (\<lambda>x. if in_range (s + 1) n x then 0 else (m(s := 0)) x)"
    by simp
  then show ?case using Suc.prems by (auto simp: fun_eq_iff in_range_Suc)
qed simp

lemma bytes_at_memset: "n \<le> 2 ^ 64 \<Longrightarrow> bytes_at (\<lambda>x. if in_range s n x then c else m x) s n = replicate n c"
  by (rule nth_equalityI) (auto simp: bytes_at_nth in_range_iff)

text \<open>Disjoint ranges.\<close>

definition disjoint :: "uint64 \<Rightarrow> nat \<Rightarrow> uint64 \<Rightarrow> nat \<Rightarrow> bool" where
  "disjoint a m b n \<longleftrightarrow> (\<forall>x. \<not> (in_range a m x \<and> in_range b n x))"

lemma in_range_unat: "in_range a n x \<Longrightarrow> unat a + n \<le> 2 ^ 64 \<Longrightarrow> unat a \<le> unat x \<and> unat x < unat a + n"
  using unat_add_offset[of a] by (auto simp: in_range_iff)

lemma disjointI:
  assumes "unat a + m \<le> 2 ^ 64" "unat b + n \<le> 2 ^ 64" "unat a + m \<le> unat b \<or> unat b + n \<le> unat a"
  shows "disjoint a m b n"
  using assms in_range_unat[OF _ assms(1)] in_range_unat[OF _ assms(2)] unfolding disjoint_def
  by (meson leD le_trans less_le_trans)

lemma disjoint_Suc:
  assumes "disjoint a (Suc n) b (Suc n)" "Suc n \<le> 2 ^ 64"
  shows "disjoint (a + 1) n (b + 1) n" "\<not> in_range (b + 1) n a" "a \<noteq> b"
  using assms by (auto simp: disjoint_def in_range_Suc)

lemma strncpy_spec:
  assumes "disjoint s n t n" "n \<le> 2 ^ 64"
  shows "bytes_at (strncpy m s t n) s n = strncpy_list (bytes_at m t n) n \<and>
         (\<forall>x. \<not> in_range s n x \<longrightarrow> strncpy m s t n x = m x)"
  using assms
proof (induction n arbitrary: m s t)
  case (Suc n)
  note d = disjoint_Suc[OF Suc.prems]
  let ?m = "m(s := m t)"
  have n: "\<not> in_range (s + 1) n s" using Suc.prems(2) by (intro not_in_range_self) simp
  show ?case
  proof (cases "m t = 0")
    case True
    have eq: "strncpy m s t (Suc n) = (\<lambda>x. if in_range (s + 1) n x then 0 else (m(s := 0)) x)"
      using True Suc.prems(2) by (simp add: strncpy_pad_eq)
    show ?thesis unfolding eq using True n Suc.prems(2)
      by (auto simp: bytes_at_memset strncpy_list_def in_range_Suc)
  next
    case False
    have IH: "bytes_at (strncpy ?m (s + 1) (t + 1) n) (s + 1) n = strncpy_list (bytes_at ?m (t + 1) n) n \<and>
        (\<forall>x. \<not> in_range (s + 1) n x \<longrightarrow> strncpy ?m (s + 1) (t + 1) n x = ?m x)"
      using d Suc.prems(2) by (intro Suc.IH) simp_all
    have "bytes_at ?m (t + 1) n = bytes_at m (t + 1) n"
      using d(2) by (intro bytes_at_cong) auto
    then show ?thesis using IH False n Suc.prems(2)
      by (auto simp: strncpy_list_def in_range_Suc)
  qed
qed (simp add: strncpy_list_def)

lemma safestrcpy_loop_spec:
  assumes "disjoint s (Suc n) t (Suc n)" "Suc n \<le> 2 ^ 64"
  shows "cstr (bytes_at (safestrcpy_loop m s t n) s (Suc n)) = take n (cstr (bytes_at m t n)) \<and>
         0 \<in> set (bytes_at (safestrcpy_loop m s t n) s (Suc n)) \<and>
         (\<forall>x. \<not> in_range s (Suc n) x \<longrightarrow> safestrcpy_loop m s t n x = m x)"
  using assms
proof (induction n arbitrary: m s t)
  case 0
  then show ?case by (simp add: in_range_Suc)
next
  case (Suc n)
  note d = disjoint_Suc[OF Suc.prems]
  let ?m = "m(s := m t)"
  have n: "\<not> in_range (s + 1) (Suc n) s" using Suc.prems(2) by (intro not_in_range_self) simp
  show ?case
  proof (cases "m t = 0")
    case True
    then show ?thesis using Suc.prems(2)
      by (simp add: in_range_Suc)
  next
    case False
    have IH: "cstr (bytes_at (safestrcpy_loop ?m (s + 1) (t + 1) n) (s + 1) (Suc n)) = take n (cstr (bytes_at ?m (t + 1) n)) \<and>
        0 \<in> set (bytes_at (safestrcpy_loop ?m (s + 1) (t + 1) n) (s + 1) (Suc n)) \<and>
        (\<forall>x. \<not> in_range (s + 1) (Suc n) x \<longrightarrow> safestrcpy_loop ?m (s + 1) (t + 1) n x = ?m x)"
      using d Suc.prems(2) by (intro Suc.IH) simp_all
    have "bytes_at ?m (t + 1) n = bytes_at m (t + 1) n"
      using d(2) by (intro bytes_at_cong) (auto intro: in_range_mono)
    moreover have "bytes_at (safestrcpy_loop m s t (Suc n)) s (Suc (Suc n)) =
        m t # bytes_at (safestrcpy_loop ?m (s + 1) (t + 1) n) (s + 1) (Suc n)"
      using False IH n by (subst bytes_at_Suc) (simp del: bytes_at_Suc)
    ultimately show ?thesis using IH False n Suc.prems(2)
      by (auto simp: in_range_Suc[of "Suc n"] bytes_at_Suc[of m t n] simp del: bytes_at_Suc)
  qed
qed

section \<open>Properties\<close>

text \<open>
  C35. \<^verbatim>\<open>memmove\<close> is right on overlapping ranges. For ranges that do not wrap around the address space, every
  byte of the destination becomes the byte the source held before the call, and nothing else changes.
\<close>

theorem memmove_overlap:
  assumes "unat src + n < 2 ^ 64" "unat dst + n < 2 ^ 64"
  shows "bytes_at (memmove m dst src n) dst n = bytes_at m src n \<and>
     (\<forall>x. \<not> in_range dst n x \<longrightarrow> memmove m dst src n x = m x)"
proof -
  have "in_range dst n (dst + of_nat i)" if "i < n" for i using that by (auto simp: in_range_iff)
  then show ?thesis unfolding memmove_spec[OF assms]
    by (auto simp: bytes_at_nth intro!: nth_equalityI)
qed

theorem memmove_overlap_witness:
  "bytes_at (memmove (\<lambda>x. ucast x) 2 0 4) 2 4 = [0, 1, 2, 3]"
  using memmove_overlap[of 0 4 2 "\<lambda>x. ucast x"] by simp



end
