(* ===== verification/Kalloc.thy ===== *)
theory Kalloc
  imports Spinlock Kstring
begin

text \<open>
  The physical page allocator, \<^verbatim>\<open>kernel/kalloc.c\<close>. The free list is threaded through the free pages themselves: the
  first eight bytes of a free page hold the address of the next one. The state extends the kernel by physical
  memory, the head of the list, and the linker's symbol \<^verbatim>\<open>end\<close>, which is not in the C sources.

  The abstraction \<open>kmem_inv\<close> relates the list in memory to a list of distinct pages; allocation and release are
  its \<open>tl\<close> and \<open>#\<close>. The locale \<open>page_allocator\<close> states that contract and shows, for every client, that pages in use
  are never handed out again; it is interpreted on \<open>kalloc\<close> and \<open>kfree\<close>.
\<close>

section \<open>State and operations\<close>

record kmem_state = kernel +
  mem :: phys
  freelist :: uint64
  kend :: uint64     \<comment> \<open>first address after the kernel, from the linker\<close>

definition kfree :: "uint64 \<Rightarrow> ('z kmem_state_scheme, unit) kern" where
  "kfree pa = (\<lambda>s.
     if pa mod PGSIZE \<noteq> 0 \<or> pa < kend s \<or> pa \<ge> PHYSTOP then Panic ''kfree''
     else seqs [
       modify (\<lambda>s. s\<lparr>mem := memset (mem s) pa 1 4096\<rparr>),
       acq LKmem,
       modify (\<lambda>s. s\<lparr>mem := store64 (mem s) pa (freelist s)\<rparr>),
       modify (\<lambda>s. s\<lparr>freelist := pa\<rparr>),
       rel LKmem] s)"

definition kalloc :: "('z kmem_state_scheme, uint64) kern" where
  "kalloc =
     thn (acq LKmem)
     (bnd (gets freelist) (\<lambda>r.
      thn (whenb (r \<noteq> 0) (modify (\<lambda>s. s\<lparr>freelist := load64 (mem s) r\<rparr>)))
     (thn (rel LKmem)
     (thn (whenb (r \<noteq> 0) (modify (\<lambda>s. s\<lparr>mem := memset (mem s) r 5 4096\<rparr>)))
      (ret r)))))"

lemma PHYSTOP_eq: "PHYSTOP = 0x88000000"
  by (simp add: PHYSTOP_def KERNBASE_def)

lemma kfree_guard: "kfree pa s = Ok r \<Longrightarrow> page_aligned pa \<and> kend s \<le> pa \<and> pa < PHYSTOP"
  by (auto simp: kfree_def page_aligned_def split: if_splits)

lemma next_page_unat: "pa < PHYSTOP \<Longrightarrow> unat (pa + PGSIZE) = unat pa + 4096"
  by (simp add: PHYSTOP_eq PGSIZE_def word_less_nat_alt unat_word_ariths(1))

text \<open>
  \<^verbatim>\<open>for(; p + PGSIZE <= (char*)pa_end; p += PGSIZE) kfree(p);\<close> ends because \<^verbatim>\<open>kfree\<close> panics from \<^verbatim>\<open>PHYSTOP\<close> on.
\<close>

function freerange_loop :: "uint64 \<Rightarrow> uint64 \<Rightarrow> ('z kmem_state_scheme, unit) kern" where
  "freerange_loop p pa_end s =
     (if p + PGSIZE \<le> pa_end then thn (kfree p) (freerange_loop (p + PGSIZE) pa_end) s
      else Ok ((), s))"
  by pat_completeness auto

termination
proof (relation "measure (\<lambda>(p, e, s). 0x88001000 - unat p)")
  fix p e :: uint64 and s t :: "'z kmem_state_scheme" and a
  assume "kfree p s = Ok (a, t)"
  then have "p < PHYSTOP" using kfree_guard by blast
  then show "((p + PGSIZE, e, t), p, e, s) \<in> measure (\<lambda>(p, e, s). 0x88001000 - unat p)"
    using next_page_unat[of p] by (simp add: PHYSTOP_eq word_less_nat_alt)
qed simp

definition freerange :: "uint64 \<Rightarrow> uint64 \<Rightarrow> ('z kmem_state_scheme, unit) kern" where
  "freerange pa_start pa_end = freerange_loop (PGROUNDUP pa_start) pa_end"

definition kinit :: "('z kmem_state_scheme, unit) kern" where
  "kinit = (\<lambda>s.
     seqs [on_core (\<lambda>c. Ok (initlock LKmem c)), freerange (kend s) PHYSTOP] s)"

section \<open>The free list\<close>

fun is_flist :: "phys \<Rightarrow> uint64 \<Rightarrow> uint64 list \<Rightarrow> bool" where
  "is_flist m h [] \<longleftrightarrow> h = 0"
| "is_flist m h (p # ps) \<longleftrightarrow> h = p \<and> is_flist m (load64 m p) ps"

definition valid_page :: "'z kmem_state_scheme \<Rightarrow> uint64 \<Rightarrow> bool" where
  "valid_page s p \<longleftrightarrow> page_aligned p \<and> kend s \<le> p \<and> p < PHYSTOP \<and> p \<noteq> 0"

definition kmem_inv :: "'z kmem_state_scheme \<Rightarrow> uint64 list \<Rightarrow> bool" where
  "kmem_inv s ps \<longleftrightarrow> is_flist (mem s) (freelist s) ps \<and> distinct ps \<and> (\<forall>p \<in> set ps. valid_page s p)"

text \<open>No process of this hart is in the middle of something that the allocator would disturb.\<close>

abbreviation ready :: "lockid \<Rightarrow> 'z kernel_scheme \<Rightarrow> bool" where
  "ready l s \<equiv> lock_free l (kcore s) \<and> core_ok (kcore s)"

lemma is_flist_cong:
  "(\<And>p. p \<in> set ps \<Longrightarrow> load64 m' p = load64 m p) \<Longrightarrow> is_flist m' h ps = is_flist m h ps"
  by (induction ps arbitrary: h) auto

lemma kmem_inv_unique: "is_flist m h ps \<Longrightarrow> is_flist m h qs \<Longrightarrow> (\<forall>p \<in> set ps \<union> set qs. p \<noteq> 0) \<Longrightarrow> ps = qs"
proof (induction ps arbitrary: h qs)
  case Nil
  then show ?case by (cases qs) auto
next
  case (Cons p ps)
  then show ?case by (cases qs) auto
qed

lemma is_flist_other_page:
  assumes "page_aligned pa" "pa \<notin> set ps" "\<forall>p \<in> set ps. page_aligned p"
    and "\<And>x. \<not> on_page pa x \<Longrightarrow> m' x = m x"
  shows "is_flist m' h ps = is_flist m h ps"
  using assms by (intro is_flist_cong load64_other_page[of pa]) auto

lemma page_write:
  assumes "\<not> on_page pa x"
  shows "store64 (memset m pa c 4096) pa v x = m x"
proof -
  have "\<not> in_range pa 8 x" using assms in_range_mono[of pa 8 x 4096] by auto
  then show ?thesis using assms by (simp add: memset_eq store64_other)
qed

lemma valid_page_cong: "kend t = kend s \<Longrightarrow> valid_page t = valid_page s"
  by (simp add: valid_page_def fun_eq_iff)

section \<open>What the operations do\<close>

lemma kfree_ok:
  assumes "ready LKmem s" "valid_page s pa"
  shows "kfree pa s = Ok ((), s\<lparr>mem := store64 (memset (mem s) pa 1 4096) pa (freelist s),
           kcore := settled (kcore s), freelist := pa\<rparr>)"
  using assms by (simp add: kfree_def valid_page_def page_aligned_def kern_simps not_le not_less)

lemma kalloc_ok:
  assumes "ready LKmem s"
  shows "kalloc s =
     (if freelist s = 0 then Ok (0, s\<lparr>kcore := settled (kcore s)\<rparr>)
      else Ok (freelist s, s\<lparr>kcore := settled (kcore s), freelist := load64 (mem s) (freelist s),
              mem := memset (mem s) (freelist s) 5 4096\<rparr>))"
  using assms by (simp add: kalloc_def kern_simps)

lemma kfree_inv:
  assumes "ready LKmem s" "valid_page s pa" "kmem_inv s ps" "pa \<notin> set ps"
  shows "\<exists>t. kfree pa s = Ok ((), t) \<and> kmem_inv t (pa # ps) \<and> kcore t = settled (kcore s) \<and> kend t = kend s \<and>
     (\<forall>x. \<not> on_page pa x \<longrightarrow> mem t x = mem s x)"
proof -
  let ?m = "store64 (memset (mem s) pa 1 4096) pa (freelist s)"
  have "is_flist ?m (freelist s) ps = is_flist (mem s) (freelist s) ps"
    using assms page_write by (intro is_flist_other_page[of pa]) (auto simp: valid_page_def kmem_inv_def)
  then show ?thesis
    using assms by (auto simp: kfree_ok kmem_inv_def valid_page_def page_write)
qed

lemma kalloc_inv:
  assumes "ready LKmem s" "kmem_inv s ps"
  shows "\<exists>t. kalloc s = Ok (case ps of [] \<Rightarrow> 0 | p # _ \<Rightarrow> p, t) \<and> kmem_inv t (tl ps) \<and>
     kcore t = settled (kcore s) \<and> kend t = kend s \<and>
     (\<forall>x. ps = [] \<or> \<not> on_page (hd ps) x \<longrightarrow> mem t x = mem s x) \<and>
     (\<forall>x. ps \<noteq> [] \<and> on_page (hd ps) x \<longrightarrow> mem t x = 5)"
proof (cases ps)
  case Nil
  then show ?thesis using assms by (simp add: kalloc_ok kmem_inv_def)
next
  case (Cons p qs)
  then have p: "valid_page s p" "freelist s = p" "p \<noteq> 0" using assms(2) by (auto simp: kmem_inv_def valid_page_def)
  have "is_flist (memset (mem s) p 5 4096) (load64 (mem s) p) qs = is_flist (mem s) (load64 (mem s) p) qs"
    using assms(2) Cons by (intro is_flist_other_page[of p]) (auto simp: kmem_inv_def valid_page_def memset_eq)
  then show ?thesis using assms Cons p
    by (auto simp: kalloc_ok kmem_inv_def valid_page_def memset_eq)
qed

text \<open>The pages from \<open>p\<close> on.\<close>

definition pages_from :: "uint64 \<Rightarrow> nat \<Rightarrow> uint64 list" where
  "pages_from p n = map (\<lambda>i. p + of_nat (4096 * i)) [0..<n]"

lemma pages_from_simps [simp]: "pages_from p 0 = []"
  "pages_from p (Suc n) = p # pages_from (p + PGSIZE) n"
  by (simp_all add: pages_from_def upt_conv_Cons map_Suc_upt[symmetric] PGSIZE_def add_ac del: upt_Suc)

declare freerange_loop.simps [simp del]

lemma freerange_loop_inv:
  assumes "page_aligned p" "unat p + 4096 * n = unat PHYSTOP" "kend s \<le> p" "p \<noteq> 0"
    and "ready LKmem s" "kmem_inv s ps" "\<forall>q \<in> set ps. q < p"
  shows "\<exists>t. freerange_loop p PHYSTOP s = Ok ((), t) \<and> kmem_inv t (rev (pages_from p n) @ ps) \<and>
     ready LKmem t \<and> kend t = kend s"
  using assms
proof (induction n arbitrary: p s ps)
  case 0
  then have "\<not> p + PGSIZE \<le> PHYSTOP"
    by (auto simp: word_le_nat_alt PGSIZE_def PHYSTOP_eq unat_word_ariths(1))
  then show ?case using 0 by (subst freerange_loop.simps) auto
next
  case (Suc n)
  have lt: "p < PHYSTOP" using Suc.prems(2) by (simp add: word_less_nat_alt)
  note nx = next_page_unat[OF lt]
  have go: "p + PGSIZE \<le> PHYSTOP" using Suc.prems(2) nx by (simp add: word_le_nat_alt)
  have "valid_page s p" using Suc.prems lt by (simp add: valid_page_def)
  moreover have "p \<notin> set ps" using Suc.prems(7) by auto
  ultimately obtain t where t: "kfree p s = Ok ((), t)" "kmem_inv t (p # ps)" "kcore t = settled (kcore s)" "kend t = kend s"
    using kfree_inv[OF Suc.prems(5) _ Suc.prems(6)] by blast
  have "page_aligned (p + PGSIZE)" using Suc.prems(1) nx by (simp add: page_aligned_unat)
  moreover have "kend t \<le> p + PGSIZE" "p + PGSIZE \<noteq> 0"
    using Suc.prems(3) nx t(4) by (auto simp: word_le_nat_alt word_unat_eq_iff)
  moreover have "\<forall>q \<in> set (p # ps). q < p + PGSIZE"
    using Suc.prems(7) nx by (auto simp: word_less_nat_alt)
  ultimately obtain u where "freerange_loop (p + PGSIZE) PHYSTOP t = Ok ((), u)"
      "kmem_inv u (rev (pages_from (p + PGSIZE) n) @ p # ps)" "ready LKmem u" "kend u = kend t"
    using Suc.IH[of "p + PGSIZE" t "p # ps"] Suc.prems(2,5) nx t by auto
  then show ?case using go t by (subst freerange_loop.simps) (simp add: kern_simps)
qed

section \<open>The contract of a page allocator\<close>

text \<open>A client that asks for pages and returns those it holds, in any order.\<close>

datatype page_request = Get | Put nat

fun serve ::
    "('s, 'p option) kern \<Rightarrow> ('p \<Rightarrow> ('s, unit) kern) \<Rightarrow> page_request list \<Rightarrow> 's \<times> 'p list \<Rightarrow> ('s \<times> 'p list) outcome" where
  "serve alloc dealloc [] (s, live) = Ok (s, live)"
| "serve alloc dealloc (Get # rs) (s, live) =
     obind (alloc s) (\<lambda>(r, t). serve alloc dealloc rs (t, case r of None \<Rightarrow> live | Some p \<Rightarrow> p # live))"
| "serve alloc dealloc (Put n # rs) (s, live) =
     (if n < length live
      then obind (dealloc (live ! n) s) (\<lambda>(_, t). serve alloc dealloc rs (t, take n live @ drop (Suc n) live))
      else serve alloc dealloc rs (s, live))"

locale page_allocator =
  fixes inv :: "'s \<Rightarrow> 'p set \<Rightarrow> bool"
    and page :: "'s \<Rightarrow> 'p \<Rightarrow> bool"
    and alloc :: "('s, 'p option) kern"
    and dealloc :: "'p \<Rightarrow> ('s, unit) kern"
  assumes alloc_ok: "inv s F \<Longrightarrow> \<exists>r t. alloc s = Ok (r, t) \<and> page t = page s \<and>
      (case r of None \<Rightarrow> F = {} \<and> inv t F | Some p \<Rightarrow> p \<in> F \<and> inv t (F - {p}))"
    and dealloc_ok: "inv s F \<Longrightarrow> page s p \<Longrightarrow> p \<notin> F \<Longrightarrow> \<exists>t. dealloc p s = Ok ((), t) \<and> page t = page s \<and> inv t (insert p F)"
    and free_page: "inv s F \<Longrightarrow> p \<in> F \<Longrightarrow> page s p"
begin

lemma take_drop_nth:
  assumes "n < length xs" "distinct xs"
  shows "distinct (take n xs @ drop (Suc n) xs)" "set (take n xs @ drop (Suc n) xs) = set xs - {xs ! n}"
proof -
  have "distinct (take n xs @ xs ! n # drop (Suc n) xs)" using assms by (simp add: id_take_nth_drop[symmetric])
  moreover have "set xs = set (take n xs @ xs ! n # drop (Suc n) xs)" using assms(1) by (simp add: id_take_nth_drop[symmetric])
  ultimately show "distinct (take n xs @ drop (Suc n) xs)" "set (take n xs @ drop (Suc n) xs) = set xs - {xs ! n}" by auto
qed

lemma serve_ok:
  assumes "inv s F" "distinct live" "set live \<inter> F = {}" "\<forall>p \<in> set live. page s p"
  shows "\<exists>t live' F'. serve alloc dealloc rs (s, live) = Ok (t, live') \<and> inv t F' \<and> distinct live' \<and>
     set live' \<inter> F' = {} \<and> set live' \<union> F' = set live \<union> F"
  using assms
proof (induction rs arbitrary: s live F)
  case Nil
  then show ?case by auto
next
  case (Cons q rs)
  show ?case
  proof (cases q)
    case Get
    obtain r t where rt: "alloc s = Ok (r, t)" "page t = page s"
        "case r of None \<Rightarrow> F = {} \<and> inv t F | Some p \<Rightarrow> p \<in> F \<and> inv t (F - {p})"
      using alloc_ok[OF Cons.prems(1)] by blast
    show ?thesis
    proof (cases r)
      case None
      then have "F = {}" "inv t F" using rt(3) by auto
      then show ?thesis using Cons.IH[of t F live] Cons.prems rt(1,2) Get None by simp
    next
      case (Some p)
      then have p: "p \<in> F" "inv t (F - {p})" using rt(3) by auto
      have "page s p" using free_page[OF Cons.prems(1) p(1)] .
      then have "\<exists>t' live' F'. serve alloc dealloc rs (t, p # live) = Ok (t', live') \<and> inv t' F' \<and> distinct live' \<and>
          set live' \<inter> F' = {} \<and> set live' \<union> F' = set (p # live) \<union> (F - {p})"
        using Cons.prems rt(2) p by (intro Cons.IH) auto
      moreover have "set (p # live) \<union> (F - {p}) = set live \<union> F" using p(1) by auto
      ultimately show ?thesis using rt(1) Get Some by simp
    qed
  next
    case (Put n)
    show ?thesis
    proof (cases "n < length live")
      case True
      let ?l = "take n live @ drop (Suc n) live"
      note td = take_drop_nth[OF True Cons.prems(2)]
      have n: "live ! n \<in> set live" using True by simp
      then obtain t where t: "dealloc (live ! n) s = Ok ((), t)" "page t = page s" "inv t (insert (live ! n) F)"
        using dealloc_ok[OF Cons.prems(1), of "live ! n"] Cons.prems(3,4) by auto
      have "\<exists>t' live' F'. serve alloc dealloc rs (t, ?l) = Ok (t', live') \<and> inv t' F' \<and> distinct live' \<and>
          set live' \<inter> F' = {} \<and> set live' \<union> F' = set ?l \<union> insert (live ! n) F"
        using Cons.prems t td by (intro Cons.IH) auto
      moreover have "set ?l \<union> insert (live ! n) F = set live \<union> F" unfolding td(2) using n by auto
      ultimately show ?thesis using t(1) Put True by simp
    next
      case False
      then show ?thesis using Cons Put by simp
    qed
  qed
qed

end

definition kalloc_page :: "('z kmem_state_scheme, uint64 option) kern" where
  "kalloc_page = bnd kalloc (\<lambda>r. ret (if r = 0 then None else Some r))"

definition kmem_free :: "'z kmem_state_scheme \<Rightarrow> uint64 set \<Rightarrow> bool" where
  "kmem_free s F \<longleftrightarrow> ready LKmem s \<and> (\<exists>ps. kmem_inv s ps \<and> set ps = F)"

interpretation kpages: page_allocator kmem_free valid_page kalloc_page kfree
proof
  fix s :: "'z kmem_state_scheme" and F
  assume "kmem_free s F"
  then obtain ps where ps: "ready LKmem s" "kmem_inv s ps" "set ps = F" by (auto simp: kmem_free_def)
  obtain t where t: "kalloc s = Ok (case ps of [] \<Rightarrow> 0 | p # _ \<Rightarrow> p, t)" "kmem_inv t (tl ps)" "kcore t = settled (kcore s)" "kend t = kend s"
    using kalloc_inv[OF ps(1,2)] by blast
  have "\<forall>p \<in> set ps. p \<noteq> 0" "distinct ps" using ps(2) by (auto simp: kmem_inv_def valid_page_def)
  then show "\<exists>r t. kalloc_page s = Ok (r, t) \<and> valid_page t = valid_page s \<and>
      (case r of None \<Rightarrow> F = {} \<and> kmem_free t F | Some p \<Rightarrow> p \<in> F \<and> kmem_free t (F - {p}))"
    using ps t valid_page_cong[OF t(4)]
    by (cases ps) (auto simp: kalloc_page_def kern_simps kmem_free_def intro!: exI[of _ "tl ps"])
next
  fix s :: "'z kmem_state_scheme" and F p
  assume h: "kmem_free s F" "valid_page s p" "p \<notin> F"
  then obtain ps where ps: "ready LKmem s" "kmem_inv s ps" "set ps = F" by (auto simp: kmem_free_def)
  obtain t where t: "kfree p s = Ok ((), t)" "kmem_inv t (p # ps)" "kcore t = settled (kcore s)" "kend t = kend s"
    using kfree_inv[OF ps(1) h(2) ps(2)] h(3) ps(3) by auto
  then show "\<exists>t. kfree p s = Ok ((), t) \<and> valid_page t = valid_page s \<and> kmem_free t (insert p F)"
    using ps valid_page_cong[OF t(4)] by (auto simp: kmem_free_def intro!: exI[of _ "p # ps"])
next
  fix s :: "'z kmem_state_scheme" and F p
  assume "kmem_free s F" "p \<in> F"
  then show "valid_page s p" by (auto simp: kmem_free_def kmem_inv_def)
qed

section \<open>Properties\<close>

text \<open>
  The allocator refines a stack of pages. On a free list of pages \<open>ps\<close>, \<^verbatim>\<open>kalloc\<close> gives the first page filled
  with 5, or 0 if there is none, and \<^verbatim>\<open>kfree\<close> of a page that is not free pushes it; both give the lock
  back and change no byte outside the page.
\<close>

theorem kalloc_kfree_stack:
  assumes "ready LKmem s" "kmem_inv s ps"
  shows "(\<exists>t. kalloc s = Ok (case ps of [] \<Rightarrow> 0 | p # _ \<Rightarrow> p, t) \<and> kmem_inv t (tl ps) \<and> kcore t = settled (kcore s) \<and>
       (\<forall>x. mem t x = (if ps \<noteq> [] \<and> on_page (hd ps) x then 5 else mem s x))) \<and>
     (valid_page s pa \<and> pa \<notin> set ps \<longrightarrow>
       (\<exists>t. kfree pa s = Ok ((), t) \<and> kmem_inv t (pa # ps) \<and> kcore t = settled (kcore s) \<and>
         (\<forall>x. \<not> on_page pa x \<longrightarrow> mem t x = mem s x)))"
  using kalloc_inv[OF assms] kfree_inv[OF assms(1) _ assms(2), of pa] by (auto split: if_splits)

definition boot_kmem :: kmem_state where
  "boot_kmem = \<lparr>kcore = boot_core, mem = \<lambda>x. 0, freelist = 0, kend = 0x87FFE000\<rparr>"

lemma boot_kmem_ready: "ready LKmem boot_kmem"
  by (simp add: boot_kmem_def boot_core_def lock_free_def core_ok_def mycpu_def)

theorem kalloc_kfree_stack_witness:
  "\<exists>t. kfree 0x87FFF000 boot_kmem = Ok ((), t) \<and> kmem_inv t [0x87FFF000]"
  using kalloc_kfree_stack[OF boot_kmem_ready, of "[]" "0x87FFF000"]
  by (auto simp: kmem_inv_def boot_kmem_def valid_page_def page_aligned_def PGSIZE_def PHYSTOP_eq)

text \<open>
  Bad addresses. \<^verbatim>\<open>kfree\<close> panics exactly on an address that is not page aligned, lies below the end of the
  kernel or from \<^verbatim>\<open>PHYSTOP\<close> on; on every other address it returns, provided the lock can be taken.
\<close>

theorem kfree_panics:
  assumes "ready LKmem s"
  shows "(kfree pa s = Panic ''kfree'' \<longleftrightarrow> pa mod PGSIZE \<noteq> 0 \<or> pa < kend s \<or> PHYSTOP \<le> pa) \<and>
     (kfree pa s \<noteq> Panic ''kfree'' \<longrightarrow> (\<exists>t. kfree pa s = Ok ((), t) \<and> freelist t = pa))"
  using assms by (auto simp: kfree_def kern_simps)

theorem kfree_panics_witness: "kfree 0x87FFF004 boot_kmem = Panic ''kfree'' \<and> kfree 0x1000 boot_kmem = Panic ''kfree''"
  using kfree_panics[OF boot_kmem_ready, of "0x87FFF004"] kfree_panics[OF boot_kmem_ready, of "0x1000"]
  by (simp add: boot_kmem_def PGSIZE_def)

text \<open>
  C33. Boot. \<^verbatim>\<open>kinit\<close> returns, and then the free list holds every page from the first page boundary after the
  kernel up to \<^verbatim>\<open>PHYSTOP\<close>, the last one first, and no other.
\<close>

theorem kinit_all_pages:
  assumes "core_ok (kcore s)" "freelist s = 0" "kend s \<noteq> 0" "kend s \<le> PHYSTOP"
  shows "\<exists>t. kinit s = Ok ((), t) \<and>
     kmem_inv t (rev (pages_from (PGROUNDUP (kend s)) ((unat PHYSTOP - unat (PGROUNDUP (kend s))) div 4096)))"
proof -
  let ?s = "s\<lparr>kcore := initlock LKmem (kcore s)\<rparr>" let ?p = "PGROUNDUP (kend s)"
  let ?n = "(unat PHYSTOP - unat ?p) div 4096"
  have k: "unat (kend s) \<le> 2281701376" "unat (kend s) \<noteq> 0"
    using assms(3,4) by (simp_all add: word_le_nat_alt PHYSTOP_eq unat_eq_zero)
  then have p: "unat ?p = (unat (kend s) + 4095) div 4096 * 4096" by (intro unat_PGROUNDUP) simp
  then have le: "unat ?p \<le> 2281701376" "unat (kend s) \<le> unat ?p" using k by simp_all
  then have "unat ?p + 4096 * ?n = unat PHYSTOP" using p by (simp add: PHYSTOP_eq)
  moreover have "kend ?s \<le> ?p" "?p \<noteq> 0" using le k by (auto simp: word_le_nat_alt word_unat_eq_iff)
  moreover have "ready LKmem ?s" using assms(1)
    by (simp add: initlock_def lock_free_def core_ok_def mycpu_def intr_get_def)
  moreover have "kmem_inv ?s []" using assms(2) by (simp add: kmem_inv_def)
  ultimately obtain t where "freerange_loop ?p PHYSTOP ?s = Ok ((), t)" "kmem_inv t (rev (pages_from ?p ?n) @ [])"
    using freerange_loop_inv[of ?p ?n ?s "[]"] by auto
  then show ?thesis by (simp add: kinit_def freerange_def kern_simps)
qed

theorem kinit_all_pages_witness: "\<exists>t. kinit boot_kmem = Ok ((), t) \<and> kmem_inv t [0x87FFF000, 0x87FFE000]"
proof -
  have "PGROUNDUP (kend boot_kmem) = 0x87FFE000" by (simp add: boot_kmem_def PGROUNDUP_def PGSIZE_def)
  then show ?thesis
    using kinit_all_pages[of boot_kmem] boot_kmem_ready
    by (simp add: boot_kmem_def PHYSTOP_eq) (simp add: numeral_2_eq_2 PGSIZE_def)
qed

text \<open>
  C11. No page is handed out twice. Whatever requests a client makes of \<^verbatim>\<open>kalloc\<close> and \<^verbatim>\<open>kfree\<close>, returning only pages
  it holds, all are served; the pages it holds are distinct, none of them is free, and together with
  the free ones they are the pages it started from: none is lost.
\<close>

theorem pages_never_shared:
  assumes "ready LKmem s" "kmem_inv s ps"
  shows "\<exists>t live qs. serve kalloc_page kfree rs (s, []) = Ok (t, live) \<and> kmem_inv t qs \<and>
     distinct (live @ qs) \<and> set (live @ qs) = set ps"
proof -
  have "kmem_free s (set ps)" using assms by (auto simp: kmem_free_def)
  from kpages.serve_ok[OF this, of "[]" rs] obtain t live F where
    "serve kalloc_page kfree rs (s, []) = Ok (t, live)" "kmem_free t F" "distinct live" "set live \<inter> F = {}" "set live \<union> F = set ps"
    by auto
  then show ?thesis by (auto simp: kmem_free_def kmem_inv_def)
qed

theorem pages_never_shared_witness:
  "\<exists>t live qs. serve kalloc_page kfree [Get, Get, Put 0, Get] (boot_kmem\<lparr>freelist := 0x87FFF000\<rparr>, []) = Ok (t, live) \<and>
     kmem_inv t qs \<and> set (live @ qs) = {0x87FFF000}"
proof -
  have "kmem_inv (boot_kmem\<lparr>freelist := 0x87FFF000\<rparr>) [0x87FFF000]"
    by (simp add: kmem_inv_def boot_kmem_def valid_page_def page_aligned_def PGSIZE_def PHYSTOP_eq load64_def)
  moreover have "ready LKmem (boot_kmem\<lparr>freelist := 0x87FFF000\<rparr>)" using boot_kmem_ready by simp
  ultimately show ?thesis
    using pages_never_shared[of "boot_kmem\<lparr>freelist := 0x87FFF000\<rparr>" "[0x87FFF000]" "[Get, Get, Put 0, Get]"] by auto
qed

end
