(* ===== verification/Vm.thy ===== *)
theory Vm
  imports Kalloc
begin

text \<open>
  Page tables and user memory: \<^verbatim>\<open>kernel/vm.c\<close>, and \<^verbatim>\<open>proc_mapstacks\<close> of \<^verbatim>\<open>kernel/proc.c\<close>, which it calls. Page tables are
  the three-level trees of 64-bit entries that the hardware reads from physical memory. Buffers of the kernel
  that are copied to or from user space are lists of bytes; \<open>copyin\<close> and \<open>copyinstr\<close> give what they copied, also when they
  fail half way. The linker's symbols \<^verbatim>\<open>etext\<close> and \<^verbatim>\<open>trampoline\<close> are arguments.
\<close>

section \<open>Page tables\<close>

text \<open>\<^verbatim>\<open>&pagetable[i]\<close>\<close>

definition pte_slot :: "uint64 \<Rightarrow> uint64 \<Rightarrow> uint64" where
  "pte_slot pagetable i = pagetable + 8 * i"

fun walk_levels :: "bool \<Rightarrow> uint64 \<Rightarrow> nat \<Rightarrow> uint64 \<Rightarrow> ('z kmem_state_scheme, uint64) kern" where
  "walk_levels alloc va 0 pagetable = ret (pte_slot pagetable (PX 0 va))"
| "walk_levels alloc va (Suc level) pagetable =
     (let pte = pte_slot pagetable (PX (Suc level) va) in
      bnd (gets (\<lambda>s. load64 (mem s) pte)) (\<lambda>e.
        if e AND PTE_V \<noteq> 0 then walk_levels alloc va level (PTE2PA e)
        else if \<not> alloc then ret 0
        else
          bnd kalloc (\<lambda>pg.
            if pg = 0 then ret 0
            else
              thn (modify (\<lambda>s. s\<lparr>mem := memset (mem s) pg 0 4096\<rparr>))
              (thn (modify (\<lambda>s. s\<lparr>mem := store64 (mem s) pte (PA2PTE pg OR PTE_V)\<rparr>))
               (walk_levels alloc va level pg)))))"

definition walk :: "uint64 \<Rightarrow> uint64 \<Rightarrow> bool \<Rightarrow> ('z kmem_state_scheme, uint64) kern" where
  "walk pagetable va alloc =
     (if va \<ge> MAXVA then panic ''walk'' else walk_levels alloc va 2 pagetable)"

definition walkaddr :: "uint64 \<Rightarrow> uint64 \<Rightarrow> ('z kmem_state_scheme, uint64) kern" where
  "walkaddr pagetable va =
     (if va \<ge> MAXVA then ret 0
      else bnd (walk pagetable va False) (\<lambda>pte.
        if pte = 0 then ret 0
        else bnd (gets (\<lambda>s. load64 (mem s) pte)) (\<lambda>e.
          if e AND PTE_V = 0 then ret 0
          else if e AND PTE_U = 0 then ret 0
          else ret (PTE2PA e))))"

lemma walk_in_range: "walk pagetable va alloc s = Ok r \<Longrightarrow> va < MAXVA"
  by (auto simp: walk_def kern_simps split: if_splits)

lemma MAXVA_eq: "MAXVA = 0x4000000000"
  by (simp add: MAXVA_def)

lemma next_va_unat: "a < MAXVA \<Longrightarrow> unat (a + PGSIZE) = unat a + 4096"
  by (simp add: MAXVA_eq PGSIZE_def word_less_nat_alt unat_word_ariths(1))

text \<open>The loops over pages end because \<^verbatim>\<open>walk\<close> panics from \<^verbatim>\<open>MAXVA\<close> on.\<close>

abbreviation va_left :: "uint64 \<Rightarrow> nat" where
  "va_left a \<equiv> 0x4000001000 - unat a"

lemma va_left_less: "walk pagetable a alloc s = Ok r \<Longrightarrow> va_left (a + PGSIZE) < va_left a"
  using walk_in_range[of pagetable a alloc s r] next_va_unat[of a] by (simp add: MAXVA_eq word_less_nat_alt)

function mappages_loop ::
    "uint64 \<Rightarrow> uint64 \<Rightarrow> uint64 \<Rightarrow> uint64 \<Rightarrow> uint64 \<Rightarrow> ('z kmem_state_scheme, int) kern" where
  "mappages_loop pagetable a lastpg pa perm s =
     bnd (walk pagetable a True) (\<lambda>pte.
       if pte = 0 then ret (-1)
       else bnd (gets (\<lambda>s. load64 (mem s) pte)) (\<lambda>e.
         if e AND PTE_V \<noteq> 0 then panic ''mappages: remap''
         else
           thn (modify (\<lambda>s. s\<lparr>mem := store64 (mem s) pte (PA2PTE pa OR perm OR PTE_V)\<rparr>))
           (if a = lastpg then ret 0
            else mappages_loop pagetable (a + PGSIZE) lastpg (pa + PGSIZE) perm))) s"
  by pat_completeness auto
termination
  by (relation "measure (\<lambda>(pt, a, l, pa, perm, s). va_left a)") (auto dest: va_left_less)

definition mappages ::
    "uint64 \<Rightarrow> uint64 \<Rightarrow> uint64 \<Rightarrow> uint64 \<Rightarrow> uint64 \<Rightarrow> ('z kmem_state_scheme, int) kern" where
  "mappages pagetable va sz pa perm =
     (if sz = 0 then panic ''mappages: size''
      else mappages_loop pagetable (PGROUNDDOWN va) (PGROUNDDOWN (va + sz - 1)) pa perm)"

definition kvmmap ::
    "uint64 \<Rightarrow> uint64 \<Rightarrow> uint64 \<Rightarrow> uint64 \<Rightarrow> uint64 \<Rightarrow> ('z kmem_state_scheme, unit) kern" where
  "kvmmap kpgtbl va pa sz perm =
     bnd (mappages kpgtbl va sz pa perm) (\<lambda>r. if r \<noteq> 0 then panic ''kvmmap'' else ret ())"

definition NPROC :: nat where
  "NPROC = 64"

fun proc_mapstacks_from :: "uint64 \<Rightarrow> nat list \<Rightarrow> ('z kmem_state_scheme, unit) kern" where
  "proc_mapstacks_from kpgtbl [] = ret ()"
| "proc_mapstacks_from kpgtbl (p # ps) =
     bnd kalloc (\<lambda>pa.
       if pa = 0 then panic ''kalloc''
       else thn (kvmmap kpgtbl (KSTACK p) pa PGSIZE (PTE_R OR PTE_W)) (proc_mapstacks_from kpgtbl ps))"

definition proc_mapstacks :: "uint64 \<Rightarrow> ('z kmem_state_scheme, unit) kern" where
  "proc_mapstacks kpgtbl = proc_mapstacks_from kpgtbl [0..<NPROC]"

definition kvmmake :: "uint64 \<Rightarrow> uint64 \<Rightarrow> ('z kmem_state_scheme, uint64) kern" where
  "kvmmake etext trampoline =
     bnd kalloc (\<lambda>kpgtbl.
     thn (modify (\<lambda>s. s\<lparr>mem := memset (mem s) kpgtbl 0 4096\<rparr>))
     (thn (seqs [
       kvmmap kpgtbl UART0 UART0 PGSIZE (PTE_R OR PTE_W),
       kvmmap kpgtbl VIRTIO0 VIRTIO0 PGSIZE (PTE_R OR PTE_W),
       kvmmap kpgtbl PLIC PLIC 0x400000 (PTE_R OR PTE_W),
       kvmmap kpgtbl KERNBASE KERNBASE (etext - KERNBASE) (PTE_R OR PTE_X),
       kvmmap kpgtbl etext etext (PHYSTOP - etext) (PTE_R OR PTE_W),
       kvmmap kpgtbl TRAMPOLINE trampoline PGSIZE (PTE_R OR PTE_X),
       proc_mapstacks kpgtbl])
     (ret kpgtbl)))"

section \<open>User page tables\<close>

text \<open>The loop of \<^verbatim>\<open>uvmunmap\<close>; \<open>stop\<close> is \<^verbatim>\<open>va + npages*PGSIZE\<close>.\<close>

function uvmunmap_loop :: "uint64 \<Rightarrow> uint64 \<Rightarrow> uint64 \<Rightarrow> bool \<Rightarrow> ('z kmem_state_scheme, unit) kern" where
  "uvmunmap_loop pagetable a stop do_free s =
     (if a < stop then
        bnd (walk pagetable a False) (\<lambda>pte.
          if pte = 0 then panic ''uvmunmap: walk''
          else bnd (gets (\<lambda>s. load64 (mem s) pte)) (\<lambda>e.
            if e AND PTE_V = 0 then panic ''uvmunmap: not mapped''
            else if PTE_FLAGS e = PTE_V then panic ''uvmunmap: not a leaf''
            else
              thn (whenb do_free (kfree (PTE2PA e)))
              (thn (modify (\<lambda>s. s\<lparr>mem := store64 (mem s) pte 0\<rparr>))
               (uvmunmap_loop pagetable (a + PGSIZE) stop do_free)))) s
      else Ok ((), s))"
  by pat_completeness auto
termination
  by (relation "measure (\<lambda>(pt, a, stop, f, s). va_left a)") (auto dest: va_left_less)

definition uvmunmap :: "uint64 \<Rightarrow> uint64 \<Rightarrow> uint64 \<Rightarrow> bool \<Rightarrow> ('z kmem_state_scheme, unit) kern" where
  "uvmunmap pagetable va npages do_free =
     (if va mod PGSIZE \<noteq> 0 then panic ''uvmunmap: not aligned''
      else uvmunmap_loop pagetable va (va + npages * PGSIZE) do_free)"

definition uvmcreate :: "('z kmem_state_scheme, uint64) kern" where
  "uvmcreate =
     bnd kalloc (\<lambda>pagetable.
       if pagetable = 0 then ret 0
       else thn (modify (\<lambda>s. s\<lparr>mem := memset (mem s) pagetable 0 4096\<rparr>)) (ret pagetable))"

text \<open>A kernel buffer copied to physical memory, byte by byte.\<close>

fun put_bytes :: "phys \<Rightarrow> uint64 \<Rightarrow> uchar list \<Rightarrow> phys" where
  "put_bytes m a [] = m"
| "put_bytes m a (c # cs) = put_bytes (m(a := c)) (a + 1) cs"

definition uvmfirst :: "uint64 \<Rightarrow> uchar list \<Rightarrow> ('z kmem_state_scheme, unit) kern" where
  "uvmfirst pagetable src =
     (if length src \<ge> 4096 then panic ''uvmfirst: more than a page''
      else
        bnd kalloc (\<lambda>pg.
        thn (modify (\<lambda>s. s\<lparr>mem := memset (mem s) pg 0 4096\<rparr>))
        (thn (mappages pagetable 0 PGSIZE pg (PTE_W OR PTE_R OR PTE_X OR PTE_U))
         (modify (\<lambda>s. s\<lparr>mem := put_bytes (mem s) pg src\<rparr>)))))"

definition uvmdealloc :: "uint64 \<Rightarrow> uint64 \<Rightarrow> uint64 \<Rightarrow> ('z kmem_state_scheme, uint64) kern" where
  "uvmdealloc pagetable oldsz newsz =
     (if newsz \<ge> oldsz then ret oldsz
      else
        thn (whenb (PGROUNDUP newsz < PGROUNDUP oldsz)
               (uvmunmap pagetable (PGROUNDUP newsz) ((PGROUNDUP oldsz - PGROUNDUP newsz) div PGSIZE) True))
        (ret newsz))"

declare mappages_loop.simps [simp del] uvmunmap_loop.simps [simp del]

lemma mappages_loop_in_range: "mappages_loop pagetable a lastpg pa perm s = Ok r \<Longrightarrow> \<exists>q. walk pagetable a True s = Ok q"
  by (subst (asm) mappages_loop.simps) (auto simp: kern_simps outcome_simps)

lemma mappages_in_range: "mappages pagetable a sz pa perm s = Ok r \<Longrightarrow> PGROUNDDOWN a < MAXVA"
  by (auto simp: mappages_def kern_simps split: if_splits dest!: mappages_loop_in_range dest: walk_in_range)

text \<open>The loop of \<^verbatim>\<open>uvmalloc\<close>; \<open>oldsz\<close> is already rounded up.\<close>

function uvmalloc_loop :: "uint64 \<Rightarrow> uint64 \<Rightarrow> uint64 \<Rightarrow> uint64 \<Rightarrow> uint64 \<Rightarrow> ('z kmem_state_scheme, uint64) kern" where
  "uvmalloc_loop pagetable oldsz newsz xperm a s =
     (if a < newsz then
        bnd kalloc (\<lambda>pg.
          if pg = 0 then thn (uvmdealloc pagetable a oldsz) (ret 0)
          else
            thn (modify (\<lambda>s. s\<lparr>mem := memset (mem s) pg 0 4096\<rparr>))
            (bnd (mappages pagetable a PGSIZE pg (PTE_R OR PTE_U OR xperm)) (\<lambda>r.
              if r \<noteq> 0 then thn (kfree pg) (thn (uvmdealloc pagetable a oldsz) (ret 0))
              else uvmalloc_loop pagetable oldsz newsz xperm (a + PGSIZE)))) s
      else Ok (newsz, s))"
  by pat_completeness auto
termination
proof (relation "measure (\<lambda>(pt, old, new, x, a, s). va_left (PGROUNDDOWN a))")
  fix pt oldsz newsz xperm a pg :: uint64 and s t u v :: "'z kmem_state_scheme" and b r
  assume "mappages pt a PGSIZE pg (PTE_R OR PTE_U OR xperm) u = Ok (r, v)"
  then have lt: "PGROUNDDOWN a < MAXVA" by (rule mappages_in_range)
  then have "unat a < 0x4000000000" by (simp add: MAXVA_eq word_less_nat_alt unat_PGROUNDDOWN)
  then have "unat (a + PGSIZE) = unat a + 4096" by (simp add: PGSIZE_def unat_word_ariths(1))
  then show "((pt, oldsz, newsz, xperm, a + PGSIZE, v), pt, oldsz, newsz, xperm, a, s)
      \<in> measure (\<lambda>(pt, old, new, x, a, s). va_left (PGROUNDDOWN a))"
    using lt by (simp add: unat_PGROUNDDOWN MAXVA_eq word_less_nat_alt)
qed simp

definition uvmalloc :: "uint64 \<Rightarrow> uint64 \<Rightarrow> uint64 \<Rightarrow> uint64 \<Rightarrow> ('z kmem_state_scheme, uint64) kern" where
  "uvmalloc pagetable oldsz newsz xperm =
     (if newsz < oldsz then ret oldsz
      else uvmalloc_loop pagetable (PGROUNDUP oldsz) newsz xperm (PGROUNDUP oldsz))"

text \<open>
  \<^verbatim>\<open>freewalk\<close> recurses into the lower tables. The first argument bounds the depth of the recursion: the tables that
  \<^verbatim>\<open>walk\<close> builds have three levels, and on a deeper nest the C code runs off its stack page.
\<close>

fun freewalk_entries ::
    "(uint64 \<Rightarrow> ('z kmem_state_scheme, unit) kern) \<Rightarrow> uint64 \<Rightarrow> nat list \<Rightarrow> ('z kmem_state_scheme, unit) kern" where
  "freewalk_entries sub pagetable [] = ret ()"
| "freewalk_entries sub pagetable (i # is) =
     (let slot = pte_slot pagetable (of_nat i) in
      bnd (gets (\<lambda>s. load64 (mem s) slot)) (\<lambda>pte.
        if pte AND PTE_V \<noteq> 0 \<and> pte AND (PTE_R OR PTE_W OR PTE_X) = 0 then
          thn (sub (PTE2PA pte))
          (thn (modify (\<lambda>s. s\<lparr>mem := store64 (mem s) slot 0\<rparr>))
           (freewalk_entries sub pagetable is))
        else if pte AND PTE_V \<noteq> 0 then panic ''freewalk: leaf''
        else freewalk_entries sub pagetable is))"

fun freewalk_depth :: "nat \<Rightarrow> uint64 \<Rightarrow> ('z kmem_state_scheme, unit) kern" where
  "freewalk_depth 0 pagetable = undef ''stack overflow''"
| "freewalk_depth (Suc d) pagetable =
     thn (freewalk_entries (freewalk_depth d) pagetable [0..<512]) (kfree pagetable)"

definition freewalk :: "uint64 \<Rightarrow> ('z kmem_state_scheme, unit) kern" where
  "freewalk pagetable = freewalk_depth 3 pagetable"

definition uvmfree :: "uint64 \<Rightarrow> uint64 \<Rightarrow> ('z kmem_state_scheme, unit) kern" where
  "uvmfree pagetable sz =
     thn (whenb (sz > 0) (uvmunmap pagetable 0 (PGROUNDUP sz div PGSIZE) True))
     (freewalk pagetable)"

text \<open>The loop of \<^verbatim>\<open>uvmcopy\<close>, and the label \<^verbatim>\<open>err\<close>.\<close>

definition uvmcopy_err :: "uint64 \<Rightarrow> uint64 \<Rightarrow> ('z kmem_state_scheme, int) kern" where
  "uvmcopy_err new i = thn (uvmunmap new 0 (i div PGSIZE) True) (ret (-1))"

function uvmcopy_loop :: "uint64 \<Rightarrow> uint64 \<Rightarrow> uint64 \<Rightarrow> uint64 \<Rightarrow> ('z kmem_state_scheme, int) kern" where
  "uvmcopy_loop old new sz i s =
     (if i < sz then
        bnd (walk old i False) (\<lambda>pte.
          if pte = 0 then panic ''uvmcopy: pte should exist''
          else bnd (gets (\<lambda>s. load64 (mem s) pte)) (\<lambda>e.
            if e AND PTE_V = 0 then panic ''uvmcopy: page not present''
            else
              bnd kalloc (\<lambda>pg.
                if pg = 0 then uvmcopy_err new i
                else
                  thn (modify (\<lambda>s. s\<lparr>mem := memmove (mem s) pg (PTE2PA e) 4096\<rparr>))
                  (bnd (mappages new i PGSIZE pg (PTE_FLAGS e)) (\<lambda>r.
                    if r \<noteq> 0 then thn (kfree pg) (uvmcopy_err new i)
                    else uvmcopy_loop old new sz (i + PGSIZE)))))) s
      else Ok (0, s))"
  by pat_completeness auto
termination
  by (relation "measure (\<lambda>(old, new, sz, i, s). va_left i)") (auto dest: va_left_less)

definition uvmcopy :: "uint64 \<Rightarrow> uint64 \<Rightarrow> uint64 \<Rightarrow> ('z kmem_state_scheme, int) kern" where
  "uvmcopy old new sz = uvmcopy_loop old new sz 0"

definition uvmclear :: "uint64 \<Rightarrow> uint64 \<Rightarrow> ('z kmem_state_scheme, unit) kern" where
  "uvmclear pagetable va =
     bnd (walk pagetable va False) (\<lambda>pte.
       if pte = 0 then panic ''uvmclear''
       else modify (\<lambda>s. s\<lparr>mem := store64 (mem s) pte (load64 (mem s) pte AND NOT PTE_U)\<rparr>))"

section \<open>Copying to and from user space\<close>

text \<open>The number of bytes up to the end of the page, at most \<open>len\<close>.\<close>

definition page_rest :: "uint64 \<Rightarrow> nat \<Rightarrow> nat" where
  "page_rest va len = min (unat (PGSIZE - (va - PGROUNDDOWN va))) len"

lemma unat_page_offset: "unat (va - PGROUNDDOWN va) = unat va mod 4096"
proof -
  have "PGROUNDDOWN va \<le> va" by (simp add: word_le_nat_alt unat_PGROUNDDOWN)
  then have "unat (va - PGROUNDDOWN va) = unat va - unat va div 4096 * 4096"
    by (simp add: unat_sub unat_PGROUNDDOWN)
  then show ?thesis by (metis minus_div_mult_eq_mod)
qed

lemma page_rest_eq: "page_rest va len = min (4096 - unat va mod 4096) len"
proof -
  have "va - PGROUNDDOWN va \<le> PGSIZE"
    by (simp add: word_le_nat_alt unat_page_offset PGSIZE_def)
  then show ?thesis by (simp add: page_rest_def unat_sub unat_page_offset PGSIZE_def)
qed

lemma page_rest_pos: "0 < len \<Longrightarrow> 0 < page_rest va len"
  by (simp add: page_rest_eq)

function copyout :: "uint64 \<Rightarrow> uint64 \<Rightarrow> uchar list \<Rightarrow> ('z kmem_state_scheme, int) kern" where
  "copyout pagetable dstva src s =
     (if length src > 0 then
        let va0 = PGROUNDDOWN dstva in
        bnd (walkaddr pagetable va0) (\<lambda>pa0.
          if pa0 = 0 then ret (-1)
          else
            let n = page_rest dstva (length src) in
            thn (modify (\<lambda>s. s\<lparr>mem := put_bytes (mem s) (pa0 + (dstva - va0)) (take n src)\<rparr>))
            (copyout pagetable (va0 + PGSIZE) (drop n src))) s
      else Ok (0, s))"
  by pat_completeness auto
termination
  by (relation "measure (\<lambda>(pt, va, src, s). length src)") (auto simp: page_rest_eq)

text \<open>\<open>copyin\<close> gives the result code and the bytes copied so far.\<close>

function copyin :: "uint64 \<Rightarrow> uint64 \<Rightarrow> nat \<Rightarrow> ('z kmem_state_scheme, int \<times> uchar list) kern" where
  "copyin pagetable srcva len s =
     (if len > 0 then
        let va0 = PGROUNDDOWN srcva in
        bnd (walkaddr pagetable va0) (\<lambda>pa0.
          if pa0 = 0 then ret (-1, [])
          else
            let n = page_rest srcva len in
            bnd (gets (\<lambda>s. bytes_at (mem s) (pa0 + (srcva - va0)) n)) (\<lambda>bs.
            bnd (copyin pagetable (va0 + PGSIZE) (len - n)) (\<lambda>(r, rest).
              ret (r, bs @ rest)))) s
      else Ok ((0, []), s))"
  by pat_completeness auto
termination
  by (relation "measure (\<lambda>(pt, va, len, s). len)") (auto simp: page_rest_eq)

text \<open>The inner loop of \<^verbatim>\<open>copyinstr\<close>: whether it met a zero, and the bytes before it.\<close>

fun copy_string :: "uchar list \<Rightarrow> bool \<times> uchar list" where
  "copy_string [] = (False, [])"
| "copy_string (c # cs) =
     (if c = 0 then (True, []) else let (got_null, bs) = copy_string cs in (got_null, c # bs))"

function copyinstr :: "uint64 \<Rightarrow> uint64 \<Rightarrow> nat \<Rightarrow> ('z kmem_state_scheme, int \<times> uchar list) kern" where
  "copyinstr pagetable srcva mx s =
     (if mx > 0 then
        let va0 = PGROUNDDOWN srcva in
        bnd (walkaddr pagetable va0) (\<lambda>pa0.
          if pa0 = 0 then ret (-1, [])
          else
            let n = page_rest srcva mx in
            bnd (gets (\<lambda>s. copy_string (bytes_at (mem s) (pa0 + (srcva - va0)) n))) (\<lambda>nb.
              if fst nb then ret (0, snd nb)
              else
                bnd (copyinstr pagetable (va0 + PGSIZE) (mx - n)) (\<lambda>(r, rest).
                  ret (r, snd nb @ rest)))) s
      else Ok ((-1, []), s))"
  by pat_completeness auto
termination
  by (relation "measure (\<lambda>(pt, va, mx, s). mx)") (auto simp: page_rest_eq)

declare uvmalloc_loop.simps [simp del] uvmcopy_loop.simps [simp del] copyout.simps [simp del]
  copyin.simps [simp del] copyinstr.simps [simp del]

end
