(* ===== verification/Vm_Map.thy ===== *)
theory Vm_Map
  imports Vm "HOL-Library.Sublist"
begin

text \<open>
  What the page tables of \<^verbatim>\<open>kernel/vm.c\<close> mean. \<open>pte_at\<close> reads the leaf entry that the hardware finds for a virtual
  address; the invariant \<open>pt_inv\<close> says that the table pages form a tree (a ghost map \<open>pos\<close> gives every table page its level and
  the indices on the path to it) and lie outside the free list. Walking with allocation keeps what every
  address maps to, and storing a leaf entry changes it for one page only. From this follow the properties of
  \<open>mappages\<close>, \<open>uvmunmap\<close>, \<open>copyout\<close> and \<open>copyin\<close>.
\<close>

section \<open>Entries of a table page\<close>

definition ent :: "phys \<Rightarrow> uint64 \<Rightarrow> uint64 \<Rightarrow> uint64" where
  "ent m p i = load64 m (pte_slot p i)"

lemma page_no_wrap: "page_aligned p \<Longrightarrow> unat p + 4096 \<le> 2 ^ 64"
  using unat_64[of p] by (auto simp: page_aligned_unat mod_eq_0_iff_dvd elim!: dvdE)

lemma unat_pte_slot:
  assumes "page_aligned p" "i < 512"
  shows "unat (pte_slot p i) = unat p + 8 * unat i"
proof -
  have i: "unat i < 512" using assms(2) by (simp add: word_less_nat_alt)
  then have "unat (8 * i) = 8 * unat i" by (simp add: unat_word_ariths(2))
  then show ?thesis using i page_no_wrap[OF assms(1)] by (simp add: pte_slot_def unat_word_ariths(1))
qed

lemma slot_range:
  assumes "page_aligned p" "i < 512" "in_range (pte_slot p i) 8 x"
  shows "unat p + 8 * unat i \<le> unat x" "unat x < unat p + 8 * unat i + 8"
proof -
  have "unat (pte_slot p i) + 8 \<le> 2 ^ 64"
    using page_no_wrap[OF assms(1)] assms(2) unat_pte_slot[OF assms(1,2)] by (simp add: word_less_nat_alt)
  from in_range_unat[OF assms(3) this] show "unat p + 8 * unat i \<le> unat x" "unat x < unat p + 8 * unat i + 8"
    by (simp_all add: unat_pte_slot[OF assms(1,2)])
qed

lemma slot_on_page:
  assumes "page_aligned p" "i < 512" "in_range (pte_slot p i) 8 x"
  shows "on_page p x"
proof -
  have "unat i < 512" using assms(2) by (simp add: word_less_nat_alt)
  then show ?thesis using slot_range[OF assms] assms(1) by (auto simp: on_page_iff page_aligned_unat)
qed

lemma slot_inj:
  assumes "page_aligned p" "page_aligned q" "i < 512" "j < 512"
    and "in_range (pte_slot p i) 8 x" "in_range (pte_slot q j) 8 x"
  shows "p = q \<and> i = j"
proof -
  have "p = q" using assms by (meson pages_disjoint slot_on_page)
  moreover have "unat i = unat j"
    using slot_range[OF assms(1,3,5)] slot_range[OF assms(2,4,6)] unfolding \<open>p = q\<close> by presburger
  ultimately show ?thesis by (simp add: word_unat_eq_iff)
qed

lemma in_range_self8: "in_range a 8 a"
  by (simp add: in_range_def)

lemma slot_eq_iff:
  assumes "page_aligned p" "page_aligned q" "i < 512" "j < 512"
  shows "pte_slot p i = pte_slot q j \<longleftrightarrow> p = q \<and> i = j"
  using slot_inj[OF assms, of "pte_slot p i"] in_range_self8[of "pte_slot p i"] in_range_self8[of "pte_slot q j"] by auto

lemma slot_nonzero: "page_aligned p \<Longrightarrow> p \<noteq> 0 \<Longrightarrow> i < 512 \<Longrightarrow> pte_slot p i \<noteq> 0"
  using unat_pte_slot[of p i] by (auto simp: word_unat_eq_iff)

lemma ent_store:
  assumes "page_aligned p" "page_aligned q" "i < 512" "j < 512"
  shows "ent (store64 m (pte_slot p i) v) q j = (if q = p \<and> j = i then v else ent m q j)"
proof (cases "q = p \<and> j = i")
  case False
  have "load64 (store64 m (pte_slot p i) v) (pte_slot q j) = load64 m (pte_slot q j)"
    using slot_inj[OF assms] False by (intro load64_cong) (auto intro: store64_other)
  then show ?thesis using False by (auto simp: ent_def)
qed (simp add: ent_def)

lemma ent_cong:
  assumes "page_aligned q" "j < 512" "\<And>x. on_page q x \<Longrightarrow> m' x = m x"
  shows "ent m' q j = ent m q j"
  unfolding ent_def using assms slot_on_page by (intro load64_cong) blast

lemma load64_zero: "(\<And>x. in_range a 8 x \<Longrightarrow> m x = 0) \<Longrightarrow> load64 m a = 0"
  by (simp add: load64_def in_range_8)

lemma ent_zero_page:
  assumes "page_aligned p" "page_aligned q" "j < 512"
  shows "ent (memset m p 0 4096) q j = (if q = p then 0 else ent m q j)"
proof (cases "q = p")
  case True
  then show ?thesis using assms slot_on_page by (auto simp: ent_def memset_eq intro!: load64_zero)
next
  case False
  have "ent (memset m p 0 4096) q j = ent m q j"
  proof (rule ent_cong[OF assms(2,3)])
    fix x assume "on_page q x"
    then have "\<not> on_page p x" using pages_disjoint[OF assms(1,2)] False by blast
    then show "memset m p 0 4096 x = m x" by (simp add: memset_eq)
  qed
  then show ?thesis using False by simp
qed

lemma PX_less: "PX l va < 512"
proof -
  have "PX l va \<le> 0x1FF" unfolding PX_def PXMASK_def by (rule word_and_le1)
  then show ?thesis by (rule order_le_less_trans) simp
qed

definition valid_pte :: "uint64 \<Rightarrow> bool" where
  "valid_pte e \<longleftrightarrow> e AND PTE_V \<noteq> 0"

lemma valid_pte_0 [simp]: "\<not> valid_pte 0"
  by (simp add: valid_pte_def)

lemma valid_pte_bit: "valid_pte e \<longleftrightarrow> bit e 0"
  by (auto simp: valid_pte_def PTE_V_def and_one_eq bit_0 odd_iff_mod_2_eq_one)

lemma valid_pte_or [simp]: "valid_pte (e OR PTE_V)"
  by (simp add: valid_pte_bit bit_simps PTE_V_def)

section \<open>What an address maps to\<close>

fun pte_at :: "phys \<Rightarrow> uint64 \<Rightarrow> nat \<Rightarrow> uint64 \<Rightarrow> uint64" where
  "pte_at m va 0 p = ent m p (PX 0 va)"
| "pte_at m va (Suc l) p =
     (let e = ent m p (PX (Suc l) va) in if valid_pte e then pte_at m va l (PTE2PA e) else 0)"

fun slot_at :: "phys \<Rightarrow> uint64 \<Rightarrow> nat \<Rightarrow> uint64 \<Rightarrow> uint64 option" where
  "slot_at m va 0 p = Some (pte_slot p (PX 0 va))"
| "slot_at m va (Suc l) p =
     (let e = ent m p (PX (Suc l) va) in if valid_pte e then slot_at m va l (PTE2PA e) else None)"

lemma pte_at_slot: "pte_at m va l p = (case slot_at m va l p of None \<Rightarrow> 0 | Some a \<Rightarrow> load64 m a)"
  by (induction l arbitrary: p) (simp_all add: ent_def Let_def)

lemma walk_levels_noalloc:
  "walk_levels False va l p s = Ok (case slot_at (mem s) va l p of None \<Rightarrow> 0 | Some a \<Rightarrow> a, s)"
  by (induction l arbitrary: p) (auto simp: kern_simps ent_def valid_pte_def Let_def)

lemma walk_noalloc:
  "va < MAXVA \<Longrightarrow> walk root va False s = Ok (case slot_at (mem s) va 2 root of None \<Rightarrow> 0 | Some a \<Rightarrow> a, s)"
  by (auto simp: walk_def walk_levels_noalloc dest: leD)

section \<open>The tree of table pages\<close>

type_synonym table_pos = "uint64 \<rightharpoonup> nat \<times> uint64 list"

definition pt_inv :: "phys \<Rightarrow> table_pos \<Rightarrow> bool" where
  "pt_inv m pos \<longleftrightarrow>
     (\<forall>p \<in> dom pos. page_aligned p \<and> p \<noteq> 0) \<and>
     (\<forall>p l \<pi> i. pos p = Some (Suc l, \<pi>) \<and> i < 512 \<and> valid_pte (ent m p i) \<longrightarrow>
        pos (PTE2PA (ent m p i)) = Some (l, i # \<pi>))"

lemma pt_inv_page: "pt_inv m pos \<Longrightarrow> pos p = Some q \<Longrightarrow> page_aligned p \<and> p \<noteq> 0"
  by (auto simp: pt_inv_def)

lemma pt_inv_child:
  "pt_inv m pos \<Longrightarrow> pos p = Some (Suc l, \<pi>) \<Longrightarrow> i < 512 \<Longrightarrow> valid_pte (ent m p i) \<Longrightarrow>
   pos (PTE2PA (ent m p i)) = Some (l, i # \<pi>)"
  by (auto simp: pt_inv_def)

text \<open>The indices of an address at the levels from \<open>l\<close> down to 1, the lowest first.\<close>

fun va_path :: "uint64 \<Rightarrow> nat \<Rightarrow> uint64 list" where
  "va_path va 0 = []"
| "va_path va (Suc l) = va_path va l @ [PX (Suc l) va]"

lemma slot_at_pos:
  assumes "pt_inv m pos" "pos p = Some (l, \<pi>)" "slot_at m va l p = Some a"
  shows "\<exists>q. pos q = Some (0, va_path va l @ \<pi>) \<and> a = pte_slot q (PX 0 va)"
  using assms(2,3)
proof (induction l arbitrary: p \<pi>)
  case (Suc l)
  let ?e = "ent m p (PX (Suc l) va)"
  have v: "valid_pte ?e" "slot_at m va l (PTE2PA ?e) = Some a"
    using Suc.prems(2) by (auto simp: Let_def split: if_splits)
  have "pos (PTE2PA ?e) = Some (l, PX (Suc l) va # \<pi>)"
    using pt_inv_child[OF assms(1) Suc.prems(1) PX_less v(1)] .
  from Suc.IH[OF this v(2)] show ?case by simp
qed auto

lemma slot_at_inj:
  assumes inv: "pt_inv m pos" and p: "pos p = Some (l, \<pi>)" and "slot_at m va l p = Some a" "slot_at m va' l p = Some a"
  shows "\<forall>k \<le> l. PX k va = PX k va'"
proof -
  obtain q q' where q: "pos q = Some (0, va_path va l @ \<pi>)" "a = pte_slot q (PX 0 va)"
    "pos q' = Some (0, va_path va' l @ \<pi>)" "a = pte_slot q' (PX 0 va')"
    using slot_at_pos[OF inv p] assms(3,4) by metis
  then have "q = q' \<and> PX 0 va = PX 0 va'"
    using slot_eq_iff[of q q' "PX 0 va" "PX 0 va'"] pt_inv_page[OF inv] PX_less by metis
  then have "PX 0 va = PX 0 va'" "va_path va l = va_path va' l" using q by auto
  moreover have "va_path va l = va_path va' l \<Longrightarrow> 0 < k \<Longrightarrow> k \<le> l \<Longrightarrow> PX k va = PX k va'" for k
    by (induction l) (auto simp: le_Suc_eq)
  ultimately show ?thesis by (metis neq0_conv)
qed

text \<open>Storing a leaf entry.\<close>

lemma store_leaf_inv:
  assumes inv: "pt_inv m pos" and q: "pos q = Some (0, \<rho>)" and k: "k < 512"
  shows "pt_inv (store64 m (pte_slot q k) v) pos"
proof -
  have "ent (store64 m (pte_slot q k) v) p i = ent m p i" if "pos p = Some (Suc l, \<pi>)" "i < 512" for p l \<pi> i
    using ent_store[of q p k i] pt_inv_page[OF inv] that q k by auto
  then show ?thesis using inv by (auto simp: pt_inv_def)
qed

lemma store_leaf_slot:
  assumes inv: "pt_inv m pos" and q: "pos q = Some (0, \<rho>)" and k: "k < 512" and p: "pos p = Some (l, \<pi>)"
  shows "slot_at (store64 m (pte_slot q k) v) va l p = slot_at m va l p"
  using p
proof (induction l arbitrary: p \<pi>)
  case (Suc l)
  have e: "ent (store64 m (pte_slot q k) v) p i = ent m p i" if "i < 512" for i
    using ent_store[of q p k i] pt_inv_page[OF inv] Suc.prems q k that by auto
  show ?case
  proof (cases "valid_pte (ent m p (PX (Suc l) va))")
    case True
    then show ?thesis
      using Suc.IH[OF pt_inv_child[OF inv Suc.prems PX_less True]] by (simp add: e PX_less)
  qed (simp add: e PX_less)
qed simp

lemma store_leaf_pte:
  assumes inv: "pt_inv m pos" and q: "pos q = Some (0, \<rho>)" and k: "k < 512" and p: "pos p = Some (l, \<pi>)"
  shows "pte_at (store64 m (pte_slot q k) v) va l p =
     (if slot_at m va l p = Some (pte_slot q k) then v else pte_at m va l p)"
proof (cases "slot_at m va l p")
  case (Some a)
  obtain r where r: "pos r = Some (0, va_path va l @ \<pi>)" "a = pte_slot r (PX 0 va)"
    using slot_at_pos[OF inv p Some] by blast
  have "load64 (store64 m (pte_slot q k) v) a = (if a = pte_slot q k then v else load64 m a)"
    using ent_store[of q r k "PX 0 va" m v] slot_eq_iff[of r q "PX 0 va" k] pt_inv_page[OF inv] r q k PX_less
    by (auto simp: ent_def)
  then show ?thesis using Some store_leaf_slot[OF inv q k p] by (simp add: pte_at_slot)
qed (simp add: pte_at_slot store_leaf_slot[OF inv q k p])

section \<open>Walking with allocation\<close>

text \<open>
  From \<open>s\<close> to \<open>t\<close> the tree has grown by pages of the free list, no mapping has changed, and memory
  outside the tree and the free pages is as before.
\<close>

definition pt_grow ::
    "'z kmem_state_scheme \<Rightarrow> uint64 list \<Rightarrow> table_pos \<Rightarrow> 'z kmem_state_scheme \<Rightarrow> uint64 list \<Rightarrow> table_pos \<Rightarrow> bool" where
  "pt_grow s ps pos t ps' pos' \<longleftrightarrow>
     (kcore t = kcore s \<or> kcore t = settled (kcore s)) \<and> kend t = kend s \<and> suffix ps' ps \<and> kmem_inv t ps' \<and>
     pt_inv (mem t) pos' \<and> pos \<subseteq>\<^sub>m pos' \<and> dom pos' \<subseteq> dom pos \<union> set ps \<and> set ps' \<inter> dom pos' = {} \<and>
     (\<forall>va q l \<pi>. pos q = Some (l, \<pi>) \<longrightarrow> pte_at (mem t) va l q = pte_at (mem s) va l q) \<and>
     (\<forall>q l \<pi> i. pos q = Some (Suc l, \<pi>) \<and> i < 512 \<and> valid_pte (ent (mem s) q i) \<longrightarrow> ent (mem t) q i = ent (mem s) q i) \<and>
     (\<forall>x. (\<forall>p \<in> dom pos \<union> set ps. \<not> on_page p x) \<longrightarrow> mem t x = mem s x)"

lemma pt_grow_refl:
  "kmem_inv s ps \<Longrightarrow> pt_inv (mem s) pos \<Longrightarrow> set ps \<inter> dom pos = {} \<Longrightarrow> pt_grow s ps pos s ps pos"
  by (simp add: pt_grow_def)

lemma map_le_Some: "f \<subseteq>\<^sub>m g \<Longrightarrow> f a = Some b \<Longrightarrow> g a = Some b"
  by (metis domI map_le_def)

lemma pt_growD:
  assumes "pt_grow s ps pos t ps' pos'"
  shows "kcore t = kcore s \<or> kcore t = settled (kcore s)" "kend t = kend s" "suffix ps' ps" "kmem_inv t ps'"
    "pt_inv (mem t) pos'" "pos \<subseteq>\<^sub>m pos'" "dom pos' \<subseteq> dom pos \<union> set ps" "set ps' \<inter> dom pos' = {}"
    "pos q = Some (l, \<pi>) \<Longrightarrow> pte_at (mem t) va l q = pte_at (mem s) va l q"
    "pos q = Some (l, \<pi>) \<Longrightarrow> pos' q = Some (l, \<pi>)"
    "(\<And>p. p \<in> dom pos \<union> set ps \<Longrightarrow> \<not> on_page p x) \<Longrightarrow> mem t x = mem s x"
    "ready LKmem s \<Longrightarrow> ready LKmem t" "set ps' \<subseteq> set ps"
    "pos q = Some (Suc l, \<pi>) \<Longrightarrow> i < 512 \<Longrightarrow> valid_pte (ent (mem s) q i) \<Longrightarrow> ent (mem t) q i = ent (mem s) q i"
  using assms by (auto simp: pt_grow_def dest: set_mono_suffix map_le_Some)

lemma pt_grow_trans:
  assumes "pt_grow s ps pos t qs pos1" "pt_grow t qs pos1 u rs pos2"
  shows "pt_grow s ps pos u rs pos2"
proof -
  note a = pt_growD[OF assms(1)] and b = pt_growD[OF assms(2)]
  have "pos \<subseteq>\<^sub>m pos2" using a(6) b(6) by (rule map_le_trans)
  moreover have "dom pos2 \<subseteq> dom pos \<union> set ps" using a(7,13) b(7) by blast
  moreover have "pte_at (mem u) va l q = pte_at (mem s) va l q" if "pos q = Some (l, \<pi>)" for va q l \<pi>
    using a(9)[OF that] b(9)[OF a(10)[OF that]] by simp
  moreover have "ent (mem u) q i = ent (mem s) q i" if "pos q = Some (Suc l, \<pi>)" "i < 512" "valid_pte (ent (mem s) q i)" for q l \<pi> i
    using a(14)[OF that] b(14)[OF a(10)[OF that(1)] that(2)] that(3) by simp
  moreover have "mem u x = mem s x" if "\<And>p. p \<in> dom pos \<union> set ps \<Longrightarrow> \<not> on_page p x" for x
  proof -
    have "\<And>p. p \<in> dom pos1 \<union> set qs \<Longrightarrow> \<not> on_page p x" using that a(7,13) by blast
    then show ?thesis using a(11)[of x] b(11)[of x] that by simp
  qed
  moreover have "suffix rs ps" using b(3) a(3) by (rule suffix_order.trans)
  moreover have "kcore u = kcore s \<or> kcore u = settled (kcore s)" "kend u = kend s" using a(1,2) b(1,2) by auto
  ultimately show ?thesis using b(4,5,8) unfolding pt_grow_def by blast
qed

lemma kmem_inv_frame:
  assumes "kmem_inv s ps" "freelist t = freelist s" "kend t = kend s"
    and "\<And>p x. p \<in> set ps \<Longrightarrow> on_page p x \<Longrightarrow> mem t x = mem s x"
  shows "kmem_inv t ps"
proof -
  have "load64 (mem t) p = load64 (mem s) p" if "p \<in> set ps" for p
    using that assms(4) in_range_mono[of p 8 _ 4096] by (intro load64_cong) simp
  then have "is_flist (mem t) (freelist s) ps = is_flist (mem s) (freelist s) ps" by (rule is_flist_cong)
  then show ?thesis using assms(1-3) by (simp add: kmem_inv_def valid_page_def)
qed

lemma pte_at_zero: "(\<And>j. j < 512 \<Longrightarrow> ent m p j = 0) \<Longrightarrow> pte_at m va l p = 0"
  by (cases l) (simp_all add: PX_less)

lemma PHYSTOP_56: "p < PHYSTOP \<Longrightarrow> unat p < 2 ^ 56"
  by (simp add: PHYSTOP_eq word_less_nat_alt)

lemma PTE2PA_table: "valid_page s pg \<Longrightarrow> PTE2PA (PA2PTE pg OR PTE_V) = pg"
  by (rule PTE2PA_PA2PTE(1)) (auto simp: valid_page_def PTE_V_def dest: PHYSTOP_56)

text \<open>A zeroed page \<open>pg\<close> hung under entry \<open>i\<close> of the table page \<open>p\<close>, on the entries of the tree.\<close>

definition hung :: "phys \<Rightarrow> phys \<Rightarrow> table_pos \<Rightarrow> uint64 \<Rightarrow> uint64 \<Rightarrow> uint64 \<Rightarrow> bool" where
  "hung m m' pos p i pg \<longleftrightarrow>
     pos pg = None \<and> page_aligned pg \<and> pg \<noteq> 0 \<and> PTE2PA (PA2PTE pg OR PTE_V) = pg \<and> \<not> valid_pte (ent m p i) \<and>
     (\<forall>q w j. pos q = Some w \<and> j < 512 \<longrightarrow> ent m' q j = (if q = p \<and> j = i then PA2PTE pg OR PTE_V else ent m q j)) \<and>
     (\<forall>j < 512. ent m' pg j = 0)"

lemma hungD:
  assumes "hung m m' pos p i pg"
  shows "pos q = Some w \<Longrightarrow> j < 512 \<Longrightarrow> ent m' q j = (if q = p \<and> j = i then PA2PTE pg OR PTE_V else ent m q j)"
    and "j < 512 \<Longrightarrow> ent m' pg j = 0" and "pos pg = None" and "page_aligned pg" and "pg \<noteq> 0"
    and "PTE2PA (PA2PTE pg OR PTE_V) = pg" and "\<not> valid_pte (ent m p i)"
  using assms unfolding hung_def by blast+

lemma hung_pte:
  assumes inv: "pt_inv m pos" and h: "hung m m' pos p i pg" and p: "pos p = Some (Suc l, \<pi>)" and i: "i < 512"
    and q: "pos q = Some (l', \<pi>')"
  shows "pte_at m' va l' q = pte_at m va l' q"
  using q
proof (induction l' arbitrary: q \<pi>')
  case 0
  then have "\<not> (q = p \<and> PX 0 va = i)" using p by auto
  then show ?case using hungD(1)[OF h 0 PX_less, of 0 va] by auto
next
  case (Suc l')
  show ?case
  proof (cases "q = p \<and> PX (Suc l') va = i")
    case True
    then show ?thesis
      using hungD(1)[OF h Suc.prems i] hungD(6,7)[OF h] pte_at_zero[of m' pg] hungD(2)[OF h] by auto
  next
    case False
    then have same: "ent m' q (PX (Suc l') va) = ent m q (PX (Suc l') va)"
      using hungD(1)[OF h Suc.prems PX_less, of "Suc l'" va] by auto
    show ?thesis
      using Suc.IH[OF pt_inv_child[OF inv Suc.prems PX_less]] same by (simp add: Let_def)
  qed
qed

lemma hung_inv:
  assumes inv: "pt_inv m pos" and h: "hung m m' pos p i pg" and p: "pos p = Some (Suc l, \<pi>)"
  shows "pt_inv m' (pos(pg \<mapsto> (l, i # \<pi>)))"
proof -
  let ?pos = "pos(pg \<mapsto> (l, i # \<pi>))"
  have "?pos (PTE2PA (ent m' q j)) = Some (l', j # \<pi>')"
    if v: "?pos q = Some (Suc l', \<pi>')" "j < 512" "valid_pte (ent m' q j)" for q l' \<pi>' j
  proof -
    have "q \<noteq> pg" using v hungD(2)[OF h] by auto
    then have q: "pos q = Some (Suc l', \<pi>')" using v(1) by simp
    show ?thesis
    proof (cases "q = p \<and> j = i")
      case True
      then show ?thesis using hungD(1)[OF h q v(2)] hungD(6)[OF h] q p by simp
    next
      case False
      then have same: "ent m' q j = ent m q j" using hungD(1)[OF h q v(2)] by auto
      then have "pos (PTE2PA (ent m q j)) = Some (l', j # \<pi>')" using pt_inv_child[OF inv q v(2)] v(3) by simp
      then show ?thesis using same hungD(3)[OF h] by auto
    qed
  qed
  moreover have "page_aligned q \<and> q \<noteq> 0" if "q \<in> dom ?pos" for q
    using that hungD(4,5)[OF h] pt_inv_page[OF inv] by (auto split: if_splits)
  ultimately show ?thesis unfolding pt_inv_def by blast
qed

text \<open>The memory that allocating and linking a table page leaves.\<close>

abbreviation linked :: "phys \<Rightarrow> uint64 \<Rightarrow> uint64 \<Rightarrow> uint64 \<Rightarrow> phys" where
  "linked m p i pg \<equiv> store64 (memset m pg 0 4096) (pte_slot p i) (PA2PTE pg OR PTE_V)"

lemma linked_off:
  assumes "page_aligned p" "i < 512" "\<not> on_page pg x" "\<not> on_page p x"
  shows "linked m p i pg x = m x"
proof -
  have "\<not> in_range (pte_slot p i) 8 x" using slot_on_page[OF assms(1,2)] assms(4) by blast
  then show ?thesis using assms(3) by (simp add: store64_other memset_eq)
qed

lemma linked_hung:
  assumes inv: "pt_inv m pos" and p: "pos p = Some (Suc l, \<pi>)" and i: "i < 512" and e: "\<not> valid_pte (ent m p i)"
    and pg: "valid_page s pg" "pos pg = None" and off: "\<And>x. \<not> on_page pg x \<Longrightarrow> m1 x = m x"
  shows "hung m (linked m1 p i pg) pos p i pg"
proof -
  have al: "page_aligned pg" "pg \<noteq> 0" using pg(1) by (simp_all add: valid_page_def)
  have pal: "page_aligned p" using pt_inv_page[OF inv p] by simp
  have "ent (linked m1 p i pg) q j = (if q = p \<and> j = i then PA2PTE pg OR PTE_V else ent m q j)"
    if "pos q = Some w" "j < 512" for q w j
  proof -
    have q: "q \<noteq> pg" "page_aligned q" using that(1) pg(2) pt_inv_page[OF inv] by auto
    then have "ent m1 q j = ent m q j"
      using that(2) off pages_disjoint[OF al(1) q(2)] by (intro ent_cong) blast+
    then show ?thesis
      using ent_store[OF pal q(2) i that(2)] ent_zero_page[OF al(1) q(2) that(2)] q(1) by simp
  qed
  moreover have "ent (linked m1 p i pg) pg j = 0" if "j < 512" for j
  proof -
    have "pg \<noteq> p" using pg(2) p by auto
    then show ?thesis using ent_store[OF pal al(1) i that] ent_zero_page[OF al(1,1) that] by simp
  qed
  ultimately show ?thesis unfolding hung_def using pg(2) al e PTE2PA_table[OF pg(1)] by blast
qed

lemma new_table:
  assumes r: "ready LKmem s" and k: "kmem_inv s (pg # ps)" and inv: "pt_inv (mem s) pos"
    and dis: "set (pg # ps) \<inter> dom pos = {}" and p: "pos p = Some (Suc l, \<pi>)" and i: "i < 512"
    and e: "\<not> valid_pte (ent (mem s) p i)"
  shows "\<exists>t. kalloc s = Ok (pg, t) \<and> pg \<noteq> 0 \<and>
     pt_grow s (pg # ps) pos (t\<lparr>mem := linked (mem t) p i pg\<rparr>) ps (pos(pg \<mapsto> (l, i # \<pi>))) \<and>
     ent (linked (mem t) p i pg) p i = PA2PTE pg OR PTE_V"
proof -
  obtain t where t: "kalloc s = Ok (pg, t)" "kmem_inv t ps" "kcore t = settled (kcore s)" "kend t = kend s"
      "\<forall>x. \<not> on_page pg x \<longrightarrow> mem t x = mem s x"
    using kalloc_inv[OF r k] by auto
  have pg: "valid_page s pg" "pos pg = None" using k dis by (auto simp: kmem_inv_def)
  have al: "page_aligned pg" "pg \<noteq> 0" using pg(1) by (simp_all add: valid_page_def)
  have pal: "page_aligned p" using pt_inv_page[OF inv p] by simp
  let ?m = "linked (mem t) p i pg"
  have h: "hung (mem s) ?m pos p i pg" using linked_hung[OF inv p i e pg] t(5) by blast
  have off: "?m x = mem s x" if "\<not> on_page pg x" "\<not> on_page p x" for x
    using linked_off[OF pal i that] t(5) that(1) by simp
  have "kmem_inv (t\<lparr>mem := ?m\<rparr>) ps"
  proof (rule kmem_inv_frame[OF t(2)])
    fix q x assume q: "q \<in> set ps" "on_page q x"
    then have "page_aligned q" "q \<noteq> pg" "q \<noteq> p" using k dis p by (auto simp: kmem_inv_def valid_page_def)
    then have "\<not> on_page pg x" "\<not> on_page p x" using q(2) pages_disjoint al pal by metis+
    then show "mem (t\<lparr>mem := ?m\<rparr>) x = mem t x" using off t(5) by simp
  qed simp_all
  moreover have "pos \<subseteq>\<^sub>m pos(pg \<mapsto> (l, i # \<pi>))" using pg(2) by (auto simp: map_le_def)
  moreover have "set ps \<inter> dom (pos(pg \<mapsto> (l, i # \<pi>))) = {}" using dis k by (auto simp: kmem_inv_def)
  moreover have "\<forall>x. (\<forall>q \<in> dom pos \<union> set (pg # ps). \<not> on_page q x) \<longrightarrow> ?m x = mem s x"
    using off p by auto
  ultimately have "pt_grow s (pg # ps) pos (t\<lparr>mem := ?m\<rparr>) ps (pos(pg \<mapsto> (l, i # \<pi>)))"
    unfolding pt_grow_def using t(3,4) hung_inv[OF inv h p] hung_pte[OF inv h p i] hungD(1)[OF h] e
    by (auto simp: suffix_ConsI)
  then show ?thesis using t(1) al(2) hungD(1)[OF h p i] by auto
qed

text \<open>\<^verbatim>\<open>walk\<close> with allocation: it finds or builds the leaf slot, or runs out of pages; no mapping changes.\<close>

lemma walk_levels_alloc:
  assumes "ready LKmem s" "kmem_inv s ps" "pt_inv (mem s) pos" "set ps \<inter> dom pos = {}" "pos p = Some (l, \<pi>)"
  shows "\<exists>r t ps' pos'. walk_levels True va l p s = Ok (r, t) \<and> pt_grow s ps pos t ps' pos' \<and>
     (r = 0 \<longrightarrow> length ps < l) \<and> length ps \<le> length ps' + l \<and> (r \<noteq> 0 \<longrightarrow> slot_at (mem t) va l p = Some r)"
  using assms
proof (induction l arbitrary: s ps pos p \<pi>)
  case 0
  then have "pte_slot p (PX 0 va) \<noteq> 0" using slot_nonzero pt_inv_page PX_less by metis
  then show ?case using pt_grow_refl[OF 0(2,3,4)] by (auto simp: kern_simps)
next
  case (Suc l)
  let ?i = "PX (Suc l) va" let ?e = "ent (mem s) p ?i"
  show ?case
  proof (cases "valid_pte ?e")
    case True
    have "pos (PTE2PA ?e) = Some (l, ?i # \<pi>)" using pt_inv_child[OF Suc.prems(3,5) PX_less True] .
    then obtain r t ps' pos' where w: "walk_levels True va l (PTE2PA ?e) s = Ok (r, t)" "pt_grow s ps pos t ps' pos'"
        "r = 0 \<longrightarrow> length ps < l" "r \<noteq> 0 \<longrightarrow> slot_at (mem t) va l (PTE2PA ?e) = Some r" "length ps \<le> length ps' + l"
      using Suc.IH[OF Suc.prems(1-4)] by blast
    have "ent (mem t) p ?i = ?e" using pt_growD(14)[OF w(2) Suc.prems(5) PX_less True] .
    then show ?thesis using w True by (auto simp: kern_simps Let_def ent_def valid_pte_def)
  next
    case False
    then have z: "load64 (mem s) (pte_slot p ?i) AND PTE_V = 0" by (simp add: ent_def valid_pte_def)
    show ?thesis
    proof (cases ps)
      case Nil
      obtain t where t: "kalloc s = Ok (0, t)" "kmem_inv t []" "kcore t = settled (kcore s)" "kend t = kend s" "mem t = mem s"
        using kalloc_inv[OF Suc.prems(1,2)] Nil by auto
      then have "pt_grow s ps pos t [] pos" using Suc.prems Nil by (auto simp: pt_grow_def)
      then show ?thesis using t z Nil by (auto simp: kern_simps Let_def)
    next
      case (Cons pg qs)
      obtain t where t: "kalloc s = Ok (pg, t)" "pg \<noteq> 0"
          "pt_grow s ps pos (t\<lparr>mem := linked (mem t) p ?i pg\<rparr>) qs (pos(pg \<mapsto> (l, ?i # \<pi>)))"
          "ent (linked (mem t) p ?i pg) p ?i = PA2PTE pg OR PTE_V"
        using new_table[OF Suc.prems(1) _ Suc.prems(3) _ Suc.prems(5) PX_less False] Suc.prems(2,4) Cons by blast
      let ?t = "t\<lparr>mem := linked (mem t) p ?i pg\<rparr>" let ?pos = "pos(pg \<mapsto> (l, ?i # \<pi>))"
      note g = pt_growD[OF t(3)]
      have "\<exists>r u ps' pos'. walk_levels True va l pg ?t = Ok (r, u) \<and> pt_grow ?t qs ?pos u ps' pos' \<and>
          (r = 0 \<longrightarrow> length qs < l) \<and> length qs \<le> length ps' + l \<and> (r \<noteq> 0 \<longrightarrow> slot_at (mem u) va l pg = Some r)"
        by (rule Suc.IH[OF g(12)[OF Suc.prems(1)] g(4,5,8)]) simp
      then obtain r u ps' pos' where w: "walk_levels True va l pg ?t = Ok (r, u)" "pt_grow ?t qs ?pos u ps' pos'"
          "r = 0 \<longrightarrow> length qs < l" "r \<noteq> 0 \<longrightarrow> slot_at (mem u) va l pg = Some r" "length qs \<le> length ps' + l"
        by blast
      have P: "PTE2PA (PA2PTE pg OR PTE_V) = pg"
        using Suc.prems(2) Cons by (intro PTE2PA_table[of s]) (simp add: kmem_inv_def)
      have "ent (mem u) p ?i = PA2PTE pg OR PTE_V"
        using pt_growD(14)[OF w(2) g(10)[OF Suc.prems(5)] PX_less] t(4) by simp
      then have "r \<noteq> 0 \<longrightarrow> slot_at (mem u) va (Suc l) p = Some r" using w(4) P by (simp add: Let_def)
      then show ?thesis using w(1,3,5) t(1,2) z pt_grow_trans[OF t(3) w(2)] Cons
        by (auto simp: kern_simps Let_def simp del: slot_at.simps)
    qed
  qed
qed

section \<open>Address spaces\<close>

text \<open>The leaf entry of a virtual address in the page table \<open>root\<close>.\<close>

definition page_map :: "'z kmem_state_scheme \<Rightarrow> uint64 \<Rightarrow> uint64 \<Rightarrow> uint64" where
  "page_map s root va = pte_at (mem s) va 2 root"

definition as_ok :: "'z kmem_state_scheme \<Rightarrow> uint64 list \<Rightarrow> table_pos \<Rightarrow> uint64 \<Rightarrow> bool" where
  "as_ok s ps pos root \<longleftrightarrow>
     ready LKmem s \<and> kmem_inv s ps \<and> pt_inv (mem s) pos \<and> set ps \<inter> dom pos = {} \<and> pos root = Some (2, [])"

text \<open>What no operation on a page table disturbs: the rest of memory, and the locks.\<close>

definition as_frame ::
    "'z kmem_state_scheme \<Rightarrow> uint64 list \<Rightarrow> table_pos \<Rightarrow> 'z kmem_state_scheme \<Rightarrow> uint64 list \<Rightarrow> table_pos \<Rightarrow> bool" where
  "as_frame s ps pos t ps' pos' \<longleftrightarrow>
     (kcore t = kcore s \<or> kcore t = settled (kcore s)) \<and> kend t = kend s \<and> suffix ps' ps \<and>
     pos \<subseteq>\<^sub>m pos' \<and> dom pos' \<subseteq> dom pos \<union> set ps \<and>
     (\<forall>x. (\<forall>p \<in> dom pos \<union> set ps. \<not> on_page p x) \<longrightarrow> mem t x = mem s x)"

lemma as_frame_refl: "as_frame s ps pos s ps pos"
  by (simp add: as_frame_def)

lemma as_frame_trans:
  assumes "as_frame s ps pos t qs pos1" "as_frame t qs pos1 u rs pos2"
  shows "as_frame s ps pos u rs pos2"
proof -
  have a: "suffix qs ps" "pos \<subseteq>\<^sub>m pos1" "dom pos1 \<subseteq> dom pos \<union> set ps" and b: "suffix rs qs" "pos1 \<subseteq>\<^sub>m pos2" "dom pos2 \<subseteq> dom pos1 \<union> set qs"
    using assms by (auto simp: as_frame_def)
  have sub: "set qs \<subseteq> set ps" using a(1) by (rule set_mono_suffix)
  have "mem u x = mem s x" if h: "\<forall>p \<in> dom pos \<union> set ps. \<not> on_page p x" for x
  proof -
    have "\<forall>p \<in> dom pos1 \<union> set qs. \<not> on_page p x" using h a(3) sub by blast
    then show ?thesis using h assms by (simp add: as_frame_def)
  qed
  moreover have "suffix rs ps" using b(1) a(1) by (rule suffix_order.trans)
  moreover have "pos \<subseteq>\<^sub>m pos2" using a(2) b(2) by (rule map_le_trans)
  moreover have "dom pos2 \<subseteq> dom pos \<union> set ps" using a(3) b(3) sub by blast
  ultimately show ?thesis using assms unfolding as_frame_def by auto
qed

text \<open>Two addresses below \<open>MAXVA\<close> with the same three indices are on the same page.\<close>

lemma unat_PX: "unat (PX k va) = unat va div 2 ^ (12 + 9 * k) mod 512"
proof -
  have "unat (PX k va) = take_bit 9 (drop_bit (12 + 9 * k) (unat va))"
    by (rule bit_eqI) (auto simp: PX_def PXMASK_def PXSHIFT_def bit_simps bit_mask_const bit_unsigned_iff dest: bit_imp_le_length)
  then show ?thesis by (simp add: take_bit_eq_mod drop_bit_eq_div)
qed

lemma same_page_PX:
  assumes "va < MAXVA" "va' < MAXVA" "\<forall>k \<le> 2. PX k va = PX k va'"
  shows "unat va div 4096 = unat va' div 4096"
proof -
  have split: "n div 4096 = n div 2 ^ 12 mod 512 + 512 * (n div 2 ^ 21 mod 512) + 262144 * (n div 2 ^ 30 mod 512)"
    if "n < 2 ^ 38" for n :: nat
  proof -
    let ?N = "n div 4096"
    have "n div 2 ^ 30 = ?N div 512 div 512" "n div 2 ^ 21 = ?N div 512" "n div 2 ^ 12 = ?N"
      by (simp_all add: div_mult2_eq[symmetric])
    moreover have "?N div 512 div 512 < 512" using that by (simp add: div_mult2_eq[symmetric] less_mult_imp_div_less)
    moreover have "?N = 512 * (?N div 512) + ?N mod 512" "?N div 512 = 512 * (?N div 512 div 512) + ?N div 512 mod 512" by simp_all
    ultimately show ?thesis by (simp only: mod_less)
  qed
  have "unat (PX 0 va) = unat (PX 0 va')" "unat (PX 1 va) = unat (PX 1 va')" "unat (PX 2 va) = unat (PX 2 va')"
    using assms(3) by auto
  then have eq: "unat va div 2 ^ 12 mod 512 = unat va' div 2 ^ 12 mod 512"
    "unat va div 2 ^ 21 mod 512 = unat va' div 2 ^ 21 mod 512"
    "unat va div 2 ^ 30 mod 512 = unat va' div 2 ^ 30 mod 512"
    by (simp_all add: unat_PX)
  have lt: "unat va < 2 ^ 38" "unat va' < 2 ^ 38" using assms(1,2) by (simp_all add: MAXVA_eq word_less_nat_alt)
  show ?thesis unfolding split[OF lt(1)] split[OF lt(2)] by (simp only: eq)
qed

lemma PX_same_page:
  assumes "unat va div 4096 = unat va' div 4096"
  shows "PX k va = PX k va'"
proof -
  have "n div 2 ^ (12 + 9 * k) = n div 4096 div 2 ^ (9 * k)" for n :: nat
    by (simp add: power_add div_mult2_eq)
  then show ?thesis using assms by (simp add: word_unat_eq_iff unat_PX)
qed

lemma slot_at_same_page:
  assumes "unat va div 4096 = unat va' div 4096"
  shows "slot_at m va l p = slot_at m va' l p"
proof (induction l arbitrary: p)
  case 0
  then show ?case using PX_same_page[OF assms] by simp
next
  case (Suc l)
  then show ?case using PX_same_page[OF assms, of "Suc l"] by (simp add: Let_def)
qed

text \<open>Storing an entry in the leaf slot of \<open>a\<close> remaps the page of \<open>a\<close> and nothing else.\<close>

lemma store_entry:
  assumes ok: "as_ok t ps pos root" and a: "a < MAXVA" and r: "slot_at (mem t) a 2 root = Some r"
  shows "as_ok (t\<lparr>mem := store64 (mem t) r v\<rparr>) ps pos root"
    and "va < MAXVA \<Longrightarrow> page_map (t\<lparr>mem := store64 (mem t) r v\<rparr>) root va =
       (if unat va div 4096 = unat a div 4096 then v else page_map t root va)"
    and "as_frame t ps pos (t\<lparr>mem := store64 (mem t) r v\<rparr>) ps pos"
proof -
  have inv: "pt_inv (mem t) pos" and root: "pos root = Some (2, [])" and k: "kmem_inv t ps" and dis: "set ps \<inter> dom pos = {}"
    using ok by (simp_all add: as_ok_def)
  obtain q where q: "pos q = Some (0, va_path a 2 @ [])" "r = pte_slot q (PX 0 a)"
    using slot_at_pos[OF inv root r] by blast
  have qal: "page_aligned q" using pt_inv_page[OF inv q(1)] by simp
  have off: "store64 (mem t) r v x = mem t x" if "\<not> on_page q x" for x
    using that slot_on_page[OF qal PX_less] unfolding q(2) by (intro store64_other) blast
  have "kmem_inv (t\<lparr>mem := store64 (mem t) r v\<rparr>) ps"
  proof (rule kmem_inv_frame[OF k])
    fix p x assume p: "p \<in> set ps" "on_page p x"
    then have "page_aligned p" "p \<noteq> q" using k dis q(1) by (auto simp: kmem_inv_def valid_page_def)
    then have "\<not> on_page q x" using p(2) pages_disjoint[OF qal] by blast
    then show "mem (t\<lparr>mem := store64 (mem t) r v\<rparr>) x = mem t x" using off by simp
  qed simp_all
  then show "as_ok (t\<lparr>mem := store64 (mem t) r v\<rparr>) ps pos root"
    using ok store_leaf_inv[OF inv q(1) PX_less] by (simp add: as_ok_def q(2))
  show "as_frame t ps pos (t\<lparr>mem := store64 (mem t) r v\<rparr>) ps pos"
    using off q(1) by (auto simp: as_frame_def)
  assume va: "va < MAXVA"
  have "slot_at (mem t) va 2 root = Some r \<longleftrightarrow> unat va div 4096 = unat a div 4096"
    using slot_at_inj[OF inv root _ r, of va] same_page_PX[OF va a] slot_at_same_page[of va a "mem t" 2 root] r by auto
  then show "page_map (t\<lparr>mem := store64 (mem t) r v\<rparr>) root va =
       (if unat va div 4096 = unat a div 4096 then v else page_map t root va)"
    using store_leaf_pte[OF inv q(1) PX_less root, of _ a v va] by (simp add: page_map_def q(2))
qed

lemma walk_alloc:
  assumes ok: "as_ok s ps pos root" and a: "a < MAXVA"
  shows "\<exists>r t ps' pos'. walk root a True s = Ok (r, t) \<and> as_ok t ps' pos' root \<and> as_frame s ps pos t ps' pos' \<and>
     (\<forall>va. page_map t root va = page_map s root va) \<and> (r = 0 \<longrightarrow> length ps < 2) \<and> length ps \<le> length ps' + 2 \<and>
     (r \<noteq> 0 \<longrightarrow> slot_at (mem t) a 2 root = Some r \<and> load64 (mem t) r = page_map s root a)"
proof -
  have o: "ready LKmem s" "kmem_inv s ps" "pt_inv (mem s) pos" "set ps \<inter> dom pos = {}" "pos root = Some (2, [])"
    using ok by (simp_all add: as_ok_def)
  obtain r t ps' pos' where w: "walk_levels True a 2 root s = Ok (r, t)" "pt_grow s ps pos t ps' pos'"
      "r = 0 \<longrightarrow> length ps < 2" "r \<noteq> 0 \<longrightarrow> slot_at (mem t) a 2 root = Some r" "length ps \<le> length ps' + 2"
    using walk_levels_alloc[OF o] by blast
  note g = pt_growD[OF w(2)]
  have "as_ok t ps' pos' root" using g(4,5,8) g(10)[OF o(5)] g(12)[OF o(1)] by (simp add: as_ok_def)
  moreover have "as_frame s ps pos t ps' pos'" using g(1,2,3,6,7,11) by (auto simp: as_frame_def)
  moreover have pm: "page_map t root va = page_map s root va" for va using g(9)[OF o(5)] by (simp add: page_map_def)
  moreover have "r \<noteq> 0 \<longrightarrow> load64 (mem t) r = page_map s root a"
    using w(4) pm[of a] by (auto simp: page_map_def pte_at_slot)
  moreover have "walk root a True s = Ok (r, t)" using w(1) a by (simp add: walk_def not_le[symmetric])
  ultimately show ?thesis using w(3,4,5) by blast
qed

abbreviation in_pages :: "uint64 \<Rightarrow> nat \<Rightarrow> uint64 \<Rightarrow> bool" where
  "in_pages a n va \<equiv> unat a div 4096 \<le> unat va div 4096 \<and> unat va div 4096 \<le> unat a div 4096 + n"

lemma map_first:
  assumes ok: "as_ok s ps pos root" and a: "a < MAXVA" and free: "\<not> valid_pte (page_map s root a)"
  obtains (full) t ps' pos' where "walk root a True s = Ok (0, t)" "as_ok t ps' pos' root" "as_frame s ps pos t ps' pos'"
      "\<And>va. page_map t root va = page_map s root va" "length ps < 2"
  | (mapped) r t ps' pos' where "walk root a True s = Ok (r, t)" "r \<noteq> 0" "load64 (mem t) r AND PTE_V = 0"
      "as_ok (t\<lparr>mem := store64 (mem t) r v\<rparr>) ps' pos' root" "as_frame s ps pos (t\<lparr>mem := store64 (mem t) r v\<rparr>) ps' pos'"
      "\<And>va. va < MAXVA \<Longrightarrow> page_map (t\<lparr>mem := store64 (mem t) r v\<rparr>) root va =
         (if unat va div 4096 = unat a div 4096 then v else page_map s root va)"
      "length ps \<le> length ps' + 2"
proof -
  obtain r t ps' pos' where w: "walk root a True s = Ok (r, t)" "as_ok t ps' pos' root" "as_frame s ps pos t ps' pos'"
      "\<And>va. page_map t root va = page_map s root va" "r = 0 \<Longrightarrow> length ps < 2"
      "r \<noteq> 0 \<Longrightarrow> slot_at (mem t) a 2 root = Some r" "r \<noteq> 0 \<Longrightarrow> load64 (mem t) r = page_map s root a"
      "length ps \<le> length ps' + 2"
    using walk_alloc[OF ok a] by blast
  show thesis
  proof (cases "r = 0")
    case True
    then show ?thesis using full w by blast
  next
    case False
    note st = store_entry[OF w(2) a w(6)[OF False]]
    show ?thesis
      using mapped[OF w(1) False _ st(1) as_frame_trans[OF w(3) st(3)]] st(2) w(4) w(7)[OF False] w(8) free
      by (simp add: valid_pte_def)
  qed
qed

lemma in_pages_Suc:
  assumes "page_aligned a" "unat a + 4096 * Suc (Suc n) \<le> unat MAXVA"
  shows "unat (a + PGSIZE) = unat a + 4096" "page_aligned (a + PGSIZE)"
    and "in_pages a (Suc n) va \<longleftrightarrow> unat va div 4096 = unat a div 4096 \<or> in_pages (a + PGSIZE) n va"
proof -
  have "a < MAXVA" using assms(2) by (simp add: word_less_nat_alt)
  then show u: "unat (a + PGSIZE) = unat a + 4096" by (rule next_va_unat)
  then show "page_aligned (a + PGSIZE)" using assms(1) by (simp add: page_aligned_unat)
  have "unat (a + PGSIZE) div 4096 = Suc (unat a div 4096)" by (simp add: u)
  then show "in_pages a (Suc n) va \<longleftrightarrow> unat va div 4096 = unat a div 4096 \<or> in_pages (a + PGSIZE) n va" by auto
qed

definition map_result ::
    "'z kmem_state_scheme \<Rightarrow> uint64 list \<Rightarrow> table_pos \<Rightarrow> uint64 \<Rightarrow> uint64 \<Rightarrow> nat \<Rightarrow> uint64 \<Rightarrow> uint64 \<Rightarrow>
     int \<Rightarrow> 'z kmem_state_scheme \<Rightarrow> uint64 list \<Rightarrow> table_pos \<Rightarrow> bool" where
  "map_result s ps pos root a n pa perm r t ps' pos' \<longleftrightarrow>
     as_ok t ps' pos' root \<and> as_frame s ps pos t ps' pos' \<and> (r = 0 \<or> r = -1 \<and> length ps < 2 * Suc n) \<and> length ps \<le> length ps' + 2 * Suc n \<and>
     (r = 0 \<longrightarrow> (\<forall>i \<le> n. page_map t root (a + of_nat (4096 * i)) = PA2PTE (pa + of_nat (4096 * i)) OR perm OR PTE_V)) \<and>
     (\<forall>va < MAXVA. \<not> in_pages a n va \<longrightarrow> page_map t root va = page_map s root va)"

lemma map_result_Cons:
  assumes al: "page_aligned a" and le: "unat a + 4096 * Suc (Suc n) \<le> unat MAXVA"
    and f: "as_frame s ps pos u ps' pos'"
    and u: "\<And>va. va < MAXVA \<Longrightarrow> page_map u root va =
         (if unat va div 4096 = unat a div 4096 then PA2PTE pa OR perm OR PTE_V else page_map s root va)"
    and q: "map_result u ps' pos' root (a + PGSIZE) n (pa + PGSIZE) perm r t qs pos2" and len: "length ps \<le> length ps' + 2"
  shows "map_result s ps pos root a (Suc n) pa perm r t qs pos2"
proof -
  note nx = in_pages_Suc[OF al le]
  have a: "a < MAXVA" using le by (simp add: word_less_nat_alt)
  have keep: "page_map t root va = page_map u root va" if "va < MAXVA" "\<not> in_pages (a + PGSIZE) n va" for va
    using q that by (simp add: map_result_def)
  have rest: "page_map t root (a + PGSIZE + of_nat (4096 * i)) = PA2PTE (pa + PGSIZE + of_nat (4096 * i)) OR perm OR PTE_V"
    if "r = 0" "i \<le> n" for i
    using q that by (simp add: map_result_def)
  have "\<not> in_pages (a + PGSIZE) n a" using nx(1) by simp
  then have first: "page_map t root a = PA2PTE pa OR perm OR PTE_V" using keep[OF a] u[OF a] by simp
  have "page_map t root (a + of_nat (4096 * i)) = PA2PTE (pa + of_nat (4096 * i)) OR perm OR PTE_V"
    if "r = 0" "i \<le> Suc n" for i
  proof (cases i)
    case 0
    then show ?thesis using first by simp
  next
    case (Suc j)
    have "of_nat (4096 * Suc j) = PGSIZE + of_nat (4096 * j)" by (simp add: PGSIZE_def)
    then show ?thesis using rest[OF that(1), of j] that(2) Suc by (simp only: add.assoc)
  qed
  moreover have "page_map t root va = page_map s root va" if "va < MAXVA" "\<not> in_pages a (Suc n) va" for va
    using keep[OF that(1)] u[OF that(1)] nx(3)[of va] that(2) by auto
  moreover have "as_frame s ps pos t qs pos2" using as_frame_trans[OF f] q by (simp add: map_result_def)
  moreover have "(r = 0 \<or> r = -1 \<and> length ps < 2 * Suc (Suc n)) \<and> length ps \<le> length qs + 2 * Suc (Suc n)"
    using q len by (auto simp: map_result_def)
  ultimately show ?thesis using q unfolding map_result_def by blast
qed

lemma mappages_loop_map:
  assumes "as_ok s ps pos root" "page_aligned a" "unat a + 4096 * Suc n \<le> unat MAXVA" "lastpg = a + of_nat (4096 * n)"
    and "\<And>va. va < MAXVA \<Longrightarrow> in_pages a n va \<Longrightarrow> \<not> valid_pte (page_map s root va)"
  shows "\<exists>r t ps' pos'. mappages_loop root a lastpg pa perm s = Ok (r, t) \<and> map_result s ps pos root a n pa perm r t ps' pos'"
  using assms
proof (induction n arbitrary: a pa s ps pos)
  case 0
  have a: "a < MAXVA" using 0(3) by (simp add: word_less_nat_alt)
  have "\<not> valid_pte (page_map s root a)" using 0(5)[OF a] by simp
  then show ?case
  proof (cases rule: map_first[OF 0(1) a, where v = "PA2PTE pa OR perm OR PTE_V", consumes 1, case_names full mapped])
    case (full t ps' pos')
    then show ?thesis by (subst mappages_loop.simps) (auto simp: kern_simps map_result_def)
  next
    case (mapped r t ps' pos')
    then show ?thesis using 0(4) a by (subst mappages_loop.simps) (auto simp: kern_simps map_result_def)
  qed
next
  case (Suc n)
  have a: "a < MAXVA" using Suc.prems(3) by (simp add: word_less_nat_alt)
  note nx = in_pages_Suc[OF Suc.prems(2,3)]
  have "\<not> valid_pte (page_map s root a)" using Suc.prems(5)[OF a] by simp
  then show ?case
  proof (cases rule: map_first[OF Suc.prems(1) a, where v = "PA2PTE pa OR perm OR PTE_V", consumes 1, case_names full mapped])
    case (full t ps' pos')
    then show ?thesis by (subst mappages_loop.simps) (auto simp: kern_simps map_result_def)
  next
    case (mapped r t ps' pos')
    let ?u = "t\<lparr>mem := store64 (mem t) r (PA2PTE pa OR perm OR PTE_V)\<rparr>"
    have apart: "unat va div 4096 \<noteq> unat a div 4096" if "in_pages (a + PGSIZE) n va" for va
      using that nx(1) by auto
    have free: "\<not> valid_pte (page_map ?u root va)" if "va < MAXVA" "in_pages (a + PGSIZE) n va" for va
      using mapped(6)[OF that(1)] apart[OF that(2)] Suc.prems(5)[OF that(1)] nx(3)[of va] that(2) by simp
    have le: "unat (a + PGSIZE) + 4096 * Suc n \<le> unat MAXVA" using Suc.prems(3) nx(1) by simp
    have lst: "lastpg = a + PGSIZE + of_nat (4096 * n)" using Suc.prems(4) by (simp add: PGSIZE_def)
    from Suc.IH[OF mapped(4) nx(2) le lst free, of "pa + PGSIZE"]
    obtain q u qs pos2 where q: "mappages_loop root (a + PGSIZE) lastpg (pa + PGSIZE) perm ?u = Ok (q, u)"
        "map_result ?u ps' pos' root (a + PGSIZE) n (pa + PGSIZE) perm q u qs pos2" by blast
    have ne: "a \<noteq> lastpg"
    proof
      assume "a = lastpg"
      then have "unat a = unat (a + of_nat (4096 * Suc n))" using Suc.prems(4) by simp
      moreover have "unat (a + of_nat (4096 * Suc n)) = unat a + 4096 * Suc n"
        using Suc.prems(3) by (intro unat_add_offset) (simp add: MAXVA_eq)
      ultimately show False by simp
    qed
    have "map_result s ps pos root a (Suc n) pa perm q u qs pos2"
      using map_result_Cons[OF Suc.prems(2,3) mapped(5,6) q(2) mapped(7)] by blast
    then show ?thesis using q(1) mapped(1-3) ne by (subst mappages_loop.simps) (auto simp: kern_simps)
  qed
qed

section \<open>Writes outside the tree\<close>

lemma pt_off:
  assumes inv: "pt_inv m pos" and off: "\<forall>q \<in> dom pos. \<forall>x. on_page q x \<longrightarrow> m' x = m x"
  shows "pt_inv m' pos" and "pos p = Some (l, \<pi>) \<Longrightarrow> slot_at m' va l p = slot_at m va l p"
    and "pos p = Some (l, \<pi>) \<Longrightarrow> pte_at m' va l p = pte_at m va l p"
proof -
  have e: "ent m' q j = ent m q j" if "pos q = Some w" "j < 512" for q w j
    using pt_inv_page[OF inv that(1)] that off by (intro ent_cong) auto
  show "pt_inv m' pos" using inv e unfolding pt_inv_def by (metis (no_types, lifting))
  show "slot_at m' va l p = slot_at m va l p" if "pos p = Some (l, \<pi>)"
    using that
  proof (induction l arbitrary: p \<pi>)
    case (Suc l)
    show ?case using e[OF Suc.prems PX_less] Suc.IH[OF pt_inv_child[OF inv Suc.prems PX_less]] by (simp add: Let_def)
  qed simp
  show "pte_at m' va l p = pte_at m va l p" if "pos p = Some (l, \<pi>)"
    using that
  proof (induction l arbitrary: p \<pi>)
    case 0
    then show ?case using e[OF 0 PX_less] by simp
  next
    case (Suc l)
    show ?case using e[OF Suc.prems PX_less] Suc.IH[OF pt_inv_child[OF inv Suc.prems PX_less]] by (simp add: Let_def)
  qed
qed

lemma put_bytes_eq:
  "length bs \<le> 2 ^ 64 \<Longrightarrow> put_bytes m a bs = (\<lambda>x. if in_range a (length bs) x then bs ! unat (x - a) else m x)"
proof (induction bs arbitrary: m a)
  case (Cons c cs)
  have IH: "put_bytes (m(a := c)) (a + 1) cs = (\<lambda>x. if in_range (a + 1) (length cs) x then cs ! unat (x - (a + 1)) else (m(a := c)) x)"
    using Cons.prems by (intro Cons.IH) simp
  have shift: "(c # cs) ! unat (x - a) = cs ! unat (x - (a + 1))" if "x \<noteq> a" for x
  proof -
    have "x - a \<noteq> 0" using that by simp
    then have "unat (x - a) \<noteq> 0" "unat (x - (a + 1)) = unat (x - a) - 1"
      unfolding diff_diff_eq[symmetric] by (simp_all add: unat_minus_one unat_eq_zero del: diff_diff_eq)
    then show ?thesis by (simp add: nth_Cons')
  qed
  have "\<not> in_range (a + 1) (length cs) a" using Cons.prems by (intro not_in_range_self) simp
  then show ?case
  proof (intro ext)
    fix x
    show "put_bytes m a (c # cs) x = (if in_range a (length (c # cs)) x then (c # cs) ! unat (x - a) else m x)"
      using \<open>\<not> in_range (a + 1) (length cs) a\<close> Cons.prems shift[of x]
      by (cases "x = a") (simp_all only: put_bytes.simps IH in_range_Suc list.size One_nat_def add_0_right add_Suc_right, simp_all)
  qed
qed simp

section \<open>User memory\<close>

text \<open>An address that user code may access, and the byte it reads there.\<close>

definition user_mapped :: "'z kmem_state_scheme \<Rightarrow> uint64 \<Rightarrow> uint64 \<Rightarrow> bool" where
  "user_mapped s root va \<longleftrightarrow> va < MAXVA \<and> page_map s root va AND PTE_V \<noteq> 0 \<and> page_map s root va AND PTE_U \<noteq> 0"

definition user_pa :: "'z kmem_state_scheme \<Rightarrow> uint64 \<Rightarrow> uint64 \<Rightarrow> uint64" where
  "user_pa s root va = PTE2PA (page_map s root va)"

definition user_byte :: "'z kmem_state_scheme \<Rightarrow> uint64 \<Rightarrow> uint64 \<Rightarrow> uchar" where
  "user_byte s root va = mem s (user_pa s root va + (va - PGROUNDDOWN va))"

text \<open>User pages are apart from the page tables and from each other.\<close>

definition user_ok :: "'z kmem_state_scheme \<Rightarrow> table_pos \<Rightarrow> uint64 \<Rightarrow> bool" where
  "user_ok s pos root \<longleftrightarrow> pt_inv (mem s) pos \<and> pos root = Some (2, []) \<and>
     (\<forall>va. user_mapped s root va \<longrightarrow> user_pa s root va \<notin> dom pos \<and> user_pa s root va \<noteq> 0) \<and>
     (\<forall>va va'. user_mapped s root va \<and> user_mapped s root va' \<and> user_pa s root va = user_pa s root va' \<longrightarrow>
        unat va div 4096 = unat va' div 4096)"

lemma page_map_same_page: "unat va div 4096 = unat va' div 4096 \<Longrightarrow> page_map s root va = page_map s root va'"
  by (simp add: page_map_def pte_at_slot slot_at_same_page[of va va'])

lemma MAXVA_page: "unat va div 4096 = unat va' div 4096 \<Longrightarrow> va < MAXVA \<Longrightarrow> va' < MAXVA"
  using div_less_iff_less_mult[of 4096 "unat va" 67108864] div_less_iff_less_mult[of 4096 "unat va'" 67108864]
  by (simp add: MAXVA_eq word_less_nat_alt)

lemma unat_rounddown_page: "unat (PGROUNDDOWN va) div 4096 = unat va div 4096"
  by (simp add: unat_PGROUNDDOWN)

lemma user_mapped_page: "unat va div 4096 = unat va' div 4096 \<Longrightarrow> user_mapped s root va = user_mapped s root va'"
  using page_map_same_page[of va va' s root] MAXVA_page[of va va'] MAXVA_page[of va' va] by (auto simp: user_mapped_def)

lemma walkaddr_user:
  assumes "user_ok s pos root"
  shows "walkaddr root (PGROUNDDOWN va) s = Ok (if user_mapped s root va then user_pa s root va else 0, s)"
proof -
  let ?a = "PGROUNDDOWN va"
  have e: "page_map s root ?a = page_map s root va" using page_map_same_page unat_rounddown_page by blast
  have lt: "?a < MAXVA \<longleftrightarrow> va < MAXVA" using MAXVA_page unat_rounddown_page by metis
  have inv: "pt_inv (mem s) pos" and root: "pos root = Some (2, [])" using assms by (simp_all add: user_ok_def)
  show ?thesis
  proof (cases "?a < MAXVA")
    case True
    show ?thesis
    proof (cases "slot_at (mem s) ?a 2 root")
      case None
      then have "page_map s root va = 0" using e by (simp add: page_map_def pte_at_slot)
      then show ?thesis using True None
        by (simp add: walkaddr_def walk_noalloc kern_simps user_mapped_def not_le[symmetric])
    next
      case (Some a)
      then obtain q where "pos q = Some (0, va_path ?a 2 @ [])" "a = pte_slot q (PX 0 ?a)" using slot_at_pos[OF inv root] by blast
      then have "a \<noteq> 0" using slot_nonzero pt_inv_page[OF inv] PX_less by metis
      moreover have "load64 (mem s) a = page_map s root va" using e Some by (simp add: page_map_def pte_at_slot)
      ultimately show ?thesis using True Some lt
        by (simp add: walkaddr_def walk_noalloc kern_simps user_mapped_def user_pa_def not_le[symmetric])
    qed
  next
    case False
    then have "\<not> user_mapped s root va" "MAXVA \<le> ?a" using lt by (auto simp: user_mapped_def)
    then show ?thesis by (simp add: walkaddr_def kern_simps)
  qed
qed

lemma user_pa_page: "unat va div 4096 = unat va' div 4096 \<Longrightarrow> user_pa s root va = user_pa s root va'"
  by (simp add: user_pa_def page_map_same_page[of va va'])

lemma user_byte_offset:
  assumes "unat va + i < 2 ^ 64" "unat va mod 4096 + i < 4096"
  shows "unat (va + of_nat i) div 4096 = unat va div 4096"
    and "user_byte s root (va + of_nat i) = mem s (user_pa s root va + (va - PGROUNDDOWN va) + of_nat i)"
proof -
  show pg: "unat (va + of_nat i) div 4096 = unat va div 4096"
    using assms(2) unat_add_offset[OF assms(1)] div_add1_eq[of "unat va" i 4096] by simp
  then have "unat (PGROUNDDOWN (va + of_nat i)) = unat (PGROUNDDOWN va)" by (simp add: unat_PGROUNDDOWN)
  then have "PGROUNDDOWN (va + of_nat i) = PGROUNDDOWN va" by (simp add: word_unat_eq_iff)
  then show "user_byte s root (va + of_nat i) = mem s (user_pa s root va + (va - PGROUNDDOWN va) + of_nat i)"
    by (simp add: user_byte_def user_pa_page[OF pg] algebra_simps)
qed

lemma rounddown_next: "va < MAXVA \<Longrightarrow> unat (PGROUNDDOWN va + PGSIZE) = unat va - unat va mod 4096 + 4096"
proof -
  assume "va < MAXVA"
  then have "PGROUNDDOWN va < MAXVA" using MAXVA_page unat_rounddown_page by metis
  then show ?thesis using next_va_unat[of "PGROUNDDOWN va"] by (simp add: unat_PGROUNDDOWN minus_mod_eq_div_mult)
qed

lemma upt_split_at: "k \<le> n \<Longrightarrow> [0..<n] = [0..<k] @ map (\<lambda>i. k + i) [0..<n - k]"
  by (rule nth_equalityI) (auto simp: nth_append)

text \<open>\<^verbatim>\<open>copyin\<close> reads user memory and changes nothing.\<close>

lemma copyin_reads:
  assumes ok: "user_ok s pos root" and "unat va + len \<le> unat MAXVA"
    and "\<And>i. i < len \<Longrightarrow> user_mapped s root (va + of_nat i)"
  shows "copyin root va len s = Ok ((0, map (\<lambda>i. user_byte s root (va + of_nat i)) [0..<len]), s)"
  using assms(2,3)
proof (induction len arbitrary: va rule: less_induct)
  case (less len)
  show ?case
  proof (cases "len = 0")
    case True
    then show ?thesis by (subst copyin.simps) simp
  next
    case False
    let ?n = "page_rest va len" let ?va = "PGROUNDDOWN va + PGSIZE"
    have um: "user_mapped s root va" using less.prems(2)[of 0] False by simp
    then have lt: "va < MAXVA" by (simp add: user_mapped_def)
    have pa: "user_pa s root va \<noteq> 0" using ok um by (simp add: user_ok_def)
    have n: "0 < ?n" "?n \<le> len" "unat va mod 4096 + ?n \<le> 4096" using False by (auto simp: page_rest_eq)
    have n2: "?n < len \<Longrightarrow> unat va mod 4096 + ?n = 4096" by (auto simp: page_rest_eq min_def split: if_splits)
    have bs: "bytes_at (mem s) (user_pa s root va + (va - PGROUNDDOWN va)) ?n = map (\<lambda>i. user_byte s root (va + of_nat i)) [0..<?n]"
    proof (rule nth_equalityI)
      fix i assume "i < length (bytes_at (mem s) (user_pa s root va + (va - PGROUNDDOWN va)) ?n)"
      then have "i < ?n" by simp
      then show "bytes_at (mem s) (user_pa s root va + (va - PGROUNDDOWN va)) ?n ! i = map (\<lambda>i. user_byte s root (va + of_nat i)) [0..<?n] ! i"
        using user_byte_offset(2)[of va i s root] n less.prems(1) by (simp add: bytes_at_nth MAXVA_eq)
    qed simp
    have rest: "copyin root ?va (len - ?n) s = Ok ((0, map (\<lambda>i. user_byte s root (va + of_nat (?n + i))) [0..<len - ?n]), s)"
    proof (cases "?n < len")
      case True
      have va: "?va = va + of_nat ?n"
        using rounddown_next[OF lt] n2[OF True] less.prems(1) n unat_add_offset[of va ?n]
        by (simp add: word_unat_eq_iff MAXVA_eq)
      have "unat ?va = unat va + ?n" using unat_add_offset[of va ?n] less.prems(1) n by (simp add: va MAXVA_eq)
      then have "copyin root ?va (len - ?n) s = Ok ((0, map (\<lambda>i. user_byte s root (?va + of_nat i)) [0..<len - ?n]), s)"
        using n less.prems less.prems(2)[of "?n + _"] by (intro less.IH) (auto simp: va add.assoc)
      then show ?thesis by (simp add: va add.assoc)
    next
      case False
      then show ?thesis using n by (subst copyin.simps) simp
    qed
    have "[0..<len] = [0..<?n] @ map (\<lambda>i. ?n + i) [0..<len - ?n]"
      using n(2) by (rule upt_split_at)
    then show ?thesis using False pa um rest
      by (subst copyin.simps) (simp add: kern_simps walkaddr_user[OF ok] Let_def bs comp_def)
  qed
qed

text \<open>The physical address of a byte of a page, and a buffer stored inside a page.\<close>

lemma unat_user_addr: "page_aligned pa \<Longrightarrow> unat (pa + (va - PGROUNDDOWN va)) = unat pa + unat va mod 4096"
  using page_no_wrap[of pa] mod_less_divisor[of 4096 "unat va"] by (simp add: unat_word_ariths(1) unat_page_offset)

lemma put_on_page:
  assumes "unat a + length bs \<le> 2 ^ 64"
  shows "put_bytes m a bs x = (if unat a \<le> unat x \<and> unat x < unat a + length bs then bs ! (unat x - unat a) else m x)"
proof -
  have "in_range a (length bs) x \<longleftrightarrow> unat a \<le> unat x \<and> unat x < unat a + length bs"
  proof
    assume "unat a \<le> unat x \<and> unat x < unat a + length bs"
    then show "in_range a (length bs) x" using unat_sub[of a x] by (auto simp: in_range_def word_le_nat_alt)
  qed (rule in_range_unat[OF _ assms])
  moreover have "unat (x - a) = unat x - unat a" if "unat a \<le> unat x"
    using unat_sub[of a x] that by (simp add: word_le_nat_alt)
  ultimately show ?thesis using assms by (simp add: put_bytes_eq)
qed

lemma same_page_diff:
  fixes v v' n :: nat
  assumes "v mod 4096 + n \<le> 4096" "v \<le> v'" "v' < v + n"
  shows "v' div 4096 = v div 4096"
proof -
  have "v mod 4096 + (v' - v) < 4096" "v' = v + (v' - v)" using assms by auto
  then show ?thesis using div_add1_eq[of v "v' - v" 4096] by simp
qed

text \<open>A buffer stored in the user page of \<open>va\<close>, from \<open>va\<close> on.\<close>

definition put_user :: "'z kmem_state_scheme \<Rightarrow> uint64 \<Rightarrow> uint64 \<Rightarrow> uchar list \<Rightarrow> 'z kmem_state_scheme" where
  "put_user s root va bs = s\<lparr>mem := put_bytes (mem s) (user_pa s root va + (va - PGROUNDDOWN va)) bs\<rparr>"

lemma user_pa_aligned [simp]: "page_aligned (user_pa s root va)"
  by (simp add: user_pa_def)

lemma mem_put_user:
  assumes "unat va mod 4096 + length bs \<le> 4096"
  shows "mem (put_user s root va bs) x =
     (let a = unat (user_pa s root va) + unat va mod 4096 in
      if a \<le> unat x \<and> unat x < a + length bs then bs ! (unat x - a) else mem s x)"
  using put_on_page[of "user_pa s root va + (va - PGROUNDDOWN va)" bs] page_no_wrap[OF user_pa_aligned[of s root va]] assms
  by (simp add: put_user_def unat_user_addr Let_def)

lemma put_user_off:
  assumes "unat va mod 4096 + length bs \<le> 4096" "\<not> on_page (user_pa s root va) x"
  shows "mem (put_user s root va bs) x = mem s x"
proof -
  have "unat (user_pa s root va) mod 4096 = 0" using user_pa_aligned by (simp only: page_aligned_unat)
  then show ?thesis using assms by (auto simp: mem_put_user on_page_iff Let_def)
qed

lemma put_user_map:
  assumes ok: "user_ok s pos root" and um: "user_mapped s root va" and le: "unat va mod 4096 + length bs \<le> 4096"
  shows "page_map (put_user s root va bs) root va' = page_map s root va'" and "user_ok (put_user s root va bs) pos root"
proof -
  have inv: "pt_inv (mem s) pos" and root: "pos root = Some (2, [])" using ok by (simp_all add: user_ok_def)
  have nd: "user_pa s root va \<notin> dom pos" using ok um by (simp add: user_ok_def)
  have off: "mem (put_user s root va bs) x = mem s x" if "q \<in> dom pos" "on_page q x" for q x
  proof (rule put_user_off[OF le])
    have "page_aligned q" "q \<noteq> user_pa s root va" using that(1) nd pt_inv_page[OF inv] by auto
    then show "\<not> on_page (user_pa s root va) x" using pages_disjoint[OF user_pa_aligned _ _ that(2)] by metis
  qed
  have "\<forall>q \<in> dom pos. \<forall>x. on_page q x \<longrightarrow> mem (put_user s root va bs) x = mem s x" using off by blast
  note po = pt_off[OF inv this]
  show pm: "page_map (put_user s root va bs) root va' = page_map s root va'" for va'
    using po(3)[OF root] by (simp add: page_map_def)
  then show "user_ok (put_user s root va bs) pos root"
    using ok po(1) by (simp add: user_ok_def user_mapped_def user_pa_def)
qed

lemma put_user_byte:
  assumes ok: "user_ok s pos root" and um: "user_mapped s root va" and le: "unat va mod 4096 + length bs \<le> 4096"
    and um': "user_mapped s root va'"
  shows "user_byte (put_user s root va bs) root va' =
     (if unat va \<le> unat va' \<and> unat va' < unat va + length bs then bs ! (unat va' - unat va) else user_byte s root va')"
proof -
  let ?u = "put_user s root va bs" and ?a = "user_pa s root va' + (va' - PGROUNDDOWN va')"
  have ub: "user_byte ?u root va' = mem ?u ?a"
    by (simp add: user_byte_def user_pa_def put_user_map[OF ok um le])
  show ?thesis
  proof (cases "user_pa s root va' = user_pa s root va")
    case True
    then have pg: "unat va' div 4096 = unat va div 4096" using ok um um' unfolding user_ok_def by metis
    have "unat va = unat va div 4096 * 4096 + unat va mod 4096" "unat va' = unat va div 4096 * 4096 + unat va' mod 4096"
      using pg by (metis div_mult_mod_eq)+
    then have "unat va \<le> unat va' \<longleftrightarrow> unat va mod 4096 \<le> unat va' mod 4096"
      "unat va' < unat va + length bs \<longleftrightarrow> unat va' mod 4096 < unat va mod 4096 + length bs"
      "unat va' - unat va = unat va' mod 4096 - unat va mod 4096" by linarith+
    then show ?thesis unfolding ub
      using True by (simp add: mem_put_user[OF le] unat_user_addr Let_def user_byte_def)
  next
    case False
    have "on_page (user_pa s root va') ?a" by (simp add: in_range_def unat_page_offset)
    then have "\<not> on_page (user_pa s root va) ?a" using pages_disjoint[OF user_pa_aligned user_pa_aligned] False by metis
    then have "mem ?u ?a = mem s ?a" by (rule put_user_off[OF le])
    then have "user_byte ?u root va' = user_byte s root va'" unfolding ub by (simp add: user_byte_def)
    moreover have "\<not> (unat va \<le> unat va' \<and> unat va' < unat va + length bs)"
      using same_page_diff[OF le] user_pa_page False by blast
    ultimately show ?thesis by auto
  qed
qed

text \<open>What \<^verbatim>\<open>copyout\<close> leaves: the bytes of the buffer in user memory, and the mapping as it was.\<close>

definition copied_out ::
    "'z kmem_state_scheme \<Rightarrow> uint64 \<Rightarrow> uint64 \<Rightarrow> uchar list \<Rightarrow> 'z kmem_state_scheme \<Rightarrow> bool" where
  "copied_out s root va src t \<longleftrightarrow>
     t = s\<lparr>mem := mem t\<rparr> \<and> (\<forall>va'. page_map t root va' = page_map s root va') \<and>
     (\<forall>va'. user_mapped s root va' \<longrightarrow> user_byte t root va' =
        (if unat va \<le> unat va' \<and> unat va' < unat va + length src then src ! (unat va' - unat va) else user_byte s root va')) \<and>
     (\<forall>x. (\<forall>va'. user_mapped s root va' \<longrightarrow> \<not> on_page (user_pa s root va') x) \<longrightarrow> mem t x = mem s x)"

lemma copied_out_Nil: "copied_out s root va [] s"
  by (auto simp: copied_out_def)

lemma user_mapped_cong: "(\<And>va. page_map t root va = page_map s root va) \<Longrightarrow> user_mapped t root = user_mapped s root \<and> user_pa t root = user_pa s root"
  by (simp add: fun_eq_iff user_mapped_def user_pa_def)

lemma copied_out_append:
  assumes ok: "user_ok s pos root" and um: "user_mapped s root va" and le: "unat va mod 4096 + n \<le> 4096" and n: "n \<le> length src"
    and c: "copied_out (put_user s root va (take n src)) root va2 (drop n src) t" and va2: "n < length src \<Longrightarrow> unat va2 = unat va + n"
  shows "copied_out s root va src t"
proof -
  let ?u = "put_user s root va (take n src)"
  have len: "length (take n src) = n" using n by simp
  have le': "unat va mod 4096 + length (take n src) \<le> 4096" using le len by simp
  note m = put_user_map[OF ok um le'] and b = put_user_byte[OF ok um le']
  have um_eq: "user_mapped ?u root = user_mapped s root" "user_pa ?u root = user_pa s root"
    using user_mapped_cong[of ?u root s] m(1) by auto
  have "user_byte t root va' = (if unat va \<le> unat va' \<and> unat va' < unat va + length src then src ! (unat va' - unat va) else user_byte s root va')"
    if h: "user_mapped s root va'" for va'
  proof -
    have t: "user_byte t root va' = (if unat va2 \<le> unat va' \<and> unat va' < unat va2 + length (drop n src)
        then drop n src ! (unat va' - unat va2) else user_byte ?u root va')"
      using c h by (simp add: copied_out_def um_eq)
    show ?thesis
    proof (cases "n < length src")
      case True
      show ?thesis unfolding t b[OF h] using va2[OF True] n by (auto simp: len)
    next
      case False
      then show ?thesis unfolding t b[OF h] using n by (auto simp: len)
    qed
  qed
  moreover have "mem t x = mem s x" if "\<forall>va'. user_mapped s root va' \<longrightarrow> \<not> on_page (user_pa s root va') x" for x
    using c that um put_user_off[OF le', of s root x] by (simp add: copied_out_def um_eq)
  moreover have "t = s\<lparr>mem := mem t\<rparr>" using c by (cases s, cases t) (simp add: copied_out_def put_user_def)
  ultimately show ?thesis using c m(1) by (simp add: copied_out_def)
qed

lemma copyout_writes:
  assumes "user_ok s pos root" "unat va + length src \<le> unat MAXVA"
    and "\<And>i. i < length src \<Longrightarrow> user_mapped s root (va + of_nat i)"
  shows "\<exists>t. copyout root va src s = Ok (0, t) \<and> copied_out s root va src t \<and> user_ok t pos root"
  using assms
proof (induction src arbitrary: va s rule: length_induct)
  case (1 src)
  note ok = "1.prems"(1)
  show ?case
  proof (cases "src = []")
    case True
    then show ?thesis using ok copied_out_Nil by (subst copyout.simps) auto
  next
    case False
    let ?n = "page_rest va (length src)" let ?va = "PGROUNDDOWN va + PGSIZE"
    have um: "user_mapped s root va" using "1.prems"(3)[of 0] False by simp
    then have lt: "va < MAXVA" by (simp add: user_mapped_def)
    have pa: "user_pa s root va \<noteq> 0" using ok um by (simp add: user_ok_def)
    have n: "0 < ?n" "?n \<le> length src" "unat va mod 4096 + ?n \<le> 4096" using False by (auto simp: page_rest_eq)
    have n2: "?n < length src \<Longrightarrow> unat va mod 4096 + ?n = 4096" by (auto simp: page_rest_eq min_def split: if_splits)
    let ?u = "put_user s root va (take ?n src)"
    have le: "unat va mod 4096 + length (take ?n src) \<le> 4096" using n by simp
    note m = put_user_map[OF ok um le]
    have va: "?va = va + of_nat ?n \<and> unat ?va = unat va + ?n" if "?n < length src"
    proof -
      have "unat (va + of_nat ?n) = unat va + ?n" using unat_add_offset[of va ?n] "1.prems"(2) n by (simp add: MAXVA_eq)
      moreover have "unat ?va = unat va + ?n" using rounddown_next[OF lt] n2[OF that] by simp
      ultimately show ?thesis by (simp add: word_unat_eq_iff)
    qed
    have "\<exists>t. copyout root ?va (drop ?n src) ?u = Ok (0, t) \<and> copied_out ?u root ?va (drop ?n src) t \<and> user_ok t pos root"
    proof (cases "?n < length src")
      case True
      have "user_mapped ?u root (?va + of_nat i)" if "i < length (drop ?n src)" for i
        using "1.prems"(3)[of "?n + i"] that va[OF True] user_mapped_cong[of ?u root s] m(1) by (simp add: add.assoc)
      moreover have "unat ?va + length (drop ?n src) \<le> unat MAXVA" using conjunct2[OF va[OF True]] "1.prems"(2) n by simp
      ultimately show ?thesis using "1.IH" m(2) n False by (auto simp: length_greater_0_conv[symmetric] simp del: length_greater_0_conv)
    next
      case False
      then show ?thesis using m(2) copied_out_Nil by (subst copyout.simps) auto
    qed
    then obtain t where t: "copyout root ?va (drop ?n src) ?u = Ok (0, t)" "copied_out ?u root ?va (drop ?n src) t" "user_ok t pos root"
      by blast
    have "copied_out s root va src t" using copied_out_append[OF ok um n(3,2) t(2)] va by blast
    moreover have "copyout root va src s = Ok (0, t)" using False pa um t(1)
      by (subst copyout.simps) (simp add: kern_simps walkaddr_user[OF ok] Let_def put_user_def)
    ultimately show ?thesis using t(3) by blast
  qed
qed

section \<open>Unmapping\<close>

text \<open>What \<^verbatim>\<open>uvmunmap\<close> needs of an entry, and of the page it frees.\<close>

definition unmappable :: "'z kmem_state_scheme \<Rightarrow> uint64 list \<Rightarrow> table_pos \<Rightarrow> bool \<Rightarrow> uint64 \<Rightarrow> bool" where
  "unmappable s ps pos do_free e \<longleftrightarrow>
     e AND PTE_V \<noteq> 0 \<and> PTE_FLAGS e \<noteq> PTE_V \<and>
     (do_free \<longrightarrow> valid_page s (PTE2PA e) \<and> PTE2PA e \<notin> set ps \<and> PTE2PA e \<notin> dom pos)"

lemma free_user_page:
  assumes ok: "as_ok s ps pos root" and pg: "valid_page s pa" "pa \<notin> set ps" "pa \<notin> dom pos"
  shows "\<exists>t. kfree pa s = Ok ((), t) \<and> as_ok t (pa # ps) pos root \<and> kend t = kend s \<and>
     (\<forall>va. page_map t root va = page_map s root va) \<and> (\<forall>va. slot_at (mem t) va 2 root = slot_at (mem s) va 2 root)"
proof -
  have o: "ready LKmem s" "kmem_inv s ps" "pt_inv (mem s) pos" "set ps \<inter> dom pos = {}" "pos root = Some (2, [])"
    using ok by (simp_all add: as_ok_def)
  obtain t where t: "kfree pa s = Ok ((), t)" "kmem_inv t (pa # ps)" "kcore t = settled (kcore s)" "kend t = kend s"
      "\<forall>x. \<not> on_page pa x \<longrightarrow> mem t x = mem s x"
    using kfree_inv[OF o(1) pg(1) o(2) pg(2)] by blast
  have "mem t x = mem s x" if "q \<in> dom pos" "on_page q x" for q x
  proof -
    have "page_aligned q" "page_aligned pa" "q \<noteq> pa" using that(1) pg pt_inv_page[OF o(3)] by (auto simp: valid_page_def)
    then show ?thesis using pages_disjoint[OF _ _ that(2)] t(5) by metis
  qed
  then have "\<forall>q \<in> dom pos. \<forall>x. on_page q x \<longrightarrow> mem t x = mem s x" by blast
  note po = pt_off[OF o(3) this]
  have "as_ok t (pa # ps) pos root" using t o pg(3) po(1) by (simp add: as_ok_def)
  then show ?thesis using t po(2,3)[OF o(5)] by (auto simp: page_map_def)
qed

lemma unmap_first:
  assumes ok: "as_ok s ps pos root" and a: "a < MAXVA" and e: "unmappable s ps pos f (page_map s root a)"
  shows "\<exists>r t. walk root a False s = Ok (r, s) \<and> r \<noteq> 0 \<and> load64 (mem s) r = page_map s root a \<and>
     whenb f (kfree (PTE2PA (page_map s root a))) s = Ok ((), t) \<and> kend t = kend s \<and>
     as_ok (t\<lparr>mem := store64 (mem t) r 0\<rparr>) (if f then PTE2PA (page_map s root a) # ps else ps) pos root \<and>
     (\<forall>va < MAXVA. page_map (t\<lparr>mem := store64 (mem t) r 0\<rparr>) root va =
        (if unat va div 4096 = unat a div 4096 then 0 else page_map s root va))"
proof -
  have inv: "pt_inv (mem s) pos" and root: "pos root = Some (2, [])" using ok by (simp_all add: as_ok_def)
  have "page_map s root a \<noteq> 0" using e by (auto simp: unmappable_def)
  then obtain r where r: "slot_at (mem s) a 2 root = Some r" by (auto simp: page_map_def pte_at_slot split: option.splits)
  then obtain q where "pos q = Some (0, va_path a 2 @ [])" "r = pte_slot q (PX 0 a)" using slot_at_pos[OF inv root] by blast
  then have nz: "r \<noteq> 0" using slot_nonzero pt_inv_page[OF inv] PX_less by metis
  have ld: "load64 (mem s) r = page_map s root a" using r by (simp add: page_map_def pte_at_slot)
  let ?ps = "if f then PTE2PA (page_map s root a) # ps else ps"
  obtain t where t: "whenb f (kfree (PTE2PA (page_map s root a))) s = Ok ((), t)" "as_ok t ?ps pos root" "kend t = kend s"
      "\<And>va. page_map t root va = page_map s root va" "slot_at (mem t) a 2 root = Some r"
    using free_user_page[OF ok, of "PTE2PA (page_map s root a)"] e ok r by (cases f) (auto simp: kern_simps unmappable_def)
  note st = store_entry[OF t(2) a t(5)]
  show ?thesis
    using t st(1)[of 0] st(2)[of _ 0] nz ld r a by (auto simp: walk_noalloc)
qed

lemma uvmunmap_loop_map:
  assumes "as_ok s ps pos root" "page_aligned a" "unat a + 4096 * n \<le> unat MAXVA" "stop = a + of_nat (4096 * n)"
    and "\<And>i. i < n \<Longrightarrow> unmappable s ps pos f (page_map s root (a + of_nat (4096 * i)))"
    and "f \<Longrightarrow> inj_on (\<lambda>i. PTE2PA (page_map s root (a + of_nat (4096 * i)))) {..<n}"
  shows "\<exists>t. uvmunmap_loop root a stop f s = Ok ((), t) \<and>
     as_ok t (if f then rev (map (\<lambda>i. PTE2PA (page_map s root (a + of_nat (4096 * i)))) [0..<n]) @ ps else ps) pos root \<and>
     (\<forall>va < MAXVA. page_map t root va =
        (if unat a div 4096 \<le> unat va div 4096 \<and> unat va div 4096 < unat a div 4096 + n then 0 else page_map s root va))"
  using assms
proof (induction n arbitrary: a s ps)
  case 0
  then show ?case by (subst uvmunmap_loop.simps) auto
next
  case (Suc n)
  let ?P = "\<lambda>i. PTE2PA (page_map s root (a + of_nat (4096 * i)))"
  have a: "a < MAXVA" using Suc.prems(3) by (simp add: word_less_nat_alt)
  have nx: "unat (a + PGSIZE) = unat a + 4096" using next_va_unat[OF a] .
  then have al: "page_aligned (a + PGSIZE)" using Suc.prems(2) by (simp add: page_aligned_unat)
  have e: "unmappable s ps pos f (page_map s root a)" using Suc.prems(5)[of 0] by simp
  obtain r t where t: "walk root a False s = Ok (r, s)" "r \<noteq> 0" "load64 (mem s) r = page_map s root a"
     "whenb f (kfree (PTE2PA (page_map s root a))) s = Ok ((), t)" "kend t = kend s"
     "as_ok (t\<lparr>mem := store64 (mem t) r 0\<rparr>) (if f then PTE2PA (page_map s root a) # ps else ps) pos root"
     "\<And>va. va < MAXVA \<Longrightarrow> page_map (t\<lparr>mem := store64 (mem t) r 0\<rparr>) root va =
        (if unat va div 4096 = unat a div 4096 then 0 else page_map s root va)"
    using unmap_first[OF Suc.prems(1) a e] by blast
  let ?u = "t\<lparr>mem := store64 (mem t) r 0\<rparr>" let ?ps = "if f then PTE2PA (page_map s root a) # ps else ps"
  have P0: "?P 0 = PTE2PA (page_map s root a)" by simp
  have shift: "a + PGSIZE + of_nat (4096 * i) = a + of_nat (4096 * Suc i)" for i by (simp add: PGSIZE_def)
  have later: "page_map ?u root (a + PGSIZE + of_nat (4096 * i)) = page_map s root (a + of_nat (4096 * Suc i))" if "i < n" for i
  proof -
    have u: "unat (a + of_nat (4096 * Suc i)) = unat a + 4096 * Suc i"
      using Suc.prems(3) that by (intro unat_add_offset) (simp add: MAXVA_eq)
    moreover have "unat a + 4096 * Suc i < unat a + 4096 * Suc n" using that by simp
    ultimately have "unat (a + of_nat (4096 * Suc i)) < unat MAXVA" using Suc.prems(3) by (simp only:)
    then have "a + of_nat (4096 * Suc i) < MAXVA" by (simp only: word_less_nat_alt)
    moreover have "unat (a + of_nat (4096 * Suc i)) div 4096 \<noteq> unat a div 4096" by (simp only: u) simp
    ultimately show ?thesis unfolding shift using t(7) by simp
  qed
  have um: "unmappable ?u ?ps pos f (page_map ?u root (a + PGSIZE + of_nat (4096 * i)))" if "i < n" for i
  proof -
    have "?P (Suc i) \<noteq> PTE2PA (page_map s root a)" if f unfolding P0[symmetric] using inj_onD[OF Suc.prems(6)[OF that], of "Suc i" 0] \<open>i < n\<close> by auto
    moreover have "valid_page ?u = valid_page s" using t(5) by (intro valid_page_cong) simp
    ultimately show ?thesis using Suc.prems(5)[of "Suc i"] that unfolding later[OF that] by (auto simp: unmappable_def)
  qed
  have inj: "inj_on (\<lambda>i. PTE2PA (page_map ?u root (a + PGSIZE + of_nat (4096 * i)))) {..<n}" if f
  proof (rule inj_onI)
    fix i j assume h: "i \<in> {..<n}" "j \<in> {..<n}"
      "PTE2PA (page_map ?u root (a + PGSIZE + of_nat (4096 * i))) = PTE2PA (page_map ?u root (a + PGSIZE + of_nat (4096 * j)))"
    then have "?P (Suc i) = ?P (Suc j)" using later[of i] later[of j] by (simp only: lessThan_iff)
    then show "i = j" using inj_onD[OF Suc.prems(6)[OF that], of "Suc i" "Suc j"] h(1,2) by simp
  qed
  have le: "unat (a + PGSIZE) + 4096 * n \<le> unat MAXVA" "stop = a + PGSIZE + of_nat (4096 * n)"
    using Suc.prems(3,4) nx shift by simp_all
  obtain v where v: "uvmunmap_loop root (a + PGSIZE) stop f ?u = Ok ((), v)"
     "as_ok v (if f then rev (map (\<lambda>i. PTE2PA (page_map ?u root (a + PGSIZE + of_nat (4096 * i)))) [0..<n]) @ ?ps else ?ps) pos root"
     "\<And>va. va < MAXVA \<Longrightarrow> page_map v root va =
        (if unat (a + PGSIZE) div 4096 \<le> unat va div 4096 \<and> unat va div 4096 < unat (a + PGSIZE) div 4096 + n then 0 else page_map ?u root va)"
    using Suc.IH[OF t(6) al le um inj] by blast
  have m1: "map (\<lambda>i. PTE2PA (page_map ?u root (a + PGSIZE + of_nat (4096 * i)))) [0..<n] = map (\<lambda>i. ?P (Suc i)) [0..<n]"
    using later by (intro map_cong) auto
  have m2: "map ?P [0..<Suc n] = PTE2PA (page_map s root a) # map (\<lambda>i. ?P (Suc i)) [0..<n]"
    unfolding P0[symmetric] by (simp add: upt_conv_Cons map_Suc_upt[symmetric] comp_def del: upt_Suc)
  have "as_ok v (if f then rev (map ?P [0..<Suc n]) @ ps else ps) pos root"
    using v(2) unfolding m1 m2 by (cases f) (simp_all only: if_True if_False rev.simps append.assoc append.simps)
  moreover have "page_map v root va =
      (if unat a div 4096 \<le> unat va div 4096 \<and> unat va div 4096 < unat a div 4096 + Suc n then 0 else page_map s root va)" if "va < MAXVA" for va
    using v(3)[OF that] t(7)[OF that] nx by auto
  moreover have "a < stop"
  proof -
    have "unat stop = unat a + 4096 * Suc n" unfolding Suc.prems(4) using Suc.prems(3) by (intro unat_add_offset) (simp add: MAXVA_eq)
    then show ?thesis by (simp add: word_less_nat_alt)
  qed
  ultimately show ?case using t(1-4) v(1) e
    by (subst uvmunmap_loop.simps) (auto simp: kern_simps unmappable_def)
qed

section \<open>Properties\<close>

text \<open>The pages that \<^verbatim>\<open>mappages(va, sz)\<close> maps, after the first.\<close>

definition more_pages :: "uint64 \<Rightarrow> uint64 \<Rightarrow> nat" where
  "more_pages va sz = (unat va + unat sz - 1) div 4096 - unat va div 4096"

text \<open>
  C12. \<^verbatim>\<open>mappages\<close>. For a range below \<^verbatim>\<open>MAXVA\<close> none of whose pages is mapped, \<^verbatim>\<open>mappages\<close> returns. If it returns 0, every page
  that the range touches (it need not be aligned) maps to the consecutive physical pages with the given
  permissions; it always returns 0 when two free pages for every mapped page are left, and -1 otherwise means that
  memory ran out. In both cases no other address changes its mapping, the tables still form a tree, and memory
  outside the tables and the free pages is untouched.
\<close>

theorem mappages_correct:
  assumes "as_ok s ps pos root" "0 < sz" "unat va + unat sz \<le> unat MAXVA"
    and "\<And>a. a < MAXVA \<Longrightarrow> in_pages va (more_pages va sz) a \<Longrightarrow> page_map s root a AND PTE_V = 0"
  shows "\<exists>r t ps' pos'. mappages root va sz pa perm s = Ok (r, t) \<and> as_ok t ps' pos' root \<and> as_frame s ps pos t ps' pos' \<and>
     (r = 0 \<or> r = -1 \<and> length ps < 2 * Suc (more_pages va sz)) \<and>
     (r = 0 \<longrightarrow> (\<forall>i \<le> more_pages va sz. page_map t root (PGROUNDDOWN va + of_nat (4096 * i)) = PA2PTE (pa + of_nat (4096 * i)) OR perm OR PTE_V)) \<and>
     (\<forall>a < MAXVA. \<not> in_pages va (more_pages va sz) a \<longrightarrow> page_map t root a = page_map s root a)"
proof -
  let ?a = "PGROUNDDOWN va" and ?n = "more_pages va sz"
  have sz: "0 < unat sz" using assms(2) by (simp add: word_less_nat_alt)
  have pg: "unat ?a div 4096 = unat va div 4096" by (rule unat_rounddown_page)
  have end_va: "unat (va + sz - 1) = unat va + unat sz - 1"
  proof -
    have "unat (va + sz) = unat va + unat sz" using assms(3) by (simp add: unat_word_ariths(1) MAXVA_eq)
    then show ?thesis using sz by (metis add_gr_0 less_numeral_extra(3) unat_0 unat_minus_one)
  qed
  have dv: "(unat va + unat sz - 1) div 4096 = unat va div 4096 + ?n"
    using sz by (simp add: more_pages_def div_le_mono)
  then have hi: "4096 * (unat va div 4096 + ?n) \<le> unat va + unat sz - 1" by (metis times_div_less_eq_dividend)
  have "4096 * Suc (unat va div 4096 + ?n) \<le> unat MAXVA"
  proof -
    have "4096 * (unat va div 4096 + ?n) < 274877906944" using hi assms(3) sz by (simp add: MAXVA_eq)
    then have "unat va div 4096 + ?n < 67108864" by simp
    then show ?thesis by (simp add: MAXVA_eq)
  qed
  then have le: "unat ?a + 4096 * Suc ?n \<le> unat MAXVA" by (simp add: unat_PGROUNDDOWN)
  have "unat (?a + of_nat (4096 * ?n)) = unat ?a + 4096 * ?n" using le by (intro unat_add_offset) (simp add: MAXVA_eq)
  moreover have "unat (PGROUNDDOWN (va + sz - 1)) = (unat va div 4096 + ?n) * 4096"
    unfolding unat_PGROUNDDOWN end_va dv ..
  ultimately have "PGROUNDDOWN (va + sz - 1) = ?a + of_nat (4096 * ?n)"
    by (simp add: word_unat_eq_iff unat_PGROUNDDOWN)
  from mappages_loop_map[OF assms(1) page_aligned_PGROUNDDOWN le this, of pa perm]
  obtain r t ps' pos' where r: "mappages_loop root ?a (PGROUNDDOWN (va + sz - 1)) pa perm s = Ok (r, t)"
      "map_result s ps pos root ?a ?n pa perm r t ps' pos'"
    using assms(4) pg by (auto simp: valid_pte_def)
  then have "mappages root va sz pa perm s = Ok (r, t)" using assms(2) by (auto simp: mappages_def)
  then show ?thesis using r(2) unfolding map_result_def pg by blast
qed

text \<open>A root table at \<open>0x87FFD000\<close>, and two free pages above it.\<close>

definition demo_mem :: phys where
  "demo_mem = store64 (\<lambda>x. 0) 0x87FFF000 0x87FFE000"

definition demo_as :: kmem_state where
  "demo_as = \<lparr>kcore = boot_core, mem = demo_mem, freelist = 0x87FFF000, kend = 0x87FFD000\<rparr>"

lemma demo_aligned: "page_aligned 0x87FFF000" "page_aligned 0x87FFE000" "page_aligned 0x87FFD000" "page_aligned 0x87FFC000"
  by (simp_all add: page_aligned_def PGSIZE_def)

lemma ent_zero_mem: "ent (\<lambda>x. 0) p i = 0"
  by (simp add: ent_def load64_def)

lemma slot_0: "pte_slot p 0 = p"
  by (simp add: pte_slot_def)

lemma ent_demo: "j < 512 \<Longrightarrow> ent demo_mem 0x87FFD000 j = 0"
  using ent_store[OF demo_aligned(1,3), of 0 j "\<lambda>x. 0" "0x87FFE000"] by (simp add: demo_mem_def slot_0 ent_zero_mem)

lemma demo_as_ok: "as_ok demo_as [0x87FFF000, 0x87FFE000] [0x87FFD000 \<mapsto> (2, [])] 0x87FFD000"
proof -
  have "load64 demo_mem 0x87FFE000 = 0"
    using ent_store[OF demo_aligned(1,2), of 0 0 "\<lambda>x. 0" "0x87FFE000"] by (simp add: demo_mem_def slot_0 ent_zero_mem ent_def)
  then have "kmem_inv demo_as [0x87FFF000, 0x87FFE000]"
    by (simp add: kmem_inv_def demo_as_def valid_page_def demo_aligned PHYSTOP_eq) (simp add: demo_mem_def)
  moreover have "pt_inv demo_mem [0x87FFD000 \<mapsto> (2, [])]"
    by (auto simp: pt_inv_def demo_aligned ent_demo split: if_splits)
  ultimately show ?thesis
    by (simp add: as_ok_def demo_as_def boot_core_def lock_free_def core_ok_def mycpu_def)
qed

lemma demo_unmapped: "page_map demo_as 0x87FFD000 va = 0"
  by (simp add: page_map_def demo_as_def numeral_2_eq_2 ent_demo PX_less)

theorem mappages_correct_witness:
  "\<exists>r t. mappages 0x87FFD000 0x5004 0x10 0x87FFC000 0x17 demo_as = Ok (0, t) \<and>
     page_map t 0x87FFD000 0x5000 = PA2PTE 0x87FFC000 OR 0x17 OR PTE_V"
proof -
  have "PGROUNDDOWN 0x5004 = 0x5000" by (simp add: PGROUNDDOWN_def PGSIZE_def)
  then show ?thesis
    using mappages_correct[OF demo_as_ok, of "0x10" "0x5004" "0x87FFC000" "0x17"]
    by (auto simp: MAXVA_eq more_pages_def demo_unmapped)
qed

text \<open>
  C24. \<^verbatim>\<open>uvmunmap\<close>. On a range of mapped leaf pages \<^verbatim>\<open>uvmunmap\<close> returns, after which no page of the range is mapped and
  every other address maps as before; with \<^verbatim>\<open>do_free\<close> exactly the physical pages of the range have been added
  to the free list.
\<close>

theorem uvmunmap_correct:
  assumes "as_ok s ps pos root" "page_aligned va" "unat va + 4096 * n \<le> unat MAXVA"
    and "\<And>i. i < n \<Longrightarrow> unmappable s ps pos f (page_map s root (va + of_nat (4096 * i)))"
    and "f \<Longrightarrow> inj_on (\<lambda>i. PTE2PA (page_map s root (va + of_nat (4096 * i)))) {..<n}"
  shows "\<exists>t. uvmunmap root va (of_nat n) f s = Ok ((), t) \<and>
     as_ok t (if f then rev (map (\<lambda>i. PTE2PA (page_map s root (va + of_nat (4096 * i)))) [0..<n]) @ ps else ps) pos root \<and>
     (\<forall>a < MAXVA. page_map t root a =
        (if unat va div 4096 \<le> unat a div 4096 \<and> unat a div 4096 < unat va div 4096 + n then 0 else page_map s root a))"
proof -
  have "va + of_nat n * PGSIZE = va + of_nat (4096 * n)" by (simp add: PGSIZE_def mult.commute)
  then show ?thesis
    using uvmunmap_loop_map[OF assms(1-3) refl assms(4,5)] assms(2) by (simp add: uvmunmap_def page_aligned_def)
qed

text \<open>A page table that maps the first page of user memory to \<open>0x87FFA000\<close>, readable, writable and executable.\<close>

definition demo_user :: kmem_state where
  "demo_user = \<lparr>kcore = boot_core,
     mem = store64 (store64 (store64 (\<lambda>x. 0) 0x87FFD000 (PA2PTE 0x87FFC000 OR PTE_V))
             0x87FFC000 (PA2PTE 0x87FFB000 OR PTE_V)) 0x87FFB000 (PA2PTE 0x87FFA000 OR 0x1F),
     freelist = 0, kend = 0x87FFA000\<rparr>"

definition demo_pos :: table_pos where
  "demo_pos = [0x87FFD000 \<mapsto> (2, []), 0x87FFC000 \<mapsto> (1, [0]), 0x87FFB000 \<mapsto> (0, [0, 0])]"

lemma demo_user_aligned: "page_aligned 0x87FFB000" "page_aligned 0x87FFA000"
  by (simp_all add: page_aligned_def PGSIZE_def)

lemma ent_demo_user:
  assumes "j < 512"
  shows "ent (mem demo_user) 0x87FFD000 j = (if j = 0 then PA2PTE 0x87FFC000 OR PTE_V else 0)"
    and "ent (mem demo_user) 0x87FFC000 j = (if j = 0 then PA2PTE 0x87FFB000 OR PTE_V else 0)"
    and "ent (mem demo_user) 0x87FFB000 j = (if j = 0 then PA2PTE 0x87FFA000 OR 0x1F else 0)"
  using ent_store[OF demo_user_aligned(1) demo_aligned(3) _ assms, of 0] ent_store[OF demo_aligned(4) demo_aligned(3) _ assms, of 0]
    ent_store[OF demo_aligned(3) demo_aligned(3) _ assms, of 0] ent_store[OF demo_user_aligned(1) demo_aligned(4) _ assms, of 0]
    ent_store[OF demo_aligned(4) demo_aligned(4) _ assms, of 0] ent_store[OF demo_aligned(3) demo_aligned(4) _ assms, of 0]
    ent_store[OF demo_user_aligned(1) demo_user_aligned(1) _ assms, of 0] ent_store[OF demo_aligned(4) demo_user_aligned(1) _ assms, of 0]
    ent_store[OF demo_aligned(3) demo_user_aligned(1) _ assms, of 0]
  by (simp_all add: demo_user_def slot_0 ent_zero_mem)

lemma demo_pte: "PTE2PA (PA2PTE 0x87FFC000 OR PTE_V) = 0x87FFC000" "PTE2PA (PA2PTE 0x87FFB000 OR PTE_V) = 0x87FFB000"
  "PTE2PA (PA2PTE 0x87FFA000 OR 0x1F) = 0x87FFA000" "valid_pte (PA2PTE 0x87FFA000 OR 0x1F)"
  by (simp_all add: PTE2PA_def PA2PTE_def PTE_V_def valid_pte_def)

lemma demo_user_map:
  "page_map demo_user 0x87FFD000 va = (if \<forall>k \<le> 2. PX k va = 0 then PA2PTE 0x87FFA000 OR 0x1F else 0)"
proof -
  have "(\<forall>k \<le> 2. PX k va = 0) \<longleftrightarrow> PX 2 va = 0 \<and> PX 1 va = 0 \<and> PX 0 va = 0"
    by (auto simp: numeral_2_eq_2 le_Suc_eq)
  moreover have "page_map demo_user 0x87FFD000 va =
      (if PX 2 va = 0 then if PX 1 va = 0 then ent (mem demo_user) 0x87FFB000 (PX 0 va) else 0 else 0)"
    by (simp add: page_map_def numeral_2_eq_2 Let_def ent_demo_user(1,2)[OF PX_less] demo_pte)
  ultimately show ?thesis unfolding ent_demo_user(3)[OF PX_less] by simp
qed

lemma demo_user_page: "va < MAXVA \<Longrightarrow> (\<forall>k \<le> 2. PX k va = 0) \<longleftrightarrow> unat va div 4096 = 0"
proof -
  have "PX k 0 = 0" for k by (simp add: PX_def)
  then show "va < MAXVA \<Longrightarrow> (\<forall>k \<le> 2. PX k va = 0) \<longleftrightarrow> unat va div 4096 = 0"
    using same_page_PX[of va 0] PX_same_page[of va 0] by (auto simp: MAXVA_eq)
qed

lemma demo_pt_inv: "pt_inv (mem demo_user) demo_pos"
proof -
  have "page_aligned p \<and> p \<noteq> 0" if "p \<in> dom demo_pos" for p
    using that demo_aligned demo_user_aligned by (auto simp: demo_pos_def split: if_splits)
  moreover have "demo_pos (PTE2PA (ent (mem demo_user) p i)) = Some (l, i # \<pi>)"
    if "demo_pos p = Some (Suc l, \<pi>)" "i < 512" "valid_pte (ent (mem demo_user) p i)" for p l \<pi> i
    using that by (auto simp: demo_pos_def ent_demo_user demo_pte split: if_splits)
  ultimately show ?thesis unfolding pt_inv_def by blast
qed

lemma demo_user_as_ok: "as_ok demo_user [] demo_pos 0x87FFD000"
  using demo_pt_inv
  by (simp add: as_ok_def kmem_inv_def demo_user_def boot_core_def lock_free_def core_ok_def mycpu_def demo_pos_def)

lemma demo_user_mapped: "user_mapped demo_user 0x87FFD000 va \<longleftrightarrow> unat va < 4096"
proof -
  have m: "(PA2PTE 0x87FFA000 OR 0x1F) AND PTE_V \<noteq> 0" "(PA2PTE 0x87FFA000 OR 0x1F) AND PTE_U \<noteq> 0"
    by (simp_all add: PA2PTE_def PTE_V_def PTE_U_def)
  have "unat va < 4096 \<Longrightarrow> va < MAXVA" by (simp add: MAXVA_eq word_less_nat_alt)
  then show ?thesis using demo_user_page[of va] m by (auto simp: user_mapped_def demo_user_map div_eq_0_iff)
qed

lemma demo_user_ok: "user_ok demo_user demo_pos 0x87FFD000"
proof -
  have "user_pa demo_user 0x87FFD000 va = 0x87FFA000" if "user_mapped demo_user 0x87FFD000 va" for va
    using that by (auto simp: user_pa_def demo_user_map demo_pte user_mapped_def split: if_splits)
  then show ?thesis using demo_pt_inv
    by (auto simp: user_ok_def demo_user_mapped demo_pos_def div_eq_0_iff)
qed

theorem uvmunmap_correct_witness:
  "\<exists>t. uvmunmap 0x87FFD000 0 1 True demo_user = Ok ((), t) \<and> page_map t 0x87FFD000 0 = 0 \<and> kmem_inv t [0x87FFA000]"
proof -
  have m: "page_map demo_user 0x87FFD000 0 = PA2PTE 0x87FFA000 OR 0x1F" by (simp add: demo_user_map PX_def)
  then have "unmappable demo_user [] demo_pos True (page_map demo_user 0x87FFD000 0)"
    by (simp add: unmappable_def demo_pte valid_page_def demo_user_aligned demo_user_def PHYSTOP_eq demo_pos_def)
       (simp add: PA2PTE_def PTE_V_def PTE_FLAGS_def)
  then show ?thesis
    using uvmunmap_correct[OF demo_user_as_ok, of 0 1 True]
    by (auto simp: page_aligned_def MAXVA_eq m demo_pte as_ok_def inj_on_def)
qed

text \<open>
  C13. Copying. For a range of user memory that is mapped for user access, \<^verbatim>\<open>copyout\<close> returns 0 and leaves exactly the bytes
  of the buffer there, across page boundaries, with every other user byte, every mapping and all memory outside the user pages
  unchanged; \<^verbatim>\<open>copyin\<close> then returns the same bytes and changes nothing.
\<close>

theorem copyout_copyin_round_trip:
  assumes "user_ok s pos root" "unat va + length src \<le> unat MAXVA"
    and "\<And>i. i < length src \<Longrightarrow> user_mapped s root (va + of_nat i)"
  shows "\<exists>t. copyout root va src s = Ok (0, t) \<and> copied_out s root va src t \<and>
     copyin root va (length src) t = Ok ((0, src), t)"
proof -
  obtain t where t: "copyout root va src s = Ok (0, t)" "copied_out s root va src t" "user_ok t pos root"
    using copyout_writes[OF assms(1,2,3)] by blast
  have um: "user_mapped t root = user_mapped s root" using user_mapped_cong[of t root s] t(2) by (simp add: copied_out_def)
  have "user_byte t root (va + of_nat i) = src ! i" if "i < length src" for i
  proof -
    have "unat (va + of_nat i) = unat va + i" using assms(2) that by (intro unat_add_offset) (simp add: MAXVA_eq)
    then show ?thesis using t(2) assms(3)[OF that] that by (simp add: copied_out_def)
  qed
  then have "map (\<lambda>i. user_byte t root (va + of_nat i)) [0..<length src] = src"
    by (intro nth_equalityI) simp_all
  then show ?thesis using t copyin_reads[OF t(3) assms(2)] assms(3) um by auto
qed

theorem copyout_copyin_round_trip_witness:
  "\<exists>t. copyout 0x87FFD000 0xFFE [7, 9] demo_user = Ok (0, t) \<and> copyin 0x87FFD000 0xFFE (Suc (Suc 0)) t = Ok ((0, [7, 9]), t)"
proof -
  have "user_mapped demo_user 0x87FFD000 (0xFFE + of_nat i)" if "i < 2" for i
  proof -
    have "i = 0 \<or> i = 1" using that by auto
    then show ?thesis by (auto simp: demo_user_mapped)
  qed
  then show ?thesis
    using copyout_copyin_round_trip[OF demo_user_ok, of "0xFFE" "[7, 9]"] by (auto simp: MAXVA_eq)
qed

end
