(* ===== verification/Vm_Frame.thy ===== *)
theory Vm_Frame
  imports Vm
begin

text \<open>
  What the memory routines of \<^verbatim>\<open>kernel/kalloc.c\<close> and \<^verbatim>\<open>kernel/vm.c\<close> leave alone: the state of every other component, the
  hart that executes, and the process each hart runs.
\<close>

definition kframe :: "'z kmem_state_scheme \<Rightarrow> 'z \<times> uint64 \<times> nat \<times> (nat \<Rightarrow> nat option)" where
  "kframe s = (kmem_state.more s, kend s, hart (kcore s), \<lambda>h. cproc (cpus (kcore s) h))"

definition core_view :: "core \<Rightarrow> nat \<times> (nat \<Rightarrow> nat option)" where
  "core_view c = (hart c, \<lambda>h. cproc (cpus c h))"

lemma core_view_push_off: "core_view (push_off c) = core_view c"
  by (auto simp: core_view_def core_defs)

lemma core_view_pop_off: "pop_off c = Ok c' \<Longrightarrow> core_view c' = core_view c"
  by (auto simp: core_view_def core_defs split: if_splits)

lemma core_view_acquire: "acquire l c = Ok c' \<Longrightarrow> core_view c' = core_view c"
  by (auto simp: acquire_ok_iff core_view_def)

lemma core_view_release: "release l c = Ok c' \<Longrightarrow> core_view c' = core_view c"
  by (auto simp: release_def core_view_def core_defs split: if_splits)

lemma kframe_core:
  "kframe (s\<lparr>kcore := c\<rparr>) = (kmem_state.more s, kend s, core_view c)"
  by (cases s) (simp add: kframe_def core_view_def)

lemma kframe_eq: "kframe s = (kmem_state.more s, kend s, core_view (kcore s))"
  by (simp add: kframe_def core_view_def)

lemma keeps_acq [keeps_rules]: "keeps kframe (acq l)"
  by (rule keepsI) (auto simp: on_core_def obind_eq_Ok kframe_core kframe_eq dest: core_view_acquire)

lemma keeps_rel [keeps_rules]: "keeps kframe (rel l)"
  by (rule keepsI) (auto simp: on_core_def obind_eq_Ok kframe_core kframe_eq dest: core_view_release)

lemma kframe_mem [simp]: "kframe (s\<lparr>mem := m\<rparr>) = kframe s" "kframe (s\<lparr>freelist := p\<rparr>) = kframe s"
  by (simp_all add: kframe_def)

lemma kalloc_keeps [keeps_rules]: "keeps kframe kalloc"
  unfolding kalloc_def by (intro keeps_rules) simp_all

lemma kfree_keeps [keeps_rules]: "keeps kframe (kfree pa)"
proof (rule keepsI)
  fix s a and t :: "'a kmem_state_scheme"
  have "keeps kframe (seqs [modify (\<lambda>s::'a kmem_state_scheme. s\<lparr>mem := memset (mem s) pa 1 4096\<rparr>), acq LKmem,
       modify (\<lambda>s. s\<lparr>mem := store64 (mem s) pa (freelist s)\<rparr>), modify (\<lambda>s. s\<lparr>freelist := pa\<rparr>), rel LKmem])"
    by (intro keeps_rules) simp_all
  moreover assume "kfree pa s = Ok (a, t)"
  ultimately show "kframe t = kframe s" by (auto simp: kfree_def split: if_splits dest: keepsD)
qed

lemma walk_levels_keeps [keeps_rules]: "keeps kframe (walk_levels alloc va n pt)"
  by (induction n arbitrary: pt) (auto simp: Let_def intro!: keeps_rules)

lemma walk_keeps [keeps_rules]: "keeps kframe (walk pt va alloc)"
  unfolding walk_def by (intro keeps_rules)

lemma walkaddr_keeps [keeps_rules]: "keeps kframe (walkaddr pt va)"
  unfolding walkaddr_def by (intro keeps_rules)

lemmas keeps_at_rules = keeps_at_bnd keeps_at_thn keeps_at_if keeps_at[OF keeps_ret] keeps_at[OF keeps_panic(1)]
  keeps_at_let keeps_at_prod

lemma mappages_loop_at: "keeps_at kframe (mappages_loop pt a l pa perm) s"
proof (induction pt a l pa perm s rule: mappages_loop.induct)
  case (1 pt a l pa perm s)
  show ?case
    by (rule keeps_at_eq[OF mappages_loop.simps])
      (intro keeps_at_rules keeps_rules; ((rule 1; (assumption | simp)) | simp))
qed

lemmas mappages_loop_keeps [keeps_rules] = keeps_at_all[OF mappages_loop_at]

lemma mappages_keeps [keeps_rules]: "keeps kframe (mappages pt va n pa perm)"
  unfolding mappages_def by (intro keeps_rules)

lemma uvmunmap_loop_at: "keeps_at kframe (uvmunmap_loop pt a stop f) s"
proof (induction pt a stop f s rule: uvmunmap_loop.induct)
  case (1 pt a stop f s)
  show ?case
    by (rule keeps_at_loop, rule uvmunmap_loop.simps)
      (intro keeps_at_rules keeps_rules; ((rule 1; (assumption | simp)) | simp))
qed

lemmas uvmunmap_loop_keeps [keeps_rules] = keeps_at_all[OF uvmunmap_loop_at]

lemma uvmunmap_keeps [keeps_rules]: "keeps kframe (uvmunmap pt va n f)"
  unfolding uvmunmap_def by (intro keeps_rules)

lemma uvmcreate_keeps [keeps_rules]: "keeps kframe uvmcreate"
  unfolding uvmcreate_def by (intro keeps_rules) simp_all

lemma uvmdealloc_keeps [keeps_rules]: "keeps kframe (uvmdealloc pt old n)"
  unfolding uvmdealloc_def by (intro keeps_rules)

lemma uvmalloc_loop_at: "keeps_at kframe (uvmalloc_loop pt old new x a) s"
proof (induction pt old new x a s rule: uvmalloc_loop.induct)
  case (1 pt old new x a s)
  show ?case
    by (rule keeps_at_loop, rule uvmalloc_loop.simps)
      (intro keeps_at_rules keeps_rules; ((rule 1; (assumption | simp)) | simp))
qed

lemmas uvmalloc_loop_keeps [keeps_rules] = keeps_at_all[OF uvmalloc_loop_at]

lemma uvmalloc_keeps [keeps_rules]: "keeps kframe (uvmalloc pt old n x)"
  unfolding uvmalloc_def by (intro keeps_rules)

lemma freewalk_entries_keeps: "(\<And>pt. keeps kframe (sub pt)) \<Longrightarrow> keeps kframe (freewalk_entries sub pt is)"
  by (induction "is") (auto simp: Let_def intro!: keeps_rules)

lemma freewalk_depth_keeps: "keeps kframe (freewalk_depth n pt)"
  by (induction n arbitrary: pt) (auto intro!: keeps_rules freewalk_entries_keeps)

lemma uvmfree_keeps [keeps_rules]: "keeps kframe (uvmfree pt n)"
  unfolding uvmfree_def freewalk_def by (intro keeps_rules freewalk_depth_keeps)

lemma uvmcopy_err_keeps [keeps_rules]: "keeps kframe (uvmcopy_err new i)"
  unfolding uvmcopy_err_def by (intro keeps_rules)

lemma uvmcopy_loop_at: "keeps_at kframe (uvmcopy_loop old new sz i) s"
proof (induction old new sz i s rule: uvmcopy_loop.induct)
  case (1 old new sz i s)
  show ?case
    by (rule keeps_at_loop, rule uvmcopy_loop.simps)
      (intro keeps_at_rules keeps_at[OF uvmcopy_err_keeps] keeps_rules; ((rule 1; (assumption | simp)) | simp))
qed

lemma uvmcopy_keeps [keeps_rules]: "keeps kframe (uvmcopy old new n)"
  unfolding uvmcopy_def by (rule keeps_at_all[OF uvmcopy_loop_at])

lemma uvmclear_keeps [keeps_rules]: "keeps kframe (uvmclear pt va)"
  unfolding uvmclear_def by (intro keeps_rules) simp_all

lemma copyout_at: "keeps_at kframe (copyout pt va src) s"
proof (induction pt va src s rule: copyout.induct)
  case (1 pt va src s)
  show ?case
    by (rule keeps_at_loop, rule copyout.simps[unfolded Let_def])
      (intro keeps_at_rules keeps_rules; ((rule 1; (assumption | simp)) | simp))
qed

lemmas copyout_keeps [keeps_rules] = keeps_at_all[OF copyout_at]

lemma copyin_at: "keeps_at kframe (copyin pt va len) s"
proof (induction pt va len s rule: copyin.induct)
  case (1 pt va len s)
  show ?case
    by (rule keeps_at_loop, rule copyin.simps[unfolded Let_def],
        rule keeps_at_bnd[OF walkaddr_keeps], rule keeps_at_if, rule keeps_at[OF keeps_ret],
        rule keeps_at_bnd[OF keeps_gets], rule keeps_at_call)
      ((rule 1; (assumption | simp)), auto intro!: keeps_rules)
qed

lemmas copyin_keeps [keeps_rules] = keeps_at_all[OF copyin_at]

lemma copyinstr_at: "keeps_at kframe (copyinstr pt va len) s"
proof (induction pt va len s rule: copyinstr.induct)
  case (1 pt va len s)
  show ?case
    by (rule keeps_at_loop, rule copyinstr.simps[unfolded Let_def],
        rule keeps_at_bnd[OF walkaddr_keeps], rule keeps_at_if, rule keeps_at[OF keeps_ret],
        rule keeps_at_bnd[OF keeps_gets], rule keeps_at_if, rule keeps_at[OF keeps_ret], rule keeps_at_call)
      ((rule 1; (assumption | simp)), auto intro!: keeps_rules)
qed

lemmas copyinstr_keeps [keeps_rules] = keeps_at_all[OF copyinstr_at]

end
