(* ===== verification/Proc.thy ===== *)
theory Proc
  imports Vm_Frame Petersonlock
begin

text \<open>
  Processes and scheduling: the process table of \<^verbatim>\<open>kernel/proc.h\<close>, and the part of \<^verbatim>\<open>kernel/proc.c\<close> that does not involve
  files. A process is named by its index in the table, a sleep channel (an address in C) by what lies at that address.

  The code switches threads inside \<^verbatim>\<open>sched\<close>. A routine that goes through \<^verbatim>\<open>sched\<close> is given in two parts, up to the switch and
  from its return on (\<open>sched_enter\<close>, \<open>sched_return\<close>, \<open>sleep_enter\<close>, \<open>sleep_return\<close>, \<open>yield_enter\<close>, \<open>yield_return\<close>); so is the scheduler's
  loop body (\<open>scheduler_pick\<close>, \<open>scheduler_back\<close>). A system call that would have to sleep is \<open>Wait\<close>.
  Of the saved context the two registers that the code sets are represented.
\<close>

section \<open>The process table\<close>

datatype procstate = UNUSED | USED | SLEEPING | RUNNABLE | RUNNING | ZOMBIE

datatype chan =
    ChProc nat | ChTicks | ChLog | ChBuf nat | ChInode nat | ChPipeR uint64 | ChPipeW uint64
  | ChCons | ChUart | ChDisk | ChDiskBuf nat

record kcontext =
  ctx_ra :: uint64
  ctx_sp :: uint64

record proc =
  pstate :: procstate
  chan :: "chan option"
  killed :: int
  xstate :: int
  pid :: int
  parent :: "nat option"
  kstack :: uint64
  sz :: uint64
  pagetable :: uint64
  trapframe :: uint64
  pcontext :: kcontext
  ofile :: "nat \<Rightarrow> nat option"
  cwd :: "nat option"
  pname :: "uchar list"

definition NOFILE :: nat where
  "NOFILE = 16"

record proc_state = kmem_state +
  procs :: "nat \<Rightarrow> proc"
  initproc :: "nat option"
  nextpid :: int
  peterson_locks :: lock_table
  trampoline :: uint64     \<comment> \<open>address of the trampoline page, from the linker\<close>
  forkret_addr :: uint64   \<comment> \<open>address of \<^verbatim>\<open>forkret\<close>, from the linker\<close>

abbreviation upd_proc :: "nat \<Rightarrow> (proc \<Rightarrow> proc) \<Rightarrow> 'z proc_state_scheme \<Rightarrow> 'z proc_state_scheme" where
  "upd_proc p f s \<equiv> s\<lparr>procs := (procs s)(p := f (procs s p))\<rparr>"

fun procinit_from :: "nat list \<Rightarrow> 'z proc_state_scheme \<Rightarrow> 'z proc_state_scheme" where
  "procinit_from [] s = s"
| "procinit_from (p # ps) s =
     procinit_from ps (upd_proc p (\<lambda>k. k\<lparr>pstate := UNUSED, kstack := KSTACK p\<rparr>)
       (s\<lparr>kcore := initlock (LProc p) (kcore s)\<rparr>))"

definition procinit :: "('z proc_state_scheme, unit) kern" where
  "procinit = modify (\<lambda>s.
     let s1 = s\<lparr>kcore := initlock LWait (initlock LPid (kcore s))\<rparr>;
         s2 = procinit_from [0..<NPROC] s1
     in s2\<lparr>peterson_locks := petersonlock_init (peterson_locks s2)\<rparr>)"

definition myproc :: "('z kernel_scheme, nat option) kern" where
  "myproc =
     thn (on_core (\<lambda>c. Ok (push_off c)))
     (bnd (gets (\<lambda>s. cproc (mycpu (kcore s)))) (\<lambda>p.
      thn (on_core pop_off) (ret p)))"

text \<open>Where the code uses the fields of \<^verbatim>\<open>myproc()\<close>.\<close>

definition curproc :: "('z kernel_scheme, nat) kern" where
  "curproc = bnd myproc (\<lambda>p. case p of None \<Rightarrow> undef ''myproc()->'' | Some q \<Rightarrow> ret q)"

definition allocpid :: "('z proc_state_scheme, int) kern" where
  "allocpid =
     thn (acq LPid)
     (bnd (gets nextpid) (\<lambda>pid.
      thn (modify (\<lambda>s. s\<lparr>nextpid := nextpid s + 1\<rparr>))
     (thn (rel LPid) (ret pid))))"

section \<open>Page tables of processes\<close>

definition proc_pagetable :: "nat \<Rightarrow> ('z proc_state_scheme, uint64) kern" where
  "proc_pagetable p =
     bnd uvmcreate (\<lambda>pt.
       if pt = 0 then ret 0
       else
         bnd (gets trampoline) (\<lambda>tr.
         bnd (mappages pt TRAMPOLINE PGSIZE tr (PTE_R OR PTE_X)) (\<lambda>r.
           if r < 0 then thn (uvmfree pt 0) (ret 0)
           else
             bnd (gets (\<lambda>s. trapframe (procs s p))) (\<lambda>tf.
             bnd (mappages pt TRAPFRAME PGSIZE tf (PTE_R OR PTE_W)) (\<lambda>r.
               if r < 0 then
                 thn (uvmunmap pt TRAMPOLINE 1 False) (thn (uvmfree pt 0) (ret 0))
               else ret pt)))))"

definition proc_freepagetable :: "uint64 \<Rightarrow> uint64 \<Rightarrow> ('z proc_state_scheme, unit) kern" where
  "proc_freepagetable pt n =
     seqs [uvmunmap pt TRAMPOLINE 1 False, uvmunmap pt TRAPFRAME 1 False, uvmfree pt n]"

section \<open>Allocating and freeing processes\<close>

definition freeproc :: "nat \<Rightarrow> ('z proc_state_scheme, unit) kern" where
  "freeproc p = (\<lambda>s.
     seqs [
       whenb (trapframe (procs s p) \<noteq> 0) (kfree (trapframe (procs s p))),
       modify (upd_proc p (\<lambda>k. k\<lparr>trapframe := 0\<rparr>)),
       whenb (pagetable (procs s p) \<noteq> 0) (proc_freepagetable (pagetable (procs s p)) (sz (procs s p))),
       modify (upd_proc p (\<lambda>k. k\<lparr>pagetable := 0, sz := 0, pid := 0, parent := None,
         pname := list_update (pname k) 0 0, chan := None, killed := 0, xstate := 0, pstate := UNUSED\<rparr>))] s)"

text \<open>The scan for an unused slot; the lock of the slot found stays held.\<close>

fun find_unused :: "nat list \<Rightarrow> ('z proc_state_scheme, nat option) kern" where
  "find_unused [] = ret None"
| "find_unused (p # ps) =
     thn (acq (LProc p))
     (bnd (gets (\<lambda>s. pstate (procs s p))) (\<lambda>st.
       if st = UNUSED then ret (Some p)
       else thn (rel (LProc p)) (find_unused ps)))"

text \<open>From the label \<^verbatim>\<open>found\<close> on.\<close>

definition allocproc_found :: "nat \<Rightarrow> ('z proc_state_scheme, nat option) kern" where
  "allocproc_found p =
     bnd allocpid (\<lambda>i.
     thn (modify (upd_proc p (\<lambda>k. k\<lparr>pid := i, pstate := USED\<rparr>)))
     (bnd kalloc (\<lambda>tf.
      thn (modify (upd_proc p (\<lambda>k. k\<lparr>trapframe := tf\<rparr>)))
      (if tf = 0 then thn (freeproc p) (thn (rel (LProc p)) (ret None))
       else
         bnd (proc_pagetable p) (\<lambda>pt.
         thn (modify (upd_proc p (\<lambda>k. k\<lparr>pagetable := pt\<rparr>)))
         (if pt = 0 then thn (freeproc p) (thn (rel (LProc p)) (ret None))
          else
            thn (modify (\<lambda>s. upd_proc p (\<lambda>k. k\<lparr>pcontext :=
                   \<lparr>ctx_ra = forkret_addr s, ctx_sp = kstack k + PGSIZE\<rparr>\<rparr>) s))
            (ret (Some p))))))))"

definition allocproc :: "('z proc_state_scheme, nat option) kern" where
  "allocproc =
     bnd (find_unused [0..<NPROC]) (\<lambda>r.
       case r of None \<Rightarrow> ret None | Some p \<Rightarrow> allocproc_found p)"

definition growproc :: "int \<Rightarrow> ('z proc_state_scheme, int) kern" where
  "growproc n =
     bnd curproc (\<lambda>p.
     bnd (gets (\<lambda>s. procs s p)) (\<lambda>k.
       if n > 0 then
         bnd (uvmalloc (pagetable k) (sz k) (sz k + of_int n) PTE_W) (\<lambda>new.
           if new = 0 then ret (-1)
           else thn (modify (upd_proc p (\<lambda>k. k\<lparr>sz := new\<rparr>))) (ret 0))
       else if n < 0 then
         bnd (uvmdealloc (pagetable k) (sz k) (sz k + of_int n)) (\<lambda>new.
           thn (modify (upd_proc p (\<lambda>k. k\<lparr>sz := new\<rparr>))) (ret 0))
       else thn (modify (upd_proc p (\<lambda>q. q\<lparr>sz := sz k\<rparr>))) (ret 0)))"

section \<open>Sleeping and waking\<close>

fun wakeup_from :: "chan option \<Rightarrow> nat list \<Rightarrow> ('z proc_state_scheme, unit) kern" where
  "wakeup_from ch [] = ret ()"
| "wakeup_from ch (p # ps) =
     bnd myproc (\<lambda>me.
       if Some p \<noteq> me then
         thn (acq (LProc p))
         (bnd (gets (\<lambda>s. procs s p)) (\<lambda>k.
          thn (whenb (pstate k = SLEEPING \<and> chan k = ch)
                (modify (upd_proc p (\<lambda>k. k\<lparr>pstate := RUNNABLE\<rparr>))))
         (thn (rel (LProc p)) (wakeup_from ch ps))))
       else wakeup_from ch ps)"

text \<open>\<^verbatim>\<open>wakeup\<close> of a pointer, which may be null, and of one that is not.\<close>

definition wakeup_ptr :: "chan option \<Rightarrow> ('z proc_state_scheme, unit) kern" where
  "wakeup_ptr ch = wakeup_from ch [0..<NPROC]"

definition wakeup :: "chan \<Rightarrow> ('z proc_state_scheme, unit) kern" where
  "wakeup ch = wakeup_ptr (Some ch)"

text \<open>\<^verbatim>\<open>sched\<close> up to \<^verbatim>\<open>swtch\<close>, giving the \<^verbatim>\<open>intena\<close> it saves, and from its return on.\<close>

definition sched_enter :: "('z proc_state_scheme, bool) kern" where
  "sched_enter =
     bnd curproc (\<lambda>p. (\<lambda>s.
       if \<not> holding (LProc p) (kcore s) then Panic ''sched p->lock''
       else if noff (mycpu (kcore s)) \<noteq> 1 then Panic ''sched locks''
       else if pstate (procs s p) = RUNNING then Panic ''sched running''
       else if intr_get (kcore s) then Panic ''sched interruptible''
       else Ok (intena (mycpu (kcore s)), s)))"

definition sched_return :: "bool \<Rightarrow> ('z proc_state_scheme, unit) kern" where
  "sched_return b = on_core (\<lambda>c. Ok (upd_mycpu (\<lambda>k. k\<lparr>intena := b\<rparr>) c))"

definition yield_enter :: "('z proc_state_scheme, bool) kern" where
  "yield_enter =
     bnd curproc (\<lambda>p.
     thn (acq (LProc p))
     (thn (modify (upd_proc p (\<lambda>k. k\<lparr>pstate := RUNNABLE\<rparr>)))
      sched_enter))"

definition yield_return :: "bool \<Rightarrow> ('z proc_state_scheme, unit) kern" where
  "yield_return b = thn (sched_return b) (bnd curproc (\<lambda>p. rel (LProc p)))"

definition sleep_enter :: "chan \<Rightarrow> lockid \<Rightarrow> ('z proc_state_scheme, bool) kern" where
  "sleep_enter ch lk =
     bnd curproc (\<lambda>p.
     thn (acq (LProc p))
     (thn (rel lk)
     (thn (modify (upd_proc p (\<lambda>k. k\<lparr>chan := Some ch, pstate := SLEEPING\<rparr>)))
      sched_enter)))"

definition sleep_return :: "lockid \<Rightarrow> bool \<Rightarrow> ('z proc_state_scheme, unit) kern" where
  "sleep_return lk b =
     thn (sched_return b)
     (bnd curproc (\<lambda>p.
      thn (modify (upd_proc p (\<lambda>k. k\<lparr>chan := None\<rparr>)))
     (thn (rel (LProc p)) (acq lk))))"

section \<open>The scheduler\<close>

definition set_cproc :: "nat option \<Rightarrow> core \<Rightarrow> core" where
  "set_cproc p c = upd_mycpu (\<lambda>k. k\<lparr>cproc := p\<rparr>) c"

text \<open>
  The body of the loop over the table: \<open>True\<close> when it switches to the process, whose lock is then held; and what
  happens when the process has switched back.
\<close>

definition scheduler_pick :: "nat \<Rightarrow> ('z proc_state_scheme, bool) kern" where
  "scheduler_pick p =
     thn (acq (LProc p))
     (bnd (gets (\<lambda>s. pstate (procs s p))) (\<lambda>st.
       if st = RUNNABLE then
         thn (modify (upd_proc p (\<lambda>k. k\<lparr>pstate := RUNNING\<rparr>)))
         (thn (on_core (\<lambda>c. Ok (set_cproc (Some p) c))) (ret True))
       else thn (rel (LProc p)) (ret False)))"

definition scheduler_back :: "nat \<Rightarrow> ('z proc_state_scheme, unit) kern" where
  "scheduler_back p = thn (on_core (\<lambda>c. Ok (set_cproc None c))) (rel (LProc p))"

text \<open>The start of \<^verbatim>\<open>scheduler\<close>, and of each round.\<close>

definition scheduler_start :: "('z proc_state_scheme, unit) kern" where
  "scheduler_start = on_core (\<lambda>c. Ok (set_cproc None c))"

definition scheduler_round :: "('z proc_state_scheme, unit) kern" where
  "scheduler_round = on_core (\<lambda>c. Ok (intr_on c))"

section \<open>Signals and exit status\<close>

fun kill_from :: "int \<Rightarrow> nat list \<Rightarrow> ('z proc_state_scheme, int) kern" where
  "kill_from i [] = ret (-1)"
| "kill_from i (p # ps) =
     thn (acq (LProc p))
     (bnd (gets (\<lambda>s. procs s p)) (\<lambda>k.
       if pid k = i then
         thn (modify (upd_proc p (\<lambda>k. k\<lparr>killed := 1\<rparr>)))
         (thn (whenb (pstate k = SLEEPING) (modify (upd_proc p (\<lambda>k. k\<lparr>pstate := RUNNABLE\<rparr>))))
         (thn (rel (LProc p)) (ret 0)))
       else thn (rel (LProc p)) (kill_from i ps)))"

definition kill :: "int \<Rightarrow> ('z proc_state_scheme, int) kern" where
  "kill i = kill_from i [0..<NPROC]"

definition setkilled :: "nat \<Rightarrow> ('z proc_state_scheme, unit) kern" where
  "setkilled p = seqs [acq (LProc p), modify (upd_proc p (\<lambda>k. k\<lparr>killed := 1\<rparr>)), rel (LProc p)]"

definition is_killed :: "nat \<Rightarrow> ('z proc_state_scheme, int) kern" where
  "is_killed p =
     thn (acq (LProc p))
     (bnd (gets (\<lambda>s. killed (procs s p))) (\<lambda>k.
      thn (rel (LProc p)) (ret k)))"

fun reparent_from :: "nat \<Rightarrow> nat list \<Rightarrow> ('z proc_state_scheme, unit) kern" where
  "reparent_from p [] = ret ()"
| "reparent_from p (pp # ps) =
     bnd (gets (\<lambda>s. parent (procs s pp))) (\<lambda>par.
       if par = Some p then
         bnd (gets initproc) (\<lambda>ip.
         thn (modify (upd_proc pp (\<lambda>k. k\<lparr>parent := ip\<rparr>)))
         (thn (wakeup_ptr (map_option ChProc ip))
          (reparent_from p ps)))
       else reparent_from p ps)"

definition reparent :: "nat \<Rightarrow> ('z proc_state_scheme, unit) kern" where
  "reparent p = reparent_from p [0..<NPROC]"

text \<open>A 32-bit \<^verbatim>\<open>int\<close> in memory, low byte first.\<close>

definition int_bytes :: "int \<Rightarrow> uchar list" where
  "int_bytes i = (let w = word_of_int i :: uint32 in
     [ucast w, ucast (drop_bit 8 w), ucast (drop_bit 16 w), ucast (drop_bit 24 w)])"

text \<open>
  One scan of \<^verbatim>\<open>wait\<close> over the table: \<open>Inl r\<close> when the call returns \<open>r\<close> from inside the scan (both locks
  released), \<open>Inr havekids\<close> at its end.
\<close>

fun wait_scan :: "nat \<Rightarrow> uint64 \<Rightarrow> nat list \<Rightarrow> bool \<Rightarrow> ('z proc_state_scheme, int + bool) kern" where
  "wait_scan p addr [] havekids = ret (Inr havekids)"
| "wait_scan p addr (pp # ps) havekids =
     bnd (gets (\<lambda>s. parent (procs s pp))) (\<lambda>par.
       if par = Some p then
         thn (acq (LProc pp))
         (bnd (gets (\<lambda>s. procs s pp)) (\<lambda>k.
           if pstate k = ZOMBIE then
             bnd (if addr \<noteq> 0 then bnd (gets (\<lambda>s. pagetable (procs s p))) (\<lambda>pt. copyout pt addr (int_bytes (xstate k)))
                  else ret 0) (\<lambda>r.
               if r < 0 then thn (rel (LProc pp)) (thn (rel LWait) (ret (Inl (-1))))
               else thn (freeproc pp) (thn (rel (LProc pp)) (thn (rel LWait) (ret (Inl (pid k))))))
           else thn (rel (LProc pp)) (wait_scan p addr ps True)))
       else wait_scan p addr ps havekids)"

text \<open>\<^verbatim>\<open>wait\<close> up to its return, or to the \<^verbatim>\<open>sleep(p, &wait_lock)\<close> after a scan that found no zombie.\<close>

definition wait :: "uint64 \<Rightarrow> ('z proc_state_scheme, int) kern" where
  "wait addr =
     bnd curproc (\<lambda>p.
     thn (acq LWait)
     (bnd (wait_scan p addr [0..<NPROC] False) (\<lambda>r.
       case r of
         Inl v \<Rightarrow> ret v
       | Inr havekids \<Rightarrow>
           (if \<not> havekids then thn (rel LWait) (ret (-1))
            else bnd (is_killed p) (\<lambda>k.
              if k \<noteq> 0 then thn (rel LWait) (ret (-1)) else blocks)))))"

section \<open>Copying for the file system and the devices\<close>

text \<open>A kernel destination receives the bytes as the result of the routine that copies.\<close>

datatype copy_dst = ToUser uint64 | ToKernel
datatype copy_src = FromUser uint64 | FromKernel "uchar list"

definition either_copyout :: "copy_dst \<Rightarrow> uchar list \<Rightarrow> ('z proc_state_scheme, int) kern" where
  "either_copyout dst src =
     bnd myproc (\<lambda>me.
       case dst of
         ToUser a \<Rightarrow>
           (case me of None \<Rightarrow> undef ''p->pagetable''
            | Some p \<Rightarrow> bnd (gets (\<lambda>s. pagetable (procs s p))) (\<lambda>pt. copyout pt a src))
       | ToKernel \<Rightarrow> ret 0)"

definition either_copyin :: "copy_src \<Rightarrow> nat \<Rightarrow> ('z proc_state_scheme, int \<times> uchar list) kern" where
  "either_copyin src len =
     bnd myproc (\<lambda>me.
       case src of
         FromUser a \<Rightarrow>
           (case me of None \<Rightarrow> undef ''p->pagetable''
            | Some p \<Rightarrow> bnd (gets (\<lambda>s. pagetable (procs s p))) (\<lambda>pt. copyin pt a len))
       | FromKernel bs \<Rightarrow> ret (0, take len bs))"

definition src_advance :: "copy_src \<Rightarrow> nat \<Rightarrow> copy_src" where
  "src_advance src m = (case src of FromUser a \<Rightarrow> FromUser (a + of_nat m) | FromKernel bs \<Rightarrow> FromKernel (drop m bs))"

definition dst_advance :: "copy_dst \<Rightarrow> nat \<Rightarrow> copy_dst" where
  "dst_advance dst m = (case dst of ToUser a \<Rightarrow> ToUser (a + of_nat m) | ToKernel \<Rightarrow> ToKernel)"

end
