(* ===== verification/Uart.thy ===== *)
theory Uart
  imports Proc
begin

text \<open>
  The serial line, \<^verbatim>\<open>kernel/uart.c\<close>, and the formatted output of \<^verbatim>\<open>kernel/printf.c\<close> over it.

  The device is outside the C sources. What the driver sees of it is: the number of bytes the transmitter takes
  before it is busy (\<open>tx_room\<close>; the idle bit of the status register is \<open>tx_room > 0\<close>), the bytes it has been given (\<open>sent\<close>),
  the bytes that wait to be read (\<open>rx\<close>), and the values written to its control registers. \<^verbatim>\<open>uartputc_sync\<close> spins until
  the transmitter is idle and gives it one byte.
\<close>

record uart_state = proc_state +
  uart_tx_buf :: "nat \<Rightarrow> uchar"
  uart_tx_w :: uint64
  uart_tx_r :: uint64
  tx_room :: nat
  sent :: "uchar list"
  rx :: "uchar list"
  uart_regs :: "(nat \<times> uchar) list"
  panicked :: bool
  pr_locking :: bool

definition bytes :: "string \<Rightarrow> uchar list" where
  "bytes s = map of_char s"

section \<open>The driver\<close>

definition UART_TX_BUF_SIZE :: uint64 where
  "UART_TX_BUF_SIZE = 32"

abbreviation (input) IER :: nat where "IER \<equiv> 1"
abbreviation (input) FCR :: nat where "FCR \<equiv> 2"
abbreviation (input) LCR :: nat where "LCR \<equiv> 3"

definition WriteReg :: "nat \<Rightarrow> uchar \<Rightarrow> ('z uart_state_scheme, unit) kern" where
  "WriteReg reg v = modify (\<lambda>s. s\<lparr>uart_regs := uart_regs s @ [(reg, v)]\<rparr>)"

text \<open>\<^verbatim>\<open>WriteReg(THR, c)\<close>\<close>

definition write_thr :: "uchar \<Rightarrow> ('z uart_state_scheme, unit) kern" where
  "write_thr c = modify (\<lambda>s. s\<lparr>sent := sent s @ [c], tx_room := tx_room s - 1\<rparr>)"

definition uartinit :: "('z uart_state_scheme, unit) kern" where
  "uartinit = seqs [
     WriteReg IER 0,
     WriteReg LCR (push_bit 7 1),
     WriteReg 0 3,
     WriteReg 1 0,
     WriteReg LCR 3,
     WriteReg FCR (1 OR push_bit 1 3),
     WriteReg IER (2 OR 1),
     on_core (\<lambda>c. Ok (initlock LUart c))]"

text \<open>\<^verbatim>\<open>uartstart\<close>: the number bounds the bytes the transmitter still takes.\<close>

fun uartstart_loop :: "nat \<Rightarrow> ('z uart_state_scheme, unit) kern" where
  "uartstart_loop 0 = ret ()"
| "uartstart_loop (Suc n) =
     bnd (gets (\<lambda>s. uart_tx_w s = uart_tx_r s)) (\<lambda>empty.
       if empty then ret ()
       else
         bnd (gets (\<lambda>s. uart_tx_buf s (unat (uart_tx_r s mod UART_TX_BUF_SIZE)))) (\<lambda>c.
         seqs [
           modify (\<lambda>s. s\<lparr>uart_tx_r := uart_tx_r s + 1\<rparr>),
           wakeup ChUart,
           write_thr c,
           uartstart_loop n]))"

definition uartstart :: "('z uart_state_scheme, unit) kern" where
  "uartstart = bnd (gets tx_room) uartstart_loop"

definition uartputc :: "uchar \<Rightarrow> ('z uart_state_scheme, unit) kern" where
  "uartputc c =
     thn (acq LUart)
     (bnd (gets panicked) (\<lambda>p.
       if p then blocks
       else
         bnd (gets (\<lambda>s. uart_tx_w s = uart_tx_r s + UART_TX_BUF_SIZE)) (\<lambda>full.
           if full then blocks
           else seqs [
             modify (\<lambda>s. s\<lparr>uart_tx_buf := (uart_tx_buf s)(unat (uart_tx_w s mod UART_TX_BUF_SIZE) := c)\<rparr>),
             modify (\<lambda>s. s\<lparr>uart_tx_w := uart_tx_w s + 1\<rparr>),
             uartstart,
             rel LUart])))"

definition uartputc_sync :: "uchar \<Rightarrow> ('z uart_state_scheme, unit) kern" where
  "uartputc_sync c =
     thn (on_core (\<lambda>c. Ok (push_off c)))
     (bnd (gets panicked) (\<lambda>p.
       if p then blocks
       else thn (write_thr c) (on_core pop_off)))"

definition uartgetc :: "('z uart_state_scheme, int) kern" where
  "uartgetc =
     bnd (gets rx) (\<lambda>cs.
       case cs of
         [] \<Rightarrow> ret (-1)
       | c # rest \<Rightarrow> thn (modify (\<lambda>s. s\<lparr>rx := rest\<rparr>)) (ret (uint c)))"

section \<open>Characters on the console\<close>

definition BACKSPACE :: int where
  "BACKSPACE = 0x100"

definition consputc :: "int \<Rightarrow> ('z uart_state_scheme, unit) kern" where
  "consputc c =
     (if c = BACKSPACE then seqs [uartputc_sync 8, uartputc_sync 32, uartputc_sync 8]
      else uartputc_sync (word_of_int c))"

fun putchars :: "uchar list \<Rightarrow> ('z uart_state_scheme, unit) kern" where
  "putchars [] = ret ()"
| "putchars (c # cs) = thn (consputc (uint c)) (putchars cs)"

section \<open>Formatted output\<close>

definition digits :: "uchar list" where
  "digits = bytes ''0123456789abcdef''"

text \<open>The loop of \<^verbatim>\<open>printint\<close>: the digits in the order they enter the buffer, least significant first.\<close>

function digits_rev :: "uint32 \<Rightarrow> uint32 \<Rightarrow> uchar list" where
  "digits_rev x base =
     digits ! unat (x mod base) # (if x div base \<noteq> 0 \<and> base > 1 then digits_rev (x div base) base else [])"
  by pat_completeness auto
termination
proof (relation "measure (\<lambda>(x, base). unat x)")
  fix x base :: uint32
  assume "x div base \<noteq> 0 \<and> base > 1"
  then have "1 < unat base" "unat (x div base) \<noteq> 0"
    by (auto simp: word_less_nat_alt unat_eq_0)
  then have "unat x div unat base < unat x" by (intro div_less_dividend) (auto simp: unat_div intro!: Nat.gr0I)
  then show "((x div base, base), x, base) \<in> measure (\<lambda>(x, base). unat x)" by (simp add: unat_div)
qed simp

declare digits_rev.simps [simp del]

text \<open>The characters \<^verbatim>\<open>printint\<close> writes, in the order of output.\<close>

definition printint_chars :: "uint32 \<Rightarrow> uint32 \<Rightarrow> bool \<Rightarrow> uchar list" where
  "printint_chars xx base signd =
     (let neg = signd \<and> sint xx < 0;
          x = (if neg then - xx else xx);
          buf = digits_rev x base @ (if neg then bytes ''-'' else [])
      in rev buf)"

definition printint :: "uint32 \<Rightarrow> uint32 \<Rightarrow> bool \<Rightarrow> ('z uart_state_scheme, unit) kern" where
  "printint xx base signd = putchars (printint_chars xx base signd)"

fun printptr_chars :: "nat \<Rightarrow> uint64 \<Rightarrow> uchar list" where
  "printptr_chars 0 x = []"
| "printptr_chars (Suc n) x = digits ! unat (drop_bit 60 x) # printptr_chars n (push_bit 4 x)"

definition printptr :: "uint64 \<Rightarrow> ('z uart_state_scheme, unit) kern" where
  "printptr x = putchars (bytes ''0x'' @ printptr_chars 16 x)"

text \<open>The variable arguments; taking one that is not there, or of another type, is undefined.\<close>

datatype va_arg = VInt uint32 | VPtr uint64 | VStr "uchar list option"

fun printf_loop :: "uchar list \<Rightarrow> va_arg list \<Rightarrow> ('z uart_state_scheme, unit) kern" where
  "printf_loop [] ap = ret ()"
| "printf_loop (c # fmt) ap =
     (if c \<noteq> of_char (CHR ''%'') then thn (consputc (uint c)) (printf_loop fmt ap)
      else
        case fmt of
          [] \<Rightarrow> ret ()
        | d # rest \<Rightarrow>
            if d = of_char (CHR ''d'') then
              (case ap of VInt x # as \<Rightarrow> thn (printint x 10 True) (printf_loop rest as) | _ \<Rightarrow> undef ''va_arg'')
            else if d = of_char (CHR ''x'') then
              (case ap of VInt x # as \<Rightarrow> thn (printint x 16 True) (printf_loop rest as) | _ \<Rightarrow> undef ''va_arg'')
            else if d = of_char (CHR ''p'') then
              (case ap of VPtr x # as \<Rightarrow> thn (printptr x) (printf_loop rest as) | _ \<Rightarrow> undef ''va_arg'')
            else if d = of_char (CHR ''s'') then
              (case ap of
                 VStr x # as \<Rightarrow>
                   thn (putchars (case x of None \<Rightarrow> bytes ''(null)'' | Some t \<Rightarrow> t)) (printf_loop rest as)
               | _ \<Rightarrow> undef ''va_arg'')
            else if d = of_char (CHR ''%'') then thn (consputc (uint d)) (printf_loop rest ap)
            else thn (consputc (uint c)) (thn (consputc (uint d)) (printf_loop rest ap)))"

definition printf :: "uchar list \<Rightarrow> va_arg list \<Rightarrow> ('z uart_state_scheme, unit) kern" where
  "printf fmt ap =
     bnd (gets pr_locking) (\<lambda>locking.
     seqs [
       whenb locking (acq LPr),
       printf_loop fmt ap,
       whenb locking (rel LPr)])"

definition printfinit :: "('z uart_state_scheme, unit) kern" where
  "printfinit = seqs [on_core (\<lambda>c. Ok (initlock LPr c)), modify (\<lambda>s. s\<lparr>pr_locking := True\<rparr>)]"

text \<open>What \<^verbatim>\<open>panic\<close> does before it spins for ever.\<close>

definition panic_print :: "uchar list \<Rightarrow> ('z uart_state_scheme, unit) kern" where
  "panic_print m = seqs [
     modify (\<lambda>s. s\<lparr>pr_locking := False\<rparr>),
     printf (bytes ''panic: '') [],
     printf m [],
     printf [10] [],
     modify (\<lambda>s. s\<lparr>panicked := True\<rparr>)]"

section \<open>The process listing\<close>

fun state_name :: "procstate \<Rightarrow> uchar list" where
  "state_name UNUSED = bytes ''unused''"
| "state_name USED = bytes ''used''"
| "state_name SLEEPING = bytes ''sleep ''"
| "state_name RUNNABLE = bytes ''runble''"
| "state_name RUNNING = bytes ''run   ''"
| "state_name ZOMBIE = bytes ''zombie''"

fun procdump_from :: "nat list \<Rightarrow> ('z uart_state_scheme, unit) kern" where
  "procdump_from [] = ret ()"
| "procdump_from (p # ps) =
     bnd (gets (\<lambda>s. procs s p)) (\<lambda>k.
       if pstate k = UNUSED then procdump_from ps
       else seqs [
         printf (bytes ''%d %s %s'') [VInt (word_of_int (pid k)), VStr (Some (state_name (pstate k))), VStr (Some (cstr (pname k)))],
         printf [10] [],
         procdump_from ps])"

definition procdump :: "('z uart_state_scheme, unit) kern" where
  "procdump = thn (printf [10] []) (procdump_from [0..<NPROC])"

end
