(* ===== verification/Console.thy ===== *)
theory Console
  imports Uart
begin

text \<open>
  The console, \<^verbatim>\<open>kernel/console.c\<close>: line editing of the input by the interrupt handler, reads of whole lines, and
  the interrupt handler of \<^verbatim>\<open>kernel/uart.c\<close> that feeds it. The indices of the circular buffer are 32-bit and wrap.

  \<open>consoleread\<close> runs until it returns (\<open>Inr\<close> with the result and the bytes read) or goes to sleep for input (\<open>Inl\<close> with the
  destination and count that are left); when the process has been woken, \<open>consoleread_resume\<close> goes on from there.
\<close>

record cons_state = uart_state +
  cons_buf :: "nat \<Rightarrow> uchar"
  cons_r :: uint32
  cons_w :: uint32
  cons_e :: uint32

definition INPUT_BUF_SIZE :: uint32 where
  "INPUT_BUF_SIZE = 128"

definition Ctrl :: "char \<Rightarrow> int" where
  "Ctrl x = of_char x - 64"

abbreviation cons_at :: "'z cons_state_scheme \<Rightarrow> uint32 \<Rightarrow> uchar" where
  "cons_at s i \<equiv> cons_buf s (unat (i mod INPUT_BUF_SIZE))"

section \<open>Output\<close>

function consolewrite_loop :: "copy_src \<Rightarrow> int \<Rightarrow> int \<Rightarrow> ('z cons_state_scheme, int) kern" where
  "consolewrite_loop src i n =
     (if i < n then
        bnd (either_copyin (src_advance src (nat i)) 1) (\<lambda>(r, cs).
          if r = -1 then ret i
          else thn (uartputc (hd cs)) (consolewrite_loop src (i + 1) n))
      else ret i)"
  by pat_completeness auto
termination by (relation "measure (\<lambda>(src, i, n). nat (n - i))") auto

declare consolewrite_loop.simps [simp del]

definition consolewrite :: "copy_src \<Rightarrow> int \<Rightarrow> ('z cons_state_scheme, int) kern" where
  "consolewrite src n = consolewrite_loop src 0 n"

section \<open>Input\<close>

text \<open>
  The loop of \<^verbatim>\<open>consoleread\<close>, with \<^verbatim>\<open>cons.lock\<close> held. The bytes copied to a kernel destination are collected.
\<close>

function consoleread_loop ::
    "copy_dst \<Rightarrow> int \<Rightarrow> int \<Rightarrow> uchar list \<Rightarrow> ('z cons_state_scheme, (copy_dst \<times> int \<times> uchar list) + (int \<times> uchar list)) kern" where
  "consoleread_loop dst n target acc =
     (if n > 0 then
        bnd (gets (\<lambda>s. cons_r s = cons_w s)) (\<lambda>empty.
          if empty then
            bnd curproc (\<lambda>p.
            bnd (is_killed p) (\<lambda>k.
              if k \<noteq> 0 then thn (rel LCons) (ret (Inr (-1, acc)))
              else ret (Inl (dst, n, acc))))
          else
            bnd (gets (\<lambda>s. cons_at s (cons_r s))) (\<lambda>c.
            thn (modify (\<lambda>s. s\<lparr>cons_r := cons_r s + 1\<rparr>))
            (if uint c = Ctrl (CHR ''D'') then
               thn (whenb (n < target) (modify (\<lambda>s. s\<lparr>cons_r := cons_r s - 1\<rparr>)))
               (thn (rel LCons) (ret (Inr (target - n, acc))))
             else
               bnd (either_copyout dst [c]) (\<lambda>r.
                 if r = -1 then thn (rel LCons) (ret (Inr (target - n, acc)))
                 else if c = 10 then thn (rel LCons) (ret (Inr (target - (n - 1), acc @ [c])))
                 else consoleread_loop (dst_advance dst 1) (n - 1) target (acc @ [c])))))
      else thn (rel LCons) (ret (Inr (target - n, acc))))"
  by pat_completeness auto
termination by (relation "measure (\<lambda>(dst, n, target, acc). nat n)") auto

declare consoleread_loop.simps [simp del]

definition consoleread ::
    "copy_dst \<Rightarrow> int \<Rightarrow> ('z cons_state_scheme, (copy_dst \<times> int \<times> uchar list) + (int \<times> uchar list)) kern" where
  "consoleread dst n = thn (acq LCons) (consoleread_loop dst n n [])"

text \<open>From the return of \<^verbatim>\<open>sleep(&cons.r, &cons.lock)\<close> on, which has the lock again.\<close>

definition consoleread_resume ::
    "int \<Rightarrow> copy_dst \<times> int \<times> uchar list \<Rightarrow> ('z cons_state_scheme, (copy_dst \<times> int \<times> uchar list) + (int \<times> uchar list)) kern" where
  "consoleread_resume target k = (case k of (dst, n, acc) \<Rightarrow> consoleread_loop dst n target acc)"

text \<open>
  Kill line, \<^verbatim>\<open>while(cons.e != cons.w && ...)\<close>: the number is \<^verbatim>\<open>cons.e - cons.w\<close>, which each turn makes smaller by one.
\<close>

fun kill_line :: "nat \<Rightarrow> ('z cons_state_scheme, unit) kern" where
  "kill_line 0 = ret ()"
| "kill_line (Suc n) =
     bnd (gets (\<lambda>s. cons_at s (cons_e s - 1))) (\<lambda>c.
       if c \<noteq> 10 then seqs [
         modify (\<lambda>s. s\<lparr>cons_e := cons_e s - 1\<rparr>),
         consputc BACKSPACE,
         kill_line n]
       else ret ())"

definition backspace :: "('z cons_state_scheme, unit) kern" where
  "backspace =
     bnd (gets (\<lambda>s. cons_e s \<noteq> cons_w s)) (\<lambda>b.
       whenb b (seqs [modify (\<lambda>s. s\<lparr>cons_e := cons_e s - 1\<rparr>), consputc BACKSPACE]))"

definition store_char :: "int \<Rightarrow> ('z cons_state_scheme, unit) kern" where
  "store_char c =
     (let c = (if c = 13 then 10 else c) in
      seqs [
        consputc c,
        modify (\<lambda>s. s\<lparr>cons_buf := (cons_buf s)(unat (cons_e s mod INPUT_BUF_SIZE) := word_of_int c)\<rparr>),
        modify (\<lambda>s. s\<lparr>cons_e := cons_e s + 1\<rparr>),
        bnd (gets (\<lambda>s. cons_e s - cons_r s = INPUT_BUF_SIZE)) (\<lambda>full.
          whenb (c = 10 \<or> c = Ctrl (CHR ''D'') \<or> full) (seqs [
            modify (\<lambda>s. s\<lparr>cons_w := cons_e s\<rparr>),
            wakeup ChCons]))])"

definition consoleintr :: "int \<Rightarrow> ('z cons_state_scheme, unit) kern" where
  "consoleintr c = seqs [
     acq LCons,
     if c = Ctrl (CHR ''P'') then procdump
     else if c = Ctrl (CHR ''U'') then bnd (gets (\<lambda>s. unat (cons_e s - cons_w s))) kill_line
     else if c = Ctrl (CHR ''H'') \<or> c = 0x7f then backspace
     else bnd (gets (\<lambda>s. cons_e s - cons_r s < INPUT_BUF_SIZE)) (\<lambda>room.
       whenb (c \<noteq> 0 \<and> room) (store_char c)),
     rel LCons]"

definition consoleinit :: "('z cons_state_scheme, unit) kern" where
  "consoleinit = seqs [on_core (\<lambda>c. Ok (initlock LCons c)), uartinit]"

section \<open>The interrupt of the serial line\<close>

text \<open>The loop of \<^verbatim>\<open>uartintr\<close> over the bytes that have arrived; the number is how many wait.\<close>

fun uartintr_loop :: "nat \<Rightarrow> ('z cons_state_scheme, unit) kern" where
  "uartintr_loop 0 = bnd uartgetc (\<lambda>c. ret ())"
| "uartintr_loop (Suc n) =
     bnd uartgetc (\<lambda>c. if c = -1 then ret () else thn (consoleintr c) (uartintr_loop n))"

definition uartintr :: "('z cons_state_scheme, unit) kern" where
  "uartintr = seqs [bnd (gets (\<lambda>s. length (rx s))) uartintr_loop, acq LUart, uartstart, rel LUart]"

end
