(* ===== verification/Sleeplock.thy ===== *)
theory Sleeplock
  imports Console
begin

text \<open>
  Sleep locks, \<^verbatim>\<open>kernel/sleeplock.c\<close>: long-term locks of buffers and inodes, each guarded by a spin lock. A process that
  finds the lock taken goes to sleep, and its call is \<open>Wait\<close>.
\<close>

datatype slockid = SBuf nat | SInode nat

text \<open>The spin lock inside a sleep lock, and the channel that is its address.\<close>

fun slk :: "slockid \<Rightarrow> lockid" where
  "slk (SBuf b) = LBuf b"
| "slk (SInode i) = LInode i"

fun slchan :: "slockid \<Rightarrow> chan" where
  "slchan (SBuf b) = ChBuf b"
| "slchan (SInode i) = ChInode i"

record sleeplock =
  slocked :: bool
  slpid :: int

record sleep_state = cons_state +
  slocks :: "slockid \<Rightarrow> sleeplock"

abbreviation upd_slock :: "slockid \<Rightarrow> (sleeplock \<Rightarrow> sleeplock) \<Rightarrow> 'z sleep_state_scheme \<Rightarrow> 'z sleep_state_scheme" where
  "upd_slock l f s \<equiv> s\<lparr>slocks := (slocks s)(l := f (slocks s l))\<rparr>"

definition initsleeplock :: "slockid \<Rightarrow> ('z sleep_state_scheme, unit) kern" where
  "initsleeplock l = seqs [
     on_core (\<lambda>c. Ok (initlock (slk l) c)),
     modify (upd_slock l (\<lambda>k. k\<lparr>slocked := False, slpid := 0\<rparr>))]"

definition acquiresleep :: "slockid \<Rightarrow> ('z sleep_state_scheme, unit) kern" where
  "acquiresleep l =
     thn (acq (slk l))
     (bnd (gets (\<lambda>s. slocked (slocks s l))) (\<lambda>k.
       if k then blocks
       else
         thn (modify (upd_slock l (\<lambda>k. k\<lparr>slocked := True\<rparr>)))
         (bnd curproc (\<lambda>p.
          thn (modify (\<lambda>s. upd_slock l (\<lambda>k. k\<lparr>slpid := pid (procs s p)\<rparr>) s))
          (rel (slk l))))))"

definition releasesleep :: "slockid \<Rightarrow> ('z sleep_state_scheme, unit) kern" where
  "releasesleep l = seqs [
     acq (slk l),
     modify (upd_slock l (\<lambda>k. k\<lparr>slocked := False\<rparr>)),
     modify (upd_slock l (\<lambda>k. k\<lparr>slpid := 0\<rparr>)),
     wakeup (slchan l),
     rel (slk l)]"

definition holdingsleep :: "slockid \<Rightarrow> ('z sleep_state_scheme, bool) kern" where
  "holdingsleep l =
     thn (acq (slk l))
     (bnd curproc (\<lambda>p.
      bnd (gets (\<lambda>s. slocked (slocks s l) \<and> slpid (slocks s l) = pid (procs s p))) (\<lambda>r.
      thn (rel (slk l)) (ret r))))"

end
