(* ===== verification/Bytes.thy ===== *)
theory Bytes
  imports Kstring
begin

text \<open>
  Integers inside byte buffers, low byte first: how the C code reads and writes the fields of the structures that it
  overlays on disk blocks.
\<close>

definition get16 :: "uchar list \<Rightarrow> nat \<Rightarrow> ushort" where
  "get16 d i = ucast (d ! i) OR push_bit 8 (ucast (d ! (i + 1)))"

definition get32 :: "uchar list \<Rightarrow> nat \<Rightarrow> uint32" where
  "get32 d i = ucast (d ! i) OR push_bit 8 (ucast (d ! (i + 1))) OR
     push_bit 16 (ucast (d ! (i + 2))) OR push_bit 24 (ucast (d ! (i + 3)))"

definition get64 :: "uchar list \<Rightarrow> nat \<Rightarrow> uint64" where
  "get64 d i = ucast (get32 d i) OR push_bit 32 (ucast (get32 d (i + 4)))"

definition bytes16 :: "ushort \<Rightarrow> uchar list" where
  "bytes16 w = [ucast w, ucast (drop_bit 8 w)]"

definition bytes32 :: "uint32 \<Rightarrow> uchar list" where
  "bytes32 w = [ucast w, ucast (drop_bit 8 w), ucast (drop_bit 16 w), ucast (drop_bit 24 w)]"

definition bytes64 :: "uint64 \<Rightarrow> uchar list" where
  "bytes64 w = map (\<lambda>i. ucast (drop_bit (8 * i) w)) [0..<8]"

text \<open>\<open>memmove(d + i, bs, length bs)\<close> inside a buffer.\<close>

definition put :: "uchar list \<Rightarrow> nat \<Rightarrow> uchar list \<Rightarrow> uchar list" where
  "put d i bs = take i d @ bs @ drop (i + length bs) d"

abbreviation put16 :: "uchar list \<Rightarrow> nat \<Rightarrow> ushort \<Rightarrow> uchar list" where
  "put16 d i w \<equiv> put d i (bytes16 w)"

abbreviation put32 :: "uchar list \<Rightarrow> nat \<Rightarrow> uint32 \<Rightarrow> uchar list" where
  "put32 d i w \<equiv> put d i (bytes32 w)"

definition slice :: "uchar list \<Rightarrow> nat \<Rightarrow> nat \<Rightarrow> uchar list" where
  "slice d i n = take n (drop i d)"

lemma length_put [simp]: "i + length bs \<le> length d \<Longrightarrow> length (put d i bs) = length d"
  by (simp add: put_def)

lemma length_bytes [simp]: "length (bytes16 w) = 2" "length (bytes32 v) = 4" "length (bytes64 u) = 8"
  by (simp_all add: bytes16_def bytes32_def bytes64_def)

lemma put_nth:
  assumes "i + length bs \<le> length d" "k < length d"
  shows "put d i bs ! k = (if i \<le> k \<and> k < i + length bs then bs ! (k - i) else d ! k)"
  using assms by (auto simp: put_def nth_append)

lemma word_of_bytes32:
  fixes v :: uint32
  shows "ucast (ucast v :: uchar) OR push_bit 8 (ucast (ucast (drop_bit 8 v) :: uchar)) OR
     push_bit 16 (ucast (ucast (drop_bit 16 v) :: uchar)) OR push_bit 24 (ucast (ucast (drop_bit 24 v) :: uchar)) = v"
  (is "?bytes = v")
proof (rule bit_word_eqI)
  fix n assume "n < LENGTH(32)"
  then consider "n < 8" | "8 \<le> n" "n < 16" | "16 \<le> n" "n < 24" | "24 \<le> n" "n < 32" by fastforce
  then show "bit ?bytes n = bit v n"
    by cases (auto simp: bit_simps)
qed

lemma get32_put_same [simp]: "i + 4 \<le> length d \<Longrightarrow> get32 (put32 d i w) i = w"
  using word_of_bytes32[of w] by (simp add: get32_def put_nth bytes32_def)

lemma get32_put_other:
  "i + length bs \<le> length d \<Longrightarrow> k + 4 \<le> length d \<Longrightarrow> k + 4 \<le> i \<or> i + length bs \<le> k \<Longrightarrow> get32 (put d i bs) k = get32 d k"
  by (auto simp: get32_def put_nth)

lemma get16_put_other:
  "i + length bs \<le> length d \<Longrightarrow> k + 2 \<le> length d \<Longrightarrow> k + 2 \<le> i \<or> i + length bs \<le> k \<Longrightarrow> get16 (put d i bs) k = get16 d k"
  by (auto simp: get16_def put_nth)

lemma word_of_bytes16:
  fixes v :: ushort
  shows "ucast (ucast v :: uchar) OR push_bit 8 (ucast (ucast (drop_bit 8 v) :: uchar)) = v"
  (is "?bytes = v")
proof (rule bit_word_eqI)
  fix n assume "n < LENGTH(16)"
  then consider "n < 8" | "8 \<le> n" "n < 16" by fastforce
  then show "bit ?bytes n = bit v n"
    by cases (auto simp: bit_simps)
qed

lemma get16_put_same [simp]: "i + 2 \<le> length d \<Longrightarrow> get16 (put16 d i w) i = w"
  using word_of_bytes16[of w] by (simp add: get16_def put_nth bytes16_def)

end
