(* ===== verification/Bio.thy ===== *)
theory Bio
  imports Sleeplock Bytes
begin

text \<open>
  The buffer cache, \<^verbatim>\<open>kernel/bio.c\<close>. Buffers are named by their index in the table, and \<open>NBUF\<close> names the list head; the list
  of all buffers, most recently used first, is threaded through the \<^verbatim>\<open>next\<close> and \<^verbatim>\<open>prev\<close> fields.

  The disk is a map from block numbers to blocks of \<^verbatim>\<open>BSIZE\<close> bytes. \<open>disk_rw\<close> is what a call of the driver has done when it
  returns (the driver itself is in theory \<open>Virtio\<close>). The field \<open>dtrace\<close> keeps the earlier contents of the disk, newest first: the
  states in which a power failure can leave it.
\<close>

record buf =
  bvalid :: bool
  bdev :: uint32
  bblockno :: uint32
  brefcnt :: uint32
  bprev :: nat
  bnext :: nat
  bdata :: "uchar list"

type_synonym disk = "uint32 \<Rightarrow> uchar list"

record bio_state = sleep_state +
  bufs :: "nat \<Rightarrow> buf"
  disk :: disk
  dtrace :: "disk list"

definition NBUF :: nat where
  "NBUF = 30"

definition BSIZE :: nat where
  "BSIZE = 1024"

abbreviation upd_buf :: "nat \<Rightarrow> (buf \<Rightarrow> buf) \<Rightarrow> 'z bio_state_scheme \<Rightarrow> 'z bio_state_scheme" where
  "upd_buf b f s \<equiv> s\<lparr>bufs := (bufs s)(b := f (bufs s b))\<rparr>"

definition set_next :: "nat \<Rightarrow> nat \<Rightarrow> (nat \<Rightarrow> buf) \<Rightarrow> nat \<Rightarrow> buf" where
  "set_next b x bs = bs(b := (bs b)\<lparr>bnext := x\<rparr>)"

definition set_prev :: "nat \<Rightarrow> nat \<Rightarrow> (nat \<Rightarrow> buf) \<Rightarrow> nat \<Rightarrow> buf" where
  "set_prev b x bs = bs(b := (bs b)\<lparr>bprev := x\<rparr>)"

text \<open>The four assignments that put a buffer at the front of the list.\<close>

definition push_front :: "nat \<Rightarrow> (nat \<Rightarrow> buf) \<Rightarrow> nat \<Rightarrow> buf" where
  "push_front b bs =
     (let bs1 = set_next b (bnext (bs NBUF)) bs;
          bs2 = set_prev b NBUF bs1;
          bs3 = set_prev (bnext (bs2 NBUF)) b bs2
      in set_next NBUF b bs3)"

fun binit_from :: "nat list \<Rightarrow> ('z bio_state_scheme, unit) kern" where
  "binit_from [] = ret ()"
| "binit_from (b # bs) = seqs [
     initsleeplock (SBuf b),
     modify (\<lambda>s. s\<lparr>bufs := push_front b (bufs s)\<rparr>),
     binit_from bs]"

definition binit :: "('z bio_state_scheme, unit) kern" where
  "binit = seqs [
     on_core (\<lambda>c. Ok (initlock LBcache c)),
     modify (\<lambda>s. s\<lparr>bufs := set_next NBUF NBUF (set_prev NBUF NBUF (bufs s))\<rparr>),
     binit_from [0..<NBUF]]"

text \<open>
  The two loops of \<^verbatim>\<open>bget\<close> over the list. There are \<open>NBUF + 1\<close> nodes: a walk that has not come to the head after
  that many steps is in a cycle without the head, and never ends.
\<close>

datatype scan = Found nat | Absent | Endless

fun bget_cached :: "nat \<Rightarrow> uint32 \<Rightarrow> uint32 \<Rightarrow> (nat \<Rightarrow> buf) \<Rightarrow> nat \<Rightarrow> scan" where
  "bget_cached 0 dev blockno bs b = Endless"
| "bget_cached (Suc n) dev blockno bs b =
     (if b = NBUF then Absent
      else if bdev (bs b) = dev \<and> bblockno (bs b) = blockno then Found b
      else bget_cached n dev blockno bs (bnext (bs b)))"

fun bget_unused :: "nat \<Rightarrow> (nat \<Rightarrow> buf) \<Rightarrow> nat \<Rightarrow> scan" where
  "bget_unused 0 bs b = Endless"
| "bget_unused (Suc n) bs b =
     (if b = NBUF then Absent
      else if brefcnt (bs b) = 0 then Found b
      else bget_unused n bs (bprev (bs b)))"

definition bget :: "uint32 \<Rightarrow> uint32 \<Rightarrow> ('z bio_state_scheme, nat) kern" where
  "bget dev blockno =
     thn (acq LBcache)
     (bnd (gets (\<lambda>s. bget_cached (NBUF + 1) dev blockno (bufs s) (bnext (bufs s NBUF)))) (\<lambda>r.
       case r of
         Endless \<Rightarrow> blocks
       | Found b \<Rightarrow>
           thn (modify (upd_buf b (\<lambda>k. k\<lparr>brefcnt := brefcnt k + 1\<rparr>)))
           (thn (rel LBcache)
           (thn (acquiresleep (SBuf b)) (ret b)))
       | Absent \<Rightarrow>
           bnd (gets (\<lambda>s. bget_unused (NBUF + 1) (bufs s) (bprev (bufs s NBUF)))) (\<lambda>r.
             case r of
               Endless \<Rightarrow> blocks
             | Absent \<Rightarrow> panic ''bget: no buffers''
             | Found b \<Rightarrow>
                 thn (modify (upd_buf b (\<lambda>k. k\<lparr>bdev := dev, bblockno := blockno, bvalid := False, brefcnt := 1\<rparr>)))
                 (thn (rel LBcache)
                 (thn (acquiresleep (SBuf b)) (ret b))))))"

text \<open>What \<^verbatim>\<open>virtio_disk_rw\<close> has done when it returns.\<close>

definition disk_rw :: "nat \<Rightarrow> bool \<Rightarrow> ('z bio_state_scheme, unit) kern" where
  "disk_rw b write = modify (\<lambda>s.
     if write then s\<lparr>disk := (disk s)(bblockno (bufs s b) := bdata (bufs s b)), dtrace := disk s # dtrace s\<rparr>
     else upd_buf b (\<lambda>k. k\<lparr>bdata := disk s (bblockno k)\<rparr>) s)"

definition bread :: "uint32 \<Rightarrow> uint32 \<Rightarrow> ('z bio_state_scheme, nat) kern" where
  "bread dev blockno =
     bnd (bget dev blockno) (\<lambda>b.
     bnd (gets (\<lambda>s. bvalid (bufs s b))) (\<lambda>v.
     thn (whenb (\<not> v) (seqs [disk_rw b False, modify (upd_buf b (\<lambda>k. k\<lparr>bvalid := True\<rparr>))]))
     (ret b)))"

definition bwrite :: "nat \<Rightarrow> ('z bio_state_scheme, unit) kern" where
  "bwrite b = bnd (holdingsleep (SBuf b)) (\<lambda>h. if \<not> h then panic ''bwrite'' else disk_rw b True)"

definition unlink_buf :: "nat \<Rightarrow> (nat \<Rightarrow> buf) \<Rightarrow> nat \<Rightarrow> buf" where
  "unlink_buf b bs =
     (let bs1 = set_prev (bnext (bs b)) (bprev (bs b)) bs
      in set_next (bprev (bs1 b)) (bnext (bs1 b)) bs1)"

definition brelse :: "nat \<Rightarrow> ('z bio_state_scheme, unit) kern" where
  "brelse b =
     bnd (holdingsleep (SBuf b)) (\<lambda>h.
       if \<not> h then panic ''brelse''
       else seqs [
         releasesleep (SBuf b),
         acq LBcache,
         modify (upd_buf b (\<lambda>k. k\<lparr>brefcnt := brefcnt k - 1\<rparr>)),
         bnd (gets (\<lambda>s. brefcnt (bufs s b))) (\<lambda>r.
           whenb (r = 0) (modify (\<lambda>s. s\<lparr>bufs := push_front b (unlink_buf b (bufs s))\<rparr>))),
         rel LBcache])"

definition bpin :: "nat \<Rightarrow> ('z bio_state_scheme, unit) kern" where
  "bpin b = seqs [acq LBcache, modify (upd_buf b (\<lambda>k. k\<lparr>brefcnt := brefcnt k + 1\<rparr>)), rel LBcache]"

definition bunpin :: "nat \<Rightarrow> ('z bio_state_scheme, unit) kern" where
  "bunpin b = seqs [acq LBcache, modify (upd_buf b (\<lambda>k. k\<lparr>brefcnt := brefcnt k - 1\<rparr>)), rel LBcache]"

text \<open>Access to the data of a buffer that is held.\<close>

abbreviation get_data :: "nat \<Rightarrow> ('z bio_state_scheme, uchar list) kern" where
  "get_data b \<equiv> gets (\<lambda>s. bdata (bufs s b))"

abbreviation upd_data :: "nat \<Rightarrow> (uchar list \<Rightarrow> uchar list) \<Rightarrow> ('z bio_state_scheme, unit) kern" where
  "upd_data b f \<equiv> modify (upd_buf b (\<lambda>k. k\<lparr>bdata := f (bdata k)\<rparr>))"

end
