(* ===== verification/Log.thy ===== *)
theory Log
  imports Bio
begin

text \<open>
  The write-ahead log of the file system, \<^verbatim>\<open>kernel/log.c\<close>: the transaction header in memory and on disk, commit,
  installation and recovery.
\<close>

record logheader =
  lhn :: int
  lhblock :: "nat \<Rightarrow> uint32"

record log =
  lstart :: uint32
  lsize :: int
  outstanding :: int
  committing :: bool
  ldev :: uint32
  lh :: logheader

record log_state = bio_state +
  log :: log

definition MAXOPBLOCKS :: int where
  "MAXOPBLOCKS = 10"

definition LOGSIZE :: int where
  "LOGSIZE = MAXOPBLOCKS * 3"

record superblock =
  sb_magic :: uint32
  sb_size :: uint32
  sb_nblocks :: uint32
  sb_ninodes :: uint32
  sb_nlog :: uint32
  sb_logstart :: uint32
  sb_inodestart :: uint32
  sb_bmapstart :: uint32

abbreviation upd_log :: "(log \<Rightarrow> log) \<Rightarrow> ('z log_state_scheme, unit) kern" where
  "upd_log f \<equiv> modify (\<lambda>s. s\<lparr>log := f (log s)\<rparr>)"

abbreviation log_block :: "'z log_state_scheme \<Rightarrow> nat \<Rightarrow> uint32" where
  "log_block s tail \<equiv> lstart (log s) + of_nat tail + 1"

text \<open>Copy committed blocks from the log to their home locations.\<close>

fun install_trans_from :: "bool \<Rightarrow> nat list \<Rightarrow> ('z log_state_scheme, unit) kern" where
  "install_trans_from recovering [] = ret ()"
| "install_trans_from recovering (tail # ts) =
     bnd (gets log) (\<lambda>l.
     bnd (bread (ldev l) (lstart l + of_nat tail + 1)) (\<lambda>lbuf.
     bnd (bread (ldev l) (lhblock (lh l) tail)) (\<lambda>dbuf.
     bnd (get_data lbuf) (\<lambda>d.
     seqs [
       upd_data dbuf (\<lambda>_. d),
       bwrite dbuf,
       whenb (\<not> recovering) (bunpin dbuf),
       brelse lbuf,
       brelse dbuf,
       install_trans_from recovering ts]))))"

definition install_trans :: "bool \<Rightarrow> ('z log_state_scheme, unit) kern" where
  "install_trans recovering = bnd (gets (\<lambda>s. lhn (lh (log s)))) (\<lambda>n. install_trans_from recovering [0..<nat n])"

text \<open>The header block: the count, then the block numbers. A count above \<^verbatim>\<open>LOGSIZE\<close> would run over the array in memory.\<close>

definition header_of :: "uchar list \<Rightarrow> logheader \<Rightarrow> logheader" where
  "header_of d h =
     (let n = sint (get32 d 0)
      in \<lparr>lhn = n, lhblock = \<lambda>i. if int i < n then get32 d (4 + 4 * i) else lhblock h i\<rparr>)"

definition read_head :: "('z log_state_scheme, unit) kern" where
  "read_head =
     bnd (gets log) (\<lambda>l.
     bnd (bread (ldev l) (lstart l)) (\<lambda>b.
     bnd (get_data b) (\<lambda>d.
       if sint (get32 d 0) > LOGSIZE then undef ''log.lh.block''
       else seqs [upd_log (\<lambda>l. l\<lparr>lh := header_of d (lh l)\<rparr>), brelse b])))"

fun put_blocks :: "uchar list \<Rightarrow> (nat \<Rightarrow> uint32) \<Rightarrow> nat list \<Rightarrow> uchar list" where
  "put_blocks d f [] = d"
| "put_blocks d f (i # is) = put_blocks (put32 d (4 + 4 * i) (f i)) f is"

definition header_bytes :: "logheader \<Rightarrow> uchar list \<Rightarrow> uchar list" where
  "header_bytes h d = put_blocks (put32 d 0 (word_of_int (lhn h))) (lhblock h) [0..<nat (lhn h)]"

definition write_head :: "('z log_state_scheme, unit) kern" where
  "write_head =
     bnd (gets log) (\<lambda>l.
     bnd (bread (ldev l) (lstart l)) (\<lambda>b.
     seqs [upd_data b (header_bytes (lh l)), bwrite b, brelse b]))"

definition clear_log :: "('z log_state_scheme, unit) kern" where
  "clear_log = upd_log (\<lambda>l. l\<lparr>lh := (lh l)\<lparr>lhn := 0\<rparr>\<rparr>)"

definition recover_from_log :: "('z log_state_scheme, unit) kern" where
  "recover_from_log = seqs [read_head, install_trans True, clear_log, write_head]"

definition initlog :: "uint32 \<Rightarrow> superblock \<Rightarrow> ('z log_state_scheme, unit) kern" where
  "initlog dev sb =
     (if 4 + 4 * nat LOGSIZE \<ge> BSIZE then panic ''initlog: too big logheader''
      else seqs [
        on_core (\<lambda>c. Ok (initlock LLog c)),
        upd_log (\<lambda>l. l\<lparr>lstart := sb_logstart sb, lsize := sint (sb_nlog sb), ldev := dev\<rparr>),
        recover_from_log])"

text \<open>Both waits are sleeps; the call is then \<open>Wait\<close>.\<close>

definition begin_op :: "('z log_state_scheme, unit) kern" where
  "begin_op =
     thn (acq LLog)
     (bnd (gets log) (\<lambda>l.
       if committing l then blocks
       else if lhn (lh l) + (outstanding l + 1) * MAXOPBLOCKS > LOGSIZE then blocks
       else seqs [upd_log (\<lambda>l. l\<lparr>outstanding := outstanding l + 1\<rparr>), rel LLog]))"

text \<open>Copy modified blocks from the cache to the log.\<close>

fun write_log_from :: "nat list \<Rightarrow> ('z log_state_scheme, unit) kern" where
  "write_log_from [] = ret ()"
| "write_log_from (tail # ts) =
     bnd (gets log) (\<lambda>l.
     bnd (bread (ldev l) (lstart l + of_nat tail + 1)) (\<lambda>to.
     bnd (bread (ldev l) (lhblock (lh l) tail)) (\<lambda>from.
     bnd (get_data from) (\<lambda>d.
     seqs [
       upd_data to (\<lambda>_. d),
       bwrite to,
       brelse from,
       brelse to,
       write_log_from ts]))))"

definition write_log :: "('z log_state_scheme, unit) kern" where
  "write_log = bnd (gets (\<lambda>s. lhn (lh (log s)))) (\<lambda>n. write_log_from [0..<nat n])"

definition commit :: "('z log_state_scheme, unit) kern" where
  "commit =
     bnd (gets (\<lambda>s. lhn (lh (log s)))) (\<lambda>n.
       whenb (n > 0) (seqs [write_log, write_head, install_trans False, clear_log, write_head]))"

definition end_op :: "('z log_state_scheme, unit) kern" where
  "end_op =
     seqs [
       acq LLog,
       upd_log (\<lambda>l. l\<lparr>outstanding := outstanding l - 1\<rparr>),
       bnd (gets log) (\<lambda>l.
         if committing l then panic ''log.committing''
         else if outstanding l = 0 then
           seqs [
             upd_log (\<lambda>l. l\<lparr>committing := True\<rparr>),
             rel LLog,
             commit,
             acq LLog,
             upd_log (\<lambda>l. l\<lparr>committing := False\<rparr>),
             wakeup ChLog,
             rel LLog]
         else seqs [wakeup ChLog, rel LLog])]"

text \<open>The position of a block in the header, or the first free one.\<close>

fun log_slot :: "(nat \<Rightarrow> uint32) \<Rightarrow> uint32 \<Rightarrow> nat \<Rightarrow> nat \<Rightarrow> nat" where
  "log_slot f blockno i 0 = i"
| "log_slot f blockno i (Suc n) = (if f i = blockno then i else log_slot f blockno (i + 1) n)"

definition log_write :: "nat \<Rightarrow> ('z log_state_scheme, unit) kern" where
  "log_write b =
     thn (acq LLog)
     (bnd (gets log) (\<lambda>l.
      bnd (gets (\<lambda>s. bblockno (bufs s b))) (\<lambda>blockno.
       if lhn (lh l) \<ge> LOGSIZE \<or> lhn (lh l) \<ge> lsize l - 1 then panic ''too big a transaction''
       else if outstanding l < 1 then panic ''log_write outside of trans''
       else
         let i = log_slot (lhblock (lh l)) blockno 0 (nat (lhn (lh l))) in
         seqs [
           upd_log (\<lambda>l. l\<lparr>lh := (lh l)\<lparr>lhblock := (lhblock (lh l))(i := blockno)\<rparr>\<rparr>),
           whenb (int i = lhn (lh l)) (seqs [
             bpin b,
             upd_log (\<lambda>l. l\<lparr>lh := (lh l)\<lparr>lhn := lhn (lh l) + 1\<rparr>\<rparr>)]),
           rel LLog])))"

end
