(* ===== verification/Fs.thy ===== *)
theory Fs
  imports Log
begin

text \<open>
  The file system below system calls, \<^verbatim>\<open>kernel/fs.c\<close>: blocks, inodes, their contents, directories and path names.
  In-memory inodes are named by their index in the inode table. On-disk structures are read from and written to the
  bytes of a block at the offsets that the C declarations give them. Diagnostic output is left out.

  \<open>readi\<close> gives, besides its result, the bytes it has copied: what a kernel destination then holds.
  A path or a name is the list of bytes before its terminating zero.
\<close>

section \<open>Constants and on-disk structures\<close>

definition ROOTINO :: uint32 where "ROOTINO = 1"
definition ROOTDEV :: uint32 where "ROOTDEV = 1"
definition FSMAGIC :: uint32 where "FSMAGIC = 0x10203040"
definition NDIRECT :: nat where "NDIRECT = 12"
definition NINDIRECT :: nat where "NINDIRECT = BSIZE div 4"
definition MAXFILE :: nat where "MAXFILE = NDIRECT + NINDIRECT"
definition NINODE :: nat where "NINODE = 50"
definition DIRSIZ :: nat where "DIRSIZ = 14"
definition IPB :: nat where "IPB = BSIZE div 64"
definition BPB :: nat where "BPB = BSIZE * 8"

abbreviation (input) T_DIR :: ushort where "T_DIR \<equiv> 1"
abbreviation (input) T_FILE :: ushort where "T_FILE \<equiv> 2"
abbreviation (input) T_DEVICE :: ushort where "T_DEVICE \<equiv> 3"

definition IBLOCK :: "uint32 \<Rightarrow> superblock \<Rightarrow> uint32" where
  "IBLOCK i sb = i div of_nat IPB + sb_inodestart sb"

definition BBLOCK :: "uint32 \<Rightarrow> superblock \<Rightarrow> uint32" where
  "BBLOCK b sb = b div of_nat BPB + sb_bmapstart sb"

record inode =
  idev :: uint32
  inum :: uint32
  iref :: int
  ivalid :: bool
  itype :: ushort
  imajor :: ushort
  iminor :: ushort
  nlink :: ushort
  isize :: uint32
  addrs :: "uint32 list"

record dinode =
  di_type :: ushort
  di_major :: ushort
  di_minor :: ushort
  di_nlink :: ushort
  di_size :: uint32
  di_addrs :: "uint32 list"

definition get_dinode :: "uchar list \<Rightarrow> nat \<Rightarrow> dinode" where
  "get_dinode d a =
     \<lparr>di_type = get16 d a, di_major = get16 d (a + 2), di_minor = get16 d (a + 4), di_nlink = get16 d (a + 6),
      di_size = get32 d (a + 8), di_addrs = map (\<lambda>i. get32 d (a + 12 + 4 * i)) [0..<NDIRECT + 1]\<rparr>"

definition dinode_bytes :: "dinode \<Rightarrow> uchar list" where
  "dinode_bytes i = bytes16 (di_type i) @ bytes16 (di_major i) @ bytes16 (di_minor i) @ bytes16 (di_nlink i) @
     bytes32 (di_size i) @ concat (map bytes32 (di_addrs i))"

text \<open>\<^verbatim>\<open>(struct dinode*)bp->data + inum%IPB\<close>\<close>

definition dinode_off :: "uint32 \<Rightarrow> nat" where
  "dinode_off i = 64 * (unat i mod IPB)"

definition sb_of :: "uchar list \<Rightarrow> superblock" where
  "sb_of d = \<lparr>sb_magic = get32 d 0, sb_size = get32 d 4, sb_nblocks = get32 d 8, sb_ninodes = get32 d 12,
     sb_nlog = get32 d 16, sb_logstart = get32 d 20, sb_inodestart = get32 d 24, sb_bmapstart = get32 d 28\<rparr>"

record fs_state = log_state +
  sb :: superblock
  inodes :: "nat \<Rightarrow> inode"

abbreviation upd_inode :: "nat \<Rightarrow> (inode \<Rightarrow> inode) \<Rightarrow> ('z fs_state_scheme, unit) kern" where
  "upd_inode ip f \<equiv> modify (\<lambda>s. s\<lparr>inodes := (inodes s)(ip := f (inodes s ip))\<rparr>)"

abbreviation inode_at :: "nat \<Rightarrow> ('z fs_state_scheme, inode) kern" where
  "inode_at ip \<equiv> gets (\<lambda>s. inodes s ip)"

section \<open>Super block and blocks\<close>

definition readsb :: "uint32 \<Rightarrow> ('z fs_state_scheme, unit) kern" where
  "readsb dev =
     bnd (bread dev 1) (\<lambda>b.
     bnd (get_data b) (\<lambda>d.
     seqs [modify (\<lambda>s. s\<lparr>sb := sb_of d\<rparr>), brelse b]))"

definition fsinit :: "uint32 \<Rightarrow> ('z fs_state_scheme, unit) kern" where
  "fsinit dev =
     thn (readsb dev)
     (bnd (gets sb) (\<lambda>b.
       if sb_magic b \<noteq> FSMAGIC then panic ''invalid file system'' else initlog dev b))"

definition bzero :: "uint32 \<Rightarrow> uint32 \<Rightarrow> ('z fs_state_scheme, unit) kern" where
  "bzero dev bno =
     bnd (bread dev bno) (\<lambda>bp.
     seqs [upd_data bp (\<lambda>_. replicate BSIZE 0), log_write bp, brelse bp])"

text \<open>The bit of the free map that stands for block number \<open>bi\<close> of a map block.\<close>

definition map_bit :: "uchar list \<Rightarrow> nat \<Rightarrow> bool" where
  "map_bit d bi \<longleftrightarrow> d ! (bi div 8) AND push_bit (bi mod 8) 1 \<noteq> 0"

definition set_map_bit :: "uchar list \<Rightarrow> nat \<Rightarrow> uchar list" where
  "set_map_bit d bi = d[bi div 8 := d ! (bi div 8) OR push_bit (bi mod 8) 1]"

definition clear_map_bit :: "uchar list \<Rightarrow> nat \<Rightarrow> uchar list" where
  "clear_map_bit d bi = d[bi div 8 := d ! (bi div 8) AND NOT (push_bit (bi mod 8) 1)]"

text \<open>The inner loop of \<^verbatim>\<open>balloc\<close>: the first clear bit below \<^verbatim>\<open>BPB\<close> and the size of the file system.\<close>

definition free_bit :: "uchar list \<Rightarrow> nat \<Rightarrow> nat \<Rightarrow> nat option" where
  "free_bit d b nbl = List.find (\<lambda>bi. \<not> map_bit d bi) [0..<min BPB (nbl - b)]"

lemma below_2_32: "b < unat (x :: uint32) \<Longrightarrow> b < 4294967296"
  using unsigned_less[of x, where 'a = nat] by simp

text \<open>The outer loop, over the blocks \<open>b\<close> of the free map, \<open>b = 0, BPB, 2 * BPB, ...\<close>.\<close>

function balloc_loop :: "uint32 \<Rightarrow> nat \<Rightarrow> ('z fs_state_scheme, uint32) kern" where
  "balloc_loop dev b s =
     (if b < unat (sb_size (sb s)) then
        bnd (bread dev (BBLOCK (of_nat b) (sb s))) (\<lambda>bp.
        bnd (gets (\<lambda>s. free_bit (bdata (bufs s bp)) b (unat (sb_size (sb s))))) (\<lambda>r.
          case r of
            Some bi \<Rightarrow>
              thn (seqs [
                upd_data bp (\<lambda>d. set_map_bit d bi),
                log_write bp,
                brelse bp,
                bzero dev (of_nat (b + bi))])
              (ret (of_nat (b + bi)))
          | None \<Rightarrow> thn (brelse bp) (balloc_loop dev (b + BPB)))) s
      else Ok (0, s))"
  by pat_completeness auto
termination
  by (relation "measure (\<lambda>(dev, b, s). 2 ^ 32 - b)") (auto simp: BPB_def BSIZE_def dest!: below_2_32)

declare balloc_loop.simps [simp del]

definition balloc :: "uint32 \<Rightarrow> ('z fs_state_scheme, uint32) kern" where
  "balloc dev = balloc_loop dev 0"

definition bfree :: "uint32 \<Rightarrow> uint32 \<Rightarrow> ('z fs_state_scheme, unit) kern" where
  "bfree dev b =
     bnd (gets sb) (\<lambda>z.
     bnd (bread dev (BBLOCK b z)) (\<lambda>bp.
     bnd (get_data bp) (\<lambda>d.
       let bi = unat b mod BPB in
       if \<not> map_bit d bi then panic ''freeing free block''
       else seqs [upd_data bp (\<lambda>d. clear_map_bit d bi), log_write bp, brelse bp])))"

section \<open>Inodes\<close>

fun iinit_from :: "nat list \<Rightarrow> ('z fs_state_scheme, unit) kern" where
  "iinit_from [] = ret ()"
| "iinit_from (i # is) = seqs [initsleeplock (SInode i), iinit_from is]"

definition iinit :: "('z fs_state_scheme, unit) kern" where
  "iinit = seqs [on_core (\<lambda>c. Ok (initlock LItable c)), iinit_from [0..<NINODE]]"

text \<open>The scan of the inode table: the entry of the inode, or the first empty entry.\<close>

fun iget_scan :: "(nat \<Rightarrow> inode) \<Rightarrow> uint32 \<Rightarrow> uint32 \<Rightarrow> nat option \<Rightarrow> nat list \<Rightarrow> nat + nat option" where
  "iget_scan is dev i unused [] = Inr unused"
| "iget_scan is dev i unused (ip # ips) =
     (if iref (is ip) > 0 \<and> idev (is ip) = dev \<and> inum (is ip) = i then Inl ip
      else iget_scan is dev i (if unused = None \<and> iref (is ip) = 0 then Some ip else unused) ips)"

definition iget :: "uint32 \<Rightarrow> uint32 \<Rightarrow> ('z fs_state_scheme, nat) kern" where
  "iget dev i =
     thn (acq LItable)
     (bnd (gets (\<lambda>s. iget_scan (inodes s) dev i None [0..<NINODE])) (\<lambda>r.
       case r of
         Inl ip \<Rightarrow> thn (upd_inode ip (\<lambda>k. k\<lparr>iref := iref k + 1\<rparr>)) (thn (rel LItable) (ret ip))
       | Inr None \<Rightarrow> panic ''iget: no inodes''
       | Inr (Some ip) \<Rightarrow>
           thn (upd_inode ip (\<lambda>k. k\<lparr>idev := dev, inum := i, iref := 1, ivalid := False\<rparr>))
           (thn (rel LItable) (ret ip))))"

text \<open>The loop of \<^verbatim>\<open>ialloc\<close> over the inode numbers.\<close>

function ialloc_loop :: "uint32 \<Rightarrow> ushort \<Rightarrow> nat \<Rightarrow> ('z fs_state_scheme, nat option) kern" where
  "ialloc_loop dev type i s =
     (if i < unat (sb_ninodes (sb s)) then
        bnd (bread dev (IBLOCK (of_nat i) (sb s))) (\<lambda>bp.
        bnd (get_data bp) (\<lambda>d.
          let a = dinode_off (of_nat i) in
          if di_type (get_dinode d a) = 0 then
            thn (seqs [
              upd_data bp (\<lambda>d. put16 (put d a (replicate 64 0)) a type),
              log_write bp,
              brelse bp])
            (bnd (iget dev (of_nat i)) (\<lambda>ip. ret (Some ip)))
          else thn (brelse bp) (ialloc_loop dev type (i + 1)))) s
      else Ok (None, s))"
  by pat_completeness auto
termination
  by (relation "measure (\<lambda>(dev, type, i, s). 2 ^ 32 - i)") (auto dest!: below_2_32)

declare ialloc_loop.simps [simp del]

definition ialloc :: "uint32 \<Rightarrow> ushort \<Rightarrow> ('z fs_state_scheme, nat option) kern" where
  "ialloc dev type = ialloc_loop dev type 1"

definition dinode_of :: "inode \<Rightarrow> dinode" where
  "dinode_of k = \<lparr>di_type = itype k, di_major = imajor k, di_minor = iminor k, di_nlink = nlink k,
     di_size = isize k, di_addrs = addrs k\<rparr>"

definition iupdate :: "nat \<Rightarrow> ('z fs_state_scheme, unit) kern" where
  "iupdate ip =
     bnd (inode_at ip) (\<lambda>k.
     bnd (gets sb) (\<lambda>z.
     bnd (bread (idev k) (IBLOCK (inum k) z)) (\<lambda>bp.
     seqs [
       upd_data bp (\<lambda>d. put d (dinode_off (inum k)) (dinode_bytes (dinode_of k))),
       log_write bp,
       brelse bp])))"

definition idup :: "nat \<Rightarrow> ('z fs_state_scheme, nat) kern" where
  "idup ip = thn (seqs [acq LItable, upd_inode ip (\<lambda>k. k\<lparr>iref := iref k + 1\<rparr>), rel LItable]) (ret ip)"

definition load_inode :: "dinode \<Rightarrow> inode \<Rightarrow> inode" where
  "load_inode d k = k\<lparr>itype := di_type d, imajor := di_major d, iminor := di_minor d, nlink := di_nlink d,
     isize := di_size d, addrs := di_addrs d\<rparr>"

definition ilock :: "nat \<Rightarrow> ('z fs_state_scheme, unit) kern" where
  "ilock ip =
     bnd (inode_at ip) (\<lambda>k.
       if iref k < 1 then panic ''ilock''
       else
         thn (acquiresleep (SInode ip))
         (bnd (inode_at ip) (\<lambda>k.
           if ivalid k then ret ()
           else
             bnd (gets sb) (\<lambda>z.
             bnd (bread (idev k) (IBLOCK (inum k) z)) (\<lambda>bp.
             bnd (get_data bp) (\<lambda>d.
             seqs [
               upd_inode ip (load_inode (get_dinode d (dinode_off (inum k)))),
               brelse bp,
               upd_inode ip (\<lambda>k. k\<lparr>ivalid := True\<rparr>),
               bnd (inode_at ip) (\<lambda>k. if itype k = 0 then panic ''ilock: no type'' else ret ())]))))))"

definition iunlock :: "nat \<Rightarrow> ('z fs_state_scheme, unit) kern" where
  "iunlock ip =
     bnd (holdingsleep (SInode ip)) (\<lambda>h.
     bnd (inode_at ip) (\<lambda>k.
       if \<not> h \<or> iref k < 1 then panic ''iunlock'' else releasesleep (SInode ip)))"

text \<open>The two loops of \<^verbatim>\<open>itrunc\<close>.\<close>

fun itrunc_direct :: "nat \<Rightarrow> nat list \<Rightarrow> ('z fs_state_scheme, unit) kern" where
  "itrunc_direct ip [] = ret ()"
| "itrunc_direct ip (i # is) =
     bnd (inode_at ip) (\<lambda>k.
     thn (whenb (addrs k ! i \<noteq> 0) (seqs [
       bfree (idev k) (addrs k ! i),
       upd_inode ip (\<lambda>k. k\<lparr>addrs := (addrs k)[i := 0]\<rparr>)]))
     (itrunc_direct ip is))"

fun itrunc_indirect :: "uint32 \<Rightarrow> nat \<Rightarrow> nat list \<Rightarrow> ('z fs_state_scheme, unit) kern" where
  "itrunc_indirect dev bp [] = ret ()"
| "itrunc_indirect dev bp (j # js) =
     bnd (get_data bp) (\<lambda>d.
     thn (whenb (get32 d (4 * j) \<noteq> 0) (bfree dev (get32 d (4 * j))))
     (itrunc_indirect dev bp js))"

definition itrunc :: "nat \<Rightarrow> ('z fs_state_scheme, unit) kern" where
  "itrunc ip = seqs [
     itrunc_direct ip [0..<NDIRECT],
     bnd (inode_at ip) (\<lambda>k.
       whenb (addrs k ! NDIRECT \<noteq> 0) (
         bnd (bread (idev k) (addrs k ! NDIRECT)) (\<lambda>bp.
         seqs [
           itrunc_indirect (idev k) bp [0..<NINDIRECT],
           brelse bp,
           bfree (idev k) (addrs k ! NDIRECT),
           upd_inode ip (\<lambda>k. k\<lparr>addrs := (addrs k)[NDIRECT := 0]\<rparr>)]))),
     upd_inode ip (\<lambda>k. k\<lparr>isize := 0\<rparr>),
     iupdate ip]"

definition iput :: "nat \<Rightarrow> ('z fs_state_scheme, unit) kern" where
  "iput ip = seqs [
     acq LItable,
     bnd (inode_at ip) (\<lambda>k.
       whenb (iref k = 1 \<and> ivalid k \<and> nlink k = 0) (seqs [
         acquiresleep (SInode ip),
         rel LItable,
         itrunc ip,
         upd_inode ip (\<lambda>k. k\<lparr>itype := 0\<rparr>),
         iupdate ip,
         upd_inode ip (\<lambda>k. k\<lparr>ivalid := False\<rparr>),
         releasesleep (SInode ip),
         acq LItable])),
     upd_inode ip (\<lambda>k. k\<lparr>iref := iref k - 1\<rparr>),
     rel LItable]"

definition iunlockput :: "nat \<Rightarrow> ('z fs_state_scheme, unit) kern" where
  "iunlockput ip = seqs [iunlock ip, iput ip]"

section \<open>Contents\<close>

text \<open>A slot of \<^verbatim>\<open>ip->addrs\<close>, filled by a new block when it is empty.\<close>

definition bmap_slot :: "nat \<Rightarrow> nat \<Rightarrow> ('z fs_state_scheme, uint32) kern" where
  "bmap_slot ip i =
     bnd (inode_at ip) (\<lambda>k.
       if addrs k ! i \<noteq> 0 then ret (addrs k ! i)
       else
         bnd (balloc (idev k)) (\<lambda>addr.
           if addr = 0 then ret 0
           else thn (upd_inode ip (\<lambda>k. k\<lparr>addrs := (addrs k)[i := addr]\<rparr>)) (ret addr)))"

definition bmap :: "nat \<Rightarrow> uint32 \<Rightarrow> ('z fs_state_scheme, uint32) kern" where
  "bmap ip bn =
     (if unat bn < NDIRECT then bmap_slot ip (unat bn)
      else
        let bn = unat bn - NDIRECT in
        if bn < NINDIRECT then
          bnd (bmap_slot ip NDIRECT) (\<lambda>addr.
            if addr = 0 then ret 0
            else
              bnd (inode_at ip) (\<lambda>k.
              bnd (bread (idev k) addr) (\<lambda>bp.
              bnd (get_data bp) (\<lambda>d.
              bnd (if get32 d (4 * bn) \<noteq> 0 then ret (get32 d (4 * bn))
                   else
                     bnd (balloc (idev k)) (\<lambda>a.
                     thn (whenb (a \<noteq> 0) (seqs [upd_data bp (\<lambda>d. put32 d (4 * bn) a), log_write bp]))
                     (ret a))) (\<lambda>a.
              thn (brelse bp) (ret a))))))
        else panic ''bmap: out of range'')"

record stat =
  st_dev :: uint32
  st_ino :: uint32
  st_type :: ushort
  st_nlink :: ushort
  st_size :: uint64

definition stati :: "inode \<Rightarrow> stat" where
  "stati k = \<lparr>st_dev = idev k, st_ino = inum k, st_type = itype k, st_nlink = nlink k, st_size = ucast (isize k)\<rparr>"

text \<open>The number of bytes that one turn of the loops in \<^verbatim>\<open>readi\<close> and \<^verbatim>\<open>writei\<close> moves.\<close>

definition chunk :: "uint32 \<Rightarrow> uint32 \<Rightarrow> uint32 \<Rightarrow> uint32" where
  "chunk off n tot = min (n - tot) (of_nat BSIZE - off mod of_nat BSIZE)"

lemma chunk_bounds:
  assumes "tot < n"
  shows "0 < unat (chunk off n tot)" "unat (tot + chunk off n tot) = unat tot + unat (chunk off n tot)"
    "unat tot + unat (chunk off n tot) \<le> unat n" "unat (chunk off n tot) \<le> BSIZE - unat off mod BSIZE"
proof -
  have m: "unat (of_nat BSIZE - off mod of_nat BSIZE) = BSIZE - unat off mod BSIZE"
    by (simp add: BSIZE_def unat_sub_if_size unat_mod word_le_nat_alt)
  have d: "unat (n - tot) = unat n - unat tot" using assms by (simp add: unat_sub_if_size word_less_nat_alt)
  have c: "unat (chunk off n tot) = min (unat n - unat tot) (BSIZE - unat off mod BSIZE)"
    unfolding chunk_def min_def word_le_nat_alt m d by (simp add: m d)
  show "0 < unat (chunk off n tot)" using assms by (simp add: c BSIZE_def word_less_nat_alt)
  show 1: "unat tot + unat (chunk off n tot) \<le> unat n" using assms by (simp add: c word_less_nat_alt)
  have "unat n < 2 ^ 32" using unsigned_less[of n, where 'a = nat] by simp
  then show "unat (tot + chunk off n tot) = unat tot + unat (chunk off n tot)"
    using 1 by (simp add: unat_word_ariths(1))
  show "unat (chunk off n tot) \<le> BSIZE - unat off mod BSIZE" by (simp add: c)
qed

function readi_loop ::
    "nat \<Rightarrow> copy_dst \<Rightarrow> uint32 \<Rightarrow> uint32 \<Rightarrow> uint32 \<Rightarrow> uchar list \<Rightarrow> ('z fs_state_scheme, uint32 \<times> uchar list) kern" where
  "readi_loop ip dst off n tot acc =
     (if tot < n then
        bnd (bmap ip (off div of_nat BSIZE)) (\<lambda>addr.
          if addr = 0 then ret (tot, acc)
          else
            bnd (inode_at ip) (\<lambda>k.
            bnd (bread (idev k) addr) (\<lambda>bp.
            bnd (get_data bp) (\<lambda>d.
              let m = chunk off n tot;
                  bs = slice d (unat (off mod of_nat BSIZE)) (unat m)
              in
              bnd (either_copyout dst bs) (\<lambda>r.
                if r = -1 then thn (brelse bp) (ret (-1, acc))
                else
                  thn (brelse bp)
                  (readi_loop ip (dst_advance dst (unat m)) (off + m) n (tot + m) (acc @ bs)))))))
      else ret (tot, acc))"
  by pat_completeness auto
termination
  by (relation "measure (\<lambda>(ip, dst, off, n, tot, acc). unat n - unat tot)")
    (simp_all add: chunk_bounds(2), metis chunk_bounds(1) diff_less_mono2 less_add_same_cancel1 word_less_nat_alt chunk_bounds(3)
      less_le_trans)

declare readi_loop.simps [simp del]

definition readi :: "nat \<Rightarrow> copy_dst \<Rightarrow> uint32 \<Rightarrow> uint32 \<Rightarrow> ('z fs_state_scheme, int \<times> uchar list) kern" where
  "readi ip dst off n =
     bnd (inode_at ip) (\<lambda>k.
       if off > isize k \<or> off + n < off then ret (0, [])
       else
         bnd (readi_loop ip dst off (if off + n > isize k then isize k - off else n) 0 []) (\<lambda>(tot, bs).
           ret (sint tot, bs)))"

function writei_loop ::
    "nat \<Rightarrow> copy_src \<Rightarrow> uint32 \<Rightarrow> uint32 \<Rightarrow> uint32 \<Rightarrow> ('z fs_state_scheme, uint32 \<times> uint32) kern" where
  "writei_loop ip src off n tot =
     (if tot < n then
        bnd (bmap ip (off div of_nat BSIZE)) (\<lambda>addr.
          if addr = 0 then ret (tot, off)
          else
            bnd (inode_at ip) (\<lambda>k.
            bnd (bread (idev k) addr) (\<lambda>bp.
              let m = chunk off n tot in
              bnd (either_copyin src (unat m)) (\<lambda>(r, bs).
              thn (upd_data bp (\<lambda>d. put d (unat (off mod of_nat BSIZE)) bs))
              (if r = -1 then thn (brelse bp) (ret (tot, off))
               else
                 thn (seqs [log_write bp, brelse bp])
                 (writei_loop ip (src_advance src (unat m)) (off + m) n (tot + m)))))))
      else ret (tot, off))"
  by pat_completeness auto
termination
  by (relation "measure (\<lambda>(ip, src, off, n, tot). unat n - unat tot)")
    (simp_all add: chunk_bounds(2), metis chunk_bounds(1) diff_less_mono2 less_add_same_cancel1 word_less_nat_alt chunk_bounds(3)
      less_le_trans)

declare writei_loop.simps [simp del]

definition writei :: "nat \<Rightarrow> copy_src \<Rightarrow> uint32 \<Rightarrow> uint32 \<Rightarrow> ('z fs_state_scheme, int) kern" where
  "writei ip src off n =
     bnd (inode_at ip) (\<lambda>k.
       if off > isize k \<or> off + n < off then ret (-1)
       else if off + n > of_nat (MAXFILE * BSIZE) then ret (-1)
       else
         bnd (writei_loop ip src off n 0) (\<lambda>(tot, off).
         thn (seqs [
           upd_inode ip (\<lambda>k. if off > isize k then k\<lparr>isize := off\<rparr> else k),
           iupdate ip])
         (ret (sint tot))))"

section \<open>Directories\<close>

definition namecmp :: "uchar list \<Rightarrow> uchar list \<Rightarrow> int" where
  "namecmp s t = strncmp_list (take DIRSIZ (s @ [0])) (take DIRSIZ (t @ [0]))"

definition de_inum :: "uchar list \<Rightarrow> ushort" where
  "de_inum de = get16 de 0"

definition de_name :: "uchar list \<Rightarrow> uchar list" where
  "de_name de = cstr (drop 2 de)"

definition dirent_bytes :: "ushort \<Rightarrow> uchar list \<Rightarrow> uchar list" where
  "dirent_bytes i name = bytes16 i @ strncpy_list name DIRSIZ"

text \<open>The loop of \<^verbatim>\<open>dirlookup\<close>: the inode and the offset of the entry. It reads the size of the directory in every turn.\<close>

function dirlookup_loop :: "nat \<Rightarrow> uchar list \<Rightarrow> nat \<Rightarrow> ('z fs_state_scheme, (nat \<times> uint32) option) kern" where
  "dirlookup_loop dp name off s =
     (if off < unat (isize (inodes s dp)) then
        bnd (readi dp ToKernel (of_nat off) 16) (\<lambda>(r, de).
          if r \<noteq> 16 then panic ''dirlookup read''
          else if de_inum de = 0 then dirlookup_loop dp name (off + 16)
          else if namecmp name (de_name de) = 0 then
            bnd (inode_at dp) (\<lambda>k.
            bnd (iget (idev k) (ucast (de_inum de))) (\<lambda>ip. ret (Some (ip, of_nat off))))
          else dirlookup_loop dp name (off + 16)) s
      else Ok (None, s))"
  by pat_completeness auto
termination
  by (relation "measure (\<lambda>(dp, name, off, s). 2 ^ 32 - off)") (auto dest!: below_2_32)

declare dirlookup_loop.simps [simp del]

definition dirlookup :: "nat \<Rightarrow> uchar list \<Rightarrow> ('z fs_state_scheme, (nat \<times> uint32) option) kern" where
  "dirlookup dp name =
     bnd (inode_at dp) (\<lambda>k.
       if itype k \<noteq> T_DIR then panic ''dirlookup not DIR'' else dirlookup_loop dp name 0)"

text \<open>The search for an empty entry in \<^verbatim>\<open>dirlink\<close>.\<close>

function dirlink_loop :: "nat \<Rightarrow> nat \<Rightarrow> ('z fs_state_scheme, nat) kern" where
  "dirlink_loop dp off s =
     (if off < unat (isize (inodes s dp)) then
        bnd (readi dp ToKernel (of_nat off) 16) (\<lambda>(r, de).
          if r \<noteq> 16 then panic ''dirlink read''
          else if de_inum de = 0 then ret off
          else dirlink_loop dp (off + 16)) s
      else Ok (off, s))"
  by pat_completeness auto
termination
  by (relation "measure (\<lambda>(dp, off, s). 2 ^ 32 - off)") (auto dest!: below_2_32)

declare dirlink_loop.simps [simp del]

definition dirlink :: "nat \<Rightarrow> uchar list \<Rightarrow> uint32 \<Rightarrow> ('z fs_state_scheme, int) kern" where
  "dirlink dp name i =
     bnd (dirlookup dp name) (\<lambda>r.
       case r of
         Some (ip, off) \<Rightarrow> thn (iput ip) (ret (-1))
       | None \<Rightarrow>
           bnd (dirlink_loop dp 0) (\<lambda>off.
           bnd (writei dp (FromKernel (dirent_bytes (ucast i) name)) (of_nat off) 16) (\<lambda>r.
             if r \<noteq> 16 then ret (-1) else ret 0)))"

section \<open>Paths\<close>

abbreviation slash :: uchar where
  "slash \<equiv> 47"

text \<open>The next element of a path, cut to \<^verbatim>\<open>DIRSIZ\<close> bytes, and the rest of the path.\<close>

definition skipelem :: "uchar list \<Rightarrow> (uchar list \<times> uchar list) option" where
  "skipelem path =
     (let p = dropWhile (\<lambda>c. c = slash) path in
      if p = [] then None
      else Some (dropWhile (\<lambda>c. c = slash) (dropWhile (\<lambda>c. c \<noteq> slash) p),
                 take DIRSIZ (takeWhile (\<lambda>c. c \<noteq> slash) p)))"

lemma skipelem_shorter: "skipelem path = Some (rest, name) \<Longrightarrow> length rest < length path"
proof -
  assume a: "skipelem path = Some (rest, name)"
  define p where "p = dropWhile (\<lambda>c. c = slash) path"
  have p: "p \<noteq> []" "rest = dropWhile (\<lambda>c. c = slash) (dropWhile (\<lambda>c. c \<noteq> slash) p)"
    using a by (auto simp: skipelem_def Let_def p_def split: if_splits)
  have "hd p \<noteq> slash" using p(1) hd_dropWhile[of "\<lambda>c. c = slash" path] by (auto simp: p_def)
  then have "length (dropWhile (\<lambda>c. c \<noteq> slash) p) < length p"
    using p(1) by (cases p) (auto simp: less_Suc_eq_le length_dropWhile_le)
  moreover have "length p \<le> length path" by (simp add: p_def length_dropWhile_le)
  ultimately show ?thesis using p(2) length_dropWhile_le[of "\<lambda>c. c = slash" "dropWhile (\<lambda>c. c \<noteq> slash) p"] by simp
qed

text \<open>The loop of \<^verbatim>\<open>namex\<close>, from the inode it has come to; the last element read, for \<^verbatim>\<open>nameiparent\<close>.\<close>

function namex_loop :: "nat \<Rightarrow> uchar list \<Rightarrow> bool \<Rightarrow> uchar list \<Rightarrow> ('z fs_state_scheme, (nat \<times> uchar list) option) kern" where
  "namex_loop ip path par name =
     (case skipelem path of
        None \<Rightarrow> if par then thn (iput ip) (ret None) else ret (Some (ip, name))
      | Some (rest, name) \<Rightarrow>
          thn (ilock ip)
          (bnd (inode_at ip) (\<lambda>k.
            if itype k \<noteq> T_DIR then thn (iunlockput ip) (ret None)
            else if par \<and> rest = [] then thn (iunlock ip) (ret (Some (ip, name)))
            else
              bnd (dirlookup ip name) (\<lambda>r.
                case r of
                  None \<Rightarrow> thn (iunlockput ip) (ret None)
                | Some (nxt, off) \<Rightarrow> thn (iunlockput ip) (namex_loop nxt rest par name)))))"
  by pat_completeness auto
termination
  by (relation "measure (\<lambda>(ip, path, par, name). length path)") (auto dest: skipelem_shorter)

declare namex_loop.simps [simp del]

definition namex :: "uchar list \<Rightarrow> bool \<Rightarrow> ('z fs_state_scheme, (nat \<times> uchar list) option) kern" where
  "namex path par =
     bnd (if path \<noteq> [] \<and> hd path = slash then iget ROOTDEV ROOTINO
          else
            bnd curproc (\<lambda>p.
            bnd (gets (\<lambda>s. cwd (procs s p))) (\<lambda>c.
              case c of None \<Rightarrow> undef ''myproc()->cwd'' | Some ip \<Rightarrow> idup ip))) (\<lambda>ip.
     namex_loop ip path par [])"

definition namei :: "uchar list \<Rightarrow> ('z fs_state_scheme, nat option) kern" where
  "namei path = bnd (namex path False) (\<lambda>r. ret (map_option fst r))"

definition nameiparent :: "uchar list \<Rightarrow> ('z fs_state_scheme, (nat \<times> uchar list) option) kern" where
  "nameiparent path = namex path True"

end
