(* ===== verification/File.thy ===== *)
theory File
  imports Fs
begin

text \<open>
  Open files and pipes: \<^verbatim>\<open>kernel/file.c\<close> and \<^verbatim>\<open>kernel/pipe.c\<close>. A file structure is named by its index in the file table, a
  pipe by the address of the page that holds it; \<open>pipes\<close> is the content of those pages seen as \<^verbatim>\<open>struct pipe\<close>. \<open>devsw\<close> tells which
  device numbers are connected to the routines of the console.

  Reading and writing a pipe can block halfway. \<open>pipewrite\<close> and \<open>piperead\<close> run until they return (\<open>Inr\<close>) or go to sleep (\<open>Inl\<close>, with the
  number of bytes already written); \<open>pipewrite_loop\<close> and \<open>piperead_body\<close> are also what runs when the process wakes up again, with the
  pipe's lock held.
\<close>

datatype ftype = FD_NONE | FD_PIPE | FD_INODE | FD_DEVICE

record filestruct =
  ftype :: ftype
  fref :: int
  readable :: bool
  writable :: bool
  fpipe :: uint64
  fip :: nat
  foff :: uint32
  fmajor :: ushort

record pipe =
  pdata :: "nat \<Rightarrow> uchar"
  nread :: uint32
  nwrite :: uint32
  readopen :: bool
  writeopen :: bool

record file_state = fs_state +
  ftable :: "nat \<Rightarrow> filestruct"
  pipes :: "uint64 \<Rightarrow> pipe"
  devsw :: "nat \<Rightarrow> bool"
  stack_bytes :: "uchar list"   \<comment> \<open>what the padding of a structure on the kernel stack holds\<close>

definition NFILE :: nat where "NFILE = 100"
definition NDEV :: int where "NDEV = 10"
definition PIPESIZE :: uint32 where "PIPESIZE = 512"

abbreviation upd_file :: "nat \<Rightarrow> (filestruct \<Rightarrow> filestruct) \<Rightarrow> ('z file_state_scheme, unit) kern" where
  "upd_file f g \<equiv> modify (\<lambda>s. s\<lparr>ftable := (ftable s)(f := g (ftable s f))\<rparr>)"

abbreviation upd_pipe :: "uint64 \<Rightarrow> (pipe \<Rightarrow> pipe) \<Rightarrow> ('z file_state_scheme, unit) kern" where
  "upd_pipe pi g \<equiv> modify (\<lambda>s. s\<lparr>pipes := (pipes s)(pi := g (pipes s pi))\<rparr>)"

section \<open>The file table\<close>

definition fileinit :: "('z file_state_scheme, unit) kern" where
  "fileinit = on_core (\<lambda>c. Ok (initlock LFtable c))"

definition filealloc :: "('z file_state_scheme, nat option) kern" where
  "filealloc =
     thn (acq LFtable)
     (bnd (gets (\<lambda>s. List.find (\<lambda>f. fref (ftable s f) = 0) [0..<NFILE])) (\<lambda>r.
       case r of
         Some f \<Rightarrow> thn (upd_file f (\<lambda>k. k\<lparr>fref := 1\<rparr>)) (thn (rel LFtable) (ret (Some f)))
       | None \<Rightarrow> thn (rel LFtable) (ret None)))"

definition filedup :: "nat \<Rightarrow> ('z file_state_scheme, nat) kern" where
  "filedup f =
     thn (acq LFtable)
     (bnd (gets (\<lambda>s. fref (ftable s f))) (\<lambda>r.
       if r < 1 then panic ''filedup''
       else thn (seqs [upd_file f (\<lambda>k. k\<lparr>fref := fref k + 1\<rparr>), rel LFtable]) (ret f)))"

definition pipeclose :: "uint64 \<Rightarrow> bool \<Rightarrow> ('z file_state_scheme, unit) kern" where
  "pipeclose pi wr = seqs [
     acq (LPipe pi),
     if wr then seqs [upd_pipe pi (\<lambda>k. k\<lparr>writeopen := False\<rparr>), wakeup (ChPipeR pi)]
     else seqs [upd_pipe pi (\<lambda>k. k\<lparr>readopen := False\<rparr>), wakeup (ChPipeW pi)],
     bnd (gets (\<lambda>s. \<not> readopen (pipes s pi) \<and> \<not> writeopen (pipes s pi))) (\<lambda>gone.
       if gone then seqs [rel (LPipe pi), kfree pi] else rel (LPipe pi))]"

definition fileclose :: "nat \<Rightarrow> ('z file_state_scheme, unit) kern" where
  "fileclose f =
     thn (acq LFtable)
     (bnd (gets (\<lambda>s. ftable s f)) (\<lambda>k.
       if fref k < 1 then panic ''fileclose''
       else
         thn (upd_file f (\<lambda>k. k\<lparr>fref := fref k - 1\<rparr>))
         (if fref k - 1 > 0 then rel LFtable
          else seqs [
            upd_file f (\<lambda>k. k\<lparr>fref := 0, ftype := FD_NONE\<rparr>),
            rel LFtable,
            (case ftype k of
               FD_PIPE \<Rightarrow> pipeclose (fpipe k) (writable k)
             | FD_INODE \<Rightarrow> seqs [begin_op, iput (fip k), end_op]
             | FD_DEVICE \<Rightarrow> seqs [begin_op, iput (fip k), end_op]
             | FD_NONE \<Rightarrow> ret ())])))"

text \<open>\<^verbatim>\<open>struct stat\<close> in memory; four bytes of padding lie before the size.\<close>

definition stat_bytes :: "stat \<Rightarrow> uchar list \<Rightarrow> uchar list" where
  "stat_bytes st pad = bytes32 (st_dev st) @ bytes32 (st_ino st) @ bytes16 (st_type st) @ bytes16 (st_nlink st) @
     take 4 (pad @ replicate 4 0) @ bytes64 (st_size st)"

definition filestat :: "nat \<Rightarrow> uint64 \<Rightarrow> ('z file_state_scheme, int) kern" where
  "filestat f addr =
     bnd curproc (\<lambda>p.
     bnd (gets (\<lambda>s. ftable s f)) (\<lambda>k.
       if ftype k = FD_INODE \<or> ftype k = FD_DEVICE then
         thn (ilock (fip k))
         (bnd (inode_at (fip k)) (\<lambda>i.
          thn (iunlock (fip k))
          (bnd (gets (\<lambda>s. (pagetable (procs s p), stack_bytes s))) (\<lambda>(pt, pad).
           bnd (copyout pt addr (stat_bytes (stati i) pad)) (\<lambda>r.
             if r < 0 then ret (-1) else ret 0)))))
       else ret (-1)))"

section \<open>Pipes\<close>

text \<open>The label \<^verbatim>\<open>bad\<close> of \<^verbatim>\<open>pipealloc\<close>; \<^verbatim>\<open>pi\<close> is 0 whenever the code comes there.\<close>

fun pipealloc_bad :: "nat option list \<Rightarrow> ('z file_state_scheme, (nat \<times> nat) option) kern" where
  "pipealloc_bad [] = ret None"
| "pipealloc_bad (f # fs) = thn (case f of None \<Rightarrow> ret () | Some f \<Rightarrow> fileclose f) (pipealloc_bad fs)"

definition pipealloc :: "('z file_state_scheme, (nat \<times> nat) option) kern" where
  "pipealloc =
     bnd filealloc (\<lambda>r0.
       case r0 of
         None \<Rightarrow> pipealloc_bad [None, None]
       | Some f0 \<Rightarrow>
           bnd filealloc (\<lambda>r1.
             case r1 of
               None \<Rightarrow> pipealloc_bad [Some f0, None]
             | Some f1 \<Rightarrow>
                 bnd kalloc (\<lambda>pi.
                   if pi = 0 then pipealloc_bad [Some f0, Some f1]
                   else
                     thn (seqs [
                       upd_pipe pi (\<lambda>k. k\<lparr>readopen := True, writeopen := True, nwrite := 0, nread := 0\<rparr>),
                       on_core (\<lambda>c. Ok (initlock (LPipe pi) c)),
                       upd_file f0 (\<lambda>k. k\<lparr>ftype := FD_PIPE, readable := True, writable := False, fpipe := pi\<rparr>),
                       upd_file f1 (\<lambda>k. k\<lparr>ftype := FD_PIPE, readable := False, writable := True, fpipe := pi\<rparr>)])
                     (ret (Some (f0, f1))))))"

definition pipewrite_done :: "uint64 \<Rightarrow> int \<Rightarrow> ('z file_state_scheme, int + int) kern" where
  "pipewrite_done pi i = thn (seqs [wakeup (ChPipeR pi), rel (LPipe pi)]) (ret (Inr i))"

function pipewrite_loop :: "uint64 \<Rightarrow> nat \<Rightarrow> uint64 \<Rightarrow> int \<Rightarrow> int \<Rightarrow> ('z file_state_scheme, int + int) kern" where
  "pipewrite_loop pi pr addr n i =
     (if i < n then
        bnd (gets (\<lambda>s. pipes s pi)) (\<lambda>k.
        bnd (if \<not> readopen k then ret 1 else is_killed pr) (\<lambda>stop.
          if stop \<noteq> 0 then thn (rel (LPipe pi)) (ret (Inr (-1)))
          else if nwrite k = nread k + PIPESIZE then thn (wakeup (ChPipeR pi)) (ret (Inl i))
          else
            bnd (gets (\<lambda>s. pagetable (procs s pr))) (\<lambda>pt.
            bnd (copyin pt (addr + of_int i) 1) (\<lambda>(r, cs).
              if r = -1 then pipewrite_done pi i
              else
                thn (upd_pipe pi (\<lambda>k. k\<lparr>pdata := (pdata k)(unat (nwrite k mod PIPESIZE) := hd cs), nwrite := nwrite k + 1\<rparr>))
                (pipewrite_loop pi pr addr n (i + 1))))))
      else pipewrite_done pi i)"
  by pat_completeness auto
termination by (relation "measure (\<lambda>(pi, pr, addr, n, i). nat (n - i))") auto

declare pipewrite_loop.simps [simp del]

definition pipewrite :: "uint64 \<Rightarrow> uint64 \<Rightarrow> int \<Rightarrow> ('z file_state_scheme, int + int) kern" where
  "pipewrite pi addr n =
     bnd curproc (\<lambda>pr.
     thn (acq (LPipe pi)) (pipewrite_loop pi pr addr n 0))"

function piperead_copy :: "uint64 \<Rightarrow> nat \<Rightarrow> uint64 \<Rightarrow> int \<Rightarrow> int \<Rightarrow> ('z file_state_scheme, int) kern" where
  "piperead_copy pi pr addr n i =
     (if i < n then
        bnd (gets (\<lambda>s. pipes s pi)) (\<lambda>k.
          if nread k = nwrite k then ret i
          else
            thn (upd_pipe pi (\<lambda>k. k\<lparr>nread := nread k + 1\<rparr>))
            (bnd (gets (\<lambda>s. pagetable (procs s pr))) (\<lambda>pt.
             bnd (copyout pt (addr + of_int i) [pdata k (unat (nread k mod PIPESIZE))]) (\<lambda>r.
               if r = -1 then ret i else piperead_copy pi pr addr n (i + 1)))))
      else ret i)"
  by pat_completeness auto
termination by (relation "measure (\<lambda>(pi, pr, addr, n, i). nat (n - i))") auto

declare piperead_copy.simps [simp del]

definition piperead_body :: "uint64 \<Rightarrow> nat \<Rightarrow> uint64 \<Rightarrow> int \<Rightarrow> ('z file_state_scheme, unit + int) kern" where
  "piperead_body pi pr addr n =
     bnd (gets (\<lambda>s. pipes s pi)) (\<lambda>k.
       if nread k = nwrite k \<and> writeopen k then
         bnd (is_killed pr) (\<lambda>d.
           if d \<noteq> 0 then thn (rel (LPipe pi)) (ret (Inr (-1)))
           else ret (Inl ()))
       else
         bnd (piperead_copy pi pr addr n 0) (\<lambda>i.
         thn (seqs [wakeup (ChPipeW pi), rel (LPipe pi)]) (ret (Inr i))))"

definition piperead :: "uint64 \<Rightarrow> uint64 \<Rightarrow> int \<Rightarrow> ('z file_state_scheme, unit + int) kern" where
  "piperead pi addr n =
     bnd curproc (\<lambda>pr.
     thn (acq (LPipe pi)) (piperead_body pi pr addr n))"

section \<open>Reading and writing\<close>

text \<open>A call that goes to sleep is \<open>Wait\<close> here.\<close>

definition returned :: "'a + 'b \<Rightarrow> ('s, 'b) kern" where
  "returned r = (case r of Inl _ \<Rightarrow> blocks | Inr v \<Rightarrow> ret v)"

definition fileread :: "nat \<Rightarrow> uint64 \<Rightarrow> int \<Rightarrow> ('z file_state_scheme, int) kern" where
  "fileread f addr n =
     bnd (gets (\<lambda>s. ftable s f)) (\<lambda>k.
       if \<not> readable k then ret (-1)
       else case ftype k of
         FD_PIPE \<Rightarrow> bnd (piperead (fpipe k) addr n) returned
       | FD_DEVICE \<Rightarrow>
           bnd (gets devsw) (\<lambda>dv.
             if sint (fmajor k) < 0 \<or> sint (fmajor k) \<ge> NDEV \<or> \<not> dv (unat (fmajor k)) then ret (-1)
             else bnd (bnd (consoleread (ToUser addr) n) returned) (\<lambda>(r, bs). ret r))
       | FD_INODE \<Rightarrow>
           thn (ilock (fip k))
           (bnd (readi (fip k) (ToUser addr) (foff k) (word_of_int n)) (\<lambda>(r, bs).
            thn (whenb (r > 0) (upd_file f (\<lambda>k. k\<lparr>foff := foff k + word_of_int r\<rparr>)))
            (thn (iunlock (fip k)) (ret r))))
       | FD_NONE \<Rightarrow> panic ''fileread'')"

text \<open>The loop of \<^verbatim>\<open>filewrite\<close> gives \<^verbatim>\<open>i\<close> at its end. One turn writes at most \<open>filewrite_max\<close> bytes in one transaction.\<close>

definition filewrite_max :: int where
  "filewrite_max = ((MAXOPBLOCKS - 1 - 1 - 2) div 2) * int BSIZE"

function filewrite_loop :: "nat \<Rightarrow> nat \<Rightarrow> uint64 \<Rightarrow> int \<Rightarrow> int \<Rightarrow> ('z file_state_scheme, int) kern" where
  "filewrite_loop f ip addr n i =
     (if i < n then
        let n1 = min (n - i) filewrite_max in
        thn (seqs [begin_op, ilock ip])
        (bnd (gets (\<lambda>s. foff (ftable s f))) (\<lambda>off.
         bnd (writei ip (FromUser (addr + of_int i)) off (word_of_int n1)) (\<lambda>r.
         thn (seqs [
           whenb (r > 0) (upd_file f (\<lambda>k. k\<lparr>foff := foff k + word_of_int r\<rparr>)),
           iunlock ip,
           end_op])
         (if r \<noteq> n1 then ret i else filewrite_loop f ip addr n (i + n1)))))
      else ret i)"
  by pat_completeness auto
termination
  by (relation "measure (\<lambda>(f, ip, addr, n, i). nat (n - i))")
    (auto simp: filewrite_max_def MAXOPBLOCKS_def BSIZE_def min_def)

declare filewrite_loop.simps [simp del]

definition filewrite :: "nat \<Rightarrow> uint64 \<Rightarrow> int \<Rightarrow> ('z file_state_scheme, int) kern" where
  "filewrite f addr n =
     bnd (gets (\<lambda>s. ftable s f)) (\<lambda>k.
       if \<not> writable k then ret (-1)
       else case ftype k of
         FD_PIPE \<Rightarrow> bnd (pipewrite (fpipe k) addr n) returned
       | FD_DEVICE \<Rightarrow>
           bnd (gets devsw) (\<lambda>dv.
             if sint (fmajor k) < 0 \<or> sint (fmajor k) \<ge> NDEV \<or> \<not> dv (unat (fmajor k)) then ret (-1)
             else consolewrite (FromUser addr) n)
       | FD_INODE \<Rightarrow>
           bnd (filewrite_loop f (fip k) addr n 0) (\<lambda>i. ret (if i = n then n else -1))
       | FD_NONE \<Rightarrow> panic ''filewrite'')"

end
