(* ===== verification/Exec.thy ===== *)
theory Exec
  imports File
begin

text \<open>
  Arguments of system calls (the first part of \<^verbatim>\<open>kernel/syscall.c\<close>) and program loading, \<^verbatim>\<open>kernel/exec.c\<close>. The trapframe is read and
  written in memory, at the offsets of \<^verbatim>\<open>struct trapframe\<close>.
\<close>

section \<open>System call arguments\<close>

abbreviation (input) TF_kernel_satp :: uint64 where "TF_kernel_satp \<equiv> 0"
abbreviation (input) TF_kernel_sp :: uint64 where "TF_kernel_sp \<equiv> 8"
abbreviation (input) TF_kernel_trap :: uint64 where "TF_kernel_trap \<equiv> 16"
abbreviation (input) TF_epc :: uint64 where "TF_epc \<equiv> 24"
abbreviation (input) TF_kernel_hartid :: uint64 where "TF_kernel_hartid \<equiv> 32"
abbreviation (input) TF_sp :: uint64 where "TF_sp \<equiv> 48"
abbreviation (input) TF_a0 :: uint64 where "TF_a0 \<equiv> 112"
abbreviation (input) TF_a1 :: uint64 where "TF_a1 \<equiv> 120"
abbreviation (input) TF_a7 :: uint64 where "TF_a7 \<equiv> 168"

text \<open>\<^verbatim>\<open>p->trapframe->field\<close>\<close>

definition tf_get :: "nat \<Rightarrow> uint64 \<Rightarrow> ('z file_state_scheme, uint64) kern" where
  "tf_get p field = gets (\<lambda>s. load64 (mem s) (trapframe (procs s p) + field))"

definition tf_set :: "nat \<Rightarrow> uint64 \<Rightarrow> uint64 \<Rightarrow> ('z file_state_scheme, unit) kern" where
  "tf_set p field v = modify (\<lambda>s. s\<lparr>mem := store64 (mem s) (trapframe (procs s p) + field) v\<rparr>)"

definition fetchaddr :: "uint64 \<Rightarrow> ('z file_state_scheme, uint64 option) kern" where
  "fetchaddr addr =
     bnd curproc (\<lambda>p.
     bnd (gets (\<lambda>s. procs s p)) (\<lambda>k.
       if addr \<ge> sz k \<or> addr + 8 > sz k then ret None
       else
         bnd (copyin (pagetable k) addr 8) (\<lambda>(r, bs).
           if r \<noteq> 0 then ret None else ret (Some (get64 bs 0)))))"

text \<open>The result code of \<^verbatim>\<open>fetchstr\<close> and the string.\<close>

definition fetchstr :: "uint64 \<Rightarrow> nat \<Rightarrow> ('z file_state_scheme, int \<times> uchar list) kern" where
  "fetchstr addr mx =
     bnd curproc (\<lambda>p.
     bnd (gets (\<lambda>s. pagetable (procs s p))) (\<lambda>pt.
     bnd (copyinstr pt addr mx) (\<lambda>(r, bs).
       if r < 0 then ret (-1, bs) else ret (int (length bs), bs))))"

definition argraw :: "nat \<Rightarrow> ('z file_state_scheme, uint64) kern" where
  "argraw n = bnd curproc (\<lambda>p. if n \<le> 5 then tf_get p (TF_a0 + 8 * of_nat n) else panic ''argraw'')"

definition argint :: "nat \<Rightarrow> ('z file_state_scheme, int) kern" where
  "argint n = bnd (argraw n) (\<lambda>w. ret (sint (ucast w :: uint32)))"

definition argaddr :: "nat \<Rightarrow> ('z file_state_scheme, uint64) kern" where
  "argaddr n = argraw n"

definition argstr :: "nat \<Rightarrow> nat \<Rightarrow> ('z file_state_scheme, int \<times> uchar list) kern" where
  "argstr n mx = bnd (argaddr n) (\<lambda>addr. fetchstr addr mx)"

section \<open>Executable files\<close>

definition ELF_MAGIC :: uint32 where "ELF_MAGIC = 0x464C457F"
definition ELF_PROG_LOAD :: uint32 where "ELF_PROG_LOAD = 1"
definition MAXARG :: nat where "MAXARG = 32"

record elfhdr =
  elf_magic :: uint32
  elf_entry :: uint64
  elf_phoff :: uint64
  elf_phnum :: ushort

definition elfhdr_of :: "uchar list \<Rightarrow> elfhdr" where
  "elfhdr_of d = \<lparr>elf_magic = get32 d 0, elf_entry = get64 d 24, elf_phoff = get64 d 32, elf_phnum = get16 d 56\<rparr>"

record proghdr =
  ph_type :: uint32
  ph_flags :: uint32
  ph_off :: uint64
  ph_vaddr :: uint64
  ph_filesz :: uint64
  ph_memsz :: uint64

definition proghdr_of :: "uchar list \<Rightarrow> proghdr" where
  "proghdr_of d = \<lparr>ph_type = get32 d 0, ph_flags = get32 d 4, ph_off = get64 d 8, ph_vaddr = get64 d 16,
     ph_filesz = get64 d 32, ph_memsz = get64 d 40\<rparr>"

definition flags2perm :: "uint32 \<Rightarrow> uint64" where
  "flags2perm flags =
     (let perm = (if flags AND 1 \<noteq> 0 then PTE_X else 0)
      in if flags AND 2 \<noteq> 0 then perm OR PTE_W else perm)"

section \<open>Loading\<close>

text \<open>The loop of \<^verbatim>\<open>loadseg\<close>. What \<^verbatim>\<open>readi\<close> has read lies at the physical address of the page, also when it read too little.\<close>

function loadseg_loop :: "uint64 \<Rightarrow> uint64 \<Rightarrow> nat \<Rightarrow> uint32 \<Rightarrow> nat \<Rightarrow> nat \<Rightarrow> ('z file_state_scheme, int) kern" where
  "loadseg_loop pt va ip offset n i =
     (if i < n then
        bnd (walkaddr pt (va + of_nat i)) (\<lambda>pa.
          if pa = 0 then panic ''loadseg: address should exist''
          else
            let m = min (n - i) 4096 in
            bnd (readi ip ToKernel (offset + of_nat i) (of_nat m)) (\<lambda>(r, bs).
            thn (modify (\<lambda>s. s\<lparr>mem := put_bytes (mem s) pa bs\<rparr>))
            (if r \<noteq> int m then ret (-1) else loadseg_loop pt va ip offset n (i + 4096))))
      else ret 0)"
  by pat_completeness auto
termination by (relation "measure (\<lambda>(pt, va, ip, offset, n, i). n - i)") auto

declare loadseg_loop.simps [simp del]

definition loadseg :: "uint64 \<Rightarrow> uint64 \<Rightarrow> nat \<Rightarrow> uint32 \<Rightarrow> uint32 \<Rightarrow> ('z file_state_scheme, int) kern" where
  "loadseg pt va ip offset n = loadseg_loop pt va ip offset (unat n) 0"

text \<open>
  The loop over the program headers, \<open>n\<close> of which are left: \<open>Inl\<close> for \<^verbatim>\<open>goto bad\<close>, each time with the size of the image so far.
\<close>

fun exec_load :: "uint64 \<Rightarrow> nat \<Rightarrow> uint32 \<Rightarrow> nat \<Rightarrow> uint64 \<Rightarrow> ('z file_state_scheme, uint64 + uint64) kern" where
  "exec_load pt ip off 0 msz = ret (Inr msz)"
| "exec_load pt ip off (Suc n) msz =
     bnd (readi ip ToKernel off 56) (\<lambda>(r, d).
       if r \<noteq> 56 then ret (Inl msz)
       else
         let ph = proghdr_of d in
         if ph_type ph \<noteq> ELF_PROG_LOAD then exec_load pt ip (off + 56) n msz
         else if ph_memsz ph < ph_filesz ph then ret (Inl msz)
         else if ph_vaddr ph + ph_memsz ph < ph_vaddr ph then ret (Inl msz)
         else if ph_vaddr ph mod PGSIZE \<noteq> 0 then ret (Inl msz)
         else
           bnd (uvmalloc pt msz (ph_vaddr ph + ph_memsz ph) (flags2perm (ph_flags ph))) (\<lambda>sz1.
             if sz1 = 0 then ret (Inl msz)
             else
               bnd (loadseg pt (ph_vaddr ph) ip (ucast (ph_off ph)) (ucast (ph_filesz ph))) (\<lambda>r.
                 if r < 0 then ret (Inl sz1)
                 else exec_load pt ip (off + 56) n sz1)))"

text \<open>Push the argument strings: the stack pointer and their addresses, or None for \<^verbatim>\<open>goto bad\<close>.\<close>

fun push_args :: "uint64 \<Rightarrow> uint64 \<Rightarrow> uchar list list \<Rightarrow> uint64 \<Rightarrow> uint64 list \<Rightarrow> ('z file_state_scheme, (uint64 \<times> uint64 list) option) kern" where
  "push_args pt stackbase [] sp ustack = ret (Some (sp, ustack))"
| "push_args pt stackbase (arg # args) sp ustack =
     (if length ustack \<ge> MAXARG then ret None
      else
        let sp1 = sp - (of_nat (length arg) + 1);
            sp2 = sp1 - sp1 mod 16
        in
        if sp2 < stackbase then ret None
        else
          bnd (copyout pt sp2 (arg @ [0])) (\<lambda>r.
            if r < 0 then ret None else push_args pt stackbase args sp2 (ustack @ [sp2])))"

definition exec_bad :: "uint64 \<Rightarrow> uint64 \<Rightarrow> nat option \<Rightarrow> ('z file_state_scheme, int) kern" where
  "exec_bad pt msz ip =
     thn (seqs [
       whenb (pt \<noteq> 0) (proc_freepagetable pt msz),
       (case ip of None \<Rightarrow> ret () | Some i \<Rightarrow> seqs [iunlockput i, end_op])])
     (ret (-1))"

text \<open>The part of the path after its last slash.\<close>

definition last_component :: "uchar list \<Rightarrow> uchar list" where
  "last_component path = rev (takeWhile (\<lambda>c. c \<noteq> slash) (rev path))"

text \<open>Commit to the new image; \<^verbatim>\<open>sp\<close> and \<^verbatim>\<open>argc\<close> are final.\<close>

definition exec_commit ::
    "nat \<Rightarrow> uchar list \<Rightarrow> elfhdr \<Rightarrow> uint64 \<Rightarrow> uint64 \<Rightarrow> uint64 \<Rightarrow> uint64 \<Rightarrow> nat \<Rightarrow> ('z file_state_scheme, int) kern" where
  "exec_commit p path elf pt msz oldsz sp argc =
     thn (tf_set p TF_a1 sp)
     (thn (modify (upd_proc p (\<lambda>k. k\<lparr>pname := safestrcpy_list (last_component path) 16\<rparr>)))
     (bnd (gets (\<lambda>s. pagetable (procs s p))) (\<lambda>oldpagetable.
      thn (seqs [
        modify (upd_proc p (\<lambda>k. k\<lparr>pagetable := pt, sz := msz\<rparr>)),
        tf_set p TF_epc (elf_entry elf),
        tf_set p TF_sp sp,
        proc_freepagetable oldpagetable oldsz])
      (ret (int argc)))))"

definition exec_stack :: "uchar list \<Rightarrow> uchar list list \<Rightarrow> elfhdr \<Rightarrow> uint64 \<Rightarrow> uint64 \<Rightarrow> ('z file_state_scheme, int) kern" where
  "exec_stack path argv elf pt msz =
     bnd curproc (\<lambda>p.
     bnd (gets (\<lambda>s. sz (procs s p))) (\<lambda>oldsz.
       let msz = PGROUNDUP msz in
       bnd (uvmalloc pt msz (msz + 2 * PGSIZE) PTE_W) (\<lambda>sz1.
         if sz1 = 0 then exec_bad pt msz None
         else
           thn (uvmclear pt (sz1 - 2 * PGSIZE))
           (bnd (push_args pt (sz1 - PGSIZE) argv sz1 []) (\<lambda>r.
             case r of
               None \<Rightarrow> exec_bad pt sz1 None
             | Some (sp, ustack) \<Rightarrow>
                 let sp1 = sp - of_nat (length ustack + 1) * 8;
                     sp2 = sp1 - sp1 mod 16
                 in
                 if sp2 < sz1 - PGSIZE then exec_bad pt sz1 None
                 else
                   bnd (copyout pt sp2 (concat (map bytes64 (ustack @ [0])))) (\<lambda>r.
                     if r < 0 then exec_bad pt sz1 None
                     else exec_commit p path elf pt sz1 oldsz sp2 (length ustack)))))))"

definition exec :: "uchar list \<Rightarrow> uchar list list \<Rightarrow> ('z file_state_scheme, int) kern" where
  "exec path argv =
     bnd curproc (\<lambda>p.
     thn begin_op
     (bnd (namei path) (\<lambda>r.
       case r of
         None \<Rightarrow> thn end_op (ret (-1))
       | Some ip \<Rightarrow>
           thn (ilock ip)
           (bnd (readi ip ToKernel 0 64) (\<lambda>(r, d).
             if r \<noteq> 64 then exec_bad 0 0 (Some ip)
             else
               let elf = elfhdr_of d in
               if elf_magic elf \<noteq> ELF_MAGIC then exec_bad 0 0 (Some ip)
               else
                 bnd (proc_pagetable p) (\<lambda>pt.
                   if pt = 0 then exec_bad 0 0 (Some ip)
                   else
                     bnd (exec_load pt ip (ucast (elf_phoff elf)) (unat (elf_phnum elf)) 0) (\<lambda>r.
                       case r of
                         Inl msz \<Rightarrow> exec_bad pt msz (Some ip)
                       | Inr msz \<Rightarrow>
                           thn (seqs [iunlockput ip, end_op]) (exec_stack path argv elf pt msz))))))))"

end
