(* ===== verification/Sysfile.thy ===== *)
theory Sysfile
  imports Exec
begin

text \<open>
  The system calls on files, \<^verbatim>\<open>kernel/sysfile.c\<close>. A result of type \<^verbatim>\<open>uint64\<close> is given as the integer it is converted from;
  the dispatcher stores its low 64 bits.
\<close>

abbreviation (input) O_RDONLY :: int where "O_RDONLY \<equiv> 0"
abbreviation (input) O_WRONLY :: int where "O_WRONLY \<equiv> 1"
abbreviation (input) O_RDWR :: int where "O_RDWR \<equiv> 2"
abbreviation (input) O_CREATE :: int where "O_CREATE \<equiv> 0x200"
abbreviation (input) O_TRUNC :: int where "O_TRUNC \<equiv> 0x400"
definition MAXPATH :: nat where "MAXPATH = 128"

section \<open>Descriptors\<close>

text \<open>The descriptor and the file, or None for -1.\<close>

definition argfd :: "nat \<Rightarrow> ('z file_state_scheme, (nat \<times> nat) option) kern" where
  "argfd n =
     bnd (argint n) (\<lambda>fd.
       if fd < 0 \<or> fd \<ge> int NOFILE then ret None
       else
         bnd curproc (\<lambda>p.
         bnd (gets (\<lambda>s. ofile (procs s p) (nat fd))) (\<lambda>f.
           case f of None \<Rightarrow> ret None | Some g \<Rightarrow> ret (Some (nat fd, g)))))"

definition set_ofile :: "nat \<Rightarrow> nat \<Rightarrow> nat option \<Rightarrow> ('z file_state_scheme, unit) kern" where
  "set_ofile p fd f = modify (upd_proc p (\<lambda>k. k\<lparr>ofile := (ofile k)(fd := f)\<rparr>))"

definition fdalloc :: "nat \<Rightarrow> ('z file_state_scheme, int) kern" where
  "fdalloc f =
     bnd curproc (\<lambda>p.
     bnd (gets (\<lambda>s. List.find (\<lambda>fd. ofile (procs s p) fd = None) [0..<NOFILE])) (\<lambda>r.
       case r of
         Some fd \<Rightarrow> thn (set_ofile p fd (Some f)) (ret (int fd))
       | None \<Rightarrow> ret (-1)))"

definition sys_dup :: "('z file_state_scheme, int) kern" where
  "sys_dup =
     bnd (argfd 0) (\<lambda>r.
       case r of
         None \<Rightarrow> ret (-1)
       | Some (fd0, f) \<Rightarrow>
           bnd (fdalloc f) (\<lambda>fd.
             if fd < 0 then ret (-1) else thn (filedup f) (ret fd)))"

definition sys_read :: "('z file_state_scheme, int) kern" where
  "sys_read =
     bnd (argaddr 1) (\<lambda>p.
     bnd (argint 2) (\<lambda>n.
     bnd (argfd 0) (\<lambda>r. case r of None \<Rightarrow> ret (-1) | Some (fd, f) \<Rightarrow> fileread f p n)))"

definition sys_write :: "('z file_state_scheme, int) kern" where
  "sys_write =
     bnd (argaddr 1) (\<lambda>p.
     bnd (argint 2) (\<lambda>n.
     bnd (argfd 0) (\<lambda>r. case r of None \<Rightarrow> ret (-1) | Some (fd, f) \<Rightarrow> filewrite f p n)))"

definition sys_close :: "('z file_state_scheme, int) kern" where
  "sys_close =
     bnd (argfd 0) (\<lambda>r.
       case r of
         None \<Rightarrow> ret (-1)
       | Some (fd, f) \<Rightarrow>
           bnd curproc (\<lambda>p.
           thn (seqs [set_ofile p fd None, fileclose f]) (ret 0)))"

definition sys_fstat :: "('z file_state_scheme, int) kern" where
  "sys_fstat =
     bnd (argaddr 1) (\<lambda>st.
     bnd (argfd 0) (\<lambda>r. case r of None \<Rightarrow> ret (-1) | Some (fd, f) \<Rightarrow> filestat f st))"

section \<open>Links\<close>

definition sys_link_bad :: "nat \<Rightarrow> ('z file_state_scheme, int) kern" where
  "sys_link_bad ip =
     thn (seqs [
       ilock ip,
       upd_inode ip (\<lambda>k. k\<lparr>nlink := nlink k - 1\<rparr>),
       iupdate ip,
       iunlockput ip,
       end_op])
     (ret (-1))"

text \<open>\<^verbatim>\<open>sys_link\<close> after the two paths have been fetched.\<close>

definition sys_link_paths :: "uchar list \<Rightarrow> uchar list \<Rightarrow> ('z file_state_scheme, int) kern" where
  "sys_link_paths old new =
     thn begin_op
     (bnd (namei old) (\<lambda>r.
       case r of
         None \<Rightarrow> thn end_op (ret (-1))
       | Some ip \<Rightarrow>
           thn (ilock ip)
           (bnd (inode_at ip) (\<lambda>k.
             if itype k = T_DIR then thn (seqs [iunlockput ip, end_op]) (ret (-1))
             else
               thn (seqs [
                 upd_inode ip (\<lambda>k. k\<lparr>nlink := nlink k + 1\<rparr>),
                 iupdate ip,
                 iunlock ip])
               (bnd (nameiparent new) (\<lambda>r.
                 case r of
                   None \<Rightarrow> sys_link_bad ip
                 | Some (dp, name) \<Rightarrow>
                     thn (ilock dp)
                     (bnd (gets (\<lambda>s. (idev (inodes s dp) \<noteq> idev (inodes s ip), inum (inodes s ip)))) (\<lambda>(other, i).
                      bnd (if other then ret (-1) else dirlink dp name i) (\<lambda>r.
                        if r < 0 then thn (iunlockput dp) (sys_link_bad ip)
                        else thn (seqs [iunlockput dp, iput ip, end_op]) (ret 0))))))))))"

definition sys_link :: "('z file_state_scheme, int) kern" where
  "sys_link =
     bnd (argstr 0 MAXPATH) (\<lambda>(r, old).
       if r < 0 then ret (-1)
       else
         bnd (argstr 1 MAXPATH) (\<lambda>(r, new).
           if r < 0 then ret (-1) else sys_link_paths old new))"

function isdirempty_loop :: "nat \<Rightarrow> nat \<Rightarrow> ('z file_state_scheme, bool) kern" where
  "isdirempty_loop dp off s =
     (if off < unat (isize (inodes s dp)) then
        bnd (readi dp ToKernel (of_nat off) 16) (\<lambda>(r, de).
          if r \<noteq> 16 then panic ''isdirempty: readi''
          else if de_inum de \<noteq> 0 then ret False
          else isdirempty_loop dp (off + 16)) s
      else Ok (True, s))"
  by pat_completeness auto
termination
  by (relation "measure (\<lambda>(dp, off, s). 2 ^ 32 - off)") (auto dest!: below_2_32)

declare isdirempty_loop.simps [simp del]

definition isdirempty :: "nat \<Rightarrow> ('z file_state_scheme, bool) kern" where
  "isdirempty dp = isdirempty_loop dp 32"

definition sys_unlink_bad :: "nat \<Rightarrow> ('z file_state_scheme, int) kern" where
  "sys_unlink_bad dp = thn (seqs [iunlockput dp, end_op]) (ret (-1))"

text \<open>\<^verbatim>\<open>sys_unlink\<close> from the erasing of the directory entry on.\<close>

definition sys_unlink_erase :: "nat \<Rightarrow> nat \<Rightarrow> uint32 \<Rightarrow> ('z file_state_scheme, int) kern" where
  "sys_unlink_erase dp ip off =
     bnd (writei dp (FromKernel (replicate 16 0)) off 16) (\<lambda>r.
       if r \<noteq> 16 then panic ''unlink: writei''
       else
         bnd (inode_at ip) (\<lambda>k.
         thn (seqs [
           whenb (itype k = T_DIR) (seqs [
             upd_inode dp (\<lambda>k. k\<lparr>nlink := nlink k - 1\<rparr>),
             iupdate dp]),
           iunlockput dp,
           upd_inode ip (\<lambda>k. k\<lparr>nlink := nlink k - 1\<rparr>),
           iupdate ip,
           iunlockput ip,
           end_op])
         (ret 0)))"

definition sys_unlink_path :: "uchar list \<Rightarrow> ('z file_state_scheme, int) kern" where
  "sys_unlink_path path =
     thn begin_op
     (bnd (nameiparent path) (\<lambda>r.
       case r of
         None \<Rightarrow> thn end_op (ret (-1))
       | Some (dp, name) \<Rightarrow>
           thn (ilock dp)
           (if namecmp name (bytes ''.'') = 0 \<or> namecmp name (bytes ''..'') = 0 then sys_unlink_bad dp
            else
              bnd (dirlookup dp name) (\<lambda>r.
                case r of
                  None \<Rightarrow> sys_unlink_bad dp
                | Some (ip, off) \<Rightarrow>
                    thn (ilock ip)
                    (bnd (inode_at ip) (\<lambda>k.
                      if sint (nlink k) < 1 then panic ''unlink: nlink < 1''
                      else
                        bnd (if itype k = T_DIR then isdirempty ip else ret True) (\<lambda>e.
                          if \<not> e then thn (iunlockput ip) (sys_unlink_bad dp)
                          else sys_unlink_erase dp ip off)))))))"

definition sys_unlink :: "('z file_state_scheme, int) kern" where
  "sys_unlink = bnd (argstr 0 MAXPATH) (\<lambda>(r, path). if r < 0 then ret (-1) else sys_unlink_path path)"

section \<open>Creating and opening\<close>

definition create_fail :: "nat \<Rightarrow> nat \<Rightarrow> ('z file_state_scheme, nat option) kern" where
  "create_fail dp ip =
     thn (seqs [
       upd_inode ip (\<lambda>k. k\<lparr>nlink := 0\<rparr>),
       iupdate ip,
       iunlockput ip,
       iunlockput dp])
     (ret None)"

text \<open>\<^verbatim>\<open>create\<close> from the allocation of the inode on.\<close>

definition create_new :: "nat \<Rightarrow> uchar list \<Rightarrow> ushort \<Rightarrow> ushort \<Rightarrow> ushort \<Rightarrow> ('z file_state_scheme, nat option) kern" where
  "create_new dp name type major minor =
     bnd (gets (\<lambda>s. idev (inodes s dp))) (\<lambda>dev.
     bnd (ialloc dev type) (\<lambda>r.
       case r of
         None \<Rightarrow> thn (iunlockput dp) (ret None)
       | Some ip \<Rightarrow>
           thn (seqs [
             ilock ip,
             upd_inode ip (\<lambda>k. k\<lparr>imajor := major, iminor := minor, nlink := 1\<rparr>),
             iupdate ip])
           (bnd (gets (\<lambda>s. (inum (inodes s ip), inum (inodes s dp)))) (\<lambda>(i, d).
            bnd (if type = T_DIR then
                   bnd (dirlink ip (bytes ''.'') i) (\<lambda>r. if r < 0 then ret r else dirlink ip (bytes ''..'') d)
                 else ret 0) (\<lambda>r.
              if r < 0 then create_fail dp ip
              else
                bnd (dirlink dp name i) (\<lambda>r.
                  if r < 0 then create_fail dp ip
                  else
                    thn (seqs [
                      whenb (type = T_DIR) (seqs [
                        upd_inode dp (\<lambda>k. k\<lparr>nlink := nlink k + 1\<rparr>),
                        iupdate dp]),
                      iunlockput dp])
                    (ret (Some ip))))))))"

definition create :: "uchar list \<Rightarrow> ushort \<Rightarrow> ushort \<Rightarrow> ushort \<Rightarrow> ('z file_state_scheme, nat option) kern" where
  "create path type major minor =
     bnd (nameiparent path) (\<lambda>r.
       case r of
         None \<Rightarrow> ret None
       | Some (dp, name) \<Rightarrow>
           thn (ilock dp)
           (bnd (dirlookup dp name) (\<lambda>r.
             case r of
               Some (ip, off) \<Rightarrow>
                 thn (seqs [iunlockput dp, ilock ip])
                 (bnd (inode_at ip) (\<lambda>k.
                   if type = T_FILE \<and> (itype k = T_FILE \<or> itype k = T_DEVICE) then ret (Some ip)
                   else thn (iunlockput ip) (ret None)))
             | None \<Rightarrow> create_new dp name type major minor)))"

text \<open>\<^verbatim>\<open>sys_open\<close> once it has the locked inode.\<close>

definition sys_open_inode :: "nat \<Rightarrow> int \<Rightarrow> ('z file_state_scheme, int) kern" where
  "sys_open_inode ip omode =
     bnd (inode_at ip) (\<lambda>k.
       if itype k = T_DEVICE \<and> (sint (imajor k) < 0 \<or> sint (imajor k) \<ge> NDEV) then
         thn (seqs [iunlockput ip, end_op]) (ret (-1))
       else
         bnd filealloc (\<lambda>r.
           case r of
             None \<Rightarrow> thn (seqs [iunlockput ip, end_op]) (ret (-1))
           | Some f \<Rightarrow>
               bnd (fdalloc f) (\<lambda>fd.
                 if fd < 0 then thn (seqs [fileclose f, iunlockput ip, end_op]) (ret (-1))
                 else
                   thn (seqs [
                     (if itype k = T_DEVICE then upd_file f (\<lambda>g. g\<lparr>ftype := FD_DEVICE, fmajor := imajor k\<rparr>)
                      else upd_file f (\<lambda>g. g\<lparr>ftype := FD_INODE, foff := 0\<rparr>)),
                     upd_file f (\<lambda>g. g\<lparr>fip := ip, readable := (omode AND O_WRONLY = 0),
                       writable := (omode AND O_WRONLY \<noteq> 0 \<or> omode AND O_RDWR \<noteq> 0)\<rparr>),
                     whenb (omode AND O_TRUNC \<noteq> 0 \<and> itype k = T_FILE) (itrunc ip),
                     iunlock ip,
                     end_op])
                   (ret fd))))"

definition sys_open :: "('z file_state_scheme, int) kern" where
  "sys_open =
     bnd (argint 1) (\<lambda>omode.
     bnd (argstr 0 MAXPATH) (\<lambda>(n, path).
       if n < 0 then ret (-1)
       else
         thn begin_op
         (if omode AND O_CREATE \<noteq> 0 then
            bnd (create path T_FILE 0 0) (\<lambda>r.
              case r of None \<Rightarrow> thn end_op (ret (-1)) | Some ip \<Rightarrow> sys_open_inode ip omode)
          else
            bnd (namei path) (\<lambda>r.
              case r of
                None \<Rightarrow> thn end_op (ret (-1))
              | Some ip \<Rightarrow>
                  thn (ilock ip)
                  (bnd (inode_at ip) (\<lambda>k.
                    if itype k = T_DIR \<and> omode \<noteq> O_RDONLY then
                      thn (seqs [iunlockput ip, end_op]) (ret (-1))
                    else sys_open_inode ip omode))))))"

text \<open>The common end of \<^verbatim>\<open>sys_mkdir\<close> and \<^verbatim>\<open>sys_mknod\<close>.\<close>

definition finish_create :: "nat option \<Rightarrow> ('z file_state_scheme, int) kern" where
  "finish_create r =
     (case r of
        None \<Rightarrow> thn end_op (ret (-1))
      | Some ip \<Rightarrow> thn (seqs [iunlockput ip, end_op]) (ret 0))"

definition sys_mkdir :: "('z file_state_scheme, int) kern" where
  "sys_mkdir =
     thn begin_op
     (bnd (argstr 0 MAXPATH) (\<lambda>(r, path).
       if r < 0 then finish_create None else bnd (create path T_DIR 0 0) finish_create))"

definition sys_mknod :: "('z file_state_scheme, int) kern" where
  "sys_mknod =
     thn begin_op
     (bnd (argint 1) (\<lambda>major.
      bnd (argint 2) (\<lambda>minor.
      bnd (argstr 0 MAXPATH) (\<lambda>(r, path).
        if r < 0 then finish_create None
        else bnd (create path T_DEVICE (word_of_int major) (word_of_int minor)) finish_create))))"

definition sys_chdir :: "('z file_state_scheme, int) kern" where
  "sys_chdir =
     bnd curproc (\<lambda>p.
     thn begin_op
     (bnd (argstr 0 MAXPATH) (\<lambda>(r, path).
      bnd (if r < 0 then ret None else namei path) (\<lambda>ip.
        case ip of
          None \<Rightarrow> thn end_op (ret (-1))
        | Some ip \<Rightarrow>
            thn (ilock ip)
            (bnd (inode_at ip) (\<lambda>k.
              if itype k \<noteq> T_DIR then thn (seqs [iunlockput ip, end_op]) (ret (-1))
              else
                thn (iunlock ip)
                (bnd (gets (\<lambda>s. cwd (procs s p))) (\<lambda>old.
                 thn (seqs [
                   (case old of None \<Rightarrow> undef ''iput(0)'' | Some c \<Rightarrow> iput c),
                   end_op,
                   modify (upd_proc p (\<lambda>k. k\<lparr>cwd := Some ip\<rparr>))])
                 (ret 0)))))))))"

section \<open>Exec and pipe\<close>

text \<open>
  The loop of \<^verbatim>\<open>sys_exec\<close>: the pages and strings fetched, or \<open>Inl\<close> with the pages so far for \<^verbatim>\<open>goto bad\<close>. \<open>n\<close> entries of \<^verbatim>\<open>argv\<close> are left.
\<close>

fun fetch_argv :: "nat \<Rightarrow> uint64 \<Rightarrow> (uint64 \<times> uchar list) list \<Rightarrow>
    ('z file_state_scheme, (uint64 \<times> uchar list) list + (uint64 \<times> uchar list) list) kern" where
  "fetch_argv 0 uargv acc = ret (Inl acc)"
| "fetch_argv (Suc n) uargv acc =
     bnd (fetchaddr (uargv + 8 * of_nat (length acc))) (\<lambda>r.
       case r of
         None \<Rightarrow> ret (Inl acc)
       | Some uarg \<Rightarrow>
           if uarg = 0 then ret (Inr acc)
           else
             bnd kalloc (\<lambda>pg.
               if pg = 0 then ret (Inl acc)
               else
                 bnd (fetchstr uarg 4096) (\<lambda>(r, bs).
                   if r < 0 then ret (Inl (acc @ [(pg, bs)]))
                   else
                     thn (modify (\<lambda>s. s\<lparr>mem := put_bytes (mem s) pg (bs @ [0])\<rparr>))
                     (fetch_argv n uargv (acc @ [(pg, bs)])))))"

fun free_argv :: "(uint64 \<times> uchar list) list \<Rightarrow> ('z file_state_scheme, unit) kern" where
  "free_argv [] = ret ()"
| "free_argv ((pg, bs) # as) = thn (kfree pg) (free_argv as)"

definition sys_exec :: "('z file_state_scheme, int) kern" where
  "sys_exec =
     bnd (argaddr 1) (\<lambda>uargv.
     bnd (argstr 0 MAXPATH) (\<lambda>(r, path).
       if r < 0 then ret (-1)
       else
         bnd (fetch_argv MAXARG uargv []) (\<lambda>r.
           case r of
             Inl args \<Rightarrow> thn (free_argv args) (ret (-1))
           | Inr args \<Rightarrow>
               bnd (exec path (map snd args)) (\<lambda>r.
               thn (free_argv args) (ret r)))))"

definition sys_pipe :: "('z file_state_scheme, int) kern" where
  "sys_pipe =
     bnd curproc (\<lambda>p.
     bnd (argaddr 0) (\<lambda>fdarray.
     bnd pipealloc (\<lambda>r.
       case r of
         None \<Rightarrow> ret (-1)
       | Some (f0, f1) \<Rightarrow>
           bnd (fdalloc f0) (\<lambda>fd0.
             if fd0 < 0 then thn (seqs [fileclose f0, fileclose f1]) (ret (-1))
             else
               bnd (fdalloc f1) (\<lambda>fd1.
                 if fd1 < 0 then thn (seqs [set_ofile p (nat fd0) None, fileclose f0, fileclose f1]) (ret (-1))
                 else
                   bnd (gets (\<lambda>s. pagetable (procs s p))) (\<lambda>pt.
                   bnd (copyout pt fdarray (int_bytes fd0)) (\<lambda>r0.
                   bnd (if r0 < 0 then ret r0 else copyout pt (fdarray + 4) (int_bytes fd1)) (\<lambda>r1.
                     if r1 < 0 then
                       thn (seqs [
                         set_ofile p (nat fd0) None,
                         set_ofile p (nat fd1) None,
                         fileclose f0,
                         fileclose f1])
                       (ret (-1))
                     else ret 0))))))))"

end
