(* ===== verification/Kproc.thy ===== *)
theory Kproc
  imports Sysfile
begin

text \<open>
  The part of \<^verbatim>\<open>kernel/proc.c\<close> that handles files (creation of the first process, fork, exit), and the system calls on processes,
  \<^verbatim>\<open>kernel/sysproc.c\<close>. \<open>exit\<close> is the code up to the call of \<^verbatim>\<open>sched\<close>, from which an exiting process does not come back.
\<close>

record kproc_state = file_state +
  ticks :: uint32
  first :: bool      \<comment> \<open>the static variable of \<^verbatim>\<open>forkret\<close>\<close>

section \<open>The first process\<close>

definition initcode :: "uchar list" where
  "initcode = [
     0x17, 0x05, 0x00, 0x00, 0x13, 0x05, 0x45, 0x02,
     0x97, 0x05, 0x00, 0x00, 0x93, 0x85, 0x35, 0x02,
     0x93, 0x08, 0x70, 0x00, 0x73, 0x00, 0x00, 0x00,
     0x93, 0x08, 0x20, 0x00, 0x73, 0x00, 0x00, 0x00,
     0xef, 0xf0, 0x9f, 0xff, 0x2f, 0x69, 0x6e, 0x69,
     0x74, 0x00, 0x00, 0x24, 0x00, 0x00, 0x00, 0x00,
     0x00, 0x00, 0x00, 0x00]"

definition userinit :: "('z kproc_state_scheme, unit) kern" where
  "userinit =
     bnd allocproc (\<lambda>r.
     thn (modify (\<lambda>s. s\<lparr>initproc := r\<rparr>))
     (case r of
        None \<Rightarrow> undef ''p->pagetable''
      | Some p \<Rightarrow>
          bnd (gets (\<lambda>s. pagetable (procs s p))) (\<lambda>pt.
          thn (seqs [
            uvmfirst pt initcode,
            modify (upd_proc p (\<lambda>k. k\<lparr>sz := PGSIZE\<rparr>)),
            tf_set p TF_epc 0,
            tf_set p TF_sp PGSIZE,
            modify (upd_proc p (\<lambda>k. k\<lparr>pname := safestrcpy_list (bytes ''initcode'') 16\<rparr>))])
          (bnd (namei (bytes ''/'')) (\<lambda>ip.
           seqs [
             modify (upd_proc p (\<lambda>k. k\<lparr>cwd := ip\<rparr>)),
             modify (upd_proc p (\<lambda>k. k\<lparr>pstate := RUNNABLE\<rparr>)),
             rel (LProc p)])))))"

section \<open>Fork\<close>

fun dup_files :: "nat \<Rightarrow> nat \<Rightarrow> nat list \<Rightarrow> ('z kproc_state_scheme, unit) kern" where
  "dup_files p np [] = ret ()"
| "dup_files p np (fd # fds) =
     bnd (gets (\<lambda>s. ofile (procs s p) fd)) (\<lambda>f.
     thn (case f of
            None \<Rightarrow> ret ()
          | Some g \<Rightarrow> bnd (filedup g) (\<lambda>h. modify (upd_proc np (\<lambda>k. k\<lparr>ofile := (ofile k)(fd := Some h)\<rparr>))))
     (dup_files p np fds))"

text \<open>\<^verbatim>\<open>*(np->trapframe) = *(p->trapframe)\<close>: the structure has 36 fields of 8 bytes.\<close>

definition copy_trapframe :: "nat \<Rightarrow> nat \<Rightarrow> ('z kproc_state_scheme, unit) kern" where
  "copy_trapframe p np = modify (\<lambda>s. s\<lparr>mem := memmove (mem s) (trapframe (procs s np)) (trapframe (procs s p)) 288\<rparr>)"

definition fork :: "('z kproc_state_scheme, int) kern" where
  "fork =
     bnd curproc (\<lambda>p.
     bnd allocproc (\<lambda>r.
       case r of
         None \<Rightarrow> ret (-1)
       | Some np \<Rightarrow>
           bnd (gets (\<lambda>s. (procs s p, procs s np))) (\<lambda>(k, nk).
           bnd (uvmcopy (pagetable k) (pagetable nk) (sz k)) (\<lambda>r.
             if r < 0 then thn (seqs [freeproc np, rel (LProc np)]) (ret (-1))
             else
               thn (seqs [
                 modify (upd_proc np (\<lambda>q. q\<lparr>sz := sz k\<rparr>)),
                 copy_trapframe p np,
                 tf_set np TF_a0 0,
                 dup_files p np [0..<NOFILE],
                 (case cwd k of
                    None \<Rightarrow> undef ''idup(0)''
                  | Some ip \<Rightarrow> bnd (idup ip) (\<lambda>i. modify (upd_proc np (\<lambda>q. q\<lparr>cwd := Some i\<rparr>)))),
                 modify (upd_proc np (\<lambda>q. q\<lparr>pname := safestrcpy_list (pname k) 16\<rparr>))])
               (bnd (gets (\<lambda>s. pid (procs s np))) (\<lambda>i.
                thn (seqs [
                  rel (LProc np),
                  acq LWait,
                  modify (upd_proc np (\<lambda>q. q\<lparr>parent := Some p\<rparr>)),
                  rel LWait,
                  acq (LProc np),
                  modify (upd_proc np (\<lambda>q. q\<lparr>pstate := RUNNABLE\<rparr>)),
                  rel (LProc np)])
                (ret i)))))))"

text \<open>The first activation of a process, up to \<^verbatim>\<open>usertrapret\<close>.\<close>

definition forkret :: "('z kproc_state_scheme, unit) kern" where
  "forkret =
     bnd curproc (\<lambda>p.
     thn (rel (LProc p))
     (bnd (gets first) (\<lambda>b.
      whenb b (seqs [modify (\<lambda>s. s\<lparr>first := False\<rparr>), fsinit ROOTDEV]))))"

section \<open>Exit\<close>

fun close_files :: "nat \<Rightarrow> nat list \<Rightarrow> ('z kproc_state_scheme, unit) kern" where
  "close_files p [] = ret ()"
| "close_files p (fd # fds) =
     bnd (gets (\<lambda>s. ofile (procs s p) fd)) (\<lambda>f.
     thn (case f of
            None \<Rightarrow> ret ()
          | Some g \<Rightarrow> seqs [fileclose g, modify (upd_proc p (\<lambda>k. k\<lparr>ofile := (ofile k)(fd := None)\<rparr>))])
     (close_files p fds))"

text \<open>\<^verbatim>\<open>exit\<close> from the acquisition of \<^verbatim>\<open>wait_lock\<close> on.\<close>

definition exit_zombie :: "nat \<Rightarrow> int \<Rightarrow> ('z proc_state_scheme, bool) kern" where
  "exit_zombie p status =
     thn (seqs [acq LWait, reparent p])
     (bnd (gets (\<lambda>s. parent (procs s p))) (\<lambda>par.
      thn (seqs [
        wakeup_ptr (map_option ChProc par),
        acq (LProc p),
        modify (upd_proc p (\<lambda>k. k\<lparr>xstate := status, pstate := ZOMBIE\<rparr>)),
        rel LWait])
      sched_enter))"

definition exit :: "int \<Rightarrow> ('z kproc_state_scheme, bool) kern" where
  "exit status =
     bnd curproc (\<lambda>p.
     bnd (gets initproc) (\<lambda>ip.
       if ip = Some p then panic ''init exiting''
       else
         thn (seqs [
           close_files p [0..<NOFILE],
           begin_op,
           bnd (gets (\<lambda>s. cwd (procs s p))) (\<lambda>c. case c of None \<Rightarrow> undef ''iput(0)'' | Some i \<Rightarrow> iput i),
           end_op,
           modify (upd_proc p (\<lambda>k. k\<lparr>cwd := None\<rparr>))])
         (exit_zombie p status)))"

section \<open>System calls on processes\<close>

text \<open>The result that goes to the caller; an exiting process has none.\<close>

datatype sysret = Returns int | Exited bool

definition sys_exit :: "('z kproc_state_scheme, sysret) kern" where
  "sys_exit = bnd (argint 0) (\<lambda>n. bnd (exit n) (\<lambda>b. ret (Exited b)))"

definition sys_getpid :: "('z kproc_state_scheme, int) kern" where
  "sys_getpid = bnd curproc (\<lambda>p. gets (\<lambda>s. pid (procs s p)))"

definition sys_fork :: "('z kproc_state_scheme, int) kern" where
  "sys_fork = fork"

definition sys_wait :: "('z kproc_state_scheme, int) kern" where
  "sys_wait = bnd (argaddr 0) wait"

definition sys_sbrk :: "('z kproc_state_scheme, int) kern" where
  "sys_sbrk =
     bnd (argint 0) (\<lambda>n.
     bnd curproc (\<lambda>p.
     bnd (gets (\<lambda>s. sz (procs s p))) (\<lambda>addr.
     bnd (growproc n) (\<lambda>r. ret (if r < 0 then -1 else uint addr)))))"

text \<open>
  The loop of \<^verbatim>\<open>sys_sleep\<close>, with \<^verbatim>\<open>tickslock\<close> held: \<open>Inl\<close> when it goes to sleep. The comparison is unsigned, as
  \<^verbatim>\<open>ticks - ticks0\<close> is.
\<close>

definition sleep_loop :: "int \<Rightarrow> uint32 \<Rightarrow> ('z kproc_state_scheme, unit + int) kern" where
  "sleep_loop n ticks0 =
     bnd (gets ticks) (\<lambda>t.
       if t - ticks0 < word_of_int n then
         bnd curproc (\<lambda>p.
         bnd (is_killed p) (\<lambda>k.
           if k \<noteq> 0 then thn (rel LTicks) (ret (Inr (-1))) else ret (Inl ())))
       else thn (rel LTicks) (ret (Inr 0)))"

definition sys_sleep :: "('z kproc_state_scheme, int) kern" where
  "sys_sleep =
     bnd (argint 0) (\<lambda>n.
     thn (acq LTicks)
     (bnd (gets ticks) (\<lambda>ticks0. bnd (sleep_loop n ticks0) returned)))"

definition sys_kill :: "('z kproc_state_scheme, int) kern" where
  "sys_kill = bnd (argint 0) kill"

definition sys_uptime :: "('z kproc_state_scheme, int) kern" where
  "sys_uptime =
     thn (acq LTicks)
     (bnd (gets ticks) (\<lambda>x. thn (rel LTicks) (ret (uint x))))"

text \<open>A call of \<^verbatim>\<open>kernel/petersonlock.c\<close> on the lock table of the kernel.\<close>

definition on_peterson :: "(lock_table \<Rightarrow> (int \<times> lock_table) outcome) \<Rightarrow> ('z kproc_state_scheme, int) kern" where
  "on_peterson f = (\<lambda>s. obind (f (peterson_locks s)) (\<lambda>(r, ls). Ok (r, s\<lparr>peterson_locks := ls\<rparr>)))"

definition sys_peterson_create :: "('z kproc_state_scheme, int) kern" where
  "sys_peterson_create = on_peterson (\<lambda>ls. Ok (petersonlock_create ls))"

definition sys_peterson_acquire :: "('z kproc_state_scheme, int) kern" where
  "sys_peterson_acquire =
     bnd (argint 0) (\<lambda>lock_id. bnd (argint 1) (\<lambda>role. on_peterson (petersonlock_acquire lock_id role)))"

definition sys_peterson_release :: "('z kproc_state_scheme, int) kern" where
  "sys_peterson_release =
     bnd (argint 0) (\<lambda>lock_id. bnd (argint 1) (\<lambda>role. on_peterson (petersonlock_release lock_id role)))"

definition sys_peterson_destroy :: "('z kproc_state_scheme, int) kern" where
  "sys_peterson_destroy = bnd (argint 0) (\<lambda>lock_id. on_peterson (\<lambda>ls. Ok (petersonlock_destroy lock_id ls)))"

section \<open>The dispatcher\<close>

text \<open>The table \<^verbatim>\<open>syscalls\<close>, by the numbers of \<^verbatim>\<open>kernel/syscall.h\<close>.\<close>

definition plain :: "('z kproc_state_scheme, int) kern \<Rightarrow> ('z kproc_state_scheme, sysret) kern" where
  "plain m = bnd m (\<lambda>r. ret (Returns r))"

definition syscalls :: "int \<Rightarrow> ('z kproc_state_scheme, sysret) kern option" where
  "syscalls num =
     (if num = 1 then Some (plain sys_fork)
      else if num = 2 then Some sys_exit
      else if num = 3 then Some (plain sys_wait)
      else if num = 4 then Some (plain sys_pipe)
      else if num = 5 then Some (plain sys_read)
      else if num = 6 then Some (plain sys_kill)
      else if num = 7 then Some (plain sys_exec)
      else if num = 8 then Some (plain sys_fstat)
      else if num = 9 then Some (plain sys_chdir)
      else if num = 10 then Some (plain sys_dup)
      else if num = 11 then Some (plain sys_getpid)
      else if num = 12 then Some (plain sys_sbrk)
      else if num = 13 then Some (plain sys_sleep)
      else if num = 14 then Some (plain sys_uptime)
      else if num = 15 then Some (plain sys_open)
      else if num = 16 then Some (plain sys_write)
      else if num = 17 then Some (plain sys_mknod)
      else if num = 18 then Some (plain sys_unlink)
      else if num = 19 then Some (plain sys_link)
      else if num = 20 then Some (plain sys_mkdir)
      else if num = 21 then Some (plain sys_close)
      else if num = 22 then Some (plain sys_peterson_create)
      else if num = 23 then Some (plain sys_peterson_acquire)
      else if num = 24 then Some (plain sys_peterson_release)
      else if num = 25 then Some (plain sys_peterson_destroy)
      else None)"

text \<open>Some with the saved interrupt flag when the process has exited.\<close>

definition syscall :: "('z kproc_state_scheme, bool option) kern" where
  "syscall =
     bnd curproc (\<lambda>p.
     bnd (tf_get p TF_a7) (\<lambda>a7.
       let num = sint (ucast a7 :: uint32) in
       case syscalls num of
         Some f \<Rightarrow>
           bnd f (\<lambda>r.
             case r of
               Returns v \<Rightarrow> thn (tf_set p TF_a0 (of_int v)) (ret None)
             | Exited b \<Rightarrow> ret (Some b))
       | None \<Rightarrow>
           bnd (gets (\<lambda>s. procs s p)) (\<lambda>k.
           thn (seqs [
             printf (bytes ''%d %s: unknown sys call %d'' @ [10])
               [VInt (word_of_int (pid k)), VStr (Some (cstr (pname k))), VInt (word_of_int num)],
             tf_set p TF_a0 (- 1)])
           (ret None))))"

end
