(* ===== verification/Virtio.thy ===== *)
theory Virtio
  imports Kproc
begin

text \<open>
  The disk driver, \<^verbatim>\<open>kernel/virtio_disk.c\<close>. The descriptor table, the two rings and the driver's book-keeping are fields of the
  state; a pointer that the driver gives to the device names what it points to (\<open>dma\<close>). The device itself is outside the sources:
  it reads the available ring and the descriptors, and writes the used ring, the status bytes and the data of buffers.
  What its registers read is the field \<open>mmio\<close>; what is written to them is recorded in order.

  \<open>virtio_disk_rw\<close> is given in two parts, up to the wait for the interrupt and from its end on.
\<close>

datatype dma = DNull | DOps nat | DData nat | DStatus nat

record virtq_desc =
  vaddr :: dma
  vlen :: uint32
  vflags :: ushort
  vnext :: ushort

record virtio_blk_req =
  req_type :: uint32
  req_sector :: uint64

record vdisk_state = kproc_state +
  vdesc :: "nat \<Rightarrow> virtq_desc"
  avail_ring :: "nat \<Rightarrow> ushort"
  avail_idx :: ushort
  used_ring :: "nat \<Rightarrow> uint32"
  used_idx_dev :: ushort     \<comment> \<open>\<^verbatim>\<open>disk.used->idx\<close>\<close>
  vfree :: "nat \<Rightarrow> bool"
  used_idx :: ushort
  info_b :: "nat \<Rightarrow> nat option"
  info_status :: "nat \<Rightarrow> uchar"
  vops :: "nat \<Rightarrow> virtio_blk_req"
  bdisk :: "nat \<Rightarrow> bool"     \<comment> \<open>\<^verbatim>\<open>b->disk\<close> of the buffers\<close>
  mmio :: "nat \<Rightarrow> uint32"
  mmio_writes :: "(nat \<times> uint32) list"
  queue_pages :: "uint64 \<times> uint64 \<times> uint64"  \<comment> \<open>\<^verbatim>\<open>disk.desc\<close>, \<^verbatim>\<open>disk.avail\<close>, \<^verbatim>\<open>disk.used\<close>\<close>

definition NUM :: nat where "NUM = 8"
abbreviation (input) VRING_DESC_F_NEXT :: ushort where "VRING_DESC_F_NEXT \<equiv> 1"
abbreviation (input) VRING_DESC_F_WRITE :: ushort where "VRING_DESC_F_WRITE \<equiv> 2"
abbreviation (input) VIRTIO_BLK_T_IN :: uint32 where "VIRTIO_BLK_T_IN \<equiv> 0"
abbreviation (input) VIRTIO_BLK_T_OUT :: uint32 where "VIRTIO_BLK_T_OUT \<equiv> 1"

definition mmio_write :: "nat \<Rightarrow> uint32 \<Rightarrow> ('z vdisk_state_scheme, unit) kern" where
  "mmio_write r v = modify (\<lambda>s. s\<lparr>mmio_writes := mmio_writes s @ [(r, v)]\<rparr>)"

abbreviation mmio_read :: "nat \<Rightarrow> ('z vdisk_state_scheme, uint32) kern" where
  "mmio_read r \<equiv> gets (\<lambda>s. mmio s r)"

section \<open>Initialisation\<close>

text \<open>The features the driver does not accept.\<close>

definition refused_features :: uint32 where
  "refused_features = push_bit 5 1 OR push_bit 7 1 OR push_bit 11 1 OR push_bit 12 1 OR push_bit 27 1 OR
     push_bit 29 1 OR push_bit 28 1"

definition low32 :: "uint64 \<Rightarrow> uint32" where "low32 a = ucast a"
definition high32 :: "uint64 \<Rightarrow> uint32" where "high32 a = ucast (drop_bit 32 a)"

definition vdisk_queue :: "uint64 \<Rightarrow> uint64 \<Rightarrow> uint64 \<Rightarrow> ('z vdisk_state_scheme, unit) kern" where
  "vdisk_queue d a u = seqs [
     modify (\<lambda>s. s\<lparr>mem := memset (memset (memset (mem s) d 0 4096) a 0 4096) u 0 4096\<rparr>),
     modify (\<lambda>s. s\<lparr>queue_pages := (d, a, u),
       vdesc := (\<lambda>i. \<lparr>vaddr = DNull, vlen = 0, vflags = 0, vnext = 0\<rparr>),
       avail_ring := (\<lambda>i. 0), avail_idx := 0, used_ring := (\<lambda>i. 0), used_idx_dev := 0\<rparr>),
     mmio_write 0x038 (of_nat NUM),
     mmio_write 0x080 (low32 d), mmio_write 0x084 (high32 d),
     mmio_write 0x090 (low32 a), mmio_write 0x094 (high32 a),
     mmio_write 0x0a0 (low32 u), mmio_write 0x0a4 (high32 u),
     mmio_write 0x044 1,
     modify (\<lambda>s. s\<lparr>vfree := (\<lambda>i. if i < NUM then True else vfree s i)\<rparr>)]"

definition virtio_disk_init :: "('z vdisk_state_scheme, unit) kern" where
  "virtio_disk_init =
     thn (on_core (\<lambda>c. Ok (initlock LDisk c)))
     (bnd (gets mmio) (\<lambda>m.
       if m 0x000 \<noteq> 0x74726976 \<or> m 0x004 \<noteq> 2 \<or> m 0x008 \<noteq> 2 \<or> m 0x00c \<noteq> 0x554d4551 then
         panic ''could not find virtio disk''
       else
         thn (seqs [
           mmio_write 0x070 0,
           mmio_write 0x070 1,
           mmio_write 0x070 (1 OR 2),
           mmio_write 0x020 (m 0x010 AND NOT refused_features),
           mmio_write 0x070 (1 OR 2 OR 8)])
         (bnd (mmio_read 0x070) (\<lambda>status.
           if status AND 8 = 0 then panic ''virtio disk FEATURES_OK unset''
           else
             thn (mmio_write 0x030 0)
             (bnd (gets mmio) (\<lambda>m.
               if m 0x044 \<noteq> 0 then panic ''virtio disk should not be ready''
               else if m 0x034 = 0 then panic ''virtio disk has no queue 0''
               else if m 0x034 < of_nat NUM then panic ''virtio disk max queue too short''
               else
                 bnd kalloc (\<lambda>d. bnd kalloc (\<lambda>a. bnd kalloc (\<lambda>u.
                   if d = 0 \<or> a = 0 \<or> u = 0 then panic ''virtio disk kalloc''
                   else seqs [vdisk_queue d a u, mmio_write 0x070 (status OR 4)])))))))))"

section \<open>Descriptors\<close>

definition alloc_desc :: "('z vdisk_state_scheme, int) kern" where
  "alloc_desc =
     bnd (gets (\<lambda>s. List.find (vfree s) [0..<NUM])) (\<lambda>r.
       case r of
         Some i \<Rightarrow> thn (modify (\<lambda>s. s\<lparr>vfree := (vfree s)(i := False)\<rparr>)) (ret (int i))
       | None \<Rightarrow> ret (-1))"

definition free_desc :: "nat \<Rightarrow> ('z vdisk_state_scheme, unit) kern" where
  "free_desc i =
     (if i \<ge> NUM then panic ''free_desc 1''
      else
        bnd (gets (\<lambda>s. vfree s i)) (\<lambda>f.
          if f then panic ''free_desc 2''
          else seqs [
            modify (\<lambda>s. s\<lparr>vdesc := (vdesc s)(i := \<lparr>vaddr = DNull, vlen = 0, vflags = 0, vnext = 0\<rparr>)\<rparr>),
            modify (\<lambda>s. s\<lparr>vfree := (vfree s)(i := True)\<rparr>),
            wakeup ChDisk]))"

text \<open>
  The loop of \<^verbatim>\<open>free_chain\<close> frees a different descriptor in each turn, or panics; there are \<open>NUM\<close> of them.
\<close>

fun free_chain_loop :: "nat \<Rightarrow> nat \<Rightarrow> ('z vdisk_state_scheme, unit) kern" where
  "free_chain_loop 0 i = free_desc i"
| "free_chain_loop (Suc n) i =
     bnd (gets (\<lambda>s. vdesc s i)) (\<lambda>d.
     thn (free_desc i)
     (whenb (vflags d AND VRING_DESC_F_NEXT \<noteq> 0) (free_chain_loop n (unat (vnext d)))))"

definition free_chain :: "nat \<Rightarrow> ('z vdisk_state_scheme, unit) kern" where
  "free_chain i = free_chain_loop NUM i"

fun free_descs :: "nat list \<Rightarrow> ('z vdisk_state_scheme, unit) kern" where
  "free_descs [] = ret ()"
| "free_descs (i # is) = thn (free_desc i) (free_descs is)"

text \<open>\<^verbatim>\<open>alloc3_desc\<close>, with the indices allocated so far; \<open>n\<close> are still wanted.\<close>

fun alloc_descs :: "nat \<Rightarrow> nat list \<Rightarrow> ('z vdisk_state_scheme, nat list option) kern" where
  "alloc_descs 0 idx = ret (Some idx)"
| "alloc_descs (Suc n) idx =
     bnd alloc_desc (\<lambda>i.
       if i < 0 then thn (free_descs idx) (ret None)
       else alloc_descs n (idx @ [nat i]))"

definition alloc3_desc :: "('z vdisk_state_scheme, nat list option) kern" where
  "alloc3_desc = alloc_descs 3 []"

section \<open>Transfers\<close>

definition upd_desc :: "nat \<Rightarrow> virtq_desc \<Rightarrow> ('z vdisk_state_scheme, unit) kern" where
  "upd_desc i d = modify (\<lambda>s. s\<lparr>vdesc := (vdesc s)(i := d)\<rparr>)"

text \<open>Format the three descriptors and publish the chain.\<close>

definition submit :: "nat \<Rightarrow> bool \<Rightarrow> uint64 \<Rightarrow> nat \<Rightarrow> nat \<Rightarrow> nat \<Rightarrow> ('z vdisk_state_scheme, unit) kern" where
  "submit b write sector i0 i1 i2 = seqs [
     modify (\<lambda>s. s\<lparr>vops := (vops s)(i0 := \<lparr>req_type = if write then VIRTIO_BLK_T_OUT else VIRTIO_BLK_T_IN, req_sector = sector\<rparr>)\<rparr>),
     upd_desc i0 \<lparr>vaddr = DOps i0, vlen = 16, vflags = VRING_DESC_F_NEXT, vnext = of_nat i1\<rparr>,
     upd_desc i1 \<lparr>vaddr = DData b, vlen = of_nat BSIZE,
       vflags = (if write then 0 else VRING_DESC_F_WRITE) OR VRING_DESC_F_NEXT, vnext = of_nat i2\<rparr>,
     modify (\<lambda>s. s\<lparr>info_status := (info_status s)(i0 := 0xff)\<rparr>),
     upd_desc i2 \<lparr>vaddr = DStatus i0, vlen = 1, vflags = VRING_DESC_F_WRITE, vnext = 0\<rparr>,
     modify (\<lambda>s. s\<lparr>bdisk := (bdisk s)(b := True)\<rparr>),
     modify (\<lambda>s. s\<lparr>info_b := (info_b s)(i0 := Some b)\<rparr>),
     modify (\<lambda>s. s\<lparr>avail_ring := (avail_ring s)(unat (avail_idx s mod of_nat NUM) := of_nat i0)\<rparr>),
     modify (\<lambda>s. s\<lparr>avail_idx := avail_idx s + 1\<rparr>),
     mmio_write 0x050 0]"

text \<open>\<^verbatim>\<open>virtio_disk_rw\<close> up to the wait for the device: the head of the chain, with the lock held.\<close>

definition virtio_disk_rw_start :: "nat \<Rightarrow> bool \<Rightarrow> ('z vdisk_state_scheme, nat) kern" where
  "virtio_disk_rw_start b write =
     bnd (gets (\<lambda>s. ucast (bblockno (bufs s b) * of_nat (BSIZE div 512)))) (\<lambda>sector.
     thn (acq LDisk)
     (bnd alloc3_desc (\<lambda>r.
       case r of
         Some [i0, i1, i2] \<Rightarrow> thn (submit b write sector i0 i1 i2) (ret i0)
       | _ \<Rightarrow> blocks)))"

text \<open>From the test \<^verbatim>\<open>while(b->disk == 1)\<close> on.\<close>

definition virtio_disk_rw_finish :: "nat \<Rightarrow> nat \<Rightarrow> ('z vdisk_state_scheme, unit) kern" where
  "virtio_disk_rw_finish b i0 =
     bnd (gets (\<lambda>s. bdisk s b)) (\<lambda>w.
       if w then blocks
       else seqs [
         modify (\<lambda>s. s\<lparr>info_b := (info_b s)(i0 := None)\<rparr>),
         free_chain i0,
         rel LDisk])"

text \<open>The loop of the interrupt handler; the number is \<^verbatim>\<open>disk.used->idx - disk.used_idx\<close>.\<close>

fun virtio_disk_intr_loop :: "nat \<Rightarrow> ('z vdisk_state_scheme, unit) kern" where
  "virtio_disk_intr_loop 0 = ret ()"
| "virtio_disk_intr_loop (Suc n) =
     bnd (gets (\<lambda>s. unat (used_ring s (unat (used_idx s mod of_nat NUM))))) (\<lambda>i.
       if i \<ge> NUM then undef ''disk.info[id]''
       else
         bnd (gets (\<lambda>s. (info_status s i, info_b s i))) (\<lambda>(st, b).
           if st \<noteq> 0 then panic ''virtio_disk_intr status''
           else
             case b of
               None \<Rightarrow> undef ''b->disk''
             | Some b \<Rightarrow> seqs [
                 modify (\<lambda>s. s\<lparr>bdisk := (bdisk s)(b := False)\<rparr>),
                 wakeup (ChDiskBuf b),
                 modify (\<lambda>s. s\<lparr>used_idx := used_idx s + 1\<rparr>),
                 virtio_disk_intr_loop n]))"

definition virtio_disk_intr :: "('z vdisk_state_scheme, unit) kern" where
  "virtio_disk_intr = seqs [
     acq LDisk,
     bnd (mmio_read 0x060) (\<lambda>v. mmio_write 0x064 (v AND 3)),
     bnd (gets (\<lambda>s. unat (used_idx_dev s - used_idx s))) virtio_disk_intr_loop,
     rel LDisk]"

end
