(* ===== verification/Trap.thy ===== *)
theory Trap
  imports Virtio
begin

text \<open>
  Control registers (\<^verbatim>\<open>kernel/riscv.h\<close>), the interrupt controller (\<^verbatim>\<open>kernel/plic.c\<close>), traps (\<^verbatim>\<open>kernel/trap.c\<close>) and the boot code
  (\<^verbatim>\<open>kernel/start.c\<close>, \<^verbatim>\<open>kernel/main.c\<close>). Each hart has its own control registers. The interrupt enable bit of \<^verbatim>\<open>sstatus\<close> is kept in the flag \<open>intr\<close> of
  theory \<open>Spinlock\<close>; the accessors of \<^verbatim>\<open>sstatus\<close> put the two together. Addresses of assembly code and of C functions come from the
  linker.
\<close>

section \<open>Control registers\<close>

datatype csr =
    Mhartid | Mstatus | Mepc | Sstatus | Sip | Sie | Mie | Sepc | Medeleg | Mideleg | Stvec | Mtvec
  | Pmpcfg0 | Pmpaddr0 | Satp | Mscratch | Scause | Stval | Mcounteren | Time | Tp

record trap_state = vdisk_state +
  csrs :: "nat \<Rightarrow> csr \<Rightarrow> uint64"
  plic_regs :: "uint64 \<Rightarrow> uint32"
  plic_pending :: "nat \<Rightarrow> uint32"      \<comment> \<open>what a read of the claim register of a hart gives\<close>
  clint :: "uint64 \<Rightarrow> uint64"
  timer_scratch :: "nat \<Rightarrow> nat \<Rightarrow> uint64"
  kernel_pagetable :: uint64
  started :: bool
  symbol :: "string \<Rightarrow> uint64"         \<comment> \<open>addresses given by the linker\<close>

definition r_csr :: "csr \<Rightarrow> ('z trap_state_scheme, uint64) kern" where
  "r_csr r = gets (\<lambda>s. csrs s (hart (kcore s)) r)"

definition w_csr :: "csr \<Rightarrow> uint64 \<Rightarrow> ('z trap_state_scheme, unit) kern" where
  "w_csr r v = modify (\<lambda>s. s\<lparr>csrs := (csrs s)(hart (kcore s) := (csrs s (hart (kcore s)))(r := v))\<rparr>)"

abbreviation (input) SSTATUS_SPP :: uint64 where "SSTATUS_SPP \<equiv> push_bit 8 1"
abbreviation (input) SSTATUS_SPIE :: uint64 where "SSTATUS_SPIE \<equiv> push_bit 5 1"
abbreviation (input) SSTATUS_SIE :: uint64 where "SSTATUS_SIE \<equiv> push_bit 1 1"
abbreviation (input) MSTATUS_MPP_MASK :: uint64 where "MSTATUS_MPP_MASK \<equiv> push_bit 11 3"
abbreviation (input) MSTATUS_MPP_S :: uint64 where "MSTATUS_MPP_S \<equiv> push_bit 11 1"
abbreviation (input) MSTATUS_MIE :: uint64 where "MSTATUS_MIE \<equiv> push_bit 3 1"
abbreviation (input) SIE_SEIE :: uint64 where "SIE_SEIE \<equiv> push_bit 9 1"
abbreviation (input) SIE_STIE :: uint64 where "SIE_STIE \<equiv> push_bit 5 1"
abbreviation (input) SIE_SSIE :: uint64 where "SIE_SSIE \<equiv> push_bit 1 1"
abbreviation (input) MIE_MTIE :: uint64 where "MIE_MTIE \<equiv> push_bit 7 1"

definition r_mhartid :: "('z trap_state_scheme, uint64) kern" where "r_mhartid = r_csr Mhartid"
definition r_mstatus :: "('z trap_state_scheme, uint64) kern" where "r_mstatus = r_csr Mstatus"
definition w_mstatus :: "uint64 \<Rightarrow> ('z trap_state_scheme, unit) kern" where "w_mstatus x = w_csr Mstatus x"
definition w_mepc :: "uint64 \<Rightarrow> ('z trap_state_scheme, unit) kern" where "w_mepc x = w_csr Mepc x"
definition r_sip :: "('z trap_state_scheme, uint64) kern" where "r_sip = r_csr Sip"
definition w_sip :: "uint64 \<Rightarrow> ('z trap_state_scheme, unit) kern" where "w_sip x = w_csr Sip x"
definition r_sie :: "('z trap_state_scheme, uint64) kern" where "r_sie = r_csr Sie"
definition w_sie :: "uint64 \<Rightarrow> ('z trap_state_scheme, unit) kern" where "w_sie x = w_csr Sie x"
definition r_mie :: "('z trap_state_scheme, uint64) kern" where "r_mie = r_csr Mie"
definition w_mie :: "uint64 \<Rightarrow> ('z trap_state_scheme, unit) kern" where "w_mie x = w_csr Mie x"
definition w_sepc :: "uint64 \<Rightarrow> ('z trap_state_scheme, unit) kern" where "w_sepc x = w_csr Sepc x"
definition r_sepc :: "('z trap_state_scheme, uint64) kern" where "r_sepc = r_csr Sepc"
definition w_medeleg :: "uint64 \<Rightarrow> ('z trap_state_scheme, unit) kern" where "w_medeleg x = w_csr Medeleg x"
definition w_mideleg :: "uint64 \<Rightarrow> ('z trap_state_scheme, unit) kern" where "w_mideleg x = w_csr Mideleg x"
definition w_stvec :: "uint64 \<Rightarrow> ('z trap_state_scheme, unit) kern" where "w_stvec x = w_csr Stvec x"
definition w_mtvec :: "uint64 \<Rightarrow> ('z trap_state_scheme, unit) kern" where "w_mtvec x = w_csr Mtvec x"
definition w_pmpcfg0 :: "uint64 \<Rightarrow> ('z trap_state_scheme, unit) kern" where "w_pmpcfg0 x = w_csr Pmpcfg0 x"
definition w_pmpaddr0 :: "uint64 \<Rightarrow> ('z trap_state_scheme, unit) kern" where "w_pmpaddr0 x = w_csr Pmpaddr0 x"
definition w_satp :: "uint64 \<Rightarrow> ('z trap_state_scheme, unit) kern" where "w_satp x = w_csr Satp x"
definition r_satp :: "('z trap_state_scheme, uint64) kern" where "r_satp = r_csr Satp"
definition w_mscratch :: "uint64 \<Rightarrow> ('z trap_state_scheme, unit) kern" where "w_mscratch x = w_csr Mscratch x"
definition r_scause :: "('z trap_state_scheme, uint64) kern" where "r_scause = r_csr Scause"
definition r_stval :: "('z trap_state_scheme, uint64) kern" where "r_stval = r_csr Stval"
definition w_tp :: "uint64 \<Rightarrow> ('z trap_state_scheme, unit) kern" where "w_tp x = w_csr Tp x"
definition r_tp :: "('z trap_state_scheme, uint64) kern" where "r_tp = r_csr Tp"

definition r_sstatus :: "('z trap_state_scheme, uint64) kern" where
  "r_sstatus = bnd (r_csr Sstatus) (\<lambda>x.
     gets (\<lambda>s. if intr_get (kcore s) then x OR SSTATUS_SIE else x AND NOT SSTATUS_SIE))"

definition w_sstatus :: "uint64 \<Rightarrow> ('z trap_state_scheme, unit) kern" where
  "w_sstatus x = seqs [
     w_csr Sstatus x,
     on_core (\<lambda>c. Ok (if x AND SSTATUS_SIE \<noteq> 0 then intr_on c else intr_off c))]"

definition MAKE_SATP :: "uint64 \<Rightarrow> uint64" where
  "MAKE_SATP pt = push_bit 60 8 OR drop_bit 12 pt"

definition cpuid :: "('z trap_state_scheme, nat) kern" where
  "cpuid = bnd r_tp (\<lambda>x. ret (unat x))"

section \<open>The interrupt controller\<close>

abbreviation (input) UART0_IRQ :: uint32 where "UART0_IRQ \<equiv> 10"
abbreviation (input) VIRTIO0_IRQ :: uint32 where "VIRTIO0_IRQ \<equiv> 1"

definition PLIC_SENABLE :: "nat \<Rightarrow> uint64" where "PLIC_SENABLE h = PLIC + 0x2080 + of_nat h * 0x100"
definition PLIC_SPRIORITY :: "nat \<Rightarrow> uint64" where "PLIC_SPRIORITY h = PLIC + 0x201000 + of_nat h * 0x2000"
definition PLIC_SCLAIM :: "nat \<Rightarrow> uint64" where "PLIC_SCLAIM h = PLIC + 0x201004 + of_nat h * 0x2000"

definition plic_write :: "uint64 \<Rightarrow> uint32 \<Rightarrow> ('z trap_state_scheme, unit) kern" where
  "plic_write a v = modify (\<lambda>s. s\<lparr>plic_regs := (plic_regs s)(a := v)\<rparr>)"

definition plicinit :: "('z trap_state_scheme, unit) kern" where
  "plicinit = seqs [
     plic_write (PLIC + ucast UART0_IRQ * 4) 1,
     plic_write (PLIC + ucast VIRTIO0_IRQ * 4) 1]"

definition plicinithart :: "('z trap_state_scheme, unit) kern" where
  "plicinithart =
     bnd cpuid (\<lambda>h. seqs [
       plic_write (PLIC_SENABLE h) (push_bit 10 1 OR push_bit 1 1),
       plic_write (PLIC_SPRIORITY h) 0])"

definition plic_claim :: "('z trap_state_scheme, uint32) kern" where
  "plic_claim = bnd cpuid (\<lambda>h. gets (\<lambda>s. plic_pending s h))"

definition plic_complete :: "uint32 \<Rightarrow> ('z trap_state_scheme, unit) kern" where
  "plic_complete irq = bnd cpuid (\<lambda>h. plic_write (PLIC_SCLAIM h) irq)"

section \<open>Traps\<close>

definition trapinit :: "('z trap_state_scheme, unit) kern" where
  "trapinit = on_core (\<lambda>c. Ok (initlock LTicks c))"

definition trapinithart :: "('z trap_state_scheme, unit) kern" where
  "trapinithart = bnd (gets (\<lambda>s. symbol s ''kernelvec'')) w_stvec"

definition clockintr :: "('z trap_state_scheme, unit) kern" where
  "clockintr = seqs [
     acq LTicks,
     modify (\<lambda>s. s\<lparr>ticks := ticks s + 1\<rparr>),
     wakeup ChTicks,
     rel LTicks]"

definition devintr_external :: "('z trap_state_scheme, unit) kern" where
  "devintr_external =
     bnd plic_claim (\<lambda>irq. seqs [
       (if irq = UART0_IRQ then uartintr
        else if irq = VIRTIO0_IRQ then virtio_disk_intr
        else whenb (irq \<noteq> 0) (printf (bytes ''unexpected interrupt irq=%d'' @ [10]) [VInt irq])),
       whenb (irq \<noteq> 0) (plic_complete irq)])"

definition devintr :: "('z trap_state_scheme, int) kern" where
  "devintr =
     bnd r_scause (\<lambda>scause.
       if scause AND 0x8000000000000000 \<noteq> 0 \<and> scause AND 0xff = 9 then thn devintr_external (ret 1)
       else if scause = 0x8000000000000001 then
         bnd cpuid (\<lambda>h.
         thn (whenb (h = 0) clockintr)
         (bnd r_sip (\<lambda>x.
          thn (w_sip (x AND NOT 2)) (ret 2))))
       else ret 0)"

text \<open>What \<^verbatim>\<open>usertrap\<close> comes to: it exits, it gives up the CPU before it returns, or it returns to user space.\<close>

datatype trap_end = TExit bool | TYield | TReturn

definition usertrap_end :: "nat \<Rightarrow> int \<Rightarrow> ('z trap_state_scheme, trap_end) kern" where
  "usertrap_end p which_dev =
     bnd (is_killed p) (\<lambda>k.
       if k \<noteq> 0 then bnd (exit (-1)) (\<lambda>b. ret (TExit b))
       else ret (if which_dev = 2 then TYield else TReturn))"

definition usertrap_syscall :: "nat \<Rightarrow> ('z trap_state_scheme, trap_end) kern" where
  "usertrap_syscall p =
     bnd (is_killed p) (\<lambda>k.
       if k \<noteq> 0 then bnd (exit (-1)) (\<lambda>b. ret (TExit b))
       else
         bnd (tf_get p TF_epc) (\<lambda>epc.
         thn (seqs [tf_set p TF_epc (epc + 4), on_core (\<lambda>c. Ok (intr_on c))])
         (bnd syscall (\<lambda>r.
           case r of
             Some b \<Rightarrow> ret (TExit b)
           | None \<Rightarrow> usertrap_end p 0))))"

definition usertrap :: "('z trap_state_scheme, trap_end) kern" where
  "usertrap =
     bnd r_sstatus (\<lambda>x.
       if x AND SSTATUS_SPP \<noteq> 0 then panic ''usertrap: not from user mode''
       else
         thn (bnd (gets (\<lambda>s. symbol s ''kernelvec'')) w_stvec)
         (bnd curproc (\<lambda>p.
          bnd r_sepc (\<lambda>pc.
          thn (tf_set p TF_epc pc)
          (bnd r_scause (\<lambda>scause.
            if scause = 8 then usertrap_syscall p
            else
              bnd devintr (\<lambda>which_dev.
                if which_dev \<noteq> 0 then usertrap_end p which_dev
                else
                  bnd (gets (\<lambda>s. pid (procs s p))) (\<lambda>i.
                  bnd r_stval (\<lambda>v.
                  thn (seqs [
                    printf (bytes ''usertrap(): unexpected scause %p pid=%d'' @ [10]) [VPtr scause, VInt (word_of_int i)],
                    printf (bytes ''            sepc=%p stval=%p'' @ [10]) [VPtr pc, VPtr v],
                    setkilled p])
                  (usertrap_end p 0))))))))))"

text \<open>\<^verbatim>\<open>usertrapret\<close>: the page table to switch to and the address of \<^verbatim>\<open>userret\<close> that it jumps to.\<close>

definition usertrapret :: "('z trap_state_scheme, uint64 \<times> uint64) kern" where
  "usertrapret =
     bnd curproc (\<lambda>p.
     thn (on_core (\<lambda>c. Ok (intr_off c)))
     (bnd (gets symbol) (\<lambda>sym.
      thn (w_stvec (TRAMPOLINE + (sym ''uservec'' - sym ''trampoline'')))
      (bnd r_satp (\<lambda>satp.
       bnd r_tp (\<lambda>tp.
       bnd (gets (\<lambda>s. procs s p)) (\<lambda>k.
       thn (seqs [
         tf_set p TF_kernel_satp satp,
         tf_set p TF_kernel_sp (kstack k + PGSIZE),
         tf_set p TF_kernel_trap (sym ''usertrap''),
         tf_set p TF_kernel_hartid tp])
       (bnd r_sstatus (\<lambda>x.
        thn (w_sstatus (x AND NOT SSTATUS_SPP OR SSTATUS_SPIE))
        (bnd (tf_get p TF_epc) (\<lambda>epc.
         thn (w_sepc epc)
         (ret (MAKE_SATP (pagetable k), TRAMPOLINE + (sym ''userret'' - sym ''trampoline''))))))))))))))"

text \<open>\<^verbatim>\<open>kerneltrap\<close> up to its \<^verbatim>\<open>yield\<close>, if it makes one; then the restoring of the registers.\<close>

definition kerneltrap_enter :: "('z trap_state_scheme, bool \<times> uint64 \<times> uint64) kern" where
  "kerneltrap_enter =
     bnd r_sepc (\<lambda>sepc.
     bnd r_sstatus (\<lambda>sstatus.
     bnd r_scause (\<lambda>scause.
       if sstatus AND SSTATUS_SPP = 0 then panic ''kerneltrap: not from supervisor mode''
       else
         bnd (gets (\<lambda>s. intr_get (kcore s))) (\<lambda>on.
           if on then panic ''kerneltrap: interrupts enabled''
           else
             bnd devintr (\<lambda>which_dev.
               if which_dev = 0 then
                 bnd r_stval (\<lambda>v.
                 thn (seqs [
                   printf (bytes ''scause %p'' @ [10]) [VPtr scause],
                   printf (bytes ''sepc=%p stval=%p'' @ [10]) [VPtr sepc, VPtr v]])
                 (panic ''kerneltrap''))
               else
                 bnd myproc (\<lambda>me.
                 bnd (gets (\<lambda>s. which_dev = 2 \<and> (case me of None \<Rightarrow> False | Some p \<Rightarrow> pstate (procs s p) = RUNNING))) (\<lambda>y.
                 ret (y, sepc, sstatus))))))))"

definition kerneltrap_leave :: "uint64 \<Rightarrow> uint64 \<Rightarrow> ('z trap_state_scheme, unit) kern" where
  "kerneltrap_leave sepc sstatus = seqs [w_sepc sepc, w_sstatus sstatus]"

section \<open>Boot\<close>

definition CLINT :: uint64 where "CLINT = 0x2000000"
definition CLINT_MTIMECMP :: "uint64 \<Rightarrow> uint64" where "CLINT_MTIMECMP h = CLINT + 0x4000 + 8 * h"
definition CLINT_MTIME :: uint64 where "CLINT_MTIME = CLINT + 0xBFF8"

definition timerinit :: "('z trap_state_scheme, unit) kern" where
  "timerinit =
     bnd r_mhartid (\<lambda>i.
     thn (seqs [
       modify (\<lambda>s. s\<lparr>clint := (clint s)(CLINT_MTIMECMP i := clint s CLINT_MTIME + 1000000)\<rparr>),
       modify (\<lambda>s. s\<lparr>timer_scratch := (timer_scratch s)(unat i :=
         (timer_scratch s (unat i))(3 := CLINT_MTIMECMP i, 4 := 1000000))\<rparr>),
       bnd (gets (\<lambda>s. symbol s ''timer_scratch'' + 40 * i)) w_mscratch,
       bnd (gets (\<lambda>s. symbol s ''timervec'')) w_mtvec])
     (bnd r_mstatus (\<lambda>x.
      thn (w_mstatus (x OR MSTATUS_MIE))
      (bnd r_mie (\<lambda>y. w_mie (y OR MIE_MTIE))))))"

text \<open>\<^verbatim>\<open>start\<close>, up to the instruction \<^verbatim>\<open>mret\<close>.\<close>

definition start :: "('z trap_state_scheme, unit) kern" where
  "start =
     bnd r_mstatus (\<lambda>x.
     thn (seqs [
       w_mstatus (x AND NOT MSTATUS_MPP_MASK OR MSTATUS_MPP_S),
       bnd (gets (\<lambda>s. symbol s ''main'')) w_mepc,
       w_satp 0,
       w_medeleg 0xffff,
       w_mideleg 0xffff,
       bnd r_sie (\<lambda>y. w_sie (y OR SIE_SEIE OR SIE_STIE OR SIE_SSIE)),
       w_pmpaddr0 0x3fffffffffffff,
       w_pmpcfg0 0xf,
       timerinit])
     (bnd r_mhartid w_tp))"

definition kvminit :: "('z trap_state_scheme, unit) kern" where
  "kvminit =
     bnd (gets symbol) (\<lambda>sym.
     bnd (kvmmake (sym ''etext'') (sym ''trampoline'')) (\<lambda>pt.
     modify (\<lambda>s. s\<lparr>kernel_pagetable := pt\<rparr>)))"

definition kvminithart :: "('z trap_state_scheme, unit) kern" where
  "kvminithart = bnd (gets kernel_pagetable) (\<lambda>pt. w_satp (MAKE_SATP pt))"

text \<open>\<^verbatim>\<open>consoleinit\<close> with the two assignments to \<^verbatim>\<open>devsw[CONSOLE]\<close>.\<close>

definition console_setup :: "('z trap_state_scheme, unit) kern" where
  "console_setup = seqs [consoleinit, modify (\<lambda>s. s\<lparr>devsw := (devsw s)(1 := True)\<rparr>)]"

text \<open>\<^verbatim>\<open>main\<close>, up to the call of \<^verbatim>\<open>scheduler\<close>.\<close>

definition main_boot :: "('z trap_state_scheme, unit) kern" where
  "main_boot = seqs [
     console_setup,
     printfinit,
     printf [10] [],
     printf (bytes ''xv6 kernel is booting'' @ [10]) [],
     printf [10] [],
     kinit,
     kvminit,
     kvminithart,
     procinit,
     trapinit,
     trapinithart,
     plicinit,
     plicinithart,
     binit,
     iinit,
     fileinit,
     virtio_disk_init,
     userinit,
     modify (\<lambda>s. s\<lparr>started := True\<rparr>)]"

definition main :: "('z trap_state_scheme, unit) kern" where
  "main =
     bnd cpuid (\<lambda>h.
       if h = 0 then main_boot
       else
         bnd (gets started) (\<lambda>go.
           if \<not> go then blocks
           else seqs [
             printf (bytes ''hart %d starting'' @ [10]) [VInt (of_nat h)],
             kvminithart,
             trapinithart,
             plicinithart]))"

end
