(* ===== verification/Ulib.thy ===== *)
theory Ulib
  imports Kstring
begin

text \<open>
  The user library: \<^verbatim>\<open>user/ulib.c\<close> and \<^verbatim>\<open>user/printf.c\<close>. Routines on raw memory work on the bytes of the process;
  a routine that runs to a zero byte is a partial function. The routines that call the kernel work on a \<open>uworld\<close>: what
  the process sees of the system through its calls. \<open>uinput\<close> holds, for each open descriptor, what successive calls
  of \<^verbatim>\<open>read\<close> deliver (a call takes at most the bytes it asks for, the rest of a delivery stays; an empty
  delivery is an end of file), \<open>uout\<close> the bytes written, in order. Names that the kernel also has carry the suffix \<open>_u\<close>.
  An \<^verbatim>\<open>int\<close> of C is a 32-bit word.
\<close>

section \<open>Strings and memory\<close>

partial_function (option) strcpy :: "phys \<Rightarrow> uint64 \<Rightarrow> uint64 \<Rightarrow> phys option" where
  "strcpy m s t =
     (let m' = m(s := m t) in
      if m t \<noteq> 0 then strcpy m' (s + 1) (t + 1) else Some m')"

partial_function (option) strcmp :: "phys \<Rightarrow> uint64 \<Rightarrow> uint64 \<Rightarrow> int option" where
  "strcmp m p q =
     (if m p \<noteq> 0 \<and> m p = m q then strcmp m (p + 1) (q + 1) else Some (uint (m p) - uint (m q)))"

partial_function (option) strlen_u :: "phys \<Rightarrow> uint64 \<Rightarrow> nat \<Rightarrow> nat option" where
  "strlen_u m s n = (if m (s + of_nat n) \<noteq> 0 then strlen_u m s (n + 1) else Some n)"

fun memset_u :: "phys \<Rightarrow> uint64 \<Rightarrow> uchar \<Rightarrow> nat \<Rightarrow> phys" where
  "memset_u m dst c 0 = m"
| "memset_u m dst c (Suc n) = memset_u (m(dst := c)) (dst + 1) c n"

text \<open>On a C string given by its bytes: the position of the first \<open>c\<close>.\<close>

fun strchr :: "uchar list \<Rightarrow> uchar \<Rightarrow> nat option" where
  "strchr [] c = None"
| "strchr (x # xs) c = (if x = c then Some 0 else map_option Suc (strchr xs c))"

fun atoi_loop :: "uint32 \<Rightarrow> uchar list \<Rightarrow> uint32" where
  "atoi_loop n [] = n"
| "atoi_loop n (c # s) =
     (if 48 \<le> c \<and> c \<le> 57 then atoi_loop (n * 10 + ucast c - 48) s else n)"

definition atoi :: "uchar list \<Rightarrow> uint32" where
  "atoi s = atoi_loop 0 s"

definition memmove_u :: "phys \<Rightarrow> uint64 \<Rightarrow> uint64 \<Rightarrow> nat \<Rightarrow> phys" where
  "memmove_u m vdst vsrc n =
     (if vsrc > vdst then move_up m vdst vsrc n
      else move_down m (vdst + of_nat n) (vsrc + of_nat n) n)"

fun memcmp_u :: "phys \<Rightarrow> uint64 \<Rightarrow> uint64 \<Rightarrow> nat \<Rightarrow> int" where
  "memcmp_u m s1 s2 0 = 0"
| "memcmp_u m s1 s2 (Suc n) =
     (if m s1 \<noteq> m s2 then uint (m s1) - uint (m s2) else memcmp_u m (s1 + 1) (s2 + 1) n)"

definition memcpy_u :: "phys \<Rightarrow> uint64 \<Rightarrow> uint64 \<Rightarrow> nat \<Rightarrow> phys" where
  "memcpy_u m dst src n = memmove_u m dst src n"

section \<open>System calls as a program sees them\<close>

record uworld =
  ufiles :: "uchar list \<Rightarrow> uchar list list option"
  uinput :: "nat \<Rightarrow> uchar list list option"
  uout :: "(nat \<times> uchar list) list"
  ubroken :: "nat \<Rightarrow> bool"

definition u_read :: "nat \<Rightarrow> nat \<Rightarrow> uworld \<Rightarrow> (uchar list option) \<times> uworld" where
  "u_read fd n w =
     (case uinput w fd of
        None \<Rightarrow> (None, w)
      | Some [] \<Rightarrow> (Some [], w)
      | Some (d # ds) \<Rightarrow>
          (Some (take n d), w\<lparr>uinput := (uinput w)(fd \<mapsto> (if n < length d then drop n d # ds else ds))\<rparr>))"

definition u_write :: "nat \<Rightarrow> uchar list \<Rightarrow> uworld \<Rightarrow> int \<times> uworld" where
  "u_write fd bs w =
     (if ubroken w fd then (-1, w) else (int (length bs), w\<lparr>uout := uout w @ [(fd, bs)]\<rparr>))"

definition u_open :: "uchar list \<Rightarrow> uworld \<Rightarrow> nat option \<times> uworld" where
  "u_open path w =
     (case (ufiles w path, find (\<lambda>fd. uinput w fd = None) [0..<16]) of
        (Some ds, Some fd) \<Rightarrow> (Some fd, w\<lparr>uinput := (uinput w)(fd \<mapsto> ds)\<rparr>)
      | _ \<Rightarrow> (None, w))"

definition u_close :: "nat \<Rightarrow> uworld \<Rightarrow> uworld" where
  "u_close fd w = w\<lparr>uinput := (uinput w)(fd := None)\<rparr>"

text \<open>\<^verbatim>\<open>gets(buf, max)\<close>: the bytes before the zero it stores; \<open>n\<close> is the room that is left.\<close>

fun gets_loop :: "nat \<Rightarrow> uworld \<Rightarrow> uchar list \<times> uworld" where
  "gets_loop 0 w = ([], w)"
| "gets_loop (Suc n) w =
     (case u_read 0 1 w of
        (Some [c], w') \<Rightarrow>
          if c = 10 \<or> c = 13 then ([c], w')
          else let (cs, w'') = gets_loop n w' in (c # cs, w'')
      | (_, w') \<Rightarrow> ([], w'))"

definition gets_u :: "nat \<Rightarrow> uworld \<Rightarrow> uchar list \<times> uworld" where
  "gets_u mx w = gets_loop (mx - 1) w"

section \<open>Formatted output\<close>

definition putc :: "nat \<Rightarrow> uchar \<Rightarrow> uworld \<Rightarrow> uworld" where
  "putc fd c w = snd (u_write fd [c] w)"

definition digits_u :: "uchar list" where
  "digits_u = map of_char ''0123456789ABCDEF''"

text \<open>The loop that fills \<^verbatim>\<open>buf\<close>, least significant digit first.\<close>

function printint_buf :: "uint32 \<Rightarrow> uint32 \<Rightarrow> uchar list" where
  "printint_buf x b =
     digits_u ! unat (x mod b) # (if x div b \<noteq> 0 \<and> b > 1 then printint_buf (x div b) b else [])"
  by pat_completeness auto
termination
proof (relation "measure (\<lambda>(x, b). unat x)")
  fix x b :: uint32
  assume "x div b \<noteq> 0 \<and> b > 1"
  then have "1 < unat b" "unat (x div b) \<noteq> 0"
    by (auto simp: word_less_nat_alt unat_eq_0)
  then have "unat x div unat b < unat x" by (intro div_less_dividend) (auto simp: unat_div intro!: Nat.gr0I)
  then show "((x div b, b), x, b) \<in> measure (\<lambda>(x, b). unat x)" by (simp add: unat_div)
qed simp

declare printint_buf.simps [simp del]

text \<open>The contents of \<^verbatim>\<open>buf\<close> before it is written out from its end.\<close>

definition printint_all :: "uint32 \<Rightarrow> uint32 \<Rightarrow> bool \<Rightarrow> uchar list" where
  "printint_all xx b signd =
     (let neg = signd \<and> sint xx < 0;
          x = (if neg then - xx else xx)
      in printint_buf x b @ (if neg then [45] else []))"

definition printint_u :: "nat \<Rightarrow> uint32 \<Rightarrow> uint32 \<Rightarrow> bool \<Rightarrow> uworld \<Rightarrow> uworld" where
  "printint_u fd xx b signd w = fold (putc fd) (rev (printint_all xx b signd)) w"

fun printptr_loop :: "nat \<Rightarrow> nat \<Rightarrow> uint64 \<Rightarrow> uworld \<Rightarrow> uworld" where
  "printptr_loop fd 0 x w = w"
| "printptr_loop fd (Suc n) x w =
     printptr_loop fd n (push_bit 4 x) (putc fd (digits_u ! unat (drop_bit 60 x)) w)"

definition printptr_u :: "nat \<Rightarrow> uint64 \<Rightarrow> uworld \<Rightarrow> uworld" where
  "printptr_u fd x w = printptr_loop fd 16 x (putc fd 120 (putc fd 48 w))"

text \<open>The variable arguments; taking one that is not there is undefined and ends the model of the call.\<close>

datatype uarg = UWord uint64 | UString "uchar list option"

fun vprintf :: "nat \<Rightarrow> bool \<Rightarrow> uchar list \<Rightarrow> uarg list \<Rightarrow> uworld \<Rightarrow> uworld option" where
  "vprintf fd st [] ap w = Some w"
| "vprintf fd st (c # fmt) ap w =
     (if \<not> st then
        if c = of_char (CHR ''%'') then vprintf fd True fmt ap w
        else vprintf fd False fmt ap (putc fd c w)
      else if c = of_char (CHR ''d'') then
        (case ap of UWord x # as \<Rightarrow> vprintf fd False fmt as (printint_u fd (ucast x) 10 True w) | _ \<Rightarrow> None)
      else if c = of_char (CHR ''l'') then
        (case ap of UWord x # as \<Rightarrow> vprintf fd False fmt as (printint_u fd (ucast x) 10 False w) | _ \<Rightarrow> None)
      else if c = of_char (CHR ''x'') then
        (case ap of UWord x # as \<Rightarrow> vprintf fd False fmt as (printint_u fd (ucast x) 16 False w) | _ \<Rightarrow> None)
      else if c = of_char (CHR ''p'') then
        (case ap of UWord x # as \<Rightarrow> vprintf fd False fmt as (printptr_u fd x w) | _ \<Rightarrow> None)
      else if c = of_char (CHR ''s'') then
        (case ap of
           UString x # as \<Rightarrow>
             vprintf fd False fmt as
               (fold (putc fd) (case x of None \<Rightarrow> map of_char ''(null)'' | Some t \<Rightarrow> t) w)
         | _ \<Rightarrow> None)
      else if c = of_char (CHR ''c'') then
        (case ap of UWord x # as \<Rightarrow> vprintf fd False fmt as (putc fd (ucast x) w) | _ \<Rightarrow> None)
      else if c = of_char (CHR ''%'') then vprintf fd False fmt ap (putc fd c w)
      else vprintf fd False fmt ap (putc fd c (putc fd (of_char (CHR ''%'')) w)))"

definition fprintf :: "nat \<Rightarrow> uchar list \<Rightarrow> uarg list \<Rightarrow> uworld \<Rightarrow> uworld option" where
  "fprintf fd fmt ap w = vprintf fd False fmt ap w"

definition printf_u :: "uchar list \<Rightarrow> uarg list \<Rightarrow> uworld \<Rightarrow> uworld option" where
  "printf_u fmt ap w = vprintf 1 False fmt ap w"

section \<open>Numbers in decimal\<close>

lemma digits_u_value:
  assumes "x < (10 :: uint32)"
  shows "48 \<le> digits_u ! unat x \<and> digits_u ! unat x \<le> 57 \<and> ucast (digits_u ! unat x) - 48 = x"
proof -
  have "unat x < 10" using assms by (simp add: word_less_nat_alt)
  then have "unat x \<in> {0, 1, 2, 3, 4, 5, 6, 7, 8, 9}" by auto
  then have "x \<in> {0, 1, 2, 3, 4, 5, 6, 7, 8, 9}" by (auto simp: word_unat_eq_iff)
  then show ?thesis by (auto simp: digits_u_def)
qed

definition is_digit :: "uchar \<Rightarrow> bool" where
  "is_digit c \<longleftrightarrow> 48 \<le> c \<and> c \<le> 57"

lemma atoi_loop_snoc:
  "list_all is_digit xs \<Longrightarrow> is_digit c \<Longrightarrow> atoi_loop n (xs @ [c]) = atoi_loop n xs * 10 + ucast c - 48"
  by (induction xs arbitrary: n) (auto simp: is_digit_def)

lemma printint_buf_digits: "list_all is_digit (printint_buf x 10)"
proof (induction x "10 :: uint32" rule: printint_buf.induct)
  case (1 x)
  have "x mod 10 < 10" by (rule word_mod_less_divisor) simp
  then have "is_digit (digits_u ! unat (x mod 10))" using digits_u_value[of "x mod 10"] by (simp add: is_digit_def)
  then show ?case using 1 by (subst printint_buf.simps) auto
qed

lemma atoi_printint_buf: "atoi_loop 0 (rev (printint_buf x 10)) = x"
proof (induction x "10 :: uint32" rule: printint_buf.induct)
  case (1 x)
  have "x mod 10 < 10" by (rule word_mod_less_divisor) simp
  note v = digits_u_value[OF this]
  have "atoi_loop 0 (rev (printint_buf x 10)) = (x div 10) * 10 + (x mod 10)"
  proof (cases "x div 10 = 0")
    case True
    then show ?thesis using v by (subst printint_buf.simps) simp
  next
    case False
    have eq: "rev (printint_buf x 10) = rev (printint_buf (x div 10) 10) @ [digits_u ! unat (x mod 10)]"
      using False by (subst printint_buf.simps) simp
    have "list_all is_digit (rev (printint_buf (x div 10) 10))"
      using printint_buf_digits[of "x div 10"] by (simp add: list_all_iff)
    then have "atoi_loop 0 (rev (printint_buf x 10)) = (x div 10) * 10 + (ucast (digits_u ! unat (x mod 10)) - 48)"
      unfolding eq using v 1 False by (subst atoi_loop_snoc) (simp_all add: is_digit_def)
    then show ?thesis using v by simp
  qed
  then show ?case by (metis div_mult_mod_eq)
qed

lemma printint_buf_length:
  assumes "1 < b" "unat x < unat b ^ Suc k"
  shows "length (printint_buf x b) \<le> Suc k"
  using assms(2)
proof (induction k arbitrary: x)
  case 0
  then have "x div b = 0" by (simp add: word_unat_eq_iff unat_div)
  then show ?case by (subst printint_buf.simps) simp
next
  case (Suc k)
  have "0 < unat b" using assms(1) by (simp add: word_less_nat_alt)
  then have "unat (x div b) < unat b ^ Suc k" using Suc.prems
    by (simp add: unat_div div_less_iff_less_mult mult.commute mult.left_commute)
  then have "length (printint_buf (x div b) b) \<le> Suc k" by (rule Suc.IH)
  then show ?case by (subst printint_buf.simps) simp
qed

lemma printint_all_length:
  "length (printint_all x 10 signd) \<le> 11" "length (printint_all x 16 signd) \<le> 9"
proof -
  have "unat y < 4294967296" for y :: uint32 using unsigned_less[of y, where 'a = nat] by simp
  then have "unat y < 10 ^ Suc 9" "unat y < 16 ^ Suc 7" for y :: uint32
    using less_trans[of "unat y" 4294967296] by (simp_all add: less_trans)
  then have "length (printint_buf y 10) \<le> 10" "length (printint_buf y 16) \<le> 8" for y
    using printint_buf_length[of 10 y 9] printint_buf_length[of 16 y 7] by simp_all
  note this[of x] this[of "- x"]
  then show "length (printint_all x 10 signd) \<le> 11" "length (printint_all x 16 signd) \<le> 9"
    by (simp_all add: printint_all_def Let_def)
qed

section \<open>Properties\<close>

text \<open>
  Printing and reading numbers. What \<^verbatim>\<open>printint\<close> of the user library writes for an unsigned number in
  decimal, \<^verbatim>\<open>atoi\<close> reads back as the same number, for every 32-bit value; a negative number is a minus sign and the
  digits of its negation (the smallest \<^verbatim>\<open>int\<close> included); and the digits with the sign fit in the 16
  bytes of the buffer, in decimal and in hexadecimal.
\<close>

theorem atoi_printint:
  "atoi (rev (printint_all x 10 False)) = x \<and>
   rev (printint_all x 10 True) =
     (if sint x < 0 then 45 # rev (printint_all (- x) 10 False) else rev (printint_all x 10 False)) \<and>
   length (printint_all x 10 signd) \<le> 16 \<and> length (printint_all x 16 signd) \<le> 16"
  using printint_all_length[of x signd] atoi_printint_buf[of x]
  by (auto simp: printint_all_def atoi_def)

end
