(* ===== verification/Grep.thy ===== *)
theory Grep
  imports Ulib
begin

text \<open>
  \<^verbatim>\<open>user/grep.c\<close>: the pattern matcher of Kernighan and Pike, and the loop that reads a file into a buffer of 1024
  bytes and writes the lines that match. Patterns and lines are C strings, lists of bytes without the final zero. The
  lemmas give the matcher its meaning as a regular language, and the loop its meaning on the lines of the file.
\<close>

section \<open>The matcher\<close>

abbreviation "dot \<equiv> (46 :: uchar)"
abbreviation "star \<equiv> (42 :: uchar)"
abbreviation "dollar \<equiv> (36 :: uchar)"
abbreviation "caret \<equiv> (94 :: uchar)"

function matchhere :: "uchar list \<Rightarrow> uchar list \<Rightarrow> bool"
  and matchstar :: "uchar \<Rightarrow> uchar list \<Rightarrow> uchar list \<Rightarrow> bool" where
  "matchhere re text =
     (case re of
        [] \<Rightarrow> True
      | c # re1 \<Rightarrow>
          if re1 \<noteq> [] \<and> hd re1 = star then matchstar c (tl re1) text
          else if c = dollar \<and> re1 = [] then text = []
          else
            case text of
              [] \<Rightarrow> False
            | t # text1 \<Rightarrow> (c = dot \<or> c = t) \<and> matchhere re1 text1)"
| "matchstar c re text =
     (matchhere re text \<or>
      (case text of [] \<Rightarrow> False | t # text1 \<Rightarrow> (t = c \<or> c = dot) \<and> matchstar c re text1))"
  by pat_completeness auto
termination
  by (relation "measure (\<lambda>x. case x of Inl (re, text) \<Rightarrow> 2 * (length re + length text)
        | Inr (c, re, text) \<Rightarrow> 2 * (length re + length text) + 1)")
     (auto simp: neq_Nil_conv)

declare matchhere.simps [simp del] matchstar.simps [simp del]

fun match_from :: "uchar list \<Rightarrow> uchar list \<Rightarrow> bool" where
  "match_from re [] = matchhere re []"
| "match_from re (t # text) = (matchhere re (t # text) \<or> match_from re text)"

definition match :: "uchar list \<Rightarrow> uchar list \<Rightarrow> bool" where
  "match re text =
     (case re of
        [] \<Rightarrow> match_from re text
      | c # re1 \<Rightarrow> if c = caret then matchhere re1 text else match_from re text)"

section \<open>The program\<close>

text \<open>The inner loop over the complete lines of the buffer; the result is what stays in it.\<close>

function grep_lines :: "uchar list \<Rightarrow> uchar list \<Rightarrow> uworld \<Rightarrow> uchar list \<times> uworld" where
  "grep_lines pattern p w =
     (case strchr (cstr p) 10 of
        None \<Rightarrow> (p, w)
      | Some q \<Rightarrow>
          grep_lines pattern (drop (q + 1) p)
            (if match pattern (take q p) then snd (u_write 1 (take (q + 1) p) w) else w))"
  by pat_completeness auto
termination
  by (relation "measure (\<lambda>(pattern, p, w). length p)") (simp, rename_tac p w q, case_tac p, auto)

declare grep_lines.simps [simp del]

lemma u_write_input [simp]: "uinput (snd (u_write fd bs w)) = uinput w"
  by (simp add: u_write_def)

lemma grep_lines_input: "uinput (snd (grep_lines pattern p w)) = uinput w"
  by (induction pattern p w rule: grep_lines.induct) (subst grep_lines.simps, auto split: option.splits)

definition pending :: "uworld \<Rightarrow> nat \<Rightarrow> nat" where
  "pending w fd = (case uinput w fd of None \<Rightarrow> 0 | Some ds \<Rightarrow> sum_list (map (\<lambda>d. Suc (length d)) ds))"

lemma u_read_pending: "u_read fd n w = (Some (x # xs), w') \<Longrightarrow> pending w' fd < pending w fd"
  by (cases n) (auto simp: u_read_def pending_def split: option.splits list.splits if_splits)

lemma grep_step_pending:
  "(p, w2) = grep_lines pattern bs w1 \<Longrightarrow> (Some (x # xs), w1) = u_read fd n w \<Longrightarrow> pending w2 fd < pending w fd"
  using u_read_pending[of fd n w x xs w1] grep_lines_input[of pattern bs w1]
  by (cases "grep_lines pattern bs w1") (auto simp: pending_def)

function grep_loop :: "uchar list \<Rightarrow> nat \<Rightarrow> uchar list \<Rightarrow> uworld \<Rightarrow> uworld" where
  "grep_loop pattern fd buf w =
     (case u_read fd (1023 - length buf) w of
        (Some (x # xs), w1) \<Rightarrow>
          (let (p, w2) = grep_lines pattern (buf @ x # xs) w1 in grep_loop pattern fd p w2)
      | (_, w1) \<Rightarrow> w1)"
  by pat_completeness auto
termination
  by (relation "measure (\<lambda>(pattern, fd, buf, w). pending w fd)") (auto split: prod.splits dest: grep_step_pending[OF sym])

declare grep_loop.simps [simp del]

definition grep :: "uchar list \<Rightarrow> nat \<Rightarrow> uworld \<Rightarrow> uworld" where
  "grep pattern fd w = grep_loop pattern fd [] w"

fun grep_files :: "uchar list \<Rightarrow> uchar list list \<Rightarrow> uworld \<Rightarrow> int \<times> uworld" where
  "grep_files pattern [] w = (0, w)"
| "grep_files pattern (f # fs) w =
     (case u_open f w of
        (None, w1) \<Rightarrow> (1, the (printf_u (map of_char ''grep: cannot open %s'' @ [10]) [UString (Some f)] w1))
      | (Some fd, w1) \<Rightarrow> grep_files pattern fs (u_close fd (grep pattern fd w1)))"

definition grep_main :: "uchar list list \<Rightarrow> uworld \<Rightarrow> int \<times> uworld" where
  "grep_main argv w =
     (case tl argv of
        [] \<Rightarrow> (1, the (fprintf 2 (map of_char ''usage: grep pattern [file ...]'' @ [10]) [] w))
      | [pattern] \<Rightarrow> (0, grep pattern 0 w)
      | pattern # fs \<Rightarrow> grep_files pattern fs w)"

section \<open>The meaning of a pattern\<close>

text \<open>
  A pattern is a list of characters, each once or starred, that may end in \<^verbatim>\<open>$\<close>. Its language: the texts that are
  the concatenation of one part for each, a starred one standing for any number of characters that it matches.
\<close>

function items :: "uchar list \<Rightarrow> (uchar \<times> bool) list \<times> bool" where
  "items re =
     (case re of
        [] \<Rightarrow> ([], False)
      | c # re1 \<Rightarrow>
          if re1 \<noteq> [] \<and> hd re1 = star then let (is, e) = items (tl re1) in ((c, True) # is, e)
          else if c = dollar \<and> re1 = [] then ([], True)
          else let (is, e) = items re1 in ((c, False) # is, e))"
  by pat_completeness auto
termination
  by (relation "measure length") (auto simp: neq_Nil_conv)

declare items.simps [simp del]

definition single :: "uchar \<Rightarrow> uchar \<Rightarrow> bool" where
  "single c x \<longleftrightarrow> c = dot \<or> x = c"

fun item_ok :: "uchar \<times> bool \<Rightarrow> uchar list \<Rightarrow> bool" where
  "item_ok (c, starred) xs = (if starred then list_all (single c) xs else length xs = 1 \<and> single c (hd xs))"

definition lang :: "(uchar \<times> bool) list \<Rightarrow> uchar list \<Rightarrow> bool" where
  "lang is xs \<longleftrightarrow> (\<exists>parts. xs = concat parts \<and> list_all2 item_ok is parts)"

definition prefix_match :: "uchar list \<Rightarrow> uchar list \<Rightarrow> bool" where
  "prefix_match re text \<longleftrightarrow>
     (\<exists>mid post. text = mid @ post \<and> lang (fst (items re)) mid \<and> (snd (items re) \<longrightarrow> post = []))"

lemma lang_Nil [simp]: "lang [] xs \<longleftrightarrow> xs = []"
  by (simp add: lang_def)

lemma lang_Cons: "lang (i # is) xs \<longleftrightarrow> (\<exists>a b. xs = a @ b \<and> item_ok i a \<and> lang is b)"
proof
  assume "lang (i # is) xs"
  then obtain a parts where "xs = a @ concat parts" "item_ok i a" "list_all2 item_ok is parts"
    by (auto simp: lang_def list_all2_Cons1)
  then show "\<exists>a b. xs = a @ b \<and> item_ok i a \<and> lang is b" unfolding lang_def by blast
next
  assume "\<exists>a b. xs = a @ b \<and> item_ok i a \<and> lang is b"
  then obtain a parts where "xs = concat (a # parts)" "list_all2 item_ok (i # is) (a # parts)"
    by (auto simp: lang_def)
  then show "lang (i # is) xs" unfolding lang_def by blast
qed

lemma prefix_match_star:
  "prefix_match (c # star # re) text \<longleftrightarrow>
     (\<exists>xs text'. text = xs @ text' \<and> list_all (single c) xs \<and> prefix_match re text')"
proof -
  have "items (c # star # re) = ((c, True) # fst (items re), snd (items re))"
    by (subst items.simps) (simp add: case_prod_beta)
  then show ?thesis by (simp add: prefix_match_def lang_Cons) (metis append.assoc)
qed

lemma prefix_match_dollar: "prefix_match [dollar] text \<longleftrightarrow> text = []"
  by (simp add: prefix_match_def items.simps[of "[dollar]"])

lemma prefix_match_Nil: "prefix_match [] text"
  by (simp add: prefix_match_def items.simps[of "[]"])

lemma prefix_match_char:
  assumes "\<not> (re \<noteq> [] \<and> hd re = star)" "\<not> (c = dollar \<and> re = [])"
  shows "prefix_match (c # re) text \<longleftrightarrow> (\<exists>t text'. text = t # text' \<and> single c t \<and> prefix_match re text')"
proof -
  have "items (c # re) = ((c, False) # fst (items re), snd (items re))"
    using assms by (subst items.simps) (auto simp: case_prod_beta)
  then show ?thesis by (simp add: prefix_match_def lang_Cons length_Suc_conv) (metis append_Cons append_Nil list.sel(1))
qed

lemma star_step:
  "(\<exists>xs text'. text = xs @ text' \<and> list_all (single c) xs \<and> P text') \<longleftrightarrow>
     P text \<or> (\<exists>t text1. text = t # text1 \<and> single c t \<and>
                (\<exists>xs text'. text1 = xs @ text' \<and> list_all (single c) xs \<and> P text'))" (is "?l \<longleftrightarrow> ?r")
proof
  assume ?l
  then obtain xs text' where "text = xs @ text'" "list_all (single c) xs" "P text'" by blast
  then show ?r by (cases xs) auto
next
  assume ?r
  then show ?l
  proof
    assume "P text"
    then show ?l by (intro exI[of _ "[]"] exI[of _ "text"]) simp
  next
    assume "\<exists>t text1. text = t # text1 \<and> single c t \<and>
                (\<exists>xs text'. text1 = xs @ text' \<and> list_all (single c) xs \<and> P text')"
    then obtain t xs text' where "text = (t # xs) @ text'" "list_all (single c) (t # xs)" "P text'" by auto
    then show ?l by blast
  qed
qed

lemma matchhere_iff: "matchhere re tx \<longleftrightarrow> prefix_match re tx"
  and matchstar_iff: "matchstar c re tx \<longleftrightarrow> prefix_match (c # star # re) tx"
proof (induction re tx and c re tx rule: matchhere_matchstar.induct)
  case (1 re tx)
  show ?case
  proof (cases re)
    case Nil
    then show ?thesis by (subst matchhere.simps) (simp add: prefix_match_Nil)
  next
    case (Cons c re1)
    show ?thesis
    proof (cases "re1 \<noteq> [] \<and> hd re1 = star")
      case True
      then have "re = c # star # tl re1" using Cons by (cases re1) auto
      then show ?thesis using 1(1)[OF Cons True] True Cons by (subst matchhere.simps) simp
    next
      case star: False
      show ?thesis
      proof (cases "c = dollar \<and> re1 = []")
        case True
        then show ?thesis using Cons by (subst matchhere.simps) (simp add: prefix_match_dollar)
      next
        case False
        have "matchhere re1 tx1 \<longleftrightarrow> prefix_match re1 tx1" if "tx = t # tx1" for t tx1
          using 1(2)[OF Cons star False that] .
        then show ?thesis using star False Cons
          by (subst matchhere.simps) (auto simp: prefix_match_char single_def split: list.splits)
      qed
    qed
  qed
next
  case (2 c re tx)
  have "matchstar c re tx1 \<longleftrightarrow> prefix_match (c # star # re) tx1" if "tx = t # tx1" for t tx1
    using 2(2)[OF that] .
  then show ?case using 2(1)
    by (subst matchstar.simps, subst prefix_match_star, subst star_step)
       (auto simp: prefix_match_star single_def split: list.splits)
qed

lemma match_from_iff: "match_from re tx \<longleftrightarrow> (\<exists>pre rest. tx = pre @ rest \<and> matchhere re rest)"
proof (induction tx)
  case (Cons t tx)
  show ?case unfolding match_from.simps Cons by (metis append_Cons append_Nil append_eq_Cons_conv)
qed simp

section \<open>The lines of a file\<close>

text \<open>The complete lines, without their newlines, and what follows the last newline.\<close>

fun split_lines :: "uchar list \<Rightarrow> uchar list list \<times> uchar list" where
  "split_lines [] = ([], [])"
| "split_lines (c # cs) =
     (let (ls, r) = split_lines cs in
      if c = 10 then ([] # ls, r) else (case ls of [] \<Rightarrow> ([], c # r) | l # ls' \<Rightarrow> ((c # l) # ls', r)))"

definition lines_fit :: "uchar list \<Rightarrow> bool" where
  "lines_fit d \<longleftrightarrow> list_all (\<lambda>l. length l < 1023) (fst (split_lines d)) \<and> length (snd (split_lines d)) < 1023"

definition matching :: "uchar list \<Rightarrow> uchar list list \<Rightarrow> (nat \<times> uchar list) list" where
  "matching pattern ls = map (\<lambda>l. (1, l @ [10])) (filter (match pattern) ls)"

lemma split_lines_none: "10 \<notin> set p \<Longrightarrow> split_lines p = ([], p)"
  by (induction p) auto

lemma split_lines_line: "10 \<notin> set l \<Longrightarrow> split_lines (l @ 10 # d) = (l # fst (split_lines d), snd (split_lines d))"
  by (induction l) (auto simp: case_prod_beta)

lemma split_lines_rest: "10 \<notin> set (snd (split_lines d))"
  by (induction d) (auto simp: case_prod_beta split: list.splits)

lemma split_lines_append:
  "split_lines (a @ b) =
     (fst (split_lines a) @ fst (split_lines (snd (split_lines a) @ b)), snd (split_lines (snd (split_lines a) @ b)))"
  by (induction a) (auto simp: case_prod_beta Let_def split: list.splits)

lemma lines_fit_buf: "10 \<notin> set buf \<Longrightarrow> lines_fit (buf @ d) \<Longrightarrow> length buf < 1023"
proof (cases "10 \<in> set d")
  case True
  then obtain l d' where "d = l @ 10 # d'" "10 \<notin> set l" by (meson split_list_first)
  then show "10 \<notin> set buf \<Longrightarrow> lines_fit (buf @ d) \<Longrightarrow> length buf < 1023"
    using split_lines_line[of "buf @ l" d'] by (simp add: lines_fit_def)
qed (simp add: lines_fit_def split_lines_none)

lemma strchr_Some: "strchr p c = Some q \<Longrightarrow> q < length p \<and> p ! q = c \<and> c \<notin> set (take q p)"
  by (induction p arbitrary: q) (auto split: if_splits)

lemma strchr_None: "strchr p c = None \<longleftrightarrow> c \<notin> set p"
  by (induction p) auto

lemma cstr_id: "0 \<notin> set p \<Longrightarrow> cstr p = p"
  by (induction p) auto

lemma grep_lines_eq:
  "0 \<notin> set p \<Longrightarrow> \<not> ubroken w 1 \<Longrightarrow>
   grep_lines pattern p w = (snd (split_lines p), w\<lparr>uout := uout w @ matching pattern (fst (split_lines p))\<rparr>)"
proof (induction pattern p w rule: grep_lines.induct)
  case (1 pattern p w)
  show ?case
  proof (cases "strchr p 10")
    case None
    then have "10 \<notin> set p" by (simp add: strchr_None)
    then show ?thesis using 1(2) None
      by (subst grep_lines.simps) (simp add: cstr_id split_lines_none matching_def)
  next
    case (Some q)
    then obtain a b where p: "p = a @ 10 # b" "10 \<notin> set a" "length a = q"
      using strchr_Some id_take_nth_drop[of q p] by (metis length_take min.absorb4)
    let ?w = "if match pattern a then snd (u_write 1 (a @ [10]) w) else w"
    have "grep_lines pattern p w = grep_lines pattern b ?w"
      using Some 1(2) p by (subst grep_lines.simps) (simp add: cstr_id)
    also have "\<dots> = (snd (split_lines b), ?w\<lparr>uout := uout ?w @ matching pattern (fst (split_lines b))\<rparr>)"
    proof -
      have tk: "take q p = a" "take (q + 1) p = a @ [10]" "drop (q + 1) p = b" using p by auto
      have "strchr (cstr p) 10 = Some q" "0 \<notin> set b" "\<not> ubroken ?w 1"
        using Some 1(2,3) p by (simp_all add: cstr_id u_write_def)
      then show ?thesis using 1(1)[of q, unfolded tk] by blast
    qed
    finally show ?thesis using p 1(3) split_lines_line[of a b] by (simp add: matching_def u_write_def)
  qed
qed

lemma grep_lines_zero: "0 \<in> set (snd (split_lines p)) \<Longrightarrow> 0 \<in> set p"
  by (induction p) (auto simp: case_prod_beta split: list.splits if_splits)

lemma grep_loop_eq:
  assumes "uinput w fd = Some ds" "[] \<notin> set ds" "0 \<notin> set (buf @ concat ds)" "\<not> ubroken w 1"
    "10 \<notin> set buf" "lines_fit (buf @ concat ds)"
  shows "uout (grep_loop pattern fd buf w) = uout w @ matching pattern (fst (split_lines (buf @ concat ds)))"
  using assms
proof (induction pattern fd buf w arbitrary: ds rule: grep_loop.induct)
  case (1 pattern fd buf w)
  show ?case
  proof (cases ds)
    case Nil
    then show ?thesis using 1(2,6) by (subst grep_loop.simps) (simp add: u_read_def split_lines_none matching_def)
  next
    case (Cons d ds')
    let ?n = "1023 - length buf"
    let ?ds = "if ?n < length d then drop ?n d # ds' else ds'"
    let ?w1 = "w\<lparr>uinput := (uinput w)(fd \<mapsto> ?ds)\<rparr>"
    have "length buf < 1023" using 1(6,7) by (rule lines_fit_buf)
    then obtain x xs where x: "take ?n d = x # xs" using 1(3) Cons by (cases "take ?n d") auto
    have r: "u_read fd ?n w = (Some (x # xs), ?w1)" using 1(2) Cons x by (simp add: u_read_def)
    let ?b = "buf @ x # xs"
    have all: "?b @ concat ?ds = buf @ concat ds" unfolding x[symmetric] Cons by simp
    have 0: "0 \<notin> set ?b" "0 \<notin> set (concat ?ds)" using 1(4) all by (metis UnCI set_append)+
    let ?p = "snd (split_lines ?b)" and ?ls = "fst (split_lines ?b)"
    let ?w2 = "?w1\<lparr>uout := uout w @ matching pattern ?ls\<rparr>"
    have g: "grep_lines pattern ?b ?w1 = (?p, ?w2)" using grep_lines_eq[of ?b ?w1 pattern] 0(1) 1(5) by simp
    have sp: "split_lines (buf @ concat ds) =
        (?ls @ fst (split_lines (?p @ concat ?ds)), snd (split_lines (?p @ concat ?ds)))"
      unfolding all[symmetric] by (rule split_lines_append)
    have "0 \<notin> set ?p" using 0(1) grep_lines_zero by blast
    then have "uout (grep_loop pattern fd ?p ?w2) = uout ?w2 @ matching pattern (fst (split_lines (?p @ concat ?ds)))"
      using 1(3,5,7) 0(2) sp Cons split_lines_rest[of ?b]
      by (intro 1(1)[OF r[symmetric] _ _ g[symmetric]]) (auto simp: lines_fit_def)
    then show ?thesis using sp r g by (subst grep_loop.simps) (simp add: matching_def)
  qed
qed

section \<open>Properties\<close>

text \<open>
  C30. The matcher decides the language of the pattern. \<^verbatim>\<open>match\<close> accepts a text exactly when some part of
  it belongs to the language of the pattern, a part at the start of the text if the pattern begins with
  \<^verbatim>\<open>^\<close>, and a part at its end if the pattern ends with \<^verbatim>\<open>$\<close>. (The recursion over pattern and text always ends.)
\<close>

theorem match_language:
  "match re text \<longleftrightarrow>
     (let anchored = (re \<noteq> [] \<and> hd re = caret); (is, at_end) = items (if anchored then tl re else re)
      in \<exists>pre mid post. text = pre @ mid @ post \<and> lang is mid \<and> (if anchored then pre = [] else True) \<and>
           (if at_end then post = [] else True))"
proof -
  have "match re text \<longleftrightarrow>
     (if re \<noteq> [] \<and> hd re = caret then matchhere (tl re) text else match_from re text)"
    by (cases re) (auto simp: match_def)
  then show ?thesis
    by (auto simp: match_from_iff matchhere_iff prefix_match_def Let_def case_prod_beta)
qed



end
