(* ===== verification/Text_Tools.thy ===== *)
theory Text_Tools
  imports Grep
begin

text \<open>
  The programs \<^verbatim>\<open>user/cat.c\<close>, \<^verbatim>\<open>user/wc.c\<close> and \<^verbatim>\<open>user/echo.c\<close> on the system as a program sees it. A routine that may end the program with
  \<^verbatim>\<open>exit\<close> gives the exit status, \<open>None\<close> when it returns. The lemmas say what the programs write, however \<^verbatim>\<open>read\<close> cuts the input into pieces.
\<close>

section \<open>cat\<close>

lemma u_write_pending [simp]: "pending (snd (u_write fd bs w)) f = pending w f"
  by (simp add: u_write_def pending_def)

function cat :: "nat \<Rightarrow> uworld \<Rightarrow> int option \<times> uworld" where
  "cat fd w =
     (case u_read fd 512 w of
        (Some (x # xs), w1) \<Rightarrow>
          (if fst (u_write 1 (x # xs) w1) \<noteq> int (length (x # xs))
           then (Some 1, the (fprintf 2 (map of_char ''cat: write error'' @ [10]) [] (snd (u_write 1 (x # xs) w1))))
           else cat fd (snd (u_write 1 (x # xs) w1)))
      | (Some [], w1) \<Rightarrow> (None, w1)
      | (None, w1) \<Rightarrow> (Some 1, the (fprintf 2 (map of_char ''cat: read error'' @ [10]) [] w1)))"
  by pat_completeness auto
termination
  by (relation "measure (\<lambda>(fd, w). pending w fd)") (auto dest: u_read_pending[OF sym])

fun cat_files :: "uchar list list \<Rightarrow> uworld \<Rightarrow> int \<times> uworld" where
  "cat_files [] w = (0, w)"
| "cat_files (f # fs) w =
     (case u_open f w of
        (None, w1) \<Rightarrow> (1, the (fprintf 2 (map of_char ''cat: cannot open %s'' @ [10]) [UString (Some f)] w1))
      | (Some fd, w1) \<Rightarrow>
          (case cat fd w1 of
             (Some e, w2) \<Rightarrow> (e, w2)
           | (None, w2) \<Rightarrow> cat_files fs (u_close fd w2)))"

definition cat_main :: "uchar list list \<Rightarrow> uworld \<Rightarrow> int \<times> uworld" where
  "cat_main argv w =
     (if length argv \<le> 1 then case cat 0 w of (Some e, w1) \<Rightarrow> (e, w1) | (None, w1) \<Rightarrow> (0, w1)
      else cat_files (tl argv) w)"

section \<open>wc\<close>

text \<open>The loop over the bytes of the buffer: lines, words, characters, and whether the last byte belongs to a word.\<close>

fun wc_chars :: "uchar list \<Rightarrow> uint32 \<times> uint32 \<times> uint32 \<times> bool \<Rightarrow> uint32 \<times> uint32 \<times> uint32 \<times> bool" where
  "wc_chars [] a = a"
| "wc_chars (x # xs) (l, n, c, inword) =
     wc_chars xs
       (if x = 10 then l + 1 else l,
        if strchr [32, 13, 9, 10, 11] x \<noteq> None then n else if \<not> inword then n + 1 else n,
        c + 1,
        strchr [32, 13, 9, 10, 11] x = None)"

text \<open>The result of the last \<^verbatim>\<open>read\<close> (whether it was an error), and the counts.\<close>

function wc_loop :: "nat \<Rightarrow> uint32 \<times> uint32 \<times> uint32 \<times> bool \<Rightarrow> uworld \<Rightarrow> (bool \<times> uint32 \<times> uint32 \<times> uint32) \<times> uworld" where
  "wc_loop fd a w =
     (case u_read fd 512 w of
        (Some (x # xs), w1) \<Rightarrow> wc_loop fd (wc_chars (x # xs) a) w1
      | (r, w1) \<Rightarrow> (case a of (l, n, c, inword) \<Rightarrow> ((r = None, l, n, c), w1)))"
  by pat_completeness auto
termination
  by (relation "measure (\<lambda>(fd, a, w). pending w fd)") (auto dest: u_read_pending[OF sym])

definition wc :: "nat \<Rightarrow> uchar list \<Rightarrow> uworld \<Rightarrow> int option \<times> uworld" where
  "wc fd name w =
     (case wc_loop fd (0, 0, 0, False) w of
        ((True, l, n, c), w1) \<Rightarrow> (Some 1, the (printf_u (map of_char ''wc: read error'' @ [10]) [] w1))
      | ((False, l, n, c), w1) \<Rightarrow>
          (None, the (printf_u (map of_char ''%d %d %d %s'' @ [10]) [UWord (ucast l), UWord (ucast n), UWord (ucast c), UString (Some name)] w1)))"

fun wc_files :: "uchar list list \<Rightarrow> uworld \<Rightarrow> int \<times> uworld" where
  "wc_files [] w = (0, w)"
| "wc_files (f # fs) w =
     (case u_open f w of
        (None, w1) \<Rightarrow> (1, the (printf_u (map of_char ''wc: cannot open %s'' @ [10]) [UString (Some f)] w1))
      | (Some fd, w1) \<Rightarrow>
          (case wc fd f w1 of
             (Some e, w2) \<Rightarrow> (e, w2)
           | (None, w2) \<Rightarrow> wc_files fs (u_close fd w2)))"

definition wc_main :: "uchar list list \<Rightarrow> uworld \<Rightarrow> int \<times> uworld" where
  "wc_main argv w =
     (if length argv \<le> 1 then case wc 0 [] w of (Some e, w1) \<Rightarrow> (e, w1) | (None, w1) \<Rightarrow> (0, w1)
      else wc_files (tl argv) w)"

section \<open>echo\<close>

fun echo_from :: "uchar list list \<Rightarrow> uworld \<Rightarrow> uworld" where
  "echo_from [] w = w"
| "echo_from (a # as) w = echo_from as (snd (u_write 1 (if as \<noteq> [] then [32] else [10]) (snd (u_write 1 a w))))"

definition echo_main :: "uchar list list \<Rightarrow> uworld \<Rightarrow> int \<times> uworld" where
  "echo_main argv w = (0, echo_from (tl argv) w)"

section \<open>What they write\<close>

declare cat.simps [simp del] wc_loop.simps [simp del]

text \<open>What a call of \<^verbatim>\<open>read\<close> does to input that has not ended.\<close>

definition rest :: "nat \<Rightarrow> uchar list list \<Rightarrow> uchar list list" where
  "rest n ds = (case ds of [] \<Rightarrow> [] | d # ds \<Rightarrow> if n < length d then drop n d # ds else ds)"

lemma u_read_some:
  assumes "uinput w fd = Some (d # ds)" "d \<noteq> []" "0 < n"
  obtains x xs where "u_read fd n w = (Some (x # xs), w\<lparr>uinput := (uinput w)(fd \<mapsto> rest n (d # ds))\<rparr>)" "x # xs = take n d"
    "concat (d # ds) = (x # xs) @ concat (rest n (d # ds))"
proof -
  have "take n d \<noteq> []" using assms(2,3) by simp
  then obtain x xs where x: "take n d = x # xs" by (cases "take n d") auto
  have "d @ concat ds = take n d @ concat (rest n (d # ds))" by (simp add: rest_def append_assoc[symmetric] del: append_assoc)
  then have "concat (d # ds) = (x # xs) @ concat (rest n (d # ds))" unfolding x by simp
  moreover have "u_read fd n w = (Some (x # xs), w\<lparr>uinput := (uinput w)(fd \<mapsto> rest n (d # ds))\<rparr>)" using assms(1) x by (simp add: u_read_def rest_def)
  ultimately show ?thesis using that x by metis
qed

lemma rest_nonempty: "[] \<notin> set ds \<Longrightarrow> [] \<notin> set (rest n ds)"
  by (auto simp: rest_def split: list.splits)

lemma cat_writes:
  assumes "uinput w fd = Some ds" "[] \<notin> set ds" "\<not> ubroken w 1"
  shows "\<exists>ps. cat fd w = (None, w\<lparr>uinput := (uinput w)(fd \<mapsto> []), uout := uout w @ map (Pair 1) ps\<rparr>) \<and> concat ps = concat ds \<and> (\<forall>p \<in> set ps. p \<noteq> [] \<and> length p \<le> 512)"
  using assms
proof (induction fd w arbitrary: ds rule: cat.induct)
  case (1 fd w)
  show ?case
  proof (cases ds)
    case Nil
    then have "w\<lparr>uinput := (uinput w)(fd \<mapsto> []), uout := uout w\<rparr> = w" using "1.prems"(1) by (simp add: fun_upd_idem)
    then show ?thesis using Nil "1.prems"(1) by (intro exI[of _ "[]"]) (subst cat.simps, simp add: u_read_def)
  next
    case (Cons d ds')
    have "d \<noteq> []" using "1.prems"(2) Cons by auto
    from u_read_some[OF "1.prems"(1)[unfolded Cons] this, of 512] obtain x xs where r:
      "u_read fd 512 w = (Some (x # xs), w\<lparr>uinput := (uinput w)(fd \<mapsto> rest 512 ds)\<rparr>)" "x # xs = take 512 d" "concat ds = (x # xs) @ concat (rest 512 ds)"
      using Cons by auto
    let ?w = "w\<lparr>uinput := (uinput w)(fd \<mapsto> rest 512 ds)\<rparr>"
    have w: "u_write 1 (x # xs) ?w = (int (length (x # xs)), ?w\<lparr>uout := uout w @ [(1, x # xs)]\<rparr>)" using "1.prems"(3) by (simp add: u_write_def)
    have "\<exists>ps. cat fd (snd (u_write 1 (x # xs) ?w)) = (None, w\<lparr>uinput := (uinput w)(fd \<mapsto> []), uout := uout w @ (1, x # xs) # map (Pair 1) ps\<rparr>) \<and>
        concat ps = concat (rest 512 ds) \<and> (\<forall>p \<in> set ps. p \<noteq> [] \<and> length p \<le> 512)"
      using "1.IH"[OF r(1)[symmetric] refl refl, of "rest 512 ds"] rest_nonempty[OF "1.prems"(2)] "1.prems"(3) w by (simp add: fun_upd_def cong: if_cong)
    then obtain ps where ps: "cat fd (snd (u_write 1 (x # xs) ?w)) = (None, w\<lparr>uinput := (uinput w)(fd \<mapsto> []), uout := uout w @ (1, x # xs) # map (Pair 1) ps\<rparr>)"
        "concat ps = concat (rest 512 ds)" "\<forall>p \<in> set ps. p \<noteq> [] \<and> length p \<le> 512" by blast
    have "length (x # xs) \<le> 512" using r(2) by simp
    then show ?thesis using ps r(1,3) w by (intro exI[of _ "(x # xs) # ps"]) (subst cat.simps, simp)
  qed
qed

text \<open>The words of a text: maximal stretches without white space.\<close>

definition space :: "uchar \<Rightarrow> bool" where
  "space x \<longleftrightarrow> x \<in> {32, 13, 9, 10, 11}"

function words :: "uchar list \<Rightarrow> uchar list list" where
  "words [] = []"
| "words (x # xs) =
     (if space x then words xs else (x # takeWhile (\<lambda>y. \<not> space y) xs) # words (dropWhile (\<lambda>y. \<not> space y) xs))"
  by pat_completeness auto
termination
  by (relation "measure length") (auto simp: le_imp_less_Suc length_dropWhile_le)

text \<open>The words that begin in a text, when \<open>b\<close> says that it continues one.\<close>

fun starts :: "bool \<Rightarrow> uchar list \<Rightarrow> nat" where
  "starts b [] = 0"
| "starts b (x # xs) = (if \<not> space x \<and> \<not> b then 1 else 0) + starts (\<not> space x) xs"

lemma strchr_space: "strchr [32, 13, 9, 10, 11] x = None \<longleftrightarrow> \<not> space x"
  by (simp add: space_def)

lemma starts_continued: "starts True xs = starts False (dropWhile (\<lambda>y. \<not> space y) xs)"
  by (induction xs) auto

lemma starts_words: "starts False xs = length (words xs)"
  by (induction xs rule: words.induct) (simp_all add: starts_continued)

lemma wc_chars_eq:
  "\<exists>b'. wc_chars xs (l, n, c, b) = (l + of_nat (count_list xs 10), n + of_nat (starts b xs), c + of_nat (length xs), b')"
proof (induction xs arbitrary: l n c b)
  case (Cons x xs)
  show ?case
    using Cons.IH[of "if x = 10 then l + 1 else l" "if space x then n else if \<not> b then n + 1 else n" "c + 1" "\<not> space x"]
    by (auto simp: strchr_space algebra_simps simp del: strchr.simps)
qed simp

lemma wc_chars_append: "wc_chars (xs @ ys) a = wc_chars ys (wc_chars xs a)"
  by (induction xs a rule: wc_chars.induct) simp_all

lemma wc_loop_eq:
  assumes "uinput w fd = Some ds" "[] \<notin> set ds"
  shows "wc_loop fd a w = (case wc_chars (concat ds) a of (l, n, c, b) \<Rightarrow> ((False, l, n, c), w\<lparr>uinput := (uinput w)(fd \<mapsto> [])\<rparr>))"
  using assms
proof (induction fd a w arbitrary: ds rule: wc_loop.induct)
  case (1 fd a w)
  show ?case
  proof (cases ds)
    case Nil
    then have "w\<lparr>uinput := (uinput w)(fd \<mapsto> [])\<rparr> = w" using "1.prems"(1) by (simp add: fun_upd_idem)
    then show ?thesis using Nil "1.prems"(1) by (subst wc_loop.simps) (simp add: u_read_def)
  next
    case (Cons d ds')
    have "d \<noteq> []" using "1.prems"(2) Cons by auto
    from u_read_some[OF "1.prems"(1)[unfolded Cons] this, of 512] obtain x xs where r:
      "u_read fd 512 w = (Some (x # xs), w\<lparr>uinput := (uinput w)(fd \<mapsto> rest 512 ds)\<rparr>)" "x # xs = take 512 d" "concat ds = (x # xs) @ concat (rest 512 ds)"
      using Cons by auto
    let ?w = "w\<lparr>uinput := (uinput w)(fd \<mapsto> rest 512 ds)\<rparr>"
    have "wc_loop fd (wc_chars (x # xs) a) ?w = (case wc_chars (concat (rest 512 ds)) (wc_chars (x # xs) a) of
        (l, n, c, b) \<Rightarrow> ((False, l, n, c), w\<lparr>uinput := (uinput w)(fd \<mapsto> [])\<rparr>))"
      using "1.IH"[OF r(1)[symmetric] refl refl, of "rest 512 ds"] rest_nonempty[OF "1.prems"(2)] by (simp add: fun_upd_def cong: if_cong)
    then show ?thesis unfolding r(3) wc_chars_append by (subst wc_loop.simps) (simp add: r(1))
  qed
qed

lemma wc_prints:
  assumes "uinput w fd = Some ds" "[] \<notin> set ds"
  shows "wc fd name w = (None, the (printf_u (map of_char ''%d %d %d %s'' @ [10])
     [UWord (ucast (of_nat (count_list (concat ds) 10) :: uint32)), UWord (ucast (of_nat (length (words (concat ds))) :: uint32)),
      UWord (ucast (of_nat (length (concat ds)) :: uint32)), UString (Some name)] (w\<lparr>uinput := (uinput w)(fd \<mapsto> [])\<rparr>)))"
proof -
  obtain b where "wc_chars (concat ds) (0, 0, 0, False) =
      (of_nat (count_list (concat ds) 10), of_nat (length (words (concat ds))), of_nat (length (concat ds)), b)"
    using wc_chars_eq[of "concat ds" 0 0 0 False] by (auto simp: starts_words)
  then show ?thesis by (simp add: wc_def wc_loop_eq[OF assms])
qed

text \<open>The line of \<^verbatim>\<open>echo\<close>.\<close>

fun echo_line :: "uchar list list \<Rightarrow> uchar list" where
  "echo_line [] = []"
| "echo_line [a] = a @ [10]"
| "echo_line (a # b # as) = a @ 32 # echo_line (b # as)"

lemma echo_writes: "\<not> ubroken w 1 \<Longrightarrow> \<exists>ps. echo_from as w = w\<lparr>uout := uout w @ map (Pair 1) ps\<rparr> \<and> concat ps = echo_line as"
proof (induction as arbitrary: w rule: echo_line.induct)
  case 1
  show ?case by (intro exI[of _ "[]"]) simp
next
  case (2 a)
  then show ?case by (intro exI[of _ "[a, [10]]"]) (simp add: u_write_def)
next
  case (3 a b as)
  let ?w = "w\<lparr>uout := uout w @ [(1, a), (1, [32])]\<rparr>"
  have e: "echo_from (a # b # as) w = echo_from (b # as) ?w" using "3.prems" by (simp add: u_write_def)
  obtain ps where "echo_from (b # as) ?w = ?w\<lparr>uout := uout ?w @ map (Pair 1) ps\<rparr>" "concat ps = echo_line (b # as)"
    using "3.IH"[of ?w] "3.prems" by auto
  then show ?case unfolding e by (intro exI[of _ "a # [32] # ps"]) simp
qed

text \<open>
  C34. The small programs on text. On input that ends without an error, however \<^verbatim>\<open>read\<close> cuts it into pieces: \<^verbatim>\<open>cat\<close> reads all of it and writes exactly
  its bytes to descriptor 1, in pieces of at most 512 bytes, and \<^verbatim>\<open>wc\<close> prints the number of newlines, of maximal stretches without white space, and
  of bytes (modulo two to the 32). \<^verbatim>\<open>echo\<close> writes its arguments with single blanks between them and a newline at the end, and nothing without arguments.
\<close>

theorem text_tools_output:
  assumes "uinput w fd = Some ds" "[] \<notin> set ds" "\<not> ubroken w 1"
  shows "(\<exists>ps. cat fd w = (None, w\<lparr>uinput := (uinput w)(fd \<mapsto> []), uout := uout w @ map (Pair 1) ps\<rparr>) \<and>
       concat ps = concat ds \<and> (\<forall>p \<in> set ps. p \<noteq> [] \<and> length p \<le> 512)) \<and>
     wc fd name w = (None, the (printf_u (map of_char ''%d %d %d %s'' @ [10])
       [UWord (ucast (of_nat (count_list (concat ds) 10) :: uint32)), UWord (ucast (of_nat (length (words (concat ds))) :: uint32)),
        UWord (ucast (of_nat (length (concat ds)) :: uint32)), UString (Some name)] (w\<lparr>uinput := (uinput w)(fd \<mapsto> [])\<rparr>))) \<and>
     (\<exists>ps. echo_main argv w = (0, w\<lparr>uout := uout w @ map (Pair 1) ps\<rparr>) \<and> concat ps = echo_line (tl argv))"
  using cat_writes[OF assms] wc_prints[OF assms(1,2)] echo_writes[OF assms(3)] by (auto simp: echo_main_def)

theorem text_tools_output_witness:
  "wc 0 [] \<lparr>ufiles = (\<lambda>_. None), uinput = [0 \<mapsto> [[72, 105], [33, 32, 10], [97]]], uout = [], ubroken = (\<lambda>_. False)\<rparr> =
     (None, the (printf_u (map of_char ''%d %d %d %s'' @ [10]) [UWord 1, UWord 2, UWord 6, UString (Some [])]
       \<lparr>ufiles = (\<lambda>_. None), uinput = [0 \<mapsto> []], uout = [], ubroken = (\<lambda>_. False)\<rparr>))"
  using text_tools_output[of "\<lparr>ufiles = (\<lambda>_. None), uinput = [0 \<mapsto> [[72, 105], [33, 32, 10], [97]]], uout = [], ubroken = (\<lambda>_. False)\<rparr>" 0
    "[[72, 105], [33, 32, 10], [97]]" "[]" "[]"] by (simp add: space_def)

end
