(* ===== verification/Sh.thy ===== *)
theory Sh
  imports Ulib
begin

text \<open>
  The shell, \<^verbatim>\<open>user/sh.c\<close>. The command line is a string of bytes without the final zero; a pointer into it is a
  position, a word is a pair of positions, as \<^verbatim>\<open>argv\<close> and \<^verbatim>\<open>eargv\<close> hold them. The parser returns a tree of
  commands or calls \<^verbatim>\<open>panic\<close>. Before each recursive call on the rest of the line the definitions test that the
  position has moved on (otherwise the outcome would be undefined); that this never fails is the first property.
  \<^verbatim>\<open>runcmd\<close> gives the program of system calls that the process makes, with a branch for each answer of the kernel.
\<close>

section \<open>Tokens\<close>

definition whitespace :: "uchar list" where
  "whitespace = [32, 9, 13, 10, 11]"

definition symbols :: "uchar list" where
  "symbols = map of_char ''<|>&;()''"

text \<open>The byte at a position; the string ends with a zero byte.\<close>

definition at :: "uchar list \<Rightarrow> nat \<Rightarrow> uchar" where
  "at b i = (if i < length b then b ! i else 0)"

function skip :: "(uchar \<Rightarrow> bool) \<Rightarrow> uchar list \<Rightarrow> nat \<Rightarrow> nat" where
  "skip f b i = (if i < length b \<and> f (at b i) then skip f b (i + 1) else i)"
  by pat_completeness auto
termination
  by (relation "measure (\<lambda>(f, b, i). length b - i)") auto

declare skip.simps [simp del]

definition is_space :: "uchar \<Rightarrow> bool" where
  "is_space c \<longleftrightarrow> strchr whitespace c \<noteq> None"

definition is_word :: "uchar \<Rightarrow> bool" where
  "is_word c \<longleftrightarrow> strchr whitespace c = None \<and> strchr symbols c = None"

text \<open>\<^verbatim>\<open>gettoken\<close>: the kind of token, its first position and the position behind it, and the position to go on.\<close>

definition gettoken :: "uchar list \<Rightarrow> nat \<Rightarrow> uchar \<times> nat \<times> nat \<times> nat" where
  "gettoken b ps =
     (let q = skip is_space b ps; c = at b q;
          (tok, eq) =
            (if c = 0 then (0, q)
             else if c \<in> of_char ` set ''|();&<'' then (c, q + 1)
             else if c = of_char (CHR ''>'') then
               (if at b (q + 1) = of_char (CHR ''>'') then (of_char (CHR ''+''), q + 2) else (c, q + 1))
             else (of_char (CHR ''a''), skip is_word b q))
      in (tok, q, eq, skip is_space b eq))"

definition peek :: "uchar list \<Rightarrow> nat \<Rightarrow> string \<Rightarrow> bool \<times> nat" where
  "peek b ps toks =
     (let s = skip is_space b ps in (at b s \<noteq> 0 \<and> strchr (map of_char toks) (at b s) \<noteq> None, s))"

section \<open>Commands\<close>

type_synonym token = "nat \<times> nat"

datatype cmd =
    EXEC "token list"
  | REDIR cmd token nat nat
  | PIPE cmd cmd
  | LIST cmd cmd
  | BACK cmd

definition MAXARGS :: nat where
  "MAXARGS = 10"

text \<open>\<^verbatim>\<open>cmd->argv[argc] = q\<close>: the command to execute lies inside the redirections put around it so far.\<close>

fun add_arg :: "token \<Rightarrow> cmd \<Rightarrow> cmd" where
  "add_arg w (EXEC ws) = EXEC (ws @ [w])"
| "add_arg w (REDIR c f m fd) = REDIR (add_arg w c) f m fd"
| "add_arg w c = c"

section \<open>The parser\<close>

text \<open>The modes are those of \<^verbatim>\<open>kernel/fcntl.h\<close>: 0 to read, \<open>0x601\<close> to write, create and truncate, \<open>0x201\<close> to write and create.\<close>

definition redirect :: "uchar \<Rightarrow> cmd \<Rightarrow> token \<Rightarrow> cmd" where
  "redirect tok c f =
     (if tok = of_char (CHR ''<'') then REDIR c f 0 0
      else if tok = of_char (CHR ''>'') then REDIR c f 0x601 1
      else if tok = of_char (CHR ''+'') then REDIR c f 0x201 1
      else c)"

text \<open>A recursive call may go on from position \<open>j\<close> only behind \<open>i\<close> and inside the string.\<close>

definition onward :: "uchar list \<Rightarrow> nat \<Rightarrow> nat \<Rightarrow> bool" where
  "onward b i j \<longleftrightarrow> i < j \<and> j \<le> length b"

function parseredirs :: "cmd \<Rightarrow> uchar list \<Rightarrow> nat \<Rightarrow> (cmd \<times> nat) outcome" where
  "parseredirs c b i =
     (let (p, i1) = peek b i ''<>'' in
      if \<not> p then Ok (c, i1)
      else
        let (tok, _, _, i2) = gettoken b i1; (a, q, eq, i3) = gettoken b i2 in
        if a \<noteq> of_char (CHR ''a'') then Panic ''missing file for redirection''
        else if onward b i i3 then parseredirs (redirect tok c (q, eq)) b i3
        else Undef ''no progress'')"
  by pat_completeness auto
termination
  by (relation "measure (\<lambda>(c, b, i). length b - i)") (auto simp: onward_def)

declare parseredirs.simps [simp del]

function parseargs :: "nat \<Rightarrow> cmd \<Rightarrow> uchar list \<Rightarrow> nat \<Rightarrow> (cmd \<times> nat) outcome" where
  "parseargs argc r b i =
     (let (p, i1) = peek b i ''|)&;'' in
      if p then Ok (r, i1)
      else
        let (tok, q, eq, i2) = gettoken b i1 in
        if tok = 0 then Ok (r, i2)
        else if tok \<noteq> of_char (CHR ''a'') then Panic ''syntax''
        else if argc + 1 \<ge> MAXARGS then Panic ''too many args''
        else
          obind (parseredirs (add_arg (q, eq) r) b i2) (\<lambda>(r1, i3).
            if onward b i i3 then parseargs (argc + 1) r1 b i3 else Undef ''no progress''))"
  by pat_completeness auto
termination
  by (relation "measure (\<lambda>(n, r, b, i). length b - i)") (auto simp: onward_def)

declare parseargs.simps [simp del]

text \<open>The loop of \<^verbatim>\<open>parseline\<close> over the ampersands.\<close>

function parseback :: "cmd \<Rightarrow> uchar list \<Rightarrow> nat \<Rightarrow> (cmd \<times> nat) outcome" where
  "parseback c b i =
     (let (p, i1) = peek b i ''&'' in
      if \<not> p then Ok (c, i1)
      else
        let (_, _, _, i2) = gettoken b i1 in
        if onward b i i2 then parseback (BACK c) b i2 else Undef ''no progress'')"
  by pat_completeness auto
termination
  by (relation "measure (\<lambda>(c, b, i). length b - i)") (auto simp: onward_def)

declare parseback.simps [simp del]

lemma skip_ge: "i \<le> skip f b i"
  by (induction f b i rule: skip.induct) (subst skip.simps, auto)

function parseline :: "uchar list \<Rightarrow> nat \<Rightarrow> (cmd \<times> nat) outcome"
  and parsepipe :: "uchar list \<Rightarrow> nat \<Rightarrow> (cmd \<times> nat) outcome"
  and parseexec :: "uchar list \<Rightarrow> nat \<Rightarrow> (cmd \<times> nat) outcome"
  and parseblock :: "uchar list \<Rightarrow> nat \<Rightarrow> (cmd \<times> nat) outcome" where
  "parseline b i =
     obind (parsepipe b i) (\<lambda>(c, i1).
     obind (parseback c b i1) (\<lambda>(c1, i2).
       let (p, i3) = peek b i2 '';'' in
       if \<not> p then Ok (c1, i3)
       else
         let (_, _, _, i4) = gettoken b i3 in
         if onward b i i4 then obind (parseline b i4) (\<lambda>(d, i5). Ok (LIST c1 d, i5))
         else Undef ''no progress''))"
| "parsepipe b i =
     obind (parseexec b i) (\<lambda>(c, i1).
       let (p, i2) = peek b i1 ''|'' in
       if \<not> p then Ok (c, i2)
       else
         let (_, _, _, i3) = gettoken b i2 in
         if onward b i i3 then obind (parsepipe b i3) (\<lambda>(d, i4). Ok (PIPE c d, i4))
         else Undef ''no progress'')"
| "parseexec b i =
     (let (p, i1) = peek b i ''('' in
      if p then parseblock b i1
      else obind (parseredirs (EXEC []) b i1) (\<lambda>(r, i2). parseargs 0 r b i2))"
| "parseblock b i =
     (let (p, i1) = peek b i ''('' in
      if \<not> p then Panic ''parseblock''
      else
        let (_, _, _, i2) = gettoken b i1 in
        if onward b i i2 then
          obind (parseline b i2) (\<lambda>(c, i3).
            let (p1, i4) = peek b i3 '')'' in
            if \<not> p1 then Panic ''syntax - missing )''
            else let (_, _, _, i5) = gettoken b i4 in parseredirs c b i5)
        else Undef ''no progress'')"
  by pat_completeness auto
termination
  by (relation "measure (\<lambda>x. case x of
        Inl (Inl (b, i)) \<Rightarrow> 4 * (length b - i) + 3
      | Inl (Inr (b, i)) \<Rightarrow> 4 * (length b - i) + 2
      | Inr (Inl (b, i)) \<Rightarrow> 4 * (length b - i) + 1
      | Inr (Inr (b, i)) \<Rightarrow> 4 * (length b - i))")
     (auto simp: onward_def peek_def Let_def le_imp_less_Suc diff_le_mono2 skip_ge)

declare parseline.simps [simp del] parsepipe.simps [simp del] parseexec.simps [simp del] parseblock.simps [simp del]

text \<open>\<^verbatim>\<open>nulterminate\<close> writes a zero behind every word, in the buffer with the string and its final zero.\<close>

fun nulterminate :: "cmd \<Rightarrow> uchar list \<Rightarrow> uchar list" where
  "nulterminate (EXEC ws) buf = fold (\<lambda>w buf. buf[snd w := 0]) ws buf"
| "nulterminate (REDIR c f m fd) buf = (nulterminate c buf)[snd f := 0]"
| "nulterminate (PIPE l r) buf = nulterminate r (nulterminate l buf)"
| "nulterminate (LIST l r) buf = nulterminate r (nulterminate l buf)"
| "nulterminate (BACK c) buf = nulterminate c buf"

text \<open>The text that a leftover of the line prints before the panic is not kept.\<close>

definition parsecmd :: "uchar list \<Rightarrow> (cmd \<times> uchar list) outcome" where
  "parsecmd b =
     obind (parseline b 0) (\<lambda>(c, i).
       let (_, i1) = peek b i [] in
       if i1 \<noteq> length b then Panic ''syntax'' else Ok (c, nulterminate c (b @ [0])))"

section \<open>Running a command\<close>

text \<open>
  The system calls of a process, in order. A call whose answer the code looks at has a program for each answer:
  \<open>Exec\<close> goes on only if it fails, \<open>Fork\<close> with the programs for a failure, for the child and for the parent,
  \<open>Open\<close> with the descriptor or the failure, \<open>MakePipe\<close> with the two descriptors.
\<close>

datatype prog =
    Exit int
  | Exec "uchar list" "uchar list list" prog
  | Print "uchar list" prog
  | Close nat prog
  | Dup nat prog
  | Open "uchar list" nat "nat option \<Rightarrow> prog"
  | WaitChild prog
  | Fork prog prog prog
  | MakePipe prog "nat \<Rightarrow> nat \<Rightarrow> prog"
  | Chdir "uchar list" prog prog

definition panic_sh :: "string \<Rightarrow> prog" where
  "panic_sh m = Print (map of_char m @ [10]) (Exit 1)"

definition fork1 :: "prog \<Rightarrow> prog \<Rightarrow> prog" where
  "fork1 child parent = Fork (panic_sh ''fork'') child parent"

text \<open>The C string at a word of the buffer.\<close>

definition str :: "uchar list \<Rightarrow> token \<Rightarrow> uchar list" where
  "str buf w = cstr (drop (fst w) buf)"

fun runcmd :: "uchar list \<Rightarrow> cmd \<Rightarrow> prog" where
  "runcmd buf (EXEC ws) =
     (case ws of
        [] \<Rightarrow> Exit 1
      | w # _ \<Rightarrow>
          Exec (str buf w) (map (str buf) ws)
            (Print (map of_char ''exec '' @ str buf w @ map of_char '' failed'' @ [10]) (Exit 0)))"
| "runcmd buf (REDIR c f m fd) =
     Close fd (Open (str buf f) m (\<lambda>r.
       case r of
         None \<Rightarrow> Print (map of_char ''open '' @ str buf f @ map of_char '' failed'' @ [10]) (Exit 1)
       | Some _ \<Rightarrow> runcmd buf c))"
| "runcmd buf (LIST l r) = fork1 (runcmd buf l) (WaitChild (runcmd buf r))"
| "runcmd buf (PIPE l r) =
     MakePipe (panic_sh ''pipe'') (\<lambda>p0 p1.
       fork1 (Close 1 (Dup p1 (Close p0 (Close p1 (runcmd buf l)))))
         (fork1 (Close 0 (Dup p0 (Close p0 (Close p1 (runcmd buf r)))))
           (Close p0 (Close p1 (WaitChild (WaitChild (Exit 0)))))))"
| "runcmd buf (BACK c) = fork1 (runcmd buf c) (Exit 0)"

text \<open>
  One command line of \<^verbatim>\<open>main\<close>, and the loop over the lines that \<^verbatim>\<open>getcmd\<close> reads; an empty line is the end of the input.
\<close>

definition getcmd :: "nat \<Rightarrow> uworld \<Rightarrow> (uchar list option) \<times> uworld" where
  "getcmd nbuf w =
     (let (bs, w1) = gets_u nbuf (snd (u_write 2 (map of_char ''$ '') w)) in
      (if cstr bs = [] then None else Some (cstr bs), w1))"

definition sh_line :: "uchar list \<Rightarrow> prog \<Rightarrow> prog" where
  "sh_line buf next_line =
     (if take 3 buf = map of_char ''cd '' then
        let dir = drop 3 (butlast buf) in
        Chdir dir (Print (map of_char ''cannot cd '' @ dir @ [10]) next_line) next_line
      else
        fork1
          (case parsecmd buf of
             Ok (c, b) \<Rightarrow> runcmd b c
           | Panic m \<Rightarrow> panic_sh m
           | _ \<Rightarrow> Exit 1)
          (WaitChild next_line))"

fun sh_loop :: "uchar list list \<Rightarrow> prog" where
  "sh_loop [] = Exit 0"
| "sh_loop (l # ls) = sh_line l (sh_loop ls)"

text \<open>The console is opened until a descriptor of 3 or more comes back; at most three lower ones are free.\<close>

fun sh_open :: "nat \<Rightarrow> prog \<Rightarrow> prog" where
  "sh_open 0 k = k"
| "sh_open (Suc n) k =
     Open (map of_char ''console'') 2 (\<lambda>r.
       case r of None \<Rightarrow> k | Some fd \<Rightarrow> if fd \<ge> 3 then Close fd k else sh_open n k)"

definition sh_main :: "uchar list list \<Rightarrow> prog" where
  "sh_main ls = sh_open 4 (sh_loop ls)"

section \<open>Tokens lie in the string\<close>

lemma skip_le: "i \<le> length b \<Longrightarrow> skip f b i \<le> length b"
  by (induction f b i rule: skip.induct) (subst skip.simps, auto)

lemma skip_all: "i \<le> k \<Longrightarrow> k < skip f b i \<Longrightarrow> f (at b k)"
proof (induction f b i rule: skip.induct)
  case (1 f b i)
  show ?case
  proof (cases "i < length b \<and> f (at b i)")
    case True
    then have "skip f b i = skip f b (i + 1)" by (subst skip.simps) simp
    then show ?thesis using 1 True by (cases "k = i") auto
  next
    case False
    then have "skip f b i = i" by (subst skip.simps) auto
    then show ?thesis using 1(2,3) by simp
  qed
qed

lemma skip_end: "skip f b i < length b \<Longrightarrow> \<not> f (at b (skip f b i))"
proof (induction f b i rule: skip.induct)
  case (1 f b i)
  show ?case
  proof (cases "i < length b \<and> f (at b i)")
    case True
    then have "skip f b i = skip f b (i + 1)" by (subst skip.simps) simp
    then show ?thesis using 1 True by simp
  next
    case False
    then have "skip f b i = i" by (subst skip.simps) auto
    then show ?thesis using 1(2) False by simp
  qed
qed

lemma skip_stop: "\<not> f (at b i) \<Longrightarrow> skip f b i = i"
  by (subst skip.simps) simp

lemma skip_first: "i < length b \<Longrightarrow> f (at b i) \<Longrightarrow> i < skip f b i"
  using skip_ge[of "i + 1" f b] by (subst skip.simps) simp

lemma at_nonzero: "at b i \<noteq> 0 \<Longrightarrow> i < length b"
  by (auto simp: at_def split: if_splits)

definition word_ok :: "uchar list \<Rightarrow> token \<Rightarrow> bool" where
  "word_ok b w \<longleftrightarrow> fst w < snd w \<and> snd w \<le> length b \<and> (\<forall>k \<in> {fst w ..< snd w}. is_word (at b k)) \<and>
     (snd w < length b \<longrightarrow> \<not> is_word (at b (snd w)))"

lemma symbol_cases: "strchr symbols c = None \<longleftrightarrow> c \<notin> of_char ` set ''|();&<'' \<and> c \<noteq> of_char (CHR ''>'')"
  by (simp add: symbols_def)

lemma gettoken_bounds:
  assumes "gettoken b i = (tok, q, eq, j)" "i \<le> length b"
  shows "i \<le> q \<and> q \<le> eq \<and> eq \<le> j \<and> j \<le> length b \<and> (at b q \<noteq> 0 \<longrightarrow> q < eq)"
    and "tok = of_char (CHR ''a'') \<Longrightarrow> word_ok b (q, eq)"
proof -
  have q: "q = skip is_space b i" and j: "j = skip is_space b eq" using assms(1)
    by (auto simp: gettoken_def Let_def split: if_splits)
  have iq: "i \<le> q" "q \<le> length b" using skip_ge skip_le assms(2) unfolding q by auto
  consider (z) "at b q = 0" "tok = 0" "eq = q"
    | (s) "at b q \<noteq> 0" "at b q \<in> of_char ` set ''|();&<''" "tok = at b q" "eq = q + 1"
    | (g) "at b q = of_char (CHR ''>'')" "tok = of_char (CHR ''+'')" "eq = q + 2" "at b (q + 1) = of_char (CHR ''>'')"
    | (h) "at b q = of_char (CHR ''>'')" "tok = of_char (CHR ''>'')" "eq = q + 1"
    | (w) "at b q \<noteq> 0" "at b q \<notin> of_char ` set ''|();&<''" "at b q \<noteq> of_char (CHR ''>'')" "eq = skip is_word b q"
    using assms(1) unfolding gettoken_def Let_def q[symmetric] by (auto split: if_splits)
  note cs = this
  have "q \<le> eq \<and> eq \<le> length b \<and> (at b q \<noteq> 0 \<longrightarrow> q < eq)"
    using cs
  proof cases
    case g
    then show ?thesis using at_nonzero[of b "q + 1"] by simp
  next
    case w
    have "q < length b" using at_nonzero w(1) by metis
    moreover have "is_word (at b q)"
      using w(2,3) skip_end[of is_space b i] \<open>q < length b\<close> unfolding is_word_def symbol_cases is_space_def q by blast
    ultimately show ?thesis using w(4) skip_first skip_le[OF iq(2)] by (simp add: less_imp_le)
  qed (use iq at_nonzero in \<open>auto simp: Suc_le_eq\<close>)
  then show "i \<le> q \<and> q \<le> eq \<and> eq \<le> j \<and> j \<le> length b \<and> (at b q \<noteq> 0 \<longrightarrow> q < eq)"
    using iq skip_ge[of eq is_space b] skip_le[of eq b is_space] unfolding j by simp
  show "word_ok b (q, eq)" if a: "tok = of_char (CHR ''a'')"
    using cs
  proof cases
    case w
    show ?thesis
      using \<open>q \<le> eq \<and> eq \<le> length b \<and> (at b q \<noteq> 0 \<longrightarrow> q < eq)\<close> w(1,4) skip_all[of q _ is_word b] skip_end[of is_word b q]
      by (auto simp: word_ok_def)
  qed (use a in \<open>auto\<close>)
qed

lemma peek_bounds:
  assumes "peek b i toks = (p, j)" "i \<le> length b"
  shows "i \<le> j \<and> j \<le> length b" and "p \<Longrightarrow> gettoken b j = (tok, q, eq, k) \<Longrightarrow> j < k \<and> k \<le> length b"
proof -
  have j: "j = skip is_space b i" and p: "p \<longleftrightarrow> at b j \<noteq> 0 \<and> strchr (map of_char toks) (at b j) \<noteq> None"
    using assms(1) by (auto simp: peek_def Let_def)
  show 1: "i \<le> j \<and> j \<le> length b" using skip_ge skip_le assms(2) unfolding j by auto
  assume "p" and g: "gettoken b j = (tok, q, eq, k)"
  then have "at b j \<noteq> 0" using p by blast
  then have "\<not> is_space (at b j)" using skip_end[of is_space b i] at_nonzero unfolding j by blast
  then have "q = j" using g by (auto simp: gettoken_def Let_def skip_stop split: if_splits)
  then show "j < k \<and> k \<le> length b" using gettoken_bounds(1)[OF g] 1 \<open>at b j \<noteq> 0\<close> by auto
qed

section \<open>The parser always comes to an end\<close>

text \<open>An outcome that is a result with the property, or a panic.\<close>

fun good :: "('a \<Rightarrow> bool) \<Rightarrow> 'a outcome \<Rightarrow> bool" where
  "good P (Ok x) = P x"
| "good P (Panic m) = True"
| "good P _ = False"

lemma good_bind: "good P m \<Longrightarrow> (\<And>x. P x \<Longrightarrow> good Q (f x)) \<Longrightarrow> good Q (obind m f)"
  by (cases m) auto

lemma good_mono: "good P m \<Longrightarrow> (\<And>x. P x \<Longrightarrow> Q x) \<Longrightarrow> good Q m"
  by (cases m) auto

fun cmd_ok :: "uchar list \<Rightarrow> cmd \<Rightarrow> bool" where
  "cmd_ok b (EXEC ws) = (length ws < MAXARGS \<and> list_all (word_ok b) ws)"
| "cmd_ok b (REDIR c f m fd) = (cmd_ok b c \<and> word_ok b f \<and> fd \<le> 1)"
| "cmd_ok b (PIPE l r) = (cmd_ok b l \<and> cmd_ok b r)"
| "cmd_ok b (LIST l r) = (cmd_ok b l \<and> cmd_ok b r)"
| "cmd_ok b (BACK c) = cmd_ok b c"

text \<open>The number of arguments of a command to execute, under its redirections.\<close>

fun nargs :: "cmd \<Rightarrow> nat option" where
  "nargs (EXEC ws) = Some (length ws)"
| "nargs (REDIR c f m fd) = nargs c"
| "nargs _ = None"

lemma add_arg_ok:
  "nargs c = Some n \<Longrightarrow> nargs (add_arg w c) = Some (Suc n)"
  "nargs c = Some n \<Longrightarrow> Suc n < MAXARGS \<Longrightarrow> cmd_ok b c \<Longrightarrow> word_ok b w \<Longrightarrow> cmd_ok b (add_arg w c)"
  by (induction w c rule: add_arg.induct) auto

lemma redirect_ok: "nargs (redirect tok c f) = nargs c" "cmd_ok b c \<Longrightarrow> word_ok b f \<Longrightarrow> cmd_ok b (redirect tok c f)"
  by (auto simp: redirect_def)

definition parsed :: "uchar list \<Rightarrow> nat \<Rightarrow> cmd \<times> nat \<Rightarrow> bool" where
  "parsed b i x \<longleftrightarrow> cmd_ok b (fst x) \<and> i \<le> snd x \<and> snd x \<le> length b"

lemma parseredirs_good:
  "i \<le> length b \<Longrightarrow> cmd_ok b c \<Longrightarrow> good (\<lambda>x. parsed b i x \<and> nargs (fst x) = nargs c) (parseredirs c b i)"
proof (induction c b i rule: parseredirs.induct)
  case (1 c b i)
  obtain p i1 where p: "peek b i ''<>'' = (p, i1)" by fastforce
  note pb = peek_bounds[OF p 1(2)]
  show ?case
  proof (cases p)
    case False
    then show ?thesis using p pb(1) 1(3) by (subst parseredirs.simps) (simp add: parsed_def)
  next
    case True
    obtain tok q0 e0 i2 where g: "gettoken b i1 = (tok, q0, e0, i2)" by (metis prod_cases4)
    obtain a q eq i3 where h: "gettoken b i2 = (a, q, eq, i3)" by (metis prod_cases4)
    have i2: "i1 < i2" "i2 \<le> length b" using pb(2)[OF True g] by auto
    have "onward b i i3" using gettoken_bounds(1)[OF h i2(2)] i2 pb(1) by (simp add: onward_def)
    moreover have "word_ok b (q, eq)" if "a = of_char (CHR ''a'')" using gettoken_bounds(2)[OF h i2(2) that] .
    ultimately show ?thesis
      using 1(1)[of "(p, i1)" p i1 "(tok, q0, e0, i2)" tok "(q0, e0, i2)" q0 "(e0, i2)" e0 i2 "(a, q, eq, i3)" a "(q, eq, i3)" q "(eq, i3)" eq i3]
        p g h True 1(3) redirect_ok
      by (subst parseredirs.simps) (auto simp: onward_def parsed_def elim!: good_mono)
  qed
qed

lemma parseargs_good:
  "i \<le> length b \<Longrightarrow> cmd_ok b r \<Longrightarrow> nargs r = Some argc \<Longrightarrow> good (parsed b i) (parseargs argc r b i)"
proof (induction "length b - i" arbitrary: i r argc rule: less_induct)
  case less
  obtain p i1 where p: "peek b i ''|)&;'' = (p, i1)" by fastforce
  obtain tok q eq i2 where g: "gettoken b i1 = (tok, q, eq, i2)" by (metis prod_cases4)
  note i1 = peek_bounds(1)[OF p less(2)]
  have gb: "i1 \<le> q \<and> q \<le> eq \<and> eq \<le> i2 \<and> i2 \<le> length b \<and> (at b q \<noteq> 0 \<longrightarrow> q < eq)"
    using gettoken_bounds(1)[OF g] i1 by blast
  have "good (parsed b i) (obind (parseredirs (add_arg (q, eq) r) b i2) (\<lambda>(r1, i3).
            if onward b i i3 then parseargs (argc + 1) r1 b i3 else Undef ''no progress''))"
    if tok: "tok = of_char (CHR ''a'')" "argc + 1 < MAXARGS"
  proof -
    have w: "word_ok b (q, eq)" using gettoken_bounds(2)[OF g _ tok(1)] i1 by blast
    then have "q < eq" by (simp add: word_ok_def)
    have ok: "cmd_ok b (add_arg (q, eq) r)" "nargs (add_arg (q, eq) r) = Some (argc + 1)"
      using add_arg_ok[of r argc] less(3,4) w tok(2) by auto
    show ?thesis
    proof (rule good_bind[OF parseredirs_good[OF _ ok(1)]])
      show "i2 \<le> length b" using gb by blast
      fix x assume x: "parsed b i2 x \<and> nargs (fst x) = nargs (add_arg (q, eq) r)"
      obtain r1 i3 where xe: "x = (r1, i3)" by fastforce
      then have i3: "i < i3" "i3 \<le> length b" using x gb i1 \<open>q < eq\<close> by (auto simp: parsed_def)
      have "good (parsed b i3) (parseargs (argc + 1) r1 b i3)"
        using less(1)[of i3 r1 "argc + 1"] i3 x xe ok(2) less(2) by (simp add: parsed_def)
      then show "good (parsed b i) (case x of (r1, i3) \<Rightarrow>
          if onward b i i3 then parseargs (argc + 1) r1 b i3 else Undef ''no progress'')"
        using i3 xe by (auto simp: onward_def parsed_def elim!: good_mono)
    qed
  qed
  then show ?case using p g less(3) gb i1
    by (subst parseargs.simps) (auto simp: parsed_def)
qed

lemma parseback_good:
  "i \<le> length b \<Longrightarrow> cmd_ok b c \<Longrightarrow> good (parsed b i) (parseback c b i)"
proof (induction "length b - i" arbitrary: i c rule: less_induct)
  case less
  obtain p i1 where p: "peek b i ''&'' = (p, i1)" by fastforce
  obtain tok q eq i2 where g: "gettoken b i1 = (tok, q, eq, i2)" by (metis prod_cases4)
  note pb = peek_bounds[OF p less(2)]
  show ?case
  proof (cases p)
    case False
    then show ?thesis using p pb(1) less(3) by (subst parseback.simps) (simp add: parsed_def)
  next
    case True
    then have i2: "i < i2" "i2 \<le> length b" using pb(2)[OF True g] pb(1) by auto
    then have "good (parsed b i2) (parseback (BACK c) b i2)" using less by simp
    then show ?thesis using p g True i2 by (subst parseback.simps) (auto simp: onward_def parsed_def elim!: good_mono)
  qed
qed

definition all_good :: "uchar list \<Rightarrow> nat \<Rightarrow> bool" where
  "all_good b i \<longleftrightarrow> good (parsed b i) (parseline b i) \<and> good (parsed b i) (parsepipe b i) \<and>
     good (parsed b i) (parseexec b i) \<and> good (parsed b i) (parseblock b i)"

lemma parsed_later: "parsed b j x \<Longrightarrow> i \<le> j \<Longrightarrow> parsed b i x"
  by (auto simp: parsed_def)

lemma parseblock_good:
  assumes "i \<le> length b" "\<And>j. i < j \<Longrightarrow> j \<le> length b \<Longrightarrow> good (parsed b j) (parseline b j)"
  shows "good (parsed b i) (parseblock b i)"
proof -
  obtain p i1 where p: "peek b i ''('' = (p, i1)" by fastforce
  obtain t q e i2 where g: "gettoken b i1 = (t, q, e, i2)" by (metis prod_cases4)
  note pb = peek_bounds[OF p assms(1)]
  show ?thesis
  proof (cases p)
    case False
    then show ?thesis using p by (subst parseblock.simps) simp
  next
    case True
    then have i2: "i < i2" "i2 \<le> length b" using pb(2)[OF True g] pb(1) by auto
    have "good (parsed b i) (obind (parseline b i2) (\<lambda>(c, i3).
            let (p1, i4) = peek b i3 '')'' in
            if \<not> p1 then Panic ''syntax - missing )''
            else let (_, _, _, i5) = gettoken b i4 in parseredirs c b i5))"
    proof (rule good_bind[OF assms(2)[OF i2]])
      fix x assume x: "parsed b i2 x"
      obtain c i3 where xe: "x = (c, i3)" by fastforce
      obtain p1 i4 where p1: "peek b i3 '')'' = (p1, i4)" by fastforce
      obtain t' q' e' i5 where g1: "gettoken b i4 = (t', q', e', i5)" by (metis prod_cases4)
      have i3: "i3 \<le> length b" "i2 \<le> i3" "cmd_ok b c" using x xe by (auto simp: parsed_def)
      note pb1 = peek_bounds[OF p1 i3(1)]
      have "good (parsed b i) (parseredirs c b i5)" if p1
        using parseredirs_good[of i5 b c] pb1(2)[OF that g1] pb1(1) i2 i3
        by (auto elim!: good_mono simp: parsed_def)
      then show "good (parsed b i) (case x of (c, i3) \<Rightarrow>
            let (p1, i4) = peek b i3 '')'' in
            if \<not> p1 then Panic ''syntax - missing )''
            else let (_, _, _, i5) = gettoken b i4 in parseredirs c b i5)"
        using xe p1 g1 by simp
    qed
    then show ?thesis using p g True i2 by (subst parseblock.simps) (simp add: onward_def)
  qed
qed

lemma parseexec_good:
  assumes "i \<le> length b" "\<And>j. i \<le> j \<Longrightarrow> j \<le> length b \<Longrightarrow> good (parsed b j) (parseblock b j)"
  shows "good (parsed b i) (parseexec b i)"
proof -
  obtain p i1 where p: "peek b i ''('' = (p, i1)" by fastforce
  note pb = peek_bounds[OF p assms(1)]
  have e: "cmd_ok b (EXEC [])" by (simp add: MAXARGS_def)
  have "good (parsed b i) (parseblock b i1)" using assms(2)[of i1] pb(1) by (auto elim!: good_mono parsed_later)
  moreover have "good (parsed b i) (obind (parseredirs (EXEC []) b i1) (\<lambda>(r, i2). parseargs 0 r b i2))"
  proof (rule good_bind[OF parseredirs_good[OF _ e]])
    show "i1 \<le> length b" using pb(1) by blast
    fix x assume "parsed b i1 x \<and> nargs (fst x) = nargs (EXEC [])"
    then show "good (parsed b i) (case x of (r, i2) \<Rightarrow> parseargs 0 r b i2)"
      using parseargs_good[of "snd x" b "fst x" 0] pb(1)
      by (cases x) (auto simp: parsed_def elim!: good_mono)
  qed
  ultimately show ?thesis using p by (subst parseexec.simps) simp
qed

lemma parsepipe_good:
  assumes "i \<le> length b" "good (parsed b i) (parseexec b i)"
    "\<And>j. i < j \<Longrightarrow> j \<le> length b \<Longrightarrow> good (parsed b j) (parsepipe b j)"
  shows "good (parsed b i) (parsepipe b i)"
  unfolding parsepipe.simps[of b i]
proof (rule good_bind[OF assms(2)])
  fix x assume x: "parsed b i x"
  obtain c i1 where xe: "x = (c, i1)" by fastforce
  have i1: "i1 \<le> length b" "i \<le> i1" "cmd_ok b c" using x xe by (auto simp: parsed_def)
  obtain p i2 where p: "peek b i1 ''|'' = (p, i2)" by fastforce
  obtain t q e i3 where g: "gettoken b i2 = (t, q, e, i3)" by (metis prod_cases4)
  note pb = peek_bounds[OF p i1(1)]
  have "good (parsed b i) (obind (parsepipe b i3) (\<lambda>(d, i4). Ok (PIPE c d, i4)))" "onward b i i3" if p
  proof -
    have i3: "i < i3" "i3 \<le> length b" using pb(2)[OF that g] pb(1) i1 by auto
    then show "onward b i i3" by (simp add: onward_def)
    show "good (parsed b i) (obind (parsepipe b i3) (\<lambda>(d, i4). Ok (PIPE c d, i4)))"
      using assms(3)[OF i3] i1 i3 by (auto elim!: good_bind simp: parsed_def)
  qed
  then show "good (parsed b i) (case x of (c, i1) \<Rightarrow>
       let (p, i2) = peek b i1 ''|'' in
       if \<not> p then Ok (c, i2)
       else
         let (_, _, _, i3) = gettoken b i2 in
         if onward b i i3 then obind (parsepipe b i3) (\<lambda>(d, i4). Ok (PIPE c d, i4))
         else Undef ''no progress'')"
    using xe p g i1 pb(1) by (auto simp: parsed_def)
qed

lemma parseline_good:
  assumes "i \<le> length b" "good (parsed b i) (parsepipe b i)"
    "\<And>j. i < j \<Longrightarrow> j \<le> length b \<Longrightarrow> good (parsed b j) (parseline b j)"
  shows "good (parsed b i) (parseline b i)"
  unfolding parseline.simps[of b i]
proof (rule good_bind[OF assms(2)])
  fix x assume x: "parsed b i x"
  obtain c i1 where xe: "x = (c, i1)" by fastforce
  have i1: "i1 \<le> length b" "i \<le> i1" "cmd_ok b c" using x xe by (auto simp: parsed_def)
  have "good (parsed b i) (obind (parseback c b i1) (\<lambda>(c1, i2).
       let (p, i3) = peek b i2 '';'' in
       if \<not> p then Ok (c1, i3)
       else
         let (_, _, _, i4) = gettoken b i3 in
         if onward b i i4 then obind (parseline b i4) (\<lambda>(d, i5). Ok (LIST c1 d, i5))
         else Undef ''no progress''))"
  proof (rule good_bind[OF parseback_good[OF i1(1,3)]])
    fix y assume y: "parsed b i1 y"
    obtain c1 i2 where ye: "y = (c1, i2)" by fastforce
    have i2: "i2 \<le> length b" "i \<le> i2" "cmd_ok b c1" using y ye i1 by (auto simp: parsed_def)
    obtain p i3 where p: "peek b i2 '';'' = (p, i3)" by fastforce
    obtain t q e i4 where g: "gettoken b i3 = (t, q, e, i4)" by (metis prod_cases4)
    note pb = peek_bounds[OF p i2(1)]
    have "good (parsed b i) (obind (parseline b i4) (\<lambda>(d, i5). Ok (LIST c1 d, i5)))" "onward b i i4" if p
    proof -
      have i4: "i < i4" "i4 \<le> length b" using pb(2)[OF that g] pb(1) i2 by auto
      then show "onward b i i4" by (simp add: onward_def)
      show "good (parsed b i) (obind (parseline b i4) (\<lambda>(d, i5). Ok (LIST c1 d, i5)))"
        using assms(3)[OF i4] i2 i4 by (auto elim!: good_bind simp: parsed_def)
    qed
    then show "good (parsed b i) (case y of (c1, i2) \<Rightarrow>
       let (p, i3) = peek b i2 '';'' in
       if \<not> p then Ok (c1, i3)
       else
         let (_, _, _, i4) = gettoken b i3 in
         if onward b i i4 then obind (parseline b i4) (\<lambda>(d, i5). Ok (LIST c1 d, i5))
         else Undef ''no progress'')"
      using ye p g i2 pb(1) by (auto simp: parsed_def)
  qed
  then show "good (parsed b i) (case x of (c, i1) \<Rightarrow> obind (parseback c b i1) (\<lambda>(c1, i2).
       let (p, i3) = peek b i2 '';'' in
       if \<not> p then Ok (c1, i3)
       else
         let (_, _, _, i4) = gettoken b i3 in
         if onward b i i4 then obind (parseline b i4) (\<lambda>(d, i5). Ok (LIST c1 d, i5))
         else Undef ''no progress''))"
    using xe by simp
qed

lemma all_good_all: "i \<le> length b \<Longrightarrow> all_good b i"
proof (induction "length b - i" arbitrary: i rule: less_induct)
  case less
  have later: "all_good b j" if "i < j" "j \<le> length b" for j using less that by simp
  have block: "good (parsed b j) (parseblock b j)" if "i \<le> j" "j \<le> length b" for j
    using later parseblock_good[OF less(2)] that by (cases "i = j") (auto simp: all_good_def)
  have exec: "good (parsed b i) (parseexec b i)" using parseexec_good[OF less(2)] block by blast
  have pipe: "good (parsed b i) (parsepipe b i)"
    using parsepipe_good[OF less(2) exec] later by (auto simp: all_good_def)
  show ?case using parseline_good[OF less(2) pipe] later exec pipe block[of i] less(2) by (auto simp: all_good_def)
qed

section \<open>The words of a command\<close>

fun words :: "cmd \<Rightarrow> token list" where
  "words (EXEC ws) = ws"
| "words (REDIR c f m fd) = words c @ [f]"
| "words (PIPE l r) = words l @ words r"
| "words (LIST l r) = words l @ words r"
| "words (BACK c) = words c"

definition word_bytes :: "uchar list \<Rightarrow> token \<Rightarrow> uchar list" where
  "word_bytes b w = take (snd w - fst w) (drop (fst w) b)"

lemma cmd_ok_words: "cmd_ok b c \<Longrightarrow> w \<in> set (words c) \<Longrightarrow> word_ok b w"
  by (induction b c rule: cmd_ok.induct) (auto simp: list_all_iff)

lemma zero_fold_nth:
  "k < length buf \<Longrightarrow> fold (\<lambda>w buf. buf[snd w := 0]) ws buf ! k = (if k \<in> snd ` set ws then 0 else buf ! k)"
  by (induction ws arbitrary: buf) (auto simp: nth_list_update)

lemma zero_fold_length: "length (fold (\<lambda>w buf. buf[snd w := 0]) ws buf) = length buf"
  by (induction ws arbitrary: buf) auto

lemma nulterminate_length [simp]: "length (nulterminate c buf) = length buf"
  by (induction c buf rule: nulterminate.induct) (simp_all add: zero_fold_length)

lemma nulterminate_nth:
  "k < length buf \<Longrightarrow> nulterminate c buf ! k = (if k \<in> snd ` set (words c) then 0 else buf ! k)"
proof (induction c buf rule: nulterminate.induct)
  case (2 c f m fd buf)
  then show ?case by (cases "k = snd f") (simp_all add: nth_list_update image_Un)
qed (simp_all add: zero_fold_nth image_Un)

lemma cstr_append: "0 \<notin> set xs \<Longrightarrow> cstr (xs @ 0 # ys) = xs"
  by (induction xs) auto

lemma str_nulterminate:
  assumes "cmd_ok b c" "w \<in> set (words c)" "0 \<notin> set b"
  shows "str (nulterminate c (b @ [0])) w = word_bytes b w"
proof -
  let ?buf = "nulterminate c (b @ [0])" and ?q = "fst w" and ?e = "snd w"
  have w: "?q < ?e" "?e \<le> length b" "\<And>k. ?q \<le> k \<Longrightarrow> k < ?e \<Longrightarrow> is_word (at b k)"
    using cmd_ok_words[OF assms(1,2)] by (auto simp: word_ok_def)
  have keep: "?buf ! k = b ! k" if k: "?q \<le> k" "k < ?e" for k
  proof -
    have "k \<notin> snd ` set (words c)"
    proof
      assume "k \<in> snd ` set (words c)"
      then obtain v where "v \<in> set (words c)" "k = snd v" by blast
      then have "k < length b \<longrightarrow> \<not> is_word (at b k)" using cmd_ok_words[OF assms(1)] by (auto simp: word_ok_def)
      then show False using w(2,3) k by simp
    qed
    then show ?thesis using nulterminate_nth[of k "b @ [0]" c] w(2) k by (simp add: nth_append)
  qed
  have e: "?buf ! ?e = 0" using nulterminate_nth[of ?e "b @ [0]" c] w(2) assms(2) by simp
  have "take (?e - ?q) (drop ?q ?buf) = word_bytes b w"
    using w(1,2) keep by (auto simp: word_bytes_def intro!: nth_equalityI)
  moreover have "drop ?q ?buf = take (?e - ?q) (drop ?q ?buf) @ 0 # drop (Suc ?e) ?buf"
    using id_take_nth_drop[of "?e - ?q" "drop ?q ?buf"] w(1,2) e by simp
  moreover have "0 \<notin> set (word_bytes b w)"
    using assms(3) by (metis in_set_dropD in_set_takeD word_bytes_def)
  ultimately show ?thesis using cstr_append by (metis str_def)
qed

section \<open>Descriptors\<close>

text \<open>What an open descriptor refers to, here only the ends of one pipe and anything else.\<close>

datatype target = ReadEnd | WriteEnd | Other nat

type_synonym fdtable = "nat \<Rightarrow> target option"

definition lowest :: "fdtable \<Rightarrow> nat" where
  "lowest t = (LEAST n. t n = None)"

text \<open>The first \<open>n\<close> calls of a program, while they only close and duplicate descriptors.\<close>

fun fd_steps :: "nat \<Rightarrow> prog \<Rightarrow> fdtable \<Rightarrow> prog \<times> fdtable" where
  "fd_steps (Suc n) (Close fd k) t = fd_steps n k (t(fd := None))"
| "fd_steps (Suc n) (Dup fd k) t = fd_steps n k (if t fd = None then t else t(lowest t := t fd))"
| "fd_steps n p t = (p, t)"

lemma lowest_upd: "t 0 \<noteq> None \<Longrightarrow> lowest (t(Suc 0 := None)) = Suc 0"
  unfolding lowest_def by (rule Least_equality) (auto simp: Suc_le_eq intro!: Nat.gr0I)

lemma lowest_zero: "lowest (t(0 := None)) = 0"
  unfolding lowest_def by (rule Least_equality) auto

section \<open>Properties\<close>

text \<open>
  C20. The parser is total and its trees are sound. On every line without zero bytes it either calls \<^verbatim>\<open>panic\<close> or
  returns a tree (the recursion always moves on in the line and comes to its end); in the tree a command has
  fewer than \<^verbatim>\<open>MAXARGS\<close> words, so the array with its final null pointer is never overrun; every word is a
  stretch of the line without spaces and symbols that cannot be longer; and after \<^verbatim>\<open>nulterminate\<close>, the C string at each
  word is exactly that stretch, no terminating zero having damaged another word.
\<close>

theorem parsecmd_sound:
  assumes "0 \<notin> set b"
  shows "(\<exists>m. parsecmd b = Panic m) \<or>
    (\<exists>c buf. parsecmd b = Ok (c, buf) \<and> cmd_ok b c \<and>
       (\<forall>w \<in> set (words c). str buf w = word_bytes b w \<and> word_bytes b w \<noteq> [] \<and> list_all is_word (word_bytes b w)))"
proof -
  have g: "good (parsed b 0) (parseline b 0)" using all_good_all[of 0 b] by (simp add: all_good_def)
  have word: "word_bytes b w \<noteq> [] \<and> list_all is_word (word_bytes b w)" if "word_ok b w" for w
  proof -
    have "x \<in> set (word_bytes b w) \<Longrightarrow> is_word x" for x
      using that by (auto simp: word_bytes_def word_ok_def in_set_conv_nth at_def)
    then show ?thesis using that by (auto simp: word_bytes_def word_ok_def list_all_iff)
  qed
  have "cmd_ok b c \<Longrightarrow> \<forall>w \<in> set (words c). str (nulterminate c (b @ [0])) w = word_bytes b w \<and>
      word_bytes b w \<noteq> [] \<and> list_all is_word (word_bytes b w)" for c
    using str_nulterminate[of b c] assms word cmd_ok_words[of b c] by blast
  then show ?thesis using g
    by (cases "parseline b 0") (auto simp: parsecmd_def parsed_def Let_def split: prod.splits)
qed

theorem parsecmd_sound_witness:
  "(\<exists>m. parsecmd (map of_char ''ls | wc'') = Panic m) \<or>
   (\<exists>c buf. parsecmd (map of_char ''ls | wc'') = Ok (c, buf) \<and> cmd_ok (map of_char ''ls | wc'') c)"
  using parsecmd_sound[of "map of_char ''ls | wc''"] by auto

text \<open>
  C31. The plumbing of a pipe. For a shell whose descriptor table is \<open>t\<close>, with the standard descriptors open and the two
  ends of a new pipe in descriptors \<open>p0\<close> and \<open>p1\<close> that were free: the left command runs with the
  write end as its output and otherwise the table of the shell, the right command with the read end as its input, and
  the shell itself goes on with its old table. No process keeps an end of the pipe that is not its own, so
  that the reader sees the end of the data.
\<close>

theorem pipe_plumbing:
  assumes "t 0 \<noteq> None" "t 1 \<noteq> None" "t p0 = None" "t p1 = None" "p0 \<noteq> p1"
  shows "\<exists>k child1 child2 parent.
     runcmd buf (PIPE l r) = MakePipe (panic_sh ''pipe'') k \<and>
     k p0 p1 = fork1 child1 (fork1 child2 parent) \<and>
     fd_steps 4 child1 (t(p0 \<mapsto> ReadEnd, p1 \<mapsto> WriteEnd)) = (runcmd buf l, t(1 \<mapsto> WriteEnd)) \<and>
     fd_steps 4 child2 (t(p0 \<mapsto> ReadEnd, p1 \<mapsto> WriteEnd)) = (runcmd buf r, t(0 \<mapsto> ReadEnd)) \<and>
     fd_steps 2 parent (t(p0 \<mapsto> ReadEnd, p1 \<mapsto> WriteEnd)) = (WaitChild (WaitChild (Exit 0)), t)"
proof -
  have p: "p0 \<noteq> 0" "p0 \<noteq> Suc 0" "p1 \<noteq> 0" "p1 \<noteq> Suc 0" using assms by (metis One_nat_def)+
  let ?t = "t(p0 \<mapsto> ReadEnd, p1 \<mapsto> WriteEnd)"
  have l1: "lowest (?t(Suc 0 := None)) = Suc 0" using assms(1) p by (intro lowest_upd) simp
  have l0: "lowest (?t(0 := None)) = 0" by (rule lowest_zero)
  let ?c1 = "Close 1 (Dup p1 (Close p0 (Close p1 (runcmd buf l))))"
  let ?c2 = "Close 0 (Dup p0 (Close p0 (Close p1 (runcmd buf r))))"
  let ?pa = "Close p0 (Close p1 (WaitChild (WaitChild (Exit 0))))"
  have "fd_steps 4 ?c1 ?t = (runcmd buf l, t(1 \<mapsto> WriteEnd))"
    using l1 p assms by (simp add: numeral_eq_Suc fun_upd_def) (auto simp: fun_eq_iff)
  moreover have "fd_steps 4 ?c2 ?t = (runcmd buf r, t(0 \<mapsto> ReadEnd))"
    using l0 p assms by (simp add: numeral_eq_Suc fun_upd_def) (auto simp: fun_eq_iff)
  moreover have "fd_steps 2 ?pa ?t = (WaitChild (WaitChild (Exit 0)), t)"
    using assms by (auto simp: numeral_eq_Suc fun_eq_iff)
  ultimately show ?thesis by (intro exI[of _ "\<lambda>p0 p1. _ p0 p1"] exI[of _ ?c1] exI[of _ ?c2] exI[of _ ?pa]) auto
qed

theorem pipe_plumbing_witness:
  "\<exists>k child1 child2 parent.
     runcmd [] (PIPE (EXEC []) (EXEC [])) = MakePipe (panic_sh ''pipe'') k \<and>
     k 3 4 = fork1 child1 (fork1 child2 parent) \<and>
     snd (fd_steps 4 child1 [0 \<mapsto> Other 0, 1 \<mapsto> Other 0, 3 \<mapsto> ReadEnd, 4 \<mapsto> WriteEnd]) = [0 \<mapsto> Other 0, 1 \<mapsto> WriteEnd]"
  using pipe_plumbing[of "[0 \<mapsto> Other 0, 1 \<mapsto> Other 0]" 3 4 "[]" "EXEC []" "EXEC []"] by fastforce

end
