(* ===== verification/Umalloc.thy ===== *)
theory Umalloc
  imports Xv6_Prelude
begin

text \<open>
  The allocator of user programs, \<^verbatim>\<open>user/umalloc.c\<close>: a circular list of free blocks in the order of their
  addresses, each with a header of 16 bytes. Addresses are numbers; the fields of the header at an address are
  \<open>hptr\<close> and \<open>hsize\<close>; the size of a block is in units of a header. \<open>brk\<close> is the size of the process, \<open>room\<close> the size up to which the kernel
  lets it grow. The list may be followed for ever if it is broken, so the loops are partial
  functions; the lemmas show that they return on every heap that the allocator makes.
\<close>

record heap =
  hptr :: "nat \<Rightarrow> nat"
  hsize :: "nat \<Rightarrow> nat"
  base_at :: nat
  freep :: nat
  brk :: nat
  room :: nat

section \<open>The allocator\<close>

text \<open>The call \<^verbatim>\<open>sbrk(n)\<close> as the kernel answers it (\<^verbatim>\<open>sys_sbrk\<close> and \<^verbatim>\<open>growproc\<close>).\<close>

definition sbrk :: "int \<Rightarrow> heap \<Rightarrow> nat option \<times> heap" where
  "sbrk n s =
     (if n > 0 then
        (if brk s + nat n \<le> room s then (Some (brk s), s\<lparr>brk := brk s + nat n\<rparr>) else (None, s))
      else if nat (- n) \<le> brk s then (Some (brk s), s\<lparr>brk := brk s - nat (- n)\<rparr>)
      else (Some (brk s), s))"

text \<open>The place of a block in the list: the search of \<^verbatim>\<open>free\<close>.\<close>

partial_function (option) free_pos :: "heap \<Rightarrow> nat \<Rightarrow> nat \<Rightarrow> nat option" where
  "free_pos s bp p =
     (if bp > p \<and> bp < hptr s p then Some p
      else if p \<ge> hptr s p \<and> (bp > p \<or> bp < hptr s p) then Some p
      else free_pos s bp (hptr s p))"

definition join_upper :: "nat \<Rightarrow> nat \<Rightarrow> heap \<Rightarrow> heap" where
  "join_upper bp p s =
     (if bp + 16 * hsize s bp = hptr s p
      then s\<lparr>hsize := (hsize s)(bp := hsize s bp + hsize s (hptr s p)), hptr := (hptr s)(bp := hptr s (hptr s p))\<rparr>
      else s\<lparr>hptr := (hptr s)(bp := hptr s p)\<rparr>)"

definition join_lower :: "nat \<Rightarrow> nat \<Rightarrow> heap \<Rightarrow> heap" where
  "join_lower bp p s =
     (if p + 16 * hsize s p = bp
      then s\<lparr>hsize := (hsize s)(p := hsize s p + hsize s bp), hptr := (hptr s)(p := hptr s bp)\<rparr>
      else s\<lparr>hptr := (hptr s)(p := bp)\<rparr>)"

definition free_u :: "nat \<Rightarrow> heap \<Rightarrow> heap option" where
  "free_u ap s =
     (let bp = ap - 16 in
      map_option (\<lambda>p. (join_lower bp p (join_upper bp p s))\<lparr>freep := p\<rparr>) (free_pos s bp (freep s)))"

text \<open>The argument of \<^verbatim>\<open>sbrk\<close> is an \<^verbatim>\<open>int\<close>: the number of bytes is cut to 32 bits.\<close>

definition morecore :: "nat \<Rightarrow> heap \<Rightarrow> (nat option \<times> heap) option" where
  "morecore n s =
     (let nu = (if n < 4096 then 4096 else n) in
      case sbrk (signed_take_bit 31 (int (nu * 16))) s of
        (None, s1) \<Rightarrow> Some (None, s1)
      | (Some hp, s1) \<Rightarrow>
          map_option (\<lambda>s2. (Some (freep s2), s2)) (free_u (hp + 16) (s1\<lparr>hsize := (hsize s1)(hp := nu)\<rparr>)))"

definition take_block :: "nat \<Rightarrow> nat \<Rightarrow> nat \<Rightarrow> heap \<Rightarrow> nat option \<times> heap" where
  "take_block nunits prevp p s =
     (if hsize s p = nunits then (Some (p + 16), s\<lparr>hptr := (hptr s)(prevp := hptr s p), freep := prevp\<rparr>)
      else
        let left = hsize s p - nunits; q = p + 16 * left
        in (Some (q + 16), s\<lparr>hsize := (hsize s)(p := left, q := nunits), freep := prevp\<rparr>))"

partial_function (option) malloc_loop :: "nat \<Rightarrow> nat \<Rightarrow> nat \<Rightarrow> heap \<Rightarrow> (nat option \<times> heap) option" where
  "malloc_loop nunits prevp p s =
     (if hsize s p \<ge> nunits then Some (take_block nunits prevp p s)
      else if p = freep s then
        Option.bind (morecore nunits s) (\<lambda>(r, s1).
          case r of None \<Rightarrow> Some (None, s1) | Some p1 \<Rightarrow> malloc_loop nunits p1 (hptr s1 p1) s1)
      else malloc_loop nunits p (hptr s p) s)"

definition units :: "uint32 \<Rightarrow> nat" where
  "units nbytes = (unat nbytes + 16 - 1) div 16 + 1"

definition malloc :: "uint32 \<Rightarrow> heap \<Rightarrow> (nat option \<times> heap) option" where
  "malloc nbytes s =
     (let s1 = (if freep s = 0
                then s\<lparr>freep := base_at s, hptr := (hptr s)(base_at s := base_at s), hsize := (hsize s)(base_at s := 0)\<rparr>
                else s)
      in malloc_loop (units nbytes) (freep s1) (hptr s1 (freep s1)) s1)"

section \<open>Circular lists of blocks\<close>

text \<open>The blocks at \<open>as\<close> are linked in this order, then to \<open>e\<close>; they are apart, in the order of their addresses, and end below \<open>l\<close>.\<close>

fun chain :: "(nat \<Rightarrow> nat) \<Rightarrow> (nat \<Rightarrow> nat) \<Rightarrow> nat list \<Rightarrow> nat \<Rightarrow> nat \<Rightarrow> bool" where
  "chain f g [] e l = False"
| "chain f g [a] e l = (f a = e \<and> a + 16 * g a < l)"
| "chain f g (a # b # as) e l = (f a = b \<and> a + 16 * g a < b \<and> chain f g (b # as) e l)"

lemma chain_append:
  "xs \<noteq> [] \<Longrightarrow> ys \<noteq> [] \<Longrightarrow> chain f g (xs @ ys) e l \<longleftrightarrow> chain f g xs (hd ys) (hd ys) \<and> chain f g ys e l"
proof (induction xs)
  case (Cons a xs)
  then show ?case by (cases xs; cases ys) auto
qed simp

lemma chain_cong:
  "(\<And>a. a \<in> set as \<Longrightarrow> f a = f' a \<and> g a = g' a) \<Longrightarrow> chain f g as e l = chain f' g' as e l"
  by (induction f g as e l rule: chain.induct) auto

lemma chain_above: "chain f g (a # as) e l \<Longrightarrow> b \<in> set as \<Longrightarrow> a + 16 * g a < b"
proof (induction as arbitrary: a)
  case (Cons c as)
  then have "a + 16 * g a < c" "chain f g (c # as) e l" by auto
  then show ?case using Cons.IH[of c] Cons.prems(2) by fastforce
qed simp

lemma chain_below: "chain f g as e l \<Longrightarrow> a \<in> set as \<Longrightarrow> a + 16 * g a < l"
proof (induction f g as e l arbitrary: a rule: chain.induct)
  case (3 f g c d ds e l)
  have "d + 16 * g d < l" using 3 by simp
  then show ?case using 3 by fastforce
qed auto

lemma chain_split:
  assumes "chain f g (xs @ p # ys) e l"
  shows "a \<in> set xs \<Longrightarrow> a + 16 * g a < p" "b \<in> set ys \<Longrightarrow> p + 16 * g p < b"
  using assms chain_append[of xs "p # ys"] chain_below[of f g xs p p a] chain_above[of f g p ys e l b]
  by (cases "xs = []"; auto)+

lemma chain_distinct: "chain f g as e l \<Longrightarrow> distinct as"
proof (induction as)
  case (Cons a as)
  have "a \<notin> set as" using chain_above[OF Cons.prems] by fastforce
  then show ?case using Cons by (cases as) auto
qed simp

lemma chain_next: "chain f g as e l \<Longrightarrow> map f as = tl as @ [e]"
  by (induction f g as e l rule: chain.induct) auto

section \<open>The state of the allocator\<close>

text \<open>The bytes of the free blocks are the set \<open>F\<close>.\<close>

definition blocks_of :: "(nat \<Rightarrow> nat) \<Rightarrow> nat list \<Rightarrow> nat set" where
  "blocks_of g as = (\<Union>a \<in> set as. {a ..< a + 16 * g a})"

definition ring :: "heap \<Rightarrow> nat list \<Rightarrow> bool" where
  "ring s as \<longleftrightarrow> as \<noteq> [] \<and> hd as = base_at s \<and> freep s \<in> set as \<and> hsize s (base_at s) = 0 \<and>
     chain (hptr s) (hsize s) as (base_at s) (Suc (brk s)) \<and> (\<forall>a \<in> set (tl as). 0 < hsize s a)"

definition heap_rel :: "heap \<Rightarrow> nat set \<Rightarrow> bool" where
  "heap_rel s F \<longleftrightarrow> 0 < base_at s \<and> base_at s < brk s \<and>
     (if freep s = 0 then F = {} else \<exists>as. ring s as \<and> F = blocks_of (hsize s) as)"

lemma blocks_of_simps [simp]:
  "blocks_of g [] = {}"
  "blocks_of g (a # as) = {a ..< a + 16 * g a} \<union> blocks_of g as"
  "blocks_of g (as @ bs) = blocks_of g as \<union> blocks_of g bs"
  by (auto simp: blocks_of_def)

lemma blocks_of_cong: "(\<And>a. a \<in> set as \<Longrightarrow> g a = g' a) \<Longrightarrow> blocks_of g as = blocks_of g' as"
  by (simp add: blocks_of_def)

section \<open>The search of free\<close>

lemma free_pos_up:
  assumes "chain (hptr s) g (us @ p # ys) e l" "\<forall>a \<in> set (us @ [p]). a < bp" "\<forall>a \<in> set ys. bp < a" "e \<le> p"
  shows "free_pos s bp (hd (us @ p # ys)) = Some p"
  using assms
proof (induction us)
  case Nil
  then show ?case by (cases ys) (auto simp: free_pos.simps)
next
  case (Cons u us)
  obtain v where v: "hd (us @ p # ys) = v" "v \<in> set (us @ [p])" by (cases us) auto
  have c: "chain (hptr s) g (us @ p # ys) e l" "hptr s u = v" "u < v"
    using Cons.prems(1) v(1) by (cases us; fastforce)+
  have "free_pos s bp u = free_pos s bp v" using c v(2) Cons.prems(2)
    by (subst free_pos.simps) fastforce
  then show ?case using Cons c(1) v(1) by simp
qed

lemma free_pos_wrap:
  assumes "chain (hptr s) g zs e l" "\<forall>a \<in> set zs. bp < a" "e < bp"
  shows "free_pos s bp (hd zs) = free_pos s bp e"
  using assms
proof (induction zs)
  case (Cons z zs)
  show ?case
  proof (cases zs)
    case Nil
    then show ?thesis using Cons.prems by (subst free_pos.simps) auto
  next
    case (Cons y ys)
    then have "hptr s z = y" "z < y" "chain (hptr s) g zs e l" using Cons.prems(1) by auto
    then have "free_pos s bp z = free_pos s bp y" using Cons.prems(2) by (subst free_pos.simps) auto
    then show ?thesis using Cons.IH Cons.prems \<open>chain (hptr s) g zs e l\<close> Cons by simp
  qed
qed simp

lemma free_pos_finds:
  assumes "ring s (xs @ p # ys)" "\<forall>a \<in> set (xs @ [p]). a < bp" "\<forall>a \<in> set ys. bp < a"
  shows "free_pos s bp (freep s) = Some p"
proof -
  let ?b = "base_at s"
  have c: "chain (hptr s) (hsize s) (xs @ p # ys) ?b (Suc (brk s))" and hd: "hd (xs @ p # ys) = ?b"
    and f: "freep s \<in> set (xs @ p # ys)"
    using assms(1) by (auto simp: ring_def)
  have b: "?b \<le> p" using hd chain_split(1)[OF c, of ?b] by (cases xs) auto
  have from_base: "free_pos s bp ?b = Some p"
    using free_pos_up[OF c assms(2,3) b] hd by simp
  show ?thesis
  proof (cases "freep s \<in> set ys")
    case True
    then obtain us zs where ys: "ys = us @ freep s # zs" by (meson split_list)
    have "chain (hptr s) (hsize s) (freep s # zs) ?b (Suc (brk s))"
      using c chain_append[of "xs @ p # us" "freep s # zs"] ys by simp
    then have "free_pos s bp (freep s) = free_pos s bp ?b"
      using free_pos_wrap[of s "hsize s" "freep s # zs" ?b _ bp] assms(2,3) ys b by fastforce
    then show ?thesis using from_base by simp
  next
    case False
    show ?thesis
    proof (cases "freep s = p")
      case True
      have "chain (hptr s) (hsize s) ([] @ p # ys) ?b (Suc (brk s))"
        using c chain_append[of xs "p # ys"] by (cases xs) auto
      then show ?thesis using free_pos_up[of s _ "[]" p ys] True assms(2,3) b by simp
    next
      case neq: False
      then obtain us vs where xs: "xs = us @ freep s # vs" using False f by (auto dest: split_list)
      have "chain (hptr s) (hsize s) ((freep s # vs) @ p # ys) ?b (Suc (brk s))"
        using c chain_append[of us "freep s # vs @ p # ys"] xs by (cases us) auto
      then show ?thesis using free_pos_up[of s _ "freep s # vs" p ys] assms(2,3) b xs by simp
    qed
  qed
qed

section \<open>Insertion of a block\<close>

lemma join_upper_chain:
  assumes c: "chain (hptr s) (hsize s) (p # ys) b l" and bp: "p < bp" "b < bp" "bp + 16 * hsize s bp < l"
    and ys: "\<forall>a \<in> set ys. bp + 16 * hsize s bp \<le> a" "0 < hsize s bp"
  obtains ys' where "chain (hptr (join_upper bp p s)) (hsize (join_upper bp p s)) (bp # ys') b l"
    "blocks_of (hsize (join_upper bp p s)) (bp # ys') = {bp ..< bp + 16 * hsize s bp} \<union> blocks_of (hsize s) ys"
    "set ys' \<subseteq> set ys" "0 < hsize (join_upper bp p s) bp"
proof (cases ys)
  case Nil
  then have "hptr s p = b" using c by simp
  then show ?thesis using that[of "[]"] Nil bp ys(2) by (simp add: join_upper_def)
next
  case (Cons y zs)
  then have y: "hptr s p = y" and cy: "chain (hptr s) (hsize s) (y # zs) b l" using c by auto
  have nin: "bp \<notin> set ys" using ys by fastforce
  show ?thesis
  proof (cases "bp + 16 * hsize s bp = y")
    case False
    let ?f = "(hptr s)(bp := y)"
    have "chain ?f (hsize s) (y # zs) b l" using cy nin Cons by (subst chain_cong[where f' = "hptr s" and g' = "hsize s"]) auto
    then show ?thesis using that[of ys] False y Cons ys by (auto simp: join_upper_def)
  next
    case True
    let ?f = "(hptr s)(bp := hptr s y)" and ?g = "(hsize s)(bp := hsize s bp + hsize s y)"
    have eq: "join_upper bp p s = s\<lparr>hsize := ?g, hptr := ?f\<rparr>" using True y by (simp add: join_upper_def)
    have "chain ?f ?g zs e l' = chain (hptr s) (hsize s) zs e l'" for e l'
      using nin Cons by (intro chain_cong) auto
    then have "chain ?f ?g (bp # zs) b l"
      using cy True by (cases zs) (auto simp: algebra_simps)
    moreover have "blocks_of ?g zs = blocks_of (hsize s) zs"
      using nin Cons by (intro blocks_of_cong) auto
    then have "blocks_of ?g (bp # zs) = {bp ..< bp + 16 * hsize s bp} \<union> blocks_of (hsize s) ys"
      using True Cons by (auto simp: algebra_simps)
    ultimately show ?thesis using that[of zs] eq Cons ys by auto
  qed
qed

lemma join_lower_chain:
  assumes xs: "xs = [] \<or> chain (hptr s) (hsize s) xs p p" and p: "p + 16 * hsize s p \<le> bp"
    and c: "chain (hptr s) (hsize s) (bp # ys) b l" "0 < hsize s bp" and nin: "set xs \<subseteq> {..< p}"
  obtains zs where "chain (hptr (join_lower bp p s)) (hsize (join_lower bp p s)) (xs @ p # zs) b l"
    "blocks_of (hsize (join_lower bp p s)) (xs @ p # zs) = blocks_of (hsize s) (xs @ p # bp # ys)"
    "set zs \<subseteq> insert bp (set ys)" "\<exists>a \<in> set (xs @ p # zs). hsize s bp \<le> hsize (join_lower bp p s) a"
proof -
  have above: "p < a" "a \<noteq> bp" if "a \<in> set ys" for a using chain_above[OF c(1) that] p by auto
  show ?thesis
  proof (cases "p + 16 * hsize s p = bp")
    case False
    let ?f = "(hptr s)(p := bp)"
    have "chain ?f (hsize s) ys' e l' = chain (hptr s) (hsize s) ys' e l'" if "set ys' \<inter> {p} = {}" for ys' e l'
      using that by (intro chain_cong) auto
    note same = this[of xs] this[of "bp # ys"]
    have "chain ?f (hsize s) (xs @ p # bp # ys) b l"
    proof (cases "xs = []")
      case True
      then show ?thesis using same(2) c(1) above False p by force
    next
      case False
      then have "chain ?f (hsize s) xs p p" using xs same(1) nin by fastforce
      moreover have "chain ?f (hsize s) (p # bp # ys) b l" using same(2) c(1) above \<open>p + 16 * hsize s p \<noteq> bp\<close> p by force
      ultimately show ?thesis using False chain_append[of xs "p # bp # ys"] by simp
    qed
    then show ?thesis using that[of "bp # ys"] False by (simp add: join_lower_def)
  next
    case True
    let ?f = "(hptr s)(p := hptr s bp)" and ?g = "(hsize s)(p := hsize s p + hsize s bp)"
    have "chain ?f ?g ys' e l' = chain (hptr s) (hsize s) ys' e l'" if "set ys' \<inter> {p} = {}" for ys' e l'
      using that by (intro chain_cong) auto
    note same = this[of xs] this[of ys]
    have "p \<notin> set ys" using above by blast
    then have tl: "chain ?f ?g (p # ys) b l"
      using c(1) True same(2) by (cases ys) (auto simp: algebra_simps)
    have "chain ?f ?g (xs @ p # ys) b l"
    proof (cases "xs = []")
      case False
      then have "chain ?f ?g xs p p" using xs same(1) nin by fastforce
      then show ?thesis using False chain_append[of xs "p # ys"] tl by simp
    qed (use tl in simp)
    moreover have "blocks_of ?g xs = blocks_of (hsize s) xs" "blocks_of ?g ys = blocks_of (hsize s) ys"
      using nin \<open>p \<notin> set ys\<close> by (auto intro!: blocks_of_cong)
    moreover have "{p ..< p + 16 * (hsize s p + hsize s bp)} =
        {p ..< p + 16 * hsize s p} \<union> {bp ..< bp + 16 * hsize s bp}" using True by auto
    then have "blocks_of ?g (xs @ p # ys) = blocks_of (hsize s) (xs @ p # bp # ys)"
      using calculation(2,3) by (simp add: Un_assoc)
    moreover have "join_lower bp p s = s\<lparr>hsize := ?g, hptr := ?f\<rparr>" using True by (simp add: join_lower_def)
    ultimately show ?thesis using that[of ys] by auto
  qed
qed

lemma ring_split:
  assumes r: "ring s as" and b: "base_at s < bp" and n: "0 < hsize s bp"
    and dis: "{bp ..< bp + 16 * hsize s bp} \<inter> blocks_of (hsize s) as = {}"
  obtains xs p ys where "as = xs @ p # ys" "\<forall>a \<in> set (xs @ [p]). a < bp"
    "\<forall>a \<in> set ys. bp + 16 * hsize s bp \<le> a" "p + 16 * hsize s p \<le> bp"
proof -
  let ?tw = "takeWhile (\<lambda>a. a < bp) as" and ?dw = "dropWhile (\<lambda>a. a < bp) as"
  obtain as' where as: "as = base_at s # as'" using r by (cases as) (auto simp: ring_def)
  have c: "chain (hptr s) (hsize s) as (base_at s) (Suc (brk s))" using r by (simp add: ring_def)
  have "?tw \<noteq> []" using as b by simp
  then obtain xs p where tw: "?tw = xs @ [p]" by (metis rev_exhaust)
  then have split: "as = xs @ p # ?dw" by (metis append.assoc append_Cons append_Nil takeWhile_dropWhile_id)
  have low: "\<forall>a \<in> set (xs @ [p]). a < bp" using tw set_takeWhileD by metis
  have free: "a \<in> blocks_of (hsize s) as" if "a \<in> set as" "a \<noteq> base_at s" for a
  proof -
    have "0 < hsize s a" using that as r by (auto simp: ring_def)
    then show ?thesis using that by (auto simp: blocks_of_def intro!: bexI[of _ a])
  qed
  have high: "bp \<le> a" if "a \<in> set ?dw" for a
  proof (cases ?dw)
    case (Cons y ys)
    then have "bp \<le> y" by (metis dropWhile_eq_Cons_conv leI)
    moreover have "chain (hptr s) (hsize s) (y # ys) (base_at s) (Suc (brk s))"
      using c split chain_append[of "xs @ [p]" "y # ys"] Cons by simp
    ultimately show ?thesis using that Cons chain_above[of "hptr s" "hsize s" y ys _ _ a] by fastforce
  next
    case Nil
    then show ?thesis using that by (metis empty_iff list.set(1))
  qed
  have "bp + 16 * hsize s bp \<le> a" if a: "a \<in> set ?dw" for a
  proof -
    have "a \<in> set as" using that set_dropWhileD by metis
    then have "a \<notin> {bp ..< bp + 16 * hsize s bp}" using free[of a] high[OF a] b dis by auto
    then show ?thesis using high[OF a] by simp
  qed
  moreover have "p + 16 * hsize s p \<le> bp"
  proof (rule ccontr)
    assume "\<not> ?thesis"
    then have "bp \<in> blocks_of (hsize s) as" using low by (subst split) auto
    moreover have "bp \<in> {bp ..< bp + 16 * hsize s bp}" using n by simp
    ultimately show False using dis by blast
  qed
  ultimately show ?thesis using that split low by blast
qed

lemma join_upper_other [simp]:
  "a \<noteq> bp \<Longrightarrow> hptr (join_upper bp p s) a = hptr s a" "a \<noteq> bp \<Longrightarrow> hsize (join_upper bp p s) a = hsize s a"
  "hsize s a \<le> hsize (join_upper bp p s) a"
  "brk (join_upper bp p s) = brk s" "room (join_upper bp p s) = room s" "base_at (join_upper bp p s) = base_at s"
  by (auto simp: join_upper_def)

lemma join_lower_other [simp]:
  "p + 16 * hsize s p \<noteq> bp \<Longrightarrow> hsize (join_lower bp p s) = hsize s" "a \<noteq> p \<Longrightarrow> hsize (join_lower bp p s) a = hsize s a"
  "hsize s a \<le> hsize (join_lower bp p s) a"
  "brk (join_lower bp p s) = brk s" "room (join_lower bp p s) = room s" "base_at (join_lower bp p s) = base_at s"
  by (auto simp: join_lower_def)

lemma free_ring:
  assumes r: "ring s as" and b: "base_at s < bp" and n: "0 < hsize s bp" "bp + 16 * hsize s bp \<le> brk s"
    and dis: "{bp ..< bp + 16 * hsize s bp} \<inter> blocks_of (hsize s) as = {}"
  obtains s' as' where "free_u (bp + 16) s = Some s'" "ring s' as'"
    "blocks_of (hsize s') as' = blocks_of (hsize s) as \<union> {bp ..< bp + 16 * hsize s bp}"
    "brk s' = brk s" "room s' = room s" "base_at s' = base_at s" "\<exists>a \<in> set as'. hsize s bp \<le> hsize s' a"
proof -
  obtain xs p ys where as: "as = xs @ p # ys" and low: "\<forall>a \<in> set (xs @ [p]). a < bp"
    and high: "\<forall>a \<in> set ys. bp + 16 * hsize s bp \<le> a" and pe: "p + 16 * hsize s p \<le> bp"
    using ring_split[OF r b n(1) dis] by blast
  have c: "chain (hptr s) (hsize s) (xs @ p # ys) (base_at s) (Suc (brk s))" using r as by (simp add: ring_def)
  have cp: "chain (hptr s) (hsize s) (p # ys) (base_at s) (Suc (brk s))"
    and cx: "xs = [] \<or> chain (hptr s) (hsize s) xs p p"
    using c chain_append[of xs "p # ys"] by (cases "xs = []"; simp)+
  let ?s1 = "join_upper bp p s" let ?s2 = "join_lower bp p ?s1"
  obtain ys' where u: "chain (hptr ?s1) (hsize ?s1) (bp # ys') (base_at s) (Suc (brk s))"
    "blocks_of (hsize ?s1) (bp # ys') = {bp ..< bp + 16 * hsize s bp} \<union> blocks_of (hsize s) ys"
    "set ys' \<subseteq> set ys" "0 < hsize ?s1 bp"
    using join_upper_chain[OF cp, of bp] low b n high by auto
  have x1: "xs = [] \<or> chain (hptr ?s1) (hsize ?s1) xs p p"
    using cx low chain_cong[of xs "hptr ?s1" "hptr s" "hsize ?s1" "hsize s"] by fastforce
  have p1: "p + 16 * hsize ?s1 p \<le> bp" using pe low by simp
  have sub: "set xs \<subseteq> {..< p}" using chain_split(1)[OF c] by fastforce
  obtain zs where l: "chain (hptr ?s2) (hsize ?s2) (xs @ p # zs) (base_at s) (Suc (brk s))"
    "blocks_of (hsize ?s2) (xs @ p # zs) = blocks_of (hsize ?s1) (xs @ p # bp # ys')"
    "set zs \<subseteq> insert bp (set ys')" "\<exists>a \<in> set (xs @ p # zs). hsize ?s1 bp \<le> hsize ?s2 a"
    using join_lower_chain[OF x1 p1 u(1) u(4) sub] by blast
  have "blocks_of (hsize ?s1) (xs @ [p]) = blocks_of (hsize s) (xs @ [p])"
    using low by (intro blocks_of_cong) auto
  then have bl: "blocks_of (hsize ?s2) (xs @ p # zs) = blocks_of (hsize s) as \<union> {bp ..< bp + 16 * hsize s bp}"
    unfolding l(2) as using u(2) by auto
  have le: "hsize s a \<le> hsize ?s2 a" for a by (rule order_trans[OF join_upper_other(3) join_lower_other(3)])
  have hd: "hd (xs @ p # zs) = base_at s" using r as by (cases xs) (auto simp: ring_def)
  have base0: "hsize ?s2 (base_at s) = 0"
  proof (cases "p = base_at s")
    case True
    then have "hsize ?s1 p = 0" using r b by (simp add: ring_def)
    then show ?thesis using True b by simp
  qed (use r b in \<open>simp add: ring_def\<close>)
  have "0 < hsize ?s2 a" if a: "a \<in> set (tl (xs @ p # zs))" for a
  proof -
    have "a \<noteq> base_at s" using chain_distinct[OF l(1)] hd a by (metis distinct.simps(2) list.collapse list.sel(2) list.set(1) empty_iff)
    moreover have "a \<in> set as \<or> a = bp" using a l(3) u(3) as by (cases xs) auto
    moreover have "set as = insert (base_at s) (set (tl as))" using r by (cases as) (auto simp: ring_def)
    ultimately have "0 < hsize s a" using r n(1) by (auto simp: ring_def)
    then show ?thesis using le[of a] by simp
  qed
  then have "ring (?s2\<lparr>freep := p\<rparr>) (xs @ p # zs)" using l(1) hd base0 by (simp add: ring_def)
  moreover have "free_u (bp + 16) s = Some (?s2\<lparr>freep := p\<rparr>)"
    using free_pos_finds[of s xs p ys bp] r as low high n(1) by (fastforce simp: free_u_def)
  moreover have "\<exists>a \<in> set (xs @ p # zs). hsize s bp \<le> hsize ?s2 a"
    using l(4) join_upper_other(3)[of s bp bp p] order_trans by blast
  ultimately show ?thesis using that[of "?s2\<lparr>freep := p\<rparr>" "xs @ p # zs"] bl by simp
qed

section \<open>The search of malloc\<close>

lemma chain_walk: "chain f g (a # as) e l \<Longrightarrow> follows f a (as @ [e])"
  by (induction as arbitrary: a) auto

lemma ring_walk:
  assumes "ring s as"
  obtains ws where "follows (hptr s) (freep s) ws" "ws \<noteq> []" "last ws = freep s" "freep s \<notin> set (butlast ws)" "set ws = set as"
proof -
  let ?b = "base_at s"
  have "freep s \<in> set as" using assms by (simp add: ring_def)
  then obtain us vs where as: "as = us @ freep s # vs" by (meson split_list)
  have c: "chain (hptr s) (hsize s) as ?b (Suc (brk s))" using assms by (simp add: ring_def)
  have v: "follows (hptr s) (freep s) (vs @ [?b])"
    using c chain_append[of us "freep s # vs"] chain_walk unfolding as by (cases "us = []") auto
  have "follows (hptr s) (freep s) (vs @ us @ [freep s])"
  proof (cases us)
    case Nil
    then show ?thesis using v assms as by (simp add: ring_def)
  next
    case (Cons u us')
    then have u: "u = ?b" using assms as by (simp add: ring_def)
    have "follows (hptr s) u (us' @ [freep s])"
      using c chain_append[of us "freep s # vs"] chain_walk[of "hptr s" "hsize s" u us' "freep s" "freep s"] unfolding as Cons by simp
    then show ?thesis using v u Cons by (simp add: follows_append)
  qed
  moreover have "freep s \<notin> set (vs @ us)" using chain_distinct[OF c] as by simp
  ultimately show ?thesis using that[of "vs @ us @ [freep s]"] as by (auto simp: butlast_append)
qed

lemma malloc_loop_steps:
  "n \<le> hsize s p \<Longrightarrow> malloc_loop n q p s = Some (take_block n q p s)"
  "hsize s p < n \<Longrightarrow> p \<noteq> freep s \<Longrightarrow> malloc_loop n q p s = malloc_loop n p (hptr s p) s"
  "hsize s (freep s) < n \<Longrightarrow>
     malloc_loop n q (freep s) s = Option.bind (morecore n s) (\<lambda>(r, s1).
       case r of None \<Rightarrow> Some (None, s1) | Some p1 \<Rightarrow> malloc_loop n p1 (hptr s1 p1) s1)"
  by (simp_all add: malloc_loop.simps[of n q p s] malloc_loop.simps[of n q "freep s" s])

lemma malloc_walk:
  assumes "follows (hptr s) q ws" "ws \<noteq> []" "last ws = freep s" "freep s \<notin> set (butlast ws)"
  shows "(\<exists>xs p ys. ws = xs @ p # ys \<and> n \<le> hsize s p \<and>
            malloc_loop n q (hd ws) s = Some (take_block n (last (q # xs)) p s)) \<or>
         (\<forall>w \<in> set ws. hsize s w < n) \<and>
         malloc_loop n q (hd ws) s = Option.bind (morecore n s) (\<lambda>(r, s1).
           case r of None \<Rightarrow> Some (None, s1) | Some p1 \<Rightarrow> malloc_loop n p1 (hptr s1 p1) s1)"
  using assms
proof (induction ws arbitrary: q)
  case (Cons w ws)
  show ?case
  proof (cases "n \<le> hsize s w")
    case True
    then have "malloc_loop n q w s = Some (take_block n q w s)" by (rule malloc_loop_steps(1))
    then show ?thesis using True by (intro disjI1 exI[of _ "[]"] exI[of _ w] exI[of _ ws]) simp
  next
    case small: False
    show ?thesis
    proof (cases ws)
      case Nil
      then show ?thesis using Cons.prems(3) small malloc_loop_steps(3)[of s n q] by simp
    next
      case (Cons x xs')
      have eq: "malloc_loop n q w s = malloc_loop n w (hd ws) s"
        using Cons.prems(1,4) small Cons malloc_loop_steps(2)[of s w n q] by simp
      have "follows (hptr s) w ws" "ws \<noteq> []" "last ws = freep s" "freep s \<notin> set (butlast ws)"
        using Cons.prems Cons by auto
      from Cons.IH[OF this] show ?thesis
      proof (elim disjE exE conjE)
        fix xs p ys
        assume "ws = xs @ p # ys" "n \<le> hsize s p" "malloc_loop n w (hd ws) s = Some (take_block n (last (w # xs)) p s)"
        then show ?thesis using eq by (intro disjI1 exI[of _ "w # xs"] exI[of _ p] exI[of _ ys]) simp
      next
        assume "\<forall>w \<in> set ws. hsize s w < n" "malloc_loop n w (hd ws) s = Option.bind (morecore n s) (\<lambda>(r, s1).
           case r of None \<Rightarrow> Some (None, s1) | Some p1 \<Rightarrow> malloc_loop n p1 (hptr s1 p1) s1)"
        then show ?thesis using eq small by (intro disjI2) simp
      qed
    qed
  qed
qed simp

section \<open>Taking a block\<close>

lemma chain_shrink: "chain f g as e l \<Longrightarrow> (\<And>a. a \<in> set as \<Longrightarrow> g' a \<le> g a) \<Longrightarrow> chain f g' as e l"
proof (induction f g as e l rule: chain.induct)
  case (2 f g a e l)
  then show ?case using "2.prems"(2)[of a] by auto
next
  case (3 f g a b as e l)
  have "g' a \<le> g a" using "3.prems"(2)[of a] by simp
  moreover have "a + 16 * g a < b" using "3.prems"(1) by simp
  ultimately have "a + 16 * g' a < b" by linarith
  then show ?case using 3 by simp
qed simp

lemma chain_redirect:
  "chain f g (zs @ [q]) e l \<Longrightarrow> l \<le> l' \<Longrightarrow> chain (f(q := e')) g (zs @ [q]) e' l'"
proof (induction zs)
  case (Cons z zs)
  have "distinct ((z # zs) @ [q])" using Cons.prems(1) by (rule chain_distinct)
  then show ?case using Cons by (cases zs) auto
qed simp

lemma block_apart: "chain f g (xs @ p # ys) e l \<Longrightarrow> {p ..< p + 16 * g p} \<inter> blocks_of g (xs @ ys) = {}"
  using chain_split[of f g xs p ys e l] by (fastforce simp: blocks_of_def)

lemma ring_prev:
  assumes "ring s (xs @ p # ys)" "xs \<noteq> []" "q \<in> set (xs @ p # ys)" "hptr s q = p"
  shows "q = last xs"
proof -
  let ?as = "xs @ p # ys" let ?b = "base_at s"
  have c: "chain (hptr s) (hsize s) ?as ?b (Suc (brk s))" and hd: "hd xs = ?b" using assms(1,2) by (auto simp: ring_def)
  have "distinct (tl ?as @ [?b])" using chain_distinct[OF c] assms(2) hd by (cases xs) auto
  then have inj: "inj_on (hptr s) (set ?as)" using chain_next[OF c] by (metis distinct_map)
  have "chain (hptr s) (hsize s) xs p p" using c chain_append[of xs "p # ys"] assms(2) by simp
  then have "hptr s (last xs) = p" using chain_next[of "hptr s" "hsize s" xs p p] assms(2)
    by (metis last_map last_snoc)
  then show ?thesis using inj assms(2,3,4) by (auto simp: inj_on_def)
qed

lemma take_block_ring:
  assumes r: "ring s as" and p: "p \<in> set as" "q \<in> set as" "hptr s q = p" and n: "0 < n" "n \<le> hsize s p"
  obtains bp s' as' where "take_block n q p s = (Some (bp + 16), s')" "ring s' as'" "hsize s' bp = n"
    "{bp ..< bp + 16 * n} \<subseteq> blocks_of (hsize s) as"
    "blocks_of (hsize s') as' = blocks_of (hsize s) as - {bp ..< bp + 16 * n}"
    "brk s' = brk s" "room s' = room s" "base_at s' = base_at s"
proof -
  let ?b = "base_at s"
  have c: "chain (hptr s) (hsize s) as ?b (Suc (brk s))" and b0: "hsize s ?b = 0" using r by (auto simp: ring_def)
  obtain xs ys where as: "as = xs @ p # ys" using p(1) by (meson split_list)
  have "p \<noteq> ?b" using b0 n by auto
  then have xs: "xs \<noteq> []" using r as by (auto simp: ring_def)
  have hx: "hd xs = ?b" using r as xs by (simp add: ring_def)
  have apart: "{p ..< p + 16 * hsize s p} \<inter> blocks_of (hsize s) (xs @ ys) = {}" using block_apart c as by blast
  show ?thesis
  proof (cases "hsize s p = n")
    case True
    define zs where "zs = butlast xs"
    have q: "q = last xs" using ring_prev[of s xs p ys q] r as xs p by blast
    then have xq: "xs = zs @ [q]" using xs by (simp add: zs_def)
    let ?f = "(hptr s)(q := hptr s p)"
    have cx: "chain (hptr s) (hsize s) (zs @ [q]) p p" and cp: "chain (hptr s) (hsize s) (p # ys) ?b (Suc (brk s))"
      using c chain_append[of xs "p # ys"] xs unfolding as xq by auto
    have qn: "q \<notin> set ys" using chain_distinct[OF c] as xq by simp
    have "chain ?f (hsize s) (xs @ ys) ?b (Suc (brk s))"
    proof (cases ys)
      case Nil
      then show ?thesis using chain_redirect[OF cx, of "Suc (brk s)" "hptr s p"] cp xq by simp
    next
      case (Cons y ys')
      then have y: "hptr s p = y" "p < y" "chain (hptr s) (hsize s) ys ?b (Suc (brk s))" using cp by auto
      have "chain ?f (hsize s) ys ?b (Suc (brk s))" using y(3) qn by (subst chain_cong) auto
      moreover have "chain ?f (hsize s) xs y y" using chain_redirect[OF cx, of y y] y xq by simp
      ultimately show ?thesis using chain_append[of xs ys] xs Cons by simp
    qed
    moreover have "q \<in> set (xs @ ys)" using q xs by simp
    moreover have "0 < hsize s a" if "a \<in> set (tl (xs @ ys))" for a
      using that r as xs by (cases xs) (auto simp: ring_def)
    ultimately have "ring (s\<lparr>hptr := ?f, freep := q\<rparr>) (xs @ ys)" using xs hx b0 by (simp add: ring_def)
    moreover have "blocks_of (hsize s) (xs @ ys) = blocks_of (hsize s) as - {p ..< p + 16 * n}"
      using apart True as by auto
    moreover have "{p ..< p + 16 * n} \<subseteq> blocks_of (hsize s) as" using True as by auto
    ultimately show ?thesis using that[of p "s\<lparr>hptr := ?f, freep := q\<rparr>" "xs @ ys"] True
      by (simp add: take_block_def del: blocks_of_simps)
  next
    case False
    let ?left = "hsize s p - n" let ?r = "p + 16 * ?left" let ?g = "(hsize s)(p := ?left, ?r := n)"
    have rr: "{?r ..< ?r + 16 * n} \<subseteq> {p ..< p + 16 * hsize s p}" using n by auto
    have rn: "?r \<notin> set as"
    proof
      assume "?r \<in> set as"
      then have "?r \<in> set xs \<or> ?r \<in> set ys" using as False n by auto
      then show False using chain_split[of "hptr s" "hsize s" xs p ys] c as n by fastforce
    qed
    have "chain (hptr s) ?g as ?b (Suc (brk s))"
    proof (rule chain_shrink[OF c])
      fix a assume "a \<in> set as"
      then have "a \<noteq> ?r" using rn by blast
      then show "?g a \<le> hsize s a" by simp
    qed
    moreover have "0 < ?g a" if "a \<in> set (tl as)" for a
      using that r False n by (auto simp: ring_def)
    moreover have "?b \<in> set as" using r by (cases as) (auto simp: ring_def)
    ultimately have ring': "ring (s\<lparr>hsize := ?g, freep := q\<rparr>) as" using r rn \<open>p \<noteq> ?b\<close> p(2)
      by (auto simp: ring_def)
    have "p \<notin> set xs \<union> set ys" using chain_distinct[OF c] as by auto
    then have "blocks_of ?g (xs @ ys) = blocks_of (hsize s) (xs @ ys)"
      using rn as by (intro blocks_of_cong) auto
    moreover have "{p ..< p + 16 * ?left} = {p ..< p + 16 * hsize s p} - {?r ..< ?r + 16 * n}" using n by auto
    moreover have "blocks_of (hsize s) (xs @ ys) \<inter> {?r ..< ?r + 16 * n} = {}" using apart rr by blast
    ultimately have "blocks_of ?g as = blocks_of (hsize s) as - {?r ..< ?r + 16 * n}"
      using False n unfolding as by (simp add: Un_Diff) blast
    moreover have "{p ..< p + 16 * hsize s p} \<subseteq> blocks_of (hsize s) as" using p(1) by (auto simp: blocks_of_def)
    then have "{?r ..< ?r + 16 * n} \<subseteq> blocks_of (hsize s) as" using rr by (rule order_trans[rotated])
    moreover have "take_block n q p s = (Some (?r + 16), s\<lparr>hsize := ?g, freep := q\<rparr>)"
      using False by (simp add: take_block_def Let_def)
    ultimately show ?thesis using that[OF _ ring'] by simp
  qed
qed

section \<open>Allocation\<close>

lemma chain_limit: "chain f g as e l \<Longrightarrow> l \<le> l' \<Longrightarrow> chain f g as e l'"
  by (induction f g as e l rule: chain.induct) auto

definition grow_units :: "nat \<Rightarrow> nat" where
  "grow_units n = (if n < 4096 then 4096 else n)"

lemma morecore_refused:
  "brk s + 16 * grow_units n > room s \<Longrightarrow> 16 * grow_units n < 2 ^ 31 \<Longrightarrow> morecore n s = Some (None, s)"
  by (simp add: morecore_def grow_units_def sbrk_def signed_take_bit_int_eq_self nat_mult_distrib mult.commute
      split: if_splits)

lemma ring_below: "ring s as \<Longrightarrow> blocks_of (hsize s) as \<subseteq> {..< brk s}"
  using chain_below[of "hptr s" "hsize s" as] by (fastforce simp: ring_def blocks_of_def)

lemma morecore_ring:
  assumes r: "ring s as" and b: "base_at s < brk s" and ok: "brk s + 16 * grow_units n \<le> room s" "16 * grow_units n < 2 ^ 31"
  obtains s' as' where "morecore n s = Some (Some (freep s'), s')" "ring s' as'"
    "blocks_of (hsize s') as' = blocks_of (hsize s) as \<union> {brk s ..< brk s'}"
    "brk s' = brk s + 16 * grow_units n" "room s' = room s" "base_at s' = base_at s" "\<exists>a \<in> set as'. n \<le> hsize s' a"
proof -
  let ?nu = "grow_units n" and ?hp = "brk s"
  let ?s1 = "s\<lparr>brk := ?hp + 16 * ?nu, hsize := (hsize s)(?hp := ?nu)\<rparr>"
  have nu: "0 < ?nu" "n \<le> ?nu" by (auto simp: grow_units_def)
  have c: "chain (hptr s) (hsize s) as (base_at s) (Suc (brk s))" using r by (simp add: ring_def)
  have nin: "?hp \<notin> set as"
  proof
    assume h: "?hp \<in> set as"
    then have "?hp \<in> set (tl as)" using r b by (cases as) (auto simp: ring_def)
    then have "0 < hsize s ?hp" using r by (simp add: ring_def)
    then show False using chain_below[OF c h] by simp
  qed
  have "chain (hptr s) ((hsize s)(?hp := ?nu)) as (base_at s) (Suc (brk s))"
    using c nin by (subst chain_cong[where f' = "hptr s" and g' = "hsize s"]) auto
  then have "chain (hptr s) ((hsize s)(?hp := ?nu)) as (base_at s) (Suc (?hp + 16 * ?nu))"
    by (rule chain_limit) simp
  moreover have "a \<noteq> ?hp" if "a \<in> set (tl as)" for a using that nin by (metis list.set_sel(2) tl_Nil list.sel(2))
  ultimately have r1: "ring ?s1 as" using r nin b by (auto simp: ring_def)
  have same: "blocks_of (hsize ?s1) as = blocks_of (hsize s) as" using nin by (intro blocks_of_cong) auto
  then have dis: "{?hp ..< ?hp + 16 * hsize ?s1 ?hp} \<inter> blocks_of (hsize ?s1) as = {}" using ring_below[OF r] by auto
  have pre: "base_at ?s1 < ?hp" "0 < hsize ?s1 ?hp" "?hp + 16 * hsize ?s1 ?hp \<le> brk ?s1" using b nu(1) by simp_all
  obtain s' as' where f: "free_u (?hp + 16) ?s1 = Some s'" "ring s' as'"
    "blocks_of (hsize s') as' = blocks_of (hsize ?s1) as \<union> {?hp ..< ?hp + 16 * hsize ?s1 ?hp}"
    "brk s' = brk ?s1" "room s' = room ?s1" "base_at s' = base_at ?s1" "\<exists>a \<in> set as'. hsize ?s1 ?hp \<le> hsize s' a"
    using free_ring[OF r1 pre dis] by blast
  have sz: "hsize ?s1 ?hp = ?nu" by simp
  obtain a where a: "a \<in> set as'" "?nu \<le> hsize s' a" using f(7) unfolding sz by blast
  have "n \<le> hsize s' a" using nu(2) a(2) by (rule order_trans)
  have "sbrk (signed_take_bit 31 (int (?nu * 16))) s = (Some ?hp, s\<lparr>brk := ?hp + 16 * ?nu\<rparr>)"
    using ok nu(1) by (simp add: signed_take_bit_int_eq_self sbrk_def nat_mult_distrib mult.commute)
  then have "morecore n s = Some (Some (freep s'), s')"
    using f(1) by (simp add: morecore_def grow_units_def[symmetric] Let_def)
  then show ?thesis using that[of s' as'] f(2-6) same a(1) \<open>n \<le> hsize s' a\<close> by auto
qed

lemma ring_take:
  assumes r: "ring s as" and n: "0 < n" "\<exists>a \<in> set as. n \<le> hsize s a"
  obtains bp s' as' where "malloc_loop n (freep s) (hptr s (freep s)) s = Some (Some (bp + 16), s')"
    "ring s' as'" "hsize s' bp = n" "{bp ..< bp + 16 * n} \<subseteq> blocks_of (hsize s) as"
    "blocks_of (hsize s') as' = blocks_of (hsize s) as - {bp ..< bp + 16 * n}"
    "brk s' = brk s" "room s' = room s" "base_at s' = base_at s"
proof -
  obtain ws where w: "follows (hptr s) (freep s) ws" "ws \<noteq> []" "last ws = freep s" "freep s \<notin> set (butlast ws)"
    "set ws = set as" using ring_walk[OF r] by blast
  have hd: "hd ws = hptr s (freep s)" using w(1,2) by (cases ws) auto
  have "\<not> (\<forall>w \<in> set ws. hsize s w < n)" using n(2) w(5) by (metis leD)
  then obtain xs p ys where x: "ws = xs @ p # ys" "n \<le> hsize s p"
    "malloc_loop n (freep s) (hd ws) s = Some (take_block n (last (freep s # xs)) p s)"
    using malloc_walk[OF w(1-4), of n] by blast
  have "p \<in> set as" using x(1) w(5) by (metis in_set_conv_decomp)
  moreover have "last (freep s # xs) \<in> set as"
  proof (cases xs)
    case Nil
    then show ?thesis using r by (simp add: ring_def)
  next
    case (Cons y zs)
    then have "last xs \<in> set ws" using x(1) last_in_set[of xs] by (metis Un_iff list.distinct(1) set_append)
    then show ?thesis using w(5) Cons by simp
  qed
  moreover have "hptr s (last (freep s # xs)) = p" using w(1) x(1) by (simp add: follows_append)
  ultimately obtain bp s' as' where "take_block n (last (freep s # xs)) p s = (Some (bp + 16), s')" "ring s' as'" "hsize s' bp = n"
    "{bp ..< bp + 16 * n} \<subseteq> blocks_of (hsize s) as"
    "blocks_of (hsize s') as' = blocks_of (hsize s) as - {bp ..< bp + 16 * n}"
    "brk s' = brk s" "room s' = room s" "base_at s' = base_at s"
    using take_block_ring[OF r _ _ _ n(1) x(2)] by blast
  then show ?thesis using that x(3) hd by simp
qed

lemma ring_malloc:
  assumes r: "ring s as" and b: "base_at s < brk s" and n: "0 < n" "16 * grow_units n < 2 ^ 31"
  shows "(\<exists>bp s' as'. malloc_loop n (freep s) (hptr s (freep s)) s = Some (Some (bp + 16), s') \<and> ring s' as' \<and>
            hsize s' bp = n \<and> brk s \<le> brk s' \<and> room s' = room s \<and> base_at s' = base_at s \<and>
            {bp ..< bp + 16 * n} \<subseteq> blocks_of (hsize s) as \<union> {brk s ..< brk s'} \<and>
            blocks_of (hsize s') as' = blocks_of (hsize s) as \<union> {brk s ..< brk s'} - {bp ..< bp + 16 * n}) \<or>
         room s < brk s + 16 * grow_units n \<and>
         malloc_loop n (freep s) (hptr s (freep s)) s = Some (None, s)"
proof (cases "\<exists>a \<in> set as. n \<le> hsize s a")
  case True
  obtain bp s' as' where t: "malloc_loop n (freep s) (hptr s (freep s)) s = Some (Some (bp + 16), s')"
    "ring s' as'" "hsize s' bp = n" "{bp ..< bp + 16 * n} \<subseteq> blocks_of (hsize s) as"
    "blocks_of (hsize s') as' = blocks_of (hsize s) as - {bp ..< bp + 16 * n}"
    "brk s' = brk s" "room s' = room s" "base_at s' = base_at s"
    using ring_take[OF r n(1) True] by blast
  then show ?thesis by (intro disjI1 exI[of _ bp] exI[of _ s'] exI[of _ as']) simp
next
  case False
  obtain ws where w: "follows (hptr s) (freep s) ws" "ws \<noteq> []" "last ws = freep s" "freep s \<notin> set (butlast ws)"
    "set ws = set as" using ring_walk[OF r] by blast
  have hd: "hd ws = hptr s (freep s)" using w(1,2) by (cases ws) auto
  have "p \<in> set as" if "ws = xs @ p # ys" for xs p ys using that w(5) by (metis in_set_conv_decomp)
  then have loop: "malloc_loop n (freep s) (hptr s (freep s)) s = Option.bind (morecore n s) (\<lambda>(r, s1).
           case r of None \<Rightarrow> Some (None, s1) | Some p1 \<Rightarrow> malloc_loop n p1 (hptr s1 p1) s1)"
    using malloc_walk[OF w(1-4), of n] False unfolding hd by blast
  show ?thesis
  proof (cases "brk s + 16 * grow_units n \<le> room s")
    case True
    obtain s1 as1 where m: "morecore n s = Some (Some (freep s1), s1)" "ring s1 as1"
      "blocks_of (hsize s1) as1 = blocks_of (hsize s) as \<union> {brk s ..< brk s1}"
      "brk s1 = brk s + 16 * grow_units n" "room s1 = room s" "base_at s1 = base_at s" "\<exists>a \<in> set as1. n \<le> hsize s1 a"
      using morecore_ring[OF r b True n(2)] by blast
    have "malloc_loop n (freep s) (hptr s (freep s)) s = malloc_loop n (freep s1) (hptr s1 (freep s1)) s1"
      using loop m(1) by simp
    moreover obtain bp s' as' where t: "malloc_loop n (freep s1) (hptr s1 (freep s1)) s1 = Some (Some (bp + 16), s')"
      "ring s' as'" "hsize s' bp = n" "{bp ..< bp + 16 * n} \<subseteq> blocks_of (hsize s1) as1"
      "blocks_of (hsize s') as' = blocks_of (hsize s1) as1 - {bp ..< bp + 16 * n}"
      "brk s' = brk s1" "room s' = room s1" "base_at s' = base_at s1"
      using ring_take[OF m(2) n(1) m(7)] by blast
    ultimately show ?thesis using m(3-6) by (intro disjI1 exI[of _ bp] exI[of _ s'] exI[of _ as']) simp
  next
    case False
    then show ?thesis using loop morecore_refused[of s n] n(2) by simp
  qed
qed

lemma ring_rel:
  assumes "ring t bs" "0 < base_at t" "base_at t < brk t"
  shows "heap_rel t (blocks_of (hsize t) bs)"
proof -
  obtain cs where "bs = base_at t # cs" "freep t \<in> set bs" using assms(1) by (cases bs) (auto simp: ring_def)
  then have "freep t \<noteq> 0"
    using assms(1,2) chain_above[of "hptr t" "hsize t" "base_at t" cs] by (fastforce simp: ring_def)
  then show ?thesis using assms by (auto simp: heap_rel_def)
qed

text \<open>The heap of a process that has not allocated yet.\<close>

definition new_heap :: heap where
  "new_heap = \<lparr>hptr = (\<lambda>_. 0), hsize = (\<lambda>_. 0), base_at = 4096, freep = 0, brk = 16384, room = 1000000\<rparr>"

lemma new_heap_rel: "heap_rel new_heap {}"
  by (simp add: heap_rel_def new_heap_def)

section \<open>Properties\<close>



text \<open>
  C19. \<^verbatim>\<open>free\<close> is correct. Given a block below the end of the process whose header holds its size and that does not
  overlap the free bytes \<open>F\<close>, \<^verbatim>\<open>free\<close> ends (the search of the circular list comes to its place) and the free bytes are
  then \<open>F\<close> and exactly the block; the list is again in the order of addresses, with neighbours joined.
\<close>

theorem free_correct:
  assumes "heap_rel s F" "freep s \<noteq> 0" "base_at s < bp" "0 < hsize s bp" "bp + 16 * hsize s bp \<le> brk s"
    "{bp ..< bp + 16 * hsize s bp} \<inter> F = {}"
  shows "\<exists>s'. free_u (bp + 16) s = Some s' \<and> brk s' = brk s \<and> heap_rel s' (F \<union> {bp ..< bp + 16 * hsize s bp})"
proof -
  obtain as where r: "ring s as" and F: "F = blocks_of (hsize s) as" and b: "0 < base_at s" "base_at s < brk s"
    using assms(1,2) by (auto simp: heap_rel_def)
  have dis: "{bp ..< bp + 16 * hsize s bp} \<inter> blocks_of (hsize s) as = {}" using assms(6) F by simp
  obtain s' as' where f: "free_u (bp + 16) s = Some s'" "ring s' as'"
    "blocks_of (hsize s') as' = blocks_of (hsize s) as \<union> {bp ..< bp + 16 * hsize s bp}"
    "brk s' = brk s" "base_at s' = base_at s"
    using free_ring[OF r assms(3,4,5) dis] by blast
  have "heap_rel s' (blocks_of (hsize s') as')" using ring_rel[OF f(2)] f b by simp
  then show ?thesis using f F by auto
qed

definition one_block_heap :: heap where
  "one_block_heap = \<lparr>hptr = (\<lambda>_. 4096), hsize = (\<lambda>a. if a = 20000 then 3 else 0), base_at = 4096, freep = 4096,
     brk = 32768, room = 1000000\<rparr>"

theorem free_correct_witness:
  "\<exists>s'. free_u 20016 one_block_heap = Some s' \<and> heap_rel s' {20000 ..< 20048}"
proof -
  have "ring one_block_heap [4096]" by (simp add: ring_def one_block_heap_def)
  then have "heap_rel one_block_heap (blocks_of (hsize one_block_heap) [4096])"
    by (rule ring_rel) (simp_all add: one_block_heap_def)
  then have "heap_rel one_block_heap {}" by (simp add: one_block_heap_def)
  from free_correct[OF this, of 20000] show ?thesis by (auto simp: one_block_heap_def)
qed


end
