(* ===== verification/Fs_Format.thy ===== *)
theory Fs_Format
  imports Fs
begin

text \<open>
  The formats on disk of \<^verbatim>\<open>kernel/fs.h\<close>: what is read at the place where a field, an inode or a bit of the free map was written, and at
  other places.
\<close>

section \<open>Inodes in a block\<close>

text \<open>Fields at the place where they were put.\<close>

lemma get32_at: "get32 (xs @ bytes32 w @ ys) (length xs) = w"
  using word_of_bytes32[of w] by (simp add: get32_def bytes32_def nth_append)

lemma get16_at: "get16 (xs @ bytes16 w @ ys) (length xs) = w"
  using word_of_bytes16[of w] by (simp add: get16_def bytes16_def nth_append)

lemma get32_words: "i < length ws \<Longrightarrow> get32 (xs @ concat (map bytes32 ws) @ ys) (length xs + 4 * i) = ws ! i"
proof (induction ws arbitrary: xs i)
  case (Cons w ws)
  show ?case
  proof (cases i)
    case 0
    then show ?thesis using get32_at[of xs w "concat (map bytes32 ws) @ ys"] by simp
  next
    case (Suc j)
    then show ?thesis using Cons.IH[of j "xs @ bytes32 w"] Cons.prems by (simp add: add.assoc)
  qed
qed simp

lemma get_dinode_put_same:
  assumes "a + 64 \<le> length d" "length (di_addrs din) = NDIRECT + 1"
  shows "get_dinode (put d a (dinode_bytes din)) a = din"
proof -
  let ?xs = "take a d" and ?ys = "drop (a + 64) d" and ?ws = "concat (map bytes32 (di_addrs din))"
  have l: "length ?xs = a" using assms(1) by simp
  have n: "length (dinode_bytes din) = 64"
    using assms(2) by (simp add: dinode_bytes_def length_concat comp_def sum_list_triv NDIRECT_def)
  have p: "put d a (dinode_bytes din) = ?xs @ bytes16 (di_type din) @ bytes16 (di_major din) @ bytes16 (di_minor din) @ bytes16 (di_nlink din) @
      bytes32 (di_size din) @ ?ws @ ?ys"
    unfolding put_def n by (simp add: dinode_bytes_def)
  have "get16 (put d a (dinode_bytes din)) a = di_type din" unfolding p using get16_at[of ?xs] l by simp
  moreover have "get16 (put d a (dinode_bytes din)) (a + 2) = di_major din"
    unfolding p using get16_at[of "?xs @ bytes16 (di_type din)"] l by simp
  moreover have "get16 (put d a (dinode_bytes din)) (a + 4) = di_minor din"
    unfolding p using get16_at[of "?xs @ bytes16 (di_type din) @ bytes16 (di_major din)"] l by simp
  moreover have "get16 (put d a (dinode_bytes din)) (a + 6) = di_nlink din"
    unfolding p using get16_at[of "?xs @ bytes16 (di_type din) @ bytes16 (di_major din) @ bytes16 (di_minor din)"] l by simp
  moreover have "get32 (put d a (dinode_bytes din)) (a + 8) = di_size din"
    unfolding p
    using get32_at[of "?xs @ bytes16 (di_type din) @ bytes16 (di_major din) @ bytes16 (di_minor din) @ bytes16 (di_nlink din)"] l by simp
  moreover have "get32 (put d a (dinode_bytes din)) (a + 12 + 4 * i) = di_addrs din ! i" if "i < NDIRECT + 1" for i
    unfolding p
    using get32_words[of i "di_addrs din" "?xs @ bytes16 (di_type din) @ bytes16 (di_major din) @ bytes16 (di_minor din) @ bytes16 (di_nlink din) @ bytes32 (di_size din)" ?ys]
      l that assms(2) by simp
  then have "map (\<lambda>i. get32 (put d a (dinode_bytes din)) (a + 12 + 4 * i)) [0..<NDIRECT + 1] = di_addrs din"
    using assms(2) by (intro nth_equalityI) (simp_all del: upt_Suc)
  ultimately show ?thesis unfolding get_dinode_def by (cases din) simp
qed

lemma get_dinode_put_other:
  assumes "a + 64 \<le> length d" "b + 64 \<le> length d" "b + 64 \<le> a \<or> a + 64 \<le> b" "length bs = 64"
  shows "get_dinode (put d a bs) b = get_dinode d b"
proof -
  have h: "get16 (put d a bs) (b + k) = get16 d (b + k)" if "k + 2 \<le> 64" for k using assms that by (intro get16_put_other) auto
  have w: "get32 (put d a bs) (b + k) = get32 d (b + k)" if "k + 4 \<le> 64" for k using assms that by (intro get32_put_other) auto
  have "get32 (put d a bs) (b + 12 + 4 * i) = get32 d (b + 12 + 4 * i)" if "i < NDIRECT + 1" for i
    using w[of "12 + 4 * i"] that by (simp add: NDIRECT_def add.assoc)
  then have "map (\<lambda>i. get32 (put d a bs) (b + 12 + 4 * i)) [0..<NDIRECT + 1] = map (\<lambda>i. get32 d (b + 12 + 4 * i)) [0..<NDIRECT + 1]"
    by (intro map_cong) auto
  then show ?thesis unfolding get_dinode_def using h[of 0] h[of 2] h[of 4] h[of 6] w[of 8] by simp
qed

lemma inode_places:
  assumes "i \<noteq> j" "IBLOCK i b = IBLOCK j b"
  shows "dinode_off j + 64 \<le> dinode_off i \<or> dinode_off i + 64 \<le> dinode_off j"
proof -
  have "i div of_nat IPB = j div of_nat IPB" using assms(2) by (simp add: IBLOCK_def)
  then have "unat (i div 16) = unat (j div 16)" by (simp add: IPB_def BSIZE_def)
  then have "unat i div 16 = unat j div 16" by (simp add: unat_div)
  moreover have "unat i \<noteq> unat j" using assms(1) by (metis unsigned_word_eqI)
  ultimately have "unat i mod 16 \<noteq> unat j mod 16" by (metis div_mult_mod_eq)
  then show ?thesis by (auto simp: dinode_off_def IPB_def BSIZE_def)
qed

lemma dinode_off_fits: "dinode_off i + 64 \<le> BSIZE"
proof -
  have "unat i mod 16 < 16" by simp
  then show ?thesis by (simp add: dinode_off_def IPB_def BSIZE_def)
qed

end
