(* ===== verification/Mkfs.thy ===== *)
theory Mkfs
  imports Fs_Format
begin

text \<open>
  \<^verbatim>\<open>mkfs/mkfs.c\<close>, the program that builds the first file system image. The image is a map from sector numbers to
  their bytes, the files to copy come with the pieces that \<^verbatim>\<open>read\<close> delivers (or none, if the file cannot be
  opened). The host is taken to store integers low byte first, as the target does. A failed assertion and a
  call of \<^verbatim>\<open>die\<close> are a panic. Names that the kernel also has carry the suffix \<open>_mk\<close>.
\<close>

definition FSSIZE :: nat where "FSSIZE = 2000"
definition NINODES :: nat where "NINODES = 200"

definition nbitmap :: nat where "nbitmap = FSSIZE div (BSIZE * 8) + 1"
definition ninodeblocks :: nat where "ninodeblocks = NINODES div IPB + 1"
definition nlog :: nat where "nlog = nat LOGSIZE"
definition nmeta :: nat where "nmeta = 2 + nlog + ninodeblocks + nbitmap"

record mkfs_state =
  img :: "uint32 \<Rightarrow> uchar list"
  freeinode :: uint32
  freeblock :: uint32

section \<open>Byte order and sectors\<close>

definition xshort :: "ushort \<Rightarrow> ushort" where
  "xshort x = get16 [ucast x, ucast (drop_bit 8 x)] 0"

definition xint :: "uint32 \<Rightarrow> uint32" where
  "xint x = get32 [ucast x, ucast (drop_bit 8 x), ucast (drop_bit 16 x), ucast (drop_bit 24 x)] 0"

definition wsect :: "uint32 \<Rightarrow> uchar list \<Rightarrow> mkfs_state \<Rightarrow> mkfs_state" where
  "wsect sec b s = s\<lparr>img := (img s)(sec := b)\<rparr>"

definition rsect :: "uint32 \<Rightarrow> mkfs_state \<Rightarrow> uchar list" where
  "rsect sec s = img s sec"

text \<open>The super block that \<^verbatim>\<open>main\<close> fills in.\<close>

definition sb_mk :: superblock where
  "sb_mk = \<lparr>sb_magic = FSMAGIC, sb_size = xint (of_nat FSSIZE), sb_nblocks = xint (of_nat (FSSIZE - nmeta)),
     sb_ninodes = xint (of_nat NINODES), sb_nlog = xint (of_nat nlog), sb_logstart = xint 2,
     sb_inodestart = xint (of_nat (2 + nlog)), sb_bmapstart = xint (of_nat (2 + nlog + ninodeblocks))\<rparr>"

definition sb_bytes :: "superblock \<Rightarrow> uchar list" where
  "sb_bytes b = bytes32 (sb_magic b) @ bytes32 (sb_size b) @ bytes32 (sb_nblocks b) @ bytes32 (sb_ninodes b) @
     bytes32 (sb_nlog b) @ bytes32 (sb_logstart b) @ bytes32 (sb_inodestart b) @ bytes32 (sb_bmapstart b)"

section \<open>Inodes\<close>

definition winode :: "uint32 \<Rightarrow> dinode \<Rightarrow> mkfs_state \<Rightarrow> mkfs_state" where
  "winode i din s =
     (let bn = IBLOCK i sb_mk in wsect bn (put (rsect bn s) (dinode_off i) (dinode_bytes din)) s)"

definition rinode :: "uint32 \<Rightarrow> mkfs_state \<Rightarrow> dinode" where
  "rinode i s = get_dinode (rsect (IBLOCK i sb_mk) s) (dinode_off i)"

definition ialloc_mk :: "ushort \<Rightarrow> mkfs_state \<Rightarrow> uint32 \<times> mkfs_state" where
  "ialloc_mk ty s =
     (let i = freeinode s;
          din = \<lparr>di_type = xshort ty, di_major = 0, di_minor = 0, di_nlink = xshort 1, di_size = xint 0,
                 di_addrs = replicate (NDIRECT + 1) 0\<rparr>
      in (i, winode i din (s\<lparr>freeinode := i + 1\<rparr>)))"

text \<open>The block for block number \<open>fbn\<close> of the file, allocated when there is none yet.\<close>

definition block_mk :: "nat \<Rightarrow> dinode \<Rightarrow> mkfs_state \<Rightarrow> uint32 \<times> dinode \<times> mkfs_state" where
  "block_mk fbn din s =
     (if fbn < NDIRECT then
        (if xint (di_addrs din ! fbn) = 0
         then (freeblock s, din\<lparr>di_addrs := (di_addrs din)[fbn := xint (freeblock s)]\<rparr>, s\<lparr>freeblock := freeblock s + 1\<rparr>)
         else (xint (di_addrs din ! fbn), din, s))
      else
        let (din1, s1) =
              (if xint (di_addrs din ! NDIRECT) = 0
               then (din\<lparr>di_addrs := (di_addrs din)[NDIRECT := xint (freeblock s)]\<rparr>, s\<lparr>freeblock := freeblock s + 1\<rparr>)
               else (din, s));
            ib = xint (di_addrs din1 ! NDIRECT);
            k = 4 * (fbn - NDIRECT);
            d = rsect ib s1
        in if get32 d k = 0
           then (freeblock s1, din1, wsect ib (put32 d k (xint (freeblock s1))) (s1\<lparr>freeblock := freeblock s1 + 1\<rparr>))
           else (xint (get32 d k), din1, s1))"

function iappend_loop :: "uchar list \<Rightarrow> nat \<Rightarrow> dinode \<Rightarrow> mkfs_state \<Rightarrow> (nat \<times> dinode \<times> mkfs_state) outcome" where
  "iappend_loop p off din s =
     (if p = [] then Ok (off, din, s)
      else
        let fbn = off div BSIZE in
        if fbn \<ge> MAXFILE then Panic ''assert''
        else
          let (x, din1, s1) = block_mk fbn din s;
              n1 = min (length p) ((fbn + 1) * BSIZE - off)
          in iappend_loop (drop n1 p) (off + n1) din1
               (wsect x (put (rsect x s1) (off - fbn * BSIZE) (take n1 p)) s1))"
  by pat_completeness auto
termination
proof (relation "measure (\<lambda>(p, off, din, s). length p)", simp, clarsimp)
  fix p :: "uchar list" and off
  assume "p \<noteq> []"
  have "off < (off div BSIZE + 1) * BSIZE" using dividend_less_div_times[of BSIZE off] by (simp add: BSIZE_def)
  then show "length p - min (length p) (BSIZE + off div BSIZE * BSIZE - off) < length p"
    using \<open>p \<noteq> []\<close> by (simp add: algebra_simps)
qed

declare iappend_loop.simps [simp del]

definition iappend :: "uint32 \<Rightarrow> uchar list \<Rightarrow> mkfs_state \<Rightarrow> mkfs_state outcome" where
  "iappend i p s =
     (let din = rinode i s in
      obind (iappend_loop p (unat (xint (di_size din))) din s) (\<lambda>(off, din1, s1).
        Ok (winode i (din1\<lparr>di_size := xint (of_nat off)\<rparr>) s1)))"

section \<open>The free map and the whole image\<close>

definition balloc_mk :: "nat \<Rightarrow> mkfs_state \<Rightarrow> mkfs_state outcome" where
  "balloc_mk used s =
     (if used \<ge> BSIZE * 8 then Panic ''assert''
      else Ok (wsect (sb_bmapstart sb_mk) (fold (\<lambda>i b. set_map_bit b i) [0..<used] (replicate BSIZE 0)) s))"

definition dirent_mk :: "uint32 \<Rightarrow> uchar list \<Rightarrow> uchar list" where
  "dirent_mk i name = bytes16 (xshort (ucast i)) @ strncpy_list name DIRSIZ"

definition shortname :: "uchar list \<Rightarrow> uchar list" where
  "shortname path =
     (let n = (if take 5 path = map of_char ''user/'' then drop 5 path else path) in
      if n \<noteq> [] \<and> hd n = of_char (CHR ''_'') then tl n else n)"

fun append_pieces :: "uint32 \<Rightarrow> uchar list list \<Rightarrow> mkfs_state \<Rightarrow> mkfs_state outcome" where
  "append_pieces i [] s = Ok s"
| "append_pieces i (p # ps) s = obind (iappend i p s) (append_pieces i ps)"

fun add_files :: "(uchar list \<times> uchar list list option) list \<Rightarrow> mkfs_state \<Rightarrow> mkfs_state outcome" where
  "add_files [] s = Ok s"
| "add_files ((path, content) # fs) s =
     (let n = (if take 5 path = map of_char ''user/'' then drop 5 path else path) in
      if of_char (CHR ''/'') \<in> set n then Panic ''assert''
      else
        case content of
          None \<Rightarrow> Panic ''die''
        | Some ps \<Rightarrow>
            let (i, s1) = ialloc_mk T_FILE s in
            obind (iappend ROOTINO (dirent_mk i (shortname path)) s1) (\<lambda>s2.
            obind (append_pieces i ps s2) (add_files fs)))"

definition mkfs_main :: "(uchar list \<times> uchar list list option) list \<Rightarrow> mkfs_state outcome" where
  "mkfs_main fs =
     (let s0 = wsect 1 (sb_bytes sb_mk @ replicate (BSIZE - 32) 0)
                 \<lparr>img = (\<lambda>_. replicate BSIZE 0), freeinode = 1, freeblock = of_nat nmeta\<rparr>;
          (rootino, s1) = ialloc_mk T_DIR s0
      in
      if rootino \<noteq> ROOTINO then Panic ''assert''
      else
        obind (iappend rootino (dirent_mk rootino (map of_char ''.'')) s1) (\<lambda>s2.
        obind (iappend rootino (dirent_mk rootino (map of_char ''..'')) s2) (\<lambda>s3.
        obind (add_files fs s3) (\<lambda>s4.
          let din = rinode rootino s4;
              off = (xint (di_size din) div of_nat BSIZE + 1) * of_nat BSIZE;
              s5 = winode rootino (din\<lparr>di_size := xint off\<rparr>) s4
          in balloc_mk (unat (freeblock s5)) s5))))"

section \<open>What the kernel reads\<close>

lemma xint_id [simp]: "xint w = w" and xshort_id [simp]: "xshort v = v"
  using word_of_bytes32[of w] word_of_bytes16[of v] by (simp_all add: xint_def xshort_def get32_def get16_def)

text \<open>
  C32. The image and the kernel agree on the formats. The block that \<^verbatim>\<open>mkfs\<close> writes for the super block is read by the kernel as the layout of the image: log, inodes,
  free map and data follow each other without overlap and fill the image. An inode that \<^verbatim>\<open>winode\<close> writes is what the kernel reads at the place where \<^verbatim>\<open>ilock\<close> looks for
  it, and writing it changes no other inode.
\<close>

theorem mkfs_kernel_agree:
  assumes "length (img s (IBLOCK i sb_mk)) = BSIZE" "length (di_addrs din) = NDIRECT + 1"
  shows "sb_of (sb_bytes sb_mk @ replicate (BSIZE - 32) 0) =
       \<lparr>sb_magic = FSMAGIC, sb_size = 2000, sb_nblocks = 1954, sb_ninodes = 200, sb_nlog = 30, sb_logstart = 2, sb_inodestart = 32, sb_bmapstart = 45\<rparr> \<and>
     get_dinode (img (winode i din s) (IBLOCK i sb_mk)) (dinode_off i) = din \<and> rinode i (winode i din s) = din \<and>
     (\<forall>j. j \<noteq> i \<longrightarrow> rinode j (winode i din s) = rinode j s)"
proof (intro conjI allI impI)
  show "sb_of (sb_bytes sb_mk @ replicate (BSIZE - 32) 0) =
       \<lparr>sb_magic = FSMAGIC, sb_size = 2000, sb_nblocks = 1954, sb_ninodes = 200, sb_nlog = 30, sb_logstart = 2, sb_inodestart = 32, sb_bmapstart = 45\<rparr>"
    by (simp add: sb_of_def sb_bytes_def sb_mk_def get32_def bytes32_def nmeta_def nlog_def ninodeblocks_def nbitmap_def FSSIZE_def NINODES_def IPB_def BSIZE_def
      LOGSIZE_def MAXOPBLOCKS_def FSMAGIC_def)
  have w: "img (winode i din s) = (img s)(IBLOCK i sb_mk := put (img s (IBLOCK i sb_mk)) (dinode_off i) (dinode_bytes din))"
    by (simp add: winode_def wsect_def rsect_def Let_def)
  show r: "get_dinode (img (winode i din s) (IBLOCK i sb_mk)) (dinode_off i) = din"
    unfolding w using get_dinode_put_same[OF _ assms(2)] dinode_off_fits[of i] assms(1) by simp
  then show "rinode i (winode i din s) = din" by (simp add: rinode_def rsect_def)
  fix j assume j: "j \<noteq> i"
  have n: "length (dinode_bytes din) = 64" using assms(2) by (simp add: dinode_bytes_def length_concat comp_def sum_list_triv NDIRECT_def)
  show "rinode j (winode i din s) = rinode j s"
    unfolding rinode_def rsect_def w using get_dinode_put_other[OF _ _ _ n] dinode_off_fits inode_places[of i j sb_mk] j assms(1) by auto
qed

theorem mkfs_kernel_agree_witness:
  "di_size (get_dinode (img (winode 17 \<lparr>di_type = 2, di_major = 0, di_minor = 0, di_nlink = 1, di_size = 5000, di_addrs = replicate 13 99\<rparr>
     \<lparr>img = (\<lambda>b. replicate 1024 0), freeinode = 18, freeblock = 46\<rparr>) 33) 64) = 5000"
proof -
  have "IBLOCK 17 sb_mk = 33" "dinode_off 17 = 64"
    by (simp_all add: IBLOCK_def sb_mk_def nlog_def IPB_def BSIZE_def LOGSIZE_def MAXOPBLOCKS_def dinode_off_def)
  then show ?thesis
    using mkfs_kernel_agree[of "\<lparr>img = (\<lambda>b. replicate 1024 0), freeinode = 18, freeblock = 46\<rparr>" 17
      "\<lparr>di_type = 2, di_major = 0, di_minor = 0, di_nlink = 1, di_size = 5000, di_addrs = replicate 13 99\<rparr>"]
    by (simp add: BSIZE_def NDIRECT_def)
qed

end
