(* ===== verification/Bio_Inv.thy ===== *)
theory Bio_Inv
  imports Bio
begin

text \<open>
  What the buffer cache promises. The invariant \<open>cache_ok\<close>: the buffers form one doubly linked circle through
  the head, no two buffers hold the same block, and a valid buffer that nobody references agrees with
  the disk. Abstractly the cache is the contents that a reader of each block sees (\<open>blk\<close>) and the number of
  references to it (\<open>refs\<close>). The locale \<open>block_cache\<close> states the contract over these two; it is interpreted on the
  routines of \<^verbatim>\<open>kernel/bio.c\<close>.
\<close>

section \<open>Routines that do not touch the cache\<close>

definition bframe :: "'z bio_state_scheme \<Rightarrow> (nat \<Rightarrow> buf) \<times> disk \<times> disk list \<times> 'z" where
  "bframe s = (bufs s, disk s, dtrace s, bio_state.more s)"

lemma bframe_upd [simp]:
  "bframe (s\<lparr>kcore := c\<rparr>) = bframe s" "bframe (s\<lparr>procs := ps\<rparr>) = bframe s" "bframe (s\<lparr>slocks := k\<rparr>) = bframe s"
  by (cases s; simp add: bframe_def)+

lemma bframe_on_core [keeps_rules]: "keeps bframe (on_core f)"
  by (rule keepsI) (auto simp: on_core_def obind_eq_Ok)

lemma bframe_myproc [keeps_rules]: "keeps bframe myproc"
  unfolding myproc_def by (intro keeps_rules)

lemma bframe_curproc [keeps_rules]: "keeps bframe curproc"
  unfolding curproc_def by (intro keeps_rules)

lemma bframe_wakeup_from: "keeps bframe (wakeup_from ch ps)"
  by (induction ps) (auto intro!: keeps_rules)

lemma bframe_wakeup [keeps_rules]: "keeps bframe (wakeup ch)"
  unfolding wakeup_def wakeup_ptr_def by (rule bframe_wakeup_from)

lemma bframe_sleeplock [keeps_rules]:
  "keeps bframe (acquiresleep l)" "keeps bframe (releasesleep l)" "keeps bframe (holdingsleep l)"
  unfolding acquiresleep_def releasesleep_def holdingsleep_def by (intro keeps_rules; simp)+

text \<open>Sequences with such routines.\<close>

lemma frame_thn:
  assumes "thn m k s = Ok (a, t)" "keeps bframe m"
  obtains s' where "k s' = Ok (a, t)" "bframe s' = bframe s"
  using assms by (auto simp: thn_apply obind_eq_Ok dest: keepsD)

lemma frame_bnd:
  assumes "bnd m k s = Ok (a, t)" "keeps bframe m"
  obtains x s' where "m s = Ok (x, s')" "k x s' = Ok (a, t)" "bframe s' = bframe s"
  using assms by (auto simp: bnd_apply obind_eq_Ok dest: keepsD)

lemma bframe_eqD:
  "bframe s = bframe t \<Longrightarrow> bufs s = bufs t \<and> disk s = disk t \<and> dtrace s = dtrace t \<and> bio_state.more s = bio_state.more t"
  by (simp add: bframe_def)

section \<open>The list of buffers\<close>

text \<open>Neighbours in the sequence are linked both ways.\<close>

fun dlinks :: "(nat \<Rightarrow> buf) \<Rightarrow> nat list \<Rightarrow> bool" where
  "dlinks bs (a # b # xs) = (bnext (bs a) = b \<and> bprev (bs b) = a \<and> dlinks bs (b # xs))"
| "dlinks bs _ = True"

lemma dlinks_append:
  "xs \<noteq> [] \<Longrightarrow> ys \<noteq> [] \<Longrightarrow>
   dlinks bs (xs @ ys) \<longleftrightarrow> dlinks bs xs \<and> bnext (bs (last xs)) = hd ys \<and> bprev (bs (hd ys)) = last xs \<and> dlinks bs ys"
  by (induction bs xs rule: dlinks.induct; cases ys; auto)

lemma dlinks_cong:
  "(\<And>a. a \<in> set (butlast xs) \<Longrightarrow> bnext (bs' a) = bnext (bs a)) \<Longrightarrow>
   (\<And>a. a \<in> set (tl xs) \<Longrightarrow> bprev (bs' a) = bprev (bs a)) \<Longrightarrow> dlinks bs' xs = dlinks bs xs"
proof (induction bs xs rule: dlinks.induct)
  case (1 bs a b xs)
  have "dlinks bs' (b # xs) = dlinks bs (b # xs)"
  proof (rule "1.IH")
    show "bnext (bs' c) = bnext (bs c)" if "c \<in> set (butlast (b # xs))" for c using "1.prems"(1)[of c] that by simp
    show "bprev (bs' c) = bprev (bs c)" if "c \<in> set (tl (b # xs))" for c using "1.prems"(2)[of c] that by simp
  qed
  then show ?case using "1.prems"(1)[of a] "1.prems"(2)[of b] by simp
qed auto

lemma dlinks_next: "dlinks bs (q # ws) \<Longrightarrow> follows (\<lambda>b. bnext (bs b)) q ws"
  by (induction ws arbitrary: q) auto

lemma dlinks_prev: "dlinks bs (ws @ [q]) \<Longrightarrow> follows (\<lambda>b. bprev (bs b)) q (rev ws)"
proof (induction ws arbitrary: q rule: rev_induct)
  case (snoc w ws)
  then show ?case using dlinks_append[of "ws @ [w]" "[q]"] by simp
qed simp

definition lru :: "(nat \<Rightarrow> buf) \<Rightarrow> nat list \<Rightarrow> bool" where
  "lru bs ls \<longleftrightarrow> distinct ls \<and> set ls = {..<NBUF} \<and> dlinks bs (NBUF # ls @ [NBUF])"

lemma lru_follows:
  assumes "lru bs ls"
  shows "follows (\<lambda>b. bnext (bs b)) NBUF (ls @ [NBUF])" "follows (\<lambda>b. bprev (bs b)) NBUF (rev ls @ [NBUF])"
  using assms dlinks_next[of bs NBUF "ls @ [NBUF]"] dlinks_prev[of bs "NBUF # ls" NBUF] by (auto simp: lru_def)

definition has_key :: "uint32 \<Rightarrow> uint32 \<Rightarrow> buf \<Rightarrow> bool" where
  "has_key dev n k \<longleftrightarrow> bdev k = dev \<and> bblockno k = n"

lemma bget_cached_follows:
  "follows (\<lambda>b. bnext (bs b)) q (ls @ [NBUF]) \<Longrightarrow> NBUF \<notin> set ls \<Longrightarrow> length ls < n \<Longrightarrow>
   bget_cached n dev bn bs (bnext (bs q)) =
     (case List.find (\<lambda>b. has_key dev bn (bs b)) ls of None \<Rightarrow> Absent | Some b \<Rightarrow> Found b)"
proof (induction ls arbitrary: q n)
  case Nil
  then show ?case by (cases n) auto
next
  case (Cons b ls)
  then obtain m where "n = Suc m" by (cases n) auto
  then show ?case using Cons by (auto simp: has_key_def)
qed

lemma bget_unused_follows:
  "follows (\<lambda>b. bprev (bs b)) q (ls @ [NBUF]) \<Longrightarrow> NBUF \<notin> set ls \<Longrightarrow> length ls < n \<Longrightarrow>
   bget_unused n bs (bprev (bs q)) =
     (case List.find (\<lambda>b. brefcnt (bs b) = 0) ls of None \<Rightarrow> Absent | Some b \<Rightarrow> Found b)"
proof (induction ls arbitrary: q n)
  case Nil
  then show ?case by (cases n) auto
next
  case (Cons b ls)
  then obtain m where "n = Suc m" by (cases n) auto
  then show ?case using Cons by auto
qed

declare bget_cached.simps [simp del] bget_unused.simps [simp del]

lemma lru_length: "lru bs ls \<Longrightarrow> length ls = NBUF"
  by (metis card_lessThan distinct_card lru_def)

lemma find_SomeD: "List.find P xs = Some x \<Longrightarrow> x \<in> set xs \<and> P x"
  by (auto simp: find_Some_iff)

lemma lru_cached:
  assumes "lru bs ls"
  shows "bget_cached (NBUF + 1) dev bn bs (bnext (bs NBUF)) = Found b \<Longrightarrow> b < NBUF \<and> has_key dev bn (bs b)"
    and "bget_cached (NBUF + 1) dev bn bs (bnext (bs NBUF)) = Absent \<Longrightarrow> \<forall>b < NBUF. \<not> has_key dev bn (bs b)"
    and "bget_unused (NBUF + 1) bs (bprev (bs NBUF)) = Found b \<Longrightarrow> b < NBUF \<and> brefcnt (bs b) = 0"
proof -
  have l: "NBUF \<notin> set ls" "length ls < NBUF + 1" "set ls = {..<NBUF}" using assms lru_length[OF assms] by (auto simp: lru_def)
  have c: "bget_cached (NBUF + 1) dev bn bs (bnext (bs NBUF)) =
     (case List.find (\<lambda>b. has_key dev bn (bs b)) ls of None \<Rightarrow> Absent | Some b \<Rightarrow> Found b)"
    using lru_follows[OF assms] l by (intro bget_cached_follows) auto
  have u: "bget_unused (NBUF + 1) bs (bprev (bs NBUF)) =
     (case List.find (\<lambda>b. brefcnt (bs b) = 0) (rev ls) of None \<Rightarrow> Absent | Some b \<Rightarrow> Found b)"
    using lru_follows[OF assms] l by (intro bget_unused_follows) auto
  show "bget_cached (NBUF + 1) dev bn bs (bnext (bs NBUF)) = Found b \<Longrightarrow> b < NBUF \<and> has_key dev bn (bs b)"
    unfolding c using l(3) by (auto split: option.splits dest!: find_SomeD)
  show "bget_cached (NBUF + 1) dev bn bs (bnext (bs NBUF)) = Absent \<Longrightarrow> \<forall>b < NBUF. \<not> has_key dev bn (bs b)"
    unfolding c using l(3) by (auto split: option.splits simp: find_None_iff)
  show "b < NBUF \<and> brefcnt (bs b) = 0" if "bget_unused (NBUF + 1) bs (bprev (bs NBUF)) = Found b"
  proof -
    have "List.find (\<lambda>b. brefcnt (bs b) = 0) (rev ls) = Some b" using that u by (simp split: option.splits)
    from find_SomeD[OF this] show ?thesis using l(3) by simp
  qed
qed

text \<open>The list survives a change of the other fields.\<close>

lemma lru_cong:
  assumes "\<And>b. bnext (bs' b) = bnext (bs b) \<and> bprev (bs' b) = bprev (bs b)"
  shows "lru bs' ls = lru bs ls"
  using dlinks_cong[of "NBUF # ls @ [NBUF]" bs' bs] assms by (simp add: lru_def)

lemma push_front_links:
  assumes "dlinks bs (NBUF # ls @ [NBUF])" "distinct (NBUF # b # ls)"
  shows "dlinks (push_front b bs) (NBUF # b # ls @ [NBUF])"
proof -
  define f where "f = bnext (bs NBUF)"
  have f: "f = hd (ls @ [NBUF])" using assms(1) by (cases ls) (auto simp: f_def)
  have fb: "f \<noteq> b" using f assms(2) by (cases ls) auto
  let ?bs = "push_front b bs"
  have n: "bnext (?bs a) = (if a = NBUF then b else if a = b then f else bnext (bs a))" for a
    using assms(2) fb by (auto simp: push_front_def set_next_def set_prev_def Let_def f_def)
  have p: "bprev (?bs a) = (if a = f then b else if a = b then NBUF else bprev (bs a))" for a
    using assms(2) fb by (auto simp: push_front_def set_next_def set_prev_def Let_def f_def)
  have "dlinks ?bs (ls @ [NBUF]) = dlinks bs (ls @ [NBUF])"
  proof (rule dlinks_cong)
    show "bnext (?bs a) = bnext (bs a)" if "a \<in> set (butlast (ls @ [NBUF]))" for a using that assms(2) n by auto
    show "bprev (?bs a) = bprev (bs a)" if "a \<in> set (tl (ls @ [NBUF]))" for a
      using that assms(2) p f by (cases ls) auto
  qed
  moreover have "dlinks bs (ls @ [NBUF])" using assms(1) by (cases ls) auto
  ultimately show ?thesis using n p f fb assms(2) by (cases ls) auto
qed

lemma unlink_links:
  assumes "dlinks bs (NBUF # xs @ b # ys @ [NBUF])" "distinct (NBUF # xs @ b # ys)"
  shows "dlinks (unlink_buf b bs) (NBUF # xs @ ys @ [NBUF])"
proof -
  define p where "p = last (NBUF # xs)"
  define n where "n = hd (ys @ [NBUF])"
  have j: "dlinks bs (NBUF # xs)" "bnext (bs p) = b" "bprev (bs b) = p" "dlinks bs (b # ys @ [NBUF])"
    using assms(1) dlinks_append[of "NBUF # xs" "b # ys @ [NBUF]"] by (simp_all add: p_def)
  have k: "bnext (bs b) = n" "dlinks bs (ys @ [NBUF])" using j(4) by (cases ys; simp add: n_def)+
  have nb: "n \<noteq> b" using assms(2) by (cases ys) (auto simp: n_def)
  have pb: "p \<noteq> b" using assms(2) by (auto simp: p_def)
  let ?bs = "unlink_buf b bs"
  have nx: "bnext (?bs a) = (if a = p then n else bnext (bs a))" for a
    using nb pb j(3) k(1) by (auto simp: unlink_buf_def set_next_def set_prev_def Let_def)
  have pv: "bprev (?bs a) = (if a = n then p else bprev (bs a))" for a
    using nb pb j(3) k(1) by (auto simp: unlink_buf_def set_next_def set_prev_def Let_def)
  have "dlinks ?bs (NBUF # xs) = dlinks bs (NBUF # xs)"
  proof (rule dlinks_cong)
    show "bnext (?bs a) = bnext (bs a)" if "a \<in> set (butlast (NBUF # xs))" for a
    proof -
      have "butlast (NBUF # xs) @ [p] = NBUF # xs" unfolding p_def by (rule append_butlast_last_id) simp
      moreover have "distinct (NBUF # xs)" using assms(2) by auto
      ultimately have "p \<notin> set (butlast (NBUF # xs))" by (metis distinct_butlast not_distinct_conv_prefix)
      then show ?thesis using that nx by metis
    qed
    show "bprev (?bs a) = bprev (bs a)" if "a \<in> set (tl (NBUF # xs))" for a
      using that assms(2) pv by (cases ys) (auto simp: n_def)
  qed
  moreover have "dlinks ?bs (ys @ [NBUF]) = dlinks bs (ys @ [NBUF])"
  proof (rule dlinks_cong)
    have "p \<in> insert NBUF (set xs)" by (simp add: p_def)
    then have "p \<notin> set ys" using assms(2) by auto
    then show "bnext (?bs a) = bnext (bs a)" if "a \<in> set (butlast (ys @ [NBUF]))" for a using that nx by auto
    show "bprev (?bs a) = bprev (bs a)" if "a \<in> set (tl (ys @ [NBUF]))" for a
      using that assms(2) pv by (cases ys) (auto simp: n_def)
  qed
  moreover have "bnext (?bs p) = n" "bprev (?bs n) = p" using nx pv by auto
  ultimately have "dlinks ?bs ((NBUF # xs) @ ys @ [NBUF])"
    using j(1) k(2) by (subst dlinks_append) (simp_all add: p_def n_def)
  then show ?thesis by simp
qed

text \<open>Releasing moves a buffer to the front.\<close>

lemma lru_release:
  assumes "lru bs ls" "b < NBUF"
  shows "lru (push_front b (unlink_buf b bs)) (b # remove1 b ls)"
proof -
  have "b \<in> set ls" using assms by (auto simp: lru_def)
  then obtain xs ys where ls: "ls = xs @ b # ys" "b \<notin> set xs" by (meson split_list_first)
  then have r: "remove1 b ls = xs @ ys" by (simp add: remove1_append)
  have d: "distinct (NBUF # xs @ b # ys)" using assms(1) ls by (auto simp: lru_def)
  have "dlinks bs (NBUF # xs @ b # ys @ [NBUF])" using assms(1) ls by (simp add: lru_def)
  from unlink_links[OF this d] have "dlinks (unlink_buf b bs) (NBUF # (xs @ ys) @ [NBUF])" by simp
  then have "dlinks (push_front b (unlink_buf b bs)) (NBUF # b # (xs @ ys) @ [NBUF])"
    using d assms(2) by (intro push_front_links) auto
  then show ?thesis using r assms(1) ls by (auto simp: lru_def)
qed

section \<open>The invariant and the abstract cache\<close>

definition cache_inv :: "uint32 \<Rightarrow> (nat \<Rightarrow> buf) \<Rightarrow> disk \<Rightarrow> bool" where
  "cache_inv dev bs d \<longleftrightarrow>
     (\<exists>ls. lru bs ls) \<and>
     (\<forall>b < NBUF. \<forall>c < NBUF. \<forall>n. has_key dev n (bs b) \<longrightarrow> has_key dev n (bs c) \<longrightarrow> b = c) \<and>
     (\<forall>b < NBUF. bvalid (bs b) \<longrightarrow> bdev (bs b) = dev) \<and>
     (\<forall>b < NBUF. bvalid (bs b) \<longrightarrow> brefcnt (bs b) = 0 \<longrightarrow> bdata (bs b) = d (bblockno (bs b))) \<and>
     (\<forall>b < NBUF. \<not> bvalid (bs b) \<longrightarrow> brefcnt (bs b) = 0)"

definition lookup :: "uint32 \<Rightarrow> (nat \<Rightarrow> buf) \<Rightarrow> uint32 \<Rightarrow> nat option" where
  "lookup dev bs n = List.find (\<lambda>b. has_key dev n (bs b)) [0..<NBUF]"

text \<open>The contents of a block that a reader sees, and the number of references to it.\<close>

definition blk :: "uint32 \<Rightarrow> (nat \<Rightarrow> buf) \<Rightarrow> disk \<Rightarrow> disk" where
  "blk dev bs d n =
     (case lookup dev bs n of None \<Rightarrow> d n | Some b \<Rightarrow> if bvalid (bs b) then bdata (bs b) else d n)"

definition refs :: "uint32 \<Rightarrow> (nat \<Rightarrow> buf) \<Rightarrow> uint32 \<Rightarrow> nat" where
  "refs dev bs n = (case lookup dev bs n of None \<Rightarrow> 0 | Some b \<Rightarrow> unat (brefcnt (bs b)))"

definition holds :: "uint32 \<Rightarrow> (nat \<Rightarrow> buf) \<Rightarrow> nat \<Rightarrow> uint32 \<Rightarrow> bool" where
  "holds dev bs b n \<longleftrightarrow> b < NBUF \<and> has_key dev n (bs b) \<and> bvalid (bs b)"

lemma lookup_Some: "lookup dev bs n = Some b \<Longrightarrow> b < NBUF \<and> has_key dev n (bs b)"
  by (auto simp: lookup_def find_Some_iff)

lemma lookup_None: "lookup dev bs n = None \<longleftrightarrow> (\<forall>b < NBUF. \<not> has_key dev n (bs b))"
  by (auto simp: lookup_def find_None_iff)

lemma cache_invD:
  assumes "cache_inv dev bs d"
  shows "\<exists>ls. lru bs ls"
    "b < NBUF \<Longrightarrow> c < NBUF \<Longrightarrow> has_key dev n (bs b) \<Longrightarrow> has_key dev n (bs c) \<Longrightarrow> b = c"
    "b < NBUF \<Longrightarrow> bvalid (bs b) \<Longrightarrow> bdev (bs b) = dev"
    "b < NBUF \<Longrightarrow> bvalid (bs b) \<Longrightarrow> brefcnt (bs b) = 0 \<Longrightarrow> bdata (bs b) = d (bblockno (bs b))"
    "b < NBUF \<Longrightarrow> \<not> bvalid (bs b) \<Longrightarrow> brefcnt (bs b) = 0"
  using assms by (simp_all add: cache_inv_def)

lemma lookup_eq:
  assumes "cache_inv dev bs d" "b < NBUF" "has_key dev n (bs b)"
  shows "lookup dev bs n = Some b"
proof (cases "lookup dev bs n")
  case None
  then show ?thesis using assms(2,3) by (simp add: lookup_None)
next
  case (Some c)
  then have "c < NBUF" "has_key dev n (bs c)" using lookup_Some by auto
  then have "c = b" using cache_invD(2)[OF assms(1)] assms(2,3) by blast
  then show ?thesis using Some by simp
qed

lemma holds_blk:
  assumes "cache_inv dev bs d" "holds dev bs b n"
  shows "blk dev bs d n = bdata (bs b)" "refs dev bs n = unat (brefcnt (bs b))"
  using assms lookup_eq[OF assms(1)] by (auto simp: holds_def blk_def refs_def)

lemma refs_0: "cache_inv dev bs d \<Longrightarrow> refs dev bs n = 0 \<Longrightarrow> blk dev bs d n = d n"
proof (cases "lookup dev bs n")
  case (Some b)
  assume a: "cache_inv dev bs d" "refs dev bs n = 0"
  have b: "b < NBUF" "bblockno (bs b) = n" using lookup_Some[OF Some] by (auto simp: has_key_def)
  have "brefcnt (bs b) = 0" using a(2) Some by (simp add: refs_def unsigned_eq_0_iff)
  then have "bvalid (bs b) \<Longrightarrow> bdata (bs b) = d n" using cache_invD(4)[OF a(1)] b by blast
  then show "blk dev bs d n = d n" using Some by (simp add: blk_def)
qed (simp add: blk_def)

text \<open>The effect of a new value for a buffer that holds block \<open>n\<close>, or takes it over from a block without references.\<close>

lemma buf_update:
  assumes inv: "cache_inv dev bs d" and b: "b < NBUF" and k: "has_key dev n k" "bvalid k"
    "bnext k = bnext (bs b)" "bprev k = bprev (bs b)" "brefcnt k = 0 \<Longrightarrow> bdata k = d n"
    and own: "has_key dev n (bs b) \<or> (\<forall>c < NBUF. \<not> has_key dev n (bs c)) \<and> brefcnt (bs b) = 0"
  shows "cache_inv dev (bs(b := k)) d" "blk dev (bs(b := k)) d = (blk dev bs d)(n := bdata k)"
    "refs dev (bs(b := k)) = (refs dev bs)(n := unat (brefcnt k))"
proof -
  let ?bs = "bs(b := k)"
  note inv1 = cache_invD[OF inv]
  obtain ls where "lru bs ls" using inv1(1) by blast
  then have l: "lru ?bs ls" using k by (subst lru_cong) auto
  have bn: "bdev k = dev" "bblockno k = n" using k(1) by (auto simp: has_key_def)
  have other: "c = b" if "c < NBUF" "has_key dev n (bs c)" for c
    using own inv1(2) that b by blast
  show i: "cache_inv dev ?bs d"
    unfolding cache_inv_def
  proof (intro conjI allI impI)
    show "\<exists>ls. lru ?bs ls" using l by blast
    fix c e m assume c: "c < NBUF" "e < NBUF" "has_key dev m (?bs c)" "has_key dev m (?bs e)"
    show "c = e"
    proof (cases "c = b \<or> e = b")
      case True
      then have "m = n" using c bn by (auto simp: has_key_def split: if_splits)
      then show ?thesis using c other by (auto split: if_splits)
    next
      case False
      then show ?thesis using c inv1(2)[of c e m] by simp
    qed
  next
    fix c assume c: "c < NBUF"
    show "bdev (?bs c) = dev" if "bvalid (?bs c)" using that c inv1(3) bn by (cases "c = b") auto
    show "bdata (?bs c) = d (bblockno (?bs c))" if "bvalid (?bs c)" "brefcnt (?bs c) = 0"
      using that c inv1(4) bn k(5) by (cases "c = b") auto
    show "brefcnt (?bs c) = 0" if "\<not> bvalid (?bs c)" using that c inv1(5) k(2) by (cases "c = b") auto
  qed
  have same: "lookup dev ?bs m = (if m = n then Some b else if lookup dev bs m = Some b then None else lookup dev bs m)" for m
  proof (cases "m = n")
    case True
    then show ?thesis using lookup_eq[OF i b] k(1) by simp
  next
    case False
    then have nb: "\<not> has_key dev m (?bs b)" using bn by (simp add: has_key_def)
    show ?thesis
    proof (cases "lookup dev bs m")
      case None
      then have "lookup dev ?bs m = None" using nb by (auto simp: lookup_None)
      then show ?thesis using None False by simp
    next
      case (Some c)
      note c = lookup_Some[OF Some]
      show ?thesis
      proof (cases "c = b")
        case True
        have "\<not> has_key dev m (?bs e)" if "e < NBUF" for e
          using that nb c True inv1(2)[of e b m] by (cases "e = b") auto
        then have "lookup dev ?bs m = None" by (simp add: lookup_None)
        then show ?thesis using True Some False by simp
      next
        case cb: False
        then have "lookup dev ?bs m = Some c" using lookup_eq[OF i, of c m] c by simp
        then show ?thesis using cb Some False by simp
      qed
    qed
  qed
  have gone: "(bvalid (bs b) \<longrightarrow> bdata (bs b) = d m) \<and> brefcnt (bs b) = 0" if "lookup dev bs m = Some b" "m \<noteq> n" for m
  proof -
    have hk: "has_key dev m (bs b)" using lookup_Some[OF that(1)] by blast
    then have "\<not> has_key dev n (bs b)" using that(2) by (auto simp: has_key_def)
    then have "brefcnt (bs b) = 0" using own by blast
    then show ?thesis using inv1(4) b hk by (auto simp: has_key_def)
  qed
  show "blk dev ?bs d = (blk dev bs d)(n := bdata k)"
  proof
    fix m
    show "blk dev ?bs d m = ((blk dev bs d)(n := bdata k)) m"
      using gone[of m] k(2) by (cases "lookup dev bs m") (auto simp: blk_def same)
  qed
  show "refs dev ?bs = (refs dev bs)(n := unat (brefcnt k))"
  proof
    fix m
    show "refs dev ?bs m = ((refs dev bs)(n := unat (brefcnt k))) m"
      using gone[of m] by (cases "lookup dev bs m") (auto simp: refs_def same)
  qed
qed

section \<open>The routines on the abstract cache\<close>

abbreviation cok :: "uint32 \<Rightarrow> 'z bio_state_scheme \<Rightarrow> bool" where
  "cok dev s \<equiv> cache_inv dev (bufs s) (disk s)"

abbreviation cblk :: "uint32 \<Rightarrow> 'z bio_state_scheme \<Rightarrow> disk" where
  "cblk dev s \<equiv> blk dev (bufs s) (disk s)"

abbreviation cref :: "uint32 \<Rightarrow> 'z bio_state_scheme \<Rightarrow> uint32 \<Rightarrow> nat" where
  "cref dev s \<equiv> refs dev (bufs s)"

abbreviation chold :: "uint32 \<Rightarrow> 'z bio_state_scheme \<Rightarrow> nat \<Rightarrow> uint32 \<Rightarrow> bool" where
  "chold dev s \<equiv> holds dev (bufs s)"

lemma bget_tail:
  assumes "thn (modify (upd_buf b f)) (thn (rel l) (thn (acquiresleep k) (ret b))) s = Ok (b', t)"
  shows "b' = b \<and> bframe t = ((bufs s)(b := f (bufs s b)), disk s, dtrace s, bio_state.more s)"
proof -
  have "thn (rel l) (thn (acquiresleep k) (ret b)) (upd_buf b f s) = Ok (b', t)"
    using assms by (simp add: thn_apply[of "modify _"] modify_apply)
  then obtain s1 where s1: "thn (acquiresleep k) (ret b) s1 = Ok (b', t)" "bframe s1 = bframe (upd_buf b f s)"
    by (rule frame_thn[OF _ bframe_on_core])
  then obtain s2 where "ret b s2 = Ok (b', t)" "bframe s2 = bframe s1"
    by (auto elim: frame_thn[OF _ bframe_sleeplock(1)])
  then show ?thesis using s1(2) by (cases s) (simp add: ret_apply bframe_def)
qed

definition taken :: "uint32 \<Rightarrow> uint32 \<Rightarrow> (nat \<Rightarrow> buf) \<Rightarrow> nat \<Rightarrow> buf \<Rightarrow> bool" where
  "taken dev n bs b k \<longleftrightarrow> b < NBUF \<and>
     (has_key dev n (bs b) \<and> k = (bs b)\<lparr>brefcnt := brefcnt (bs b) + 1\<rparr> \<or>
      (\<forall>c < NBUF. \<not> has_key dev n (bs c)) \<and> brefcnt (bs b) = 0 \<and>
      k = (bs b)\<lparr>bdev := dev, bblockno := n, bvalid := False, brefcnt := 1\<rparr>)"

lemma bget_shape:
  assumes "bget dev n s = Ok (b, t)" "lru (bufs s) ls"
  shows "\<exists>k. taken dev n (bufs s) b k \<and> bframe t = ((bufs s)(b := k), disk s, dtrace s, bio_state.more s)"
proof -
  obtain s1 where r: "bnd (gets (\<lambda>s. bget_cached (NBUF + 1) dev n (bufs s) (bnext (bufs s NBUF)))) (\<lambda>r.
       case r of
         Endless \<Rightarrow> blocks
       | Found b \<Rightarrow>
           thn (modify (upd_buf b (\<lambda>k. k\<lparr>brefcnt := brefcnt k + 1\<rparr>)))
           (thn (rel LBcache)
           (thn (acquiresleep (SBuf b)) (ret b)))
       | Absent \<Rightarrow>
           bnd (gets (\<lambda>s. bget_unused (NBUF + 1) (bufs s) (bprev (bufs s NBUF)))) (\<lambda>r.
             case r of
               Endless \<Rightarrow> blocks
             | Absent \<Rightarrow> panic ''bget: no buffers''
             | Found b \<Rightarrow>
                 thn (modify (upd_buf b (\<lambda>k. k\<lparr>bdev := dev, bblockno := n, bvalid := False, brefcnt := 1\<rparr>)))
                 (thn (rel LBcache)
                 (thn (acquiresleep (SBuf b)) (ret b))))) s1 = Ok (b, t)" and s1: "bframe s1 = bframe s"
    by (rule frame_thn[OF assms(1)[unfolded bget_def] bframe_on_core])
  have bs: "bufs s1 = bufs s" "disk s1 = disk s" "dtrace s1 = dtrace s" "bio_state.more s1 = bio_state.more s"
    using bframe_eqD[OF s1] by auto
  let ?c = "bget_cached (NBUF + 1) dev n (bufs s) (bnext (bufs s NBUF))"
  let ?u = "bget_unused (NBUF + 1) (bufs s) (bprev (bufs s NBUF))"
  show ?thesis
  proof (cases ?c)
    case (Found b1)
    then have "thn (modify (upd_buf b1 (\<lambda>k. k\<lparr>brefcnt := brefcnt k + 1\<rparr>)))
           (thn (rel LBcache) (thn (acquiresleep (SBuf b1)) (ret b1))) s1 = Ok (b, t)"
      using r bs by (simp add: bnd_apply gets_apply)
    from bget_tail[OF this] show ?thesis using lru_cached(1)[OF assms(2) Found] bs by (auto simp: taken_def)
  next
    case Absent
    then obtain b1 where u: "?u = Found b1" and "thn (modify (upd_buf b1 (\<lambda>k. k\<lparr>bdev := dev, bblockno := n, bvalid := False, brefcnt := 1\<rparr>)))
           (thn (rel LBcache) (thn (acquiresleep (SBuf b1)) (ret b1))) s1 = Ok (b, t)"
      using r bs by (cases ?u) (auto simp: bnd_apply gets_apply blocks_apply panic_apply)
    from bget_tail[OF this(2)] show ?thesis
      using lru_cached(2)[OF assms(2) Absent] lru_cached(3)[OF assms(2) u] bs by (auto simp: taken_def)
  next
    case Endless
    then show ?thesis using r bs by (simp add: bnd_apply gets_apply blocks_apply)
  qed
qed

lemma bread_shape:
  assumes "bread dev n s = Ok (b, t)" "lru (bufs s) ls"
  shows "\<exists>k. taken dev n (bufs s) b k \<and>
     bframe t = ((bufs s)(b := (if bvalid k then k else k\<lparr>bdata := disk s n, bvalid := True\<rparr>)),
       disk s, dtrace s, bio_state.more s)"
proof -
  obtain s1 where g: "bget dev n s = Ok (b, s1)" and r: "(bnd (gets (\<lambda>s. bvalid (bufs s b))) (\<lambda>v.
     thn (whenb (\<not> v) (seqs [disk_rw b False, modify (upd_buf b (\<lambda>k. k\<lparr>bvalid := True\<rparr>))])) (ret b))) s1 = Ok (b, t)"
    using assms(1) by (auto simp: bread_def bnd_apply[of "bget dev n"] obind_eq_Ok bnd_apply gets_apply thn_apply ret_apply)
  obtain k where k: "taken dev n (bufs s) b k" "bframe s1 = ((bufs s)(b := k), disk s, dtrace s, bio_state.more s)"
    using bget_shape[OF g assms(2)] by blast
  have e: "bufs s1 = (bufs s)(b := k)" "disk s1 = disk s" "dtrace s1 = dtrace s" "bio_state.more s1 = bio_state.more s"
    using k(2) by (auto simp: bframe_def)
  have "bblockno k = n" using k(1) by (auto simp: taken_def has_key_def)
  show ?thesis
  proof (cases "bvalid k")
    case True
    then have "t = s1" using r e by (simp add: kern_simps)
    then show ?thesis using k True by auto
  next
    case False
    then have "t = upd_buf b (\<lambda>k. k\<lparr>bvalid := True\<rparr>) (upd_buf b (\<lambda>k. k\<lparr>bdata := disk s1 (bblockno k)\<rparr>) s1)"
      using r e by (simp add: kern_simps disk_rw_def)
    then have "bframe t = ((bufs s)(b := k\<lparr>bdata := disk s n, bvalid := True\<rparr>), disk s, dtrace s, bio_state.more s)"
      using e \<open>bblockno k = n\<close> by (cases s1) (simp add: bframe_def fun_upd_def fun_eq_iff)
    then show ?thesis using k(1) False by auto
  qed
qed

lemma bread_spec:
  assumes "cok dev s" "cref dev s n + 1 < 2 ^ 32" "bread dev n s = Ok (b, t)"
  shows "cok dev t \<and> chold dev t b n \<and> cblk dev t = cblk dev s \<and> cref dev t = (cref dev s)(n := cref dev s n + 1) \<and>
    disk t = disk s \<and> dtrace t = dtrace s \<and> bio_state.more t = bio_state.more s \<and>
    (\<forall>c m. chold dev s c m \<longrightarrow> 0 < cref dev s m \<longrightarrow> chold dev t c m)"
proof -
  let ?bs = "bufs s" let ?d = "disk s"
  obtain ls where l: "lru ?bs ls" using cache_invD(1)[OF assms(1)] by blast
  obtain k0 where tk: "taken dev n ?bs b k0"
    and fr: "bframe t = (?bs(b := (if bvalid k0 then k0 else k0\<lparr>bdata := ?d n, bvalid := True\<rparr>)), ?d, dtrace s, bio_state.more s)"
    using bread_shape[OF assms(3) l] by blast
  define k where "k = (if bvalid k0 then k0 else k0\<lparr>bdata := ?d n, bvalid := True\<rparr>)"
  have t: "bufs t = ?bs(b := k)" "disk t = ?d" "dtrace t = dtrace s" "bio_state.more t = bio_state.more s"
    using fr by (auto simp: bframe_def k_def)
  have b: "b < NBUF" and own: "has_key dev n (?bs b) \<or> (\<forall>c < NBUF. \<not> has_key dev n (?bs c)) \<and> brefcnt (?bs b) = 0"
    using tk by (auto simp: taken_def)
  have kk: "has_key dev n k" "bvalid k" "bnext k = bnext (?bs b)" "bprev k = bprev (?bs b)"
    using tk by (auto simp: k_def taken_def has_key_def)
  have ref: "unat (brefcnt k) = cref dev s n + 1"
  proof (cases "has_key dev n (?bs b)")
    case True
    then have "lookup dev ?bs n = Some b" using lookup_eq[OF assms(1) b] by simp
    then have r: "cref dev s n = unat (brefcnt (?bs b))" by (simp add: refs_def)
    have "brefcnt k = brefcnt (?bs b) + 1" using tk True b by (auto simp: taken_def k_def)
    then show ?thesis using r assms(2) by (simp add: unat_word_ariths(1))
  next
    case False
    then have "lookup dev ?bs n = None" "brefcnt k = 1" using tk own by (auto simp: taken_def k_def lookup_None)
    then show ?thesis by (simp add: refs_def)
  qed
  then have nz: "brefcnt k \<noteq> 0" by auto
  have dat: "bdata k = cblk dev s n"
  proof (cases "has_key dev n (?bs b)")
    case True
    then have "lookup dev ?bs n = Some b" using lookup_eq[OF assms(1) b] by simp
    moreover have "k0 = (?bs b)\<lparr>brefcnt := brefcnt (?bs b) + 1\<rparr>" using tk True b by (auto simp: taken_def)
    ultimately show ?thesis by (simp add: k_def blk_def)
  next
    case False
    then have "lookup dev ?bs n = None" "\<not> bvalid k0" using tk own by (auto simp: taken_def lookup_None)
    then show ?thesis by (simp add: k_def blk_def)
  qed
  have u1: "cok dev t" using buf_update(1)[OF assms(1) b kk _ own] nz t by simp
  have u2: "cblk dev t = cblk dev s" using buf_update(2)[OF assms(1) b kk _ own] nz t dat by simp
  have u3: "cref dev t = (cref dev s)(n := cref dev s n + 1)" using buf_update(3)[OF assms(1) b kk _ own] nz t ref by simp
  have "chold dev t c m" if h: "chold dev s c m" "0 < cref dev s m" for c m
  proof (cases "c = b")
    case True
    have "cref dev s m = unat (brefcnt (?bs c))" using holds_blk(2)[OF assms(1) h(1)] .
    then have "has_key dev n (?bs b)" using own h(2) True by auto
    then have "m = n" using h(1) True by (auto simp: holds_def has_key_def)
    then show ?thesis using True b kk t by (simp add: holds_def)
  next
    case False
    then show ?thesis using h(1) t by (simp add: holds_def)
  qed
  moreover have "chold dev t b n" using b kk t by (simp add: holds_def)
  ultimately show ?thesis using u1 u2 u3 t by blast
qed

text \<open>A change of a held buffer that keeps its block and its links.\<close>

lemma held_update:
  assumes "cache_inv dev bs d" "holds dev bs b n" "k = (bs b)\<lparr>brefcnt := r, bdata := v\<rparr>" "r = 0 \<Longrightarrow> v = d n"
  shows "cache_inv dev (bs(b := k)) d" "blk dev (bs(b := k)) d = (blk dev bs d)(n := v)"
    "refs dev (bs(b := k)) = (refs dev bs)(n := unat r)" "holds dev (bs(b := k)) = holds dev bs"
proof -
  have h: "b < NBUF" "has_key dev n (bs b)" "bvalid (bs b)" using assms(2) by (auto simp: holds_def)
  have k: "has_key dev n k" "bvalid k" "bnext k = bnext (bs b)" "bprev k = bprev (bs b)" "brefcnt k = 0 \<Longrightarrow> bdata k = d n"
    using h assms(3,4) by (auto simp: has_key_def)
  note u = buf_update[OF assms(1) h(1) k disjI1[OF h(2)]]
  show "cache_inv dev (bs(b := k)) d" by (rule u(1))
  show "blk dev (bs(b := k)) d = (blk dev bs d)(n := v)" using u(2) assms(3) by simp
  show "refs dev (bs(b := k)) = (refs dev bs)(n := unat r)" using u(3) assms(3) by simp
  have "holds dev (bs(b := k)) c m = holds dev bs c m" for c m
    using assms(3) by (auto simp: holds_def has_key_def)
  then show "holds dev (bs(b := k)) = holds dev bs" by blast
qed

lemma upd_data_spec:
  assumes "cok dev s" "chold dev s b n" "0 < cref dev s n"
  shows "cok dev (upd_buf b (\<lambda>k. k\<lparr>bdata := v\<rparr>) s)"
    "cblk dev (upd_buf b (\<lambda>k. k\<lparr>bdata := v\<rparr>) s) = (cblk dev s)(n := v)"
    "cref dev (upd_buf b (\<lambda>k. k\<lparr>bdata := v\<rparr>) s) = cref dev s"
    "chold dev (upd_buf b (\<lambda>k. k\<lparr>bdata := v\<rparr>) s) = chold dev s"
proof -
  have r: "cref dev s n = unat (brefcnt (bufs s b))" using holds_blk(2)[OF assms(1,2)] .
  have k: "(bufs s b)\<lparr>bdata := v\<rparr> = (bufs s b)\<lparr>brefcnt := brefcnt (bufs s b), bdata := v\<rparr>" by simp
  note u = held_update[OF assms(1,2) k]
  have nz: "brefcnt (bufs s b) \<noteq> 0" using r assms(3) by auto
  show "cok dev (upd_buf b (\<lambda>k. k\<lparr>bdata := v\<rparr>) s)" using u(1) nz by simp
  show "cblk dev (upd_buf b (\<lambda>k. k\<lparr>bdata := v\<rparr>) s) = (cblk dev s)(n := v)" using u(2) nz by simp
  show "cref dev (upd_buf b (\<lambda>k. k\<lparr>bdata := v\<rparr>) s) = cref dev s" using u(3) nz r by (simp add: fun_upd_idem)
  show "chold dev (upd_buf b (\<lambda>k. k\<lparr>bdata := v\<rparr>) s) = chold dev s" using u(4) nz by simp
qed

text \<open>Only the links change.\<close>

definition kept :: "buf \<Rightarrow> bool \<times> uint32 \<times> uint32 \<times> uint32 \<times> uchar list" where
  "kept k = (bvalid k, bdev k, bblockno k, brefcnt k, bdata k)"

lemma kept_links:
  "kept (set_next b x bs c) = kept (bs c)" "kept (set_prev b x bs c) = kept (bs c)"
  by (simp_all add: set_next_def set_prev_def kept_def)

lemma kept_move: "kept (push_front b bs c) = kept (bs c)" "kept (unlink_buf b bs c) = kept (bs c)"
  by (simp_all add: push_front_def unlink_buf_def Let_def kept_links)

lemma relink:
  assumes "cache_inv dev bs d" "\<exists>ls. lru bs' ls" "\<And>c. kept (bs' c) = kept (bs c)"
  shows "cache_inv dev bs' d \<and> blk dev bs' d = blk dev bs d \<and> refs dev bs' = refs dev bs \<and> holds dev bs' = holds dev bs"
proof -
  have f: "bvalid (bs' c) = bvalid (bs c)" "brefcnt (bs' c) = brefcnt (bs c)"
    "bdata (bs' c) = bdata (bs c)" "bdev (bs' c) = bdev (bs c)" "bblockno (bs' c) = bblockno (bs c)" for c
    using assms(3)[of c] by (simp_all add: kept_def)
  have h: "has_key dev' n (bs' c) = has_key dev' n (bs c)" for dev' n c by (simp add: has_key_def f)
  have "lookup dev bs' = lookup dev bs" by (simp add: fun_eq_iff lookup_def h)
  then show ?thesis using assms(1,2) by (simp add: cache_inv_def blk_def refs_def holds_def fun_eq_iff f h split: option.split)
qed

lemma bwrite_spec:
  assumes "cok dev s" "chold dev s b n" "bwrite b s = Ok (u, t)"
  shows "cok dev t \<and> chold dev t = chold dev s \<and> cblk dev t = cblk dev s \<and> cref dev t = cref dev s \<and>
    disk t = (disk s)(n := cblk dev s n) \<and> dtrace t = disk s # dtrace s \<and> bio_state.more t = bio_state.more s"
proof -
  obtain h s1 where "(if \<not> h then panic ''bwrite'' else disk_rw b True) s1 = Ok (u, t)" and f: "bframe s1 = bframe s"
    using assms(3) unfolding bwrite_def by (auto elim: frame_bnd[OF _ bframe_sleeplock(3)])
  then have t: "t = s1\<lparr>disk := (disk s1)(bblockno (bufs s1 b) := bdata (bufs s1 b)), dtrace := disk s1 # dtrace s1\<rparr>"
    by (auto simp: disk_rw_def modify_apply panic_apply split: if_splits)
  have hb: "b < NBUF" "has_key dev n (bufs s b)" "bvalid (bufs s b)" using assms(2) by (auto simp: holds_def)
  have dat: "bdata (bufs s b) = cblk dev s n" using holds_blk(1)[OF assms(1,2)] by simp
  have e: "bufs t = bufs s" "disk t = (disk s)(n := cblk dev s n)" "dtrace t = disk s # dtrace s"
    "bio_state.more t = bio_state.more s"
    using t bframe_eqD[OF f] hb dat by (cases s1; auto simp: has_key_def)+
  note inv = cache_invD[OF assms(1)]
  have "bdata (bufs s c) = disk t (bblockno (bufs s c))" if "c < NBUF" "bvalid (bufs s c)" "brefcnt (bufs s c) = 0" for c
  proof (cases "bblockno (bufs s c) = n")
    case True
    then have "c = b" using inv(2)[of c b n] inv(3)[of c] that hb by (simp add: has_key_def)
    then show ?thesis using e(2) dat True by simp
  next
    case False
    then show ?thesis using inv(4)[of c] that e(2) by simp
  qed
  then have ok: "cok dev t" using inv e(1) unfolding cache_inv_def by auto
  have "cblk dev t m = cblk dev s m" for m
    using holds_blk(1)[OF assms(1,2)] lookup_eq[OF assms(1) hb(1,2)] hb(3) e by (cases "m = n") (auto simp: blk_def split: option.splits)
  then have "cblk dev t = cblk dev s" by blast
  then show ?thesis using ok e by simp
qed

lemma unat_pred: "0 < unat r \<Longrightarrow> unat (r - 1 :: uint32) = unat r - 1"
  by (rule unat_minus_one) auto

lemma bunpin_spec:
  assumes "cok dev s" "chold dev s b n" "1 < cref dev s n" "bunpin b s = Ok (u, t)"
  shows "cok dev t \<and> chold dev t = chold dev s \<and> cblk dev t = cblk dev s \<and> cref dev t = (cref dev s)(n := cref dev s n - 1) \<and>
    disk t = disk s \<and> dtrace t = dtrace s \<and> bio_state.more t = bio_state.more s"
proof -
  obtain s1 where "seqs [modify (upd_buf b (\<lambda>k. k\<lparr>brefcnt := brefcnt k - 1\<rparr>)), rel LBcache] s1 = Ok (u, t)" and f: "bframe s1 = bframe s"
    using assms(4) unfolding bunpin_def seqs.simps(2)[of "acq LBcache"] by (auto elim: frame_thn[OF _ bframe_on_core])
  then have "bframe t = bframe (upd_buf b (\<lambda>k. k\<lparr>brefcnt := brefcnt k - 1\<rparr>) s1)"
    by (auto simp: kern_simps obind_eq_Ok dest!: keepsD[OF bframe_on_core])
  then have e: "bufs t = (bufs s)(b := (bufs s b)\<lparr>brefcnt := brefcnt (bufs s b) - 1\<rparr>)" "disk t = disk s" "dtrace t = dtrace s"
    "bio_state.more t = bio_state.more s"
    using bframe_eqD[OF f] by (cases s1; auto simp: bframe_def)+
  have r: "cref dev s n = unat (brefcnt (bufs s b))" using holds_blk(2)[OF assms(1,2)] .
  have r1: "unat (brefcnt (bufs s b) - 1) = cref dev s n - 1" using unat_pred r assms(3) by simp
  then have nz: "brefcnt (bufs s b) - 1 \<noteq> 0" using assms(3) by (metis unsigned_0 zero_less_diff less_irrefl)
  have k: "(bufs s b)\<lparr>brefcnt := brefcnt (bufs s b) - 1\<rparr> = (bufs s b)\<lparr>brefcnt := brefcnt (bufs s b) - 1, bdata := bdata (bufs s b)\<rparr>"
    by simp
  have dat: "bdata (bufs s b) = cblk dev s n" using holds_blk(1)[OF assms(1,2)] by simp
  note u = held_update[OF assms(1,2) k]
  show ?thesis unfolding e using u nz r1 dat by (simp add: fun_upd_idem)
qed

lemma brelse_spec:
  assumes "cok dev s" "chold dev s b n" "0 < cref dev s n" "cref dev s n = 1 \<Longrightarrow> cblk dev s n = disk s n"
    "brelse b s = Ok (u, t)"
  shows "cok dev t \<and> chold dev t = chold dev s \<and> cblk dev t = cblk dev s \<and> cref dev t = (cref dev s)(n := cref dev s n - 1) \<and>
    disk t = disk s \<and> dtrace t = dtrace s \<and> bio_state.more t = bio_state.more s"
proof -
  let ?dec = "\<lambda>s. upd_buf b (\<lambda>k. k\<lparr>brefcnt := brefcnt k - 1\<rparr>) s"
  let ?mv = "bnd (gets (\<lambda>s. brefcnt (bufs s b))) (\<lambda>r. whenb (r = 0) (modify (\<lambda>s. s\<lparr>bufs := push_front b (unlink_buf b (bufs s))\<rparr>)))"
  obtain h s1 where "(if \<not> h then panic ''brelse'' else seqs [releasesleep (SBuf b), acq LBcache, modify ?dec, ?mv, rel LBcache]) s1 = Ok (u, t)"
    and f1: "bframe s1 = bframe s"
    using assms(5) unfolding brelse_def by (auto elim: frame_bnd[OF _ bframe_sleeplock(3)])
  then have "seqs [releasesleep (SBuf b), acq LBcache, modify ?dec, ?mv, rel LBcache] s1 = Ok (u, t)"
    by (auto simp: panic_apply split: if_splits)
  then obtain s2 where "seqs [acq LBcache, modify ?dec, ?mv, rel LBcache] s2 = Ok (u, t)" and f2: "bframe s2 = bframe s1"
    unfolding seqs.simps(2)[of "releasesleep (SBuf b)"] by (rule frame_thn[OF _ bframe_sleeplock(2)])
  then obtain s3 where r3: "seqs [modify ?dec, ?mv, rel LBcache] s3 = Ok (u, t)" and f3: "bframe s3 = bframe s2"
    unfolding seqs.simps(2)[of "acq LBcache"] by (auto elim: frame_thn[OF _ bframe_on_core])
  define bs where "bs = (bufs s)(b := (bufs s b)\<lparr>brefcnt := brefcnt (bufs s b) - 1\<rparr>)"
  define bs' where "bs' = (if brefcnt (bs b) = 0 then push_front b (unlink_buf b bs) else bs)"
  have e: "bufs t = bs'" "disk t = disk s" "dtrace t = dtrace s" "bio_state.more t = bio_state.more s"
  proof -
    have s3: "bufs s3 = bufs s" "disk s3 = disk s" "dtrace s3 = dtrace s" "bio_state.more s3 = bio_state.more s"
      using f1 f2 f3 by (auto simp: bframe_def)
    have "rel LBcache ((?dec s3)\<lparr>bufs := bs'\<rparr>) = Ok (u, t)"
      using r3 s3 by (cases "brefcnt (bs b) = 0") (auto simp: kern_simps obind_eq_Ok bs_def bs'_def)
    then have "bframe t = bframe ((?dec s3)\<lparr>bufs := bs'\<rparr>)" by (rule keepsD[OF bframe_on_core])
    then show "bufs t = bs'" "disk t = disk s" "dtrace t = dtrace s" "bio_state.more t = bio_state.more s"
      using s3 by (cases s3; simp add: bframe_def)+
  qed
  have r: "cref dev s n = unat (brefcnt (bufs s b))" using holds_blk(2)[OF assms(1,2)] .
  have r1: "unat (brefcnt (bufs s b) - 1) = cref dev s n - 1" using unat_pred r assms(3) by simp
  have dat: "bdata (bufs s b) = cblk dev s n" using holds_blk(1)[OF assms(1,2)] by simp
  have z: "bdata (bufs s b) = disk s n" if "brefcnt (bufs s b) - 1 = 0" using that r1 assms(3,4) dat by auto
  have k: "(bufs s b)\<lparr>brefcnt := brefcnt (bufs s b) - 1\<rparr> = (bufs s b)\<lparr>brefcnt := brefcnt (bufs s b) - 1, bdata := bdata (bufs s b)\<rparr>"
    by simp
  note u = held_update[OF assms(1,2) k z, folded bs_def]
  have b: "b < NBUF" using assms(2) by (simp add: holds_def)
  have same: "kept (bs' c) = kept (bs c)" for c by (simp add: bs'_def kept_move)
  have links: "\<exists>ls. lru bs' ls"
    using cache_invD(1)[OF u(1)] lru_release[OF _ b] by (auto simp: bs'_def)
  note swap = relink[OF u(1) links same]
  show ?thesis unfolding e using swap u r1 dat by (simp add: fun_upd_idem)
qed

section \<open>The contract\<close>

text \<open>
  What a user of the cache relies on: \<open>see\<close> are the contents of the blocks, \<open>cnt\<close> the references, \<open>own s b n\<close> says that
  buffer \<open>b\<close> is block \<open>n\<close>, \<open>dsk\<close> and \<open>trc\<close> the disk and its earlier states, \<open>oth\<close> the rest of the state.
\<close>

locale block_cache =
  fixes inv :: "'s \<Rightarrow> bool" and see :: "'s \<Rightarrow> disk" and cnt :: "'s \<Rightarrow> uint32 \<Rightarrow> nat"
    and own :: "'s \<Rightarrow> nat \<Rightarrow> uint32 \<Rightarrow> bool" and dsk :: "'s \<Rightarrow> disk" and trc :: "'s \<Rightarrow> disk list" and oth :: "'s \<Rightarrow> 'r"
    and rd :: "uint32 \<Rightarrow> ('s, nat) kern" and wr :: "nat \<Rightarrow> ('s, unit) kern" and rls :: "nat \<Rightarrow> ('s, unit) kern"
    and unpin :: "nat \<Rightarrow> ('s, unit) kern" and dat :: "nat \<Rightarrow> 's \<Rightarrow> uchar list" and sto :: "nat \<Rightarrow> uchar list \<Rightarrow> 's \<Rightarrow> 's"
  assumes clean: "inv s \<Longrightarrow> cnt s n = 0 \<Longrightarrow> see s n = dsk s n"
    and rd_law: "inv s \<Longrightarrow> cnt s n + 1 < 2 ^ 32 \<Longrightarrow> rd n s = Ok (b, t) \<Longrightarrow>
      inv t \<and> own t b n \<and> see t = see s \<and> cnt t = (cnt s)(n := cnt s n + 1) \<and> dsk t = dsk s \<and> trc t = trc s \<and>
      oth t = oth s \<and> (\<forall>c m. own s c m \<longrightarrow> 0 < cnt s m \<longrightarrow> own t c m)"
    and dat_law: "inv s \<Longrightarrow> own s b n \<Longrightarrow> dat b s = see s n"
    and sto_law: "inv s \<Longrightarrow> own s b n \<Longrightarrow> 0 < cnt s n \<Longrightarrow>
      inv (sto b v s) \<and> own (sto b v s) = own s \<and> see (sto b v s) = (see s)(n := v) \<and> cnt (sto b v s) = cnt s \<and>
      dsk (sto b v s) = dsk s \<and> trc (sto b v s) = trc s \<and> oth (sto b v s) = oth s"
    and wr_law: "inv s \<Longrightarrow> own s b n \<Longrightarrow> wr b s = Ok (u, t) \<Longrightarrow>
      inv t \<and> own t = own s \<and> see t = see s \<and> cnt t = cnt s \<and> dsk t = (dsk s)(n := see s n) \<and> trc t = dsk s # trc s \<and>
      oth t = oth s"
    and unpin_law: "inv s \<Longrightarrow> own s b n \<Longrightarrow> 1 < cnt s n \<Longrightarrow> unpin b s = Ok (u, t) \<Longrightarrow>
      inv t \<and> own t = own s \<and> see t = see s \<and> cnt t = (cnt s)(n := cnt s n - 1) \<and> dsk t = dsk s \<and> trc t = trc s \<and>
      oth t = oth s"
    and rls_law: "inv s \<Longrightarrow> own s b n \<Longrightarrow> 0 < cnt s n \<Longrightarrow> (cnt s n = 1 \<Longrightarrow> see s n = dsk s n) \<Longrightarrow> rls b s = Ok (u, t) \<Longrightarrow>
      inv t \<and> own t = own s \<and> see t = see s \<and> cnt t = (cnt s)(n := cnt s n - 1) \<and> dsk t = dsk s \<and> trc t = trc s \<and>
      oth t = oth s"
begin

text \<open>Read a block, change it, write it, release it.\<close>

lemma rewrite_block:
  assumes "inv s" "cnt s n + 1 < 2 ^ 32"
    "bnd (rd n) (\<lambda>b. seqs [modify (\<lambda>s. sto b (f (dat b s)) s), wr b, rls b]) s = Ok (u, t)"
  shows "inv t \<and> see t = (see s)(n := f (see s n)) \<and> cnt t = cnt s \<and> dsk t = (dsk s)(n := f (see s n)) \<and>
    trc t = dsk s # trc s \<and> oth t = oth s"
proof -
  obtain b s1 s2 where r: "rd n s = Ok (b, s1)" and w: "wr b (sto b (f (dat b s1)) s1) = Ok ((), s2)" and l: "rls b s2 = Ok (u, t)"
    using assms(3) by (auto simp: kern_simps obind_eq_Ok)
  note h1 = rd_law[OF assms(1,2) r]
  let ?v = "f (dat b s1)"
  have "dat b s1 = see s n" using dat_law[of s1 b n] h1 by simp
  note h2 = sto_law[of s1 b n ?v]
  have c1: "inv s1" "own s1 b n" "0 < cnt s1 n" using h1 by auto
  note h2 = sto_law[OF c1, of ?v]
  have "inv (sto b ?v s1)" "own (sto b ?v s1) b n" using h2 c1 by auto
  note h3 = wr_law[OF this w]
  have "inv s2" "own s2 b n" "0 < cnt s2 n" "see s2 n = dsk s2 n" using h3 h2 h1 by auto
  note h4 = rls_law[OF this(1-3) _ l]
  show ?thesis using h1 h2 h3 h4 \<open>dat b s1 = see s n\<close> \<open>see s2 n = dsk s2 n\<close> by auto
qed

text \<open>Copy one held block to another, write it, perhaps drop a pin of it, release both.\<close>

lemma copy_tail:
  assumes "inv s" "own s bt a" "own s bf c" "a \<noteq> c" "0 < cnt s a" "0 < cnt s c" "cnt s c = 1 \<Longrightarrow> see s c = dsk s c"
    "drop_pin \<Longrightarrow> 1 < cnt s a"
    "seqs [modify (sto bt (see s c)), wr bt, whenb drop_pin (unpin bt), rls bf, rls bt] s = Ok (u, t)"
  shows "inv t \<and> see t = (see s)(a := see s c) \<and>
    cnt t = (cnt s)(c := cnt s c - 1, a := cnt s a - (if drop_pin then 2 else 1)) \<and>
    dsk t = (dsk s)(a := see s c) \<and> trc t = dsk s # trc s \<and> oth t = oth s"
proof -
  let ?v = "see s c"
  obtain u1 u2 u3 u4 s1 s2 s3 where r: "wr bt (sto bt ?v s) = Ok (u1, s1)" "whenb drop_pin (unpin bt) s1 = Ok (u2, s2)"
    "rls bf s2 = Ok (u3, s3)" "rls bt s3 = Ok (u4, t)"
    using assms(9) by (auto simp: thn_apply modify_apply obind_eq_Ok ret_apply)
  note h0 = sto_law[OF assms(1,2,5), of ?v]
  have "inv (sto bt ?v s)" "own (sto bt ?v s) bt a" using h0 assms(2) by auto
  note h1 = wr_law[OF this r(1)]
  have h2: "inv s2 \<and> own s2 = own s1 \<and> see s2 = see s1 \<and> cnt s2 = (cnt s)(a := cnt s a - (if drop_pin then 1 else 0)) \<and>
      dsk s2 = dsk s1 \<and> trc s2 = trc s1 \<and> oth s2 = oth s1"
  proof (cases drop_pin)
    case True
    then show ?thesis using unpin_law[of s1 bt a u2 s2] h0 h1 assms(2,8) r(2) by (simp add: whenb_def)
  next
    case False
    then show ?thesis using h0 h1 r(2) by (simp add: whenb_def ret_apply)
  qed
  have "inv s2" "own s2 bf c" "0 < cnt s2 c" "cnt s2 c = 1 \<Longrightarrow> see s2 c = dsk s2 c"
    using h0 h1 h2 assms(3,4,6,7) by auto
  note h3 = rls_law[OF this r(3)]
  have "inv s3" "own s3 bt a" "0 < cnt s3 a" "see s3 a = dsk s3 a"
    using h0 h1 h2 h3 assms(2,4,5,8) by auto
  note h4 = rls_law[OF this(1-3) _ r(4)]
  have "cnt t = (cnt s)(c := cnt s c - 1, a := cnt s a - (if drop_pin then 2 else 1))"
    using h2 h3 h4 assms(4) \<open>see s3 a = dsk s3 a\<close> by (auto simp: fun_eq_iff)
  then show ?thesis using h0 h1 h2 h3 h4 assms(4) \<open>see s3 a = dsk s3 a\<close> by auto
qed

text \<open>Two different blocks read one after the other.\<close>

lemma rd_two:
  assumes "inv s" "cnt s x + 1 < 2 ^ 32" "cnt s y + 1 < 2 ^ 32" "x \<noteq> y" "rd x s = Ok (b, s1)" "rd y s1 = Ok (c, s2)"
  shows "inv s2 \<and> own s2 b x \<and> own s2 c y \<and> see s2 = see s \<and> cnt s2 = (cnt s)(x := cnt s x + 1, y := cnt s y + 1) \<and>
    dsk s2 = dsk s \<and> trc s2 = trc s \<and> oth s2 = oth s"
proof -
  note h1 = rd_law[OF assms(1,2,5)]
  have "inv s1" "cnt s1 y + 1 < 2 ^ 32" using h1 assms(3,4) by auto
  note h2 = rd_law[OF this assms(6)]
  have "0 < cnt s1 x" using h1 by simp
  then show ?thesis using h1 h2 assms(4) by auto
qed

end

text \<open>The same notions as constants of the state, for the users of the cache.\<close>

definition cache_ok :: "uint32 \<Rightarrow> 'z bio_state_scheme \<Rightarrow> bool" where
  "cache_ok dev s = cok dev s"

definition seen :: "uint32 \<Rightarrow> 'z bio_state_scheme \<Rightarrow> disk" where
  "seen dev s = cblk dev s"

definition nrefs :: "uint32 \<Rightarrow> 'z bio_state_scheme \<Rightarrow> uint32 \<Rightarrow> nat" where
  "nrefs dev s = cref dev s"

definition buf_of :: "uint32 \<Rightarrow> 'z bio_state_scheme \<Rightarrow> nat \<Rightarrow> uint32 \<Rightarrow> bool" where
  "buf_of dev s = chold dev s"

lemmas cache_defs = cache_ok_def seen_def nrefs_def buf_of_def

interpretation bio: block_cache "cache_ok dev" "seen dev" "nrefs dev" "buf_of dev" disk dtrace bio_state.more
  "bread dev" bwrite brelse bunpin "\<lambda>b s. bdata (bufs s b)" "\<lambda>b v. upd_buf b (\<lambda>k. k\<lparr>bdata := v\<rparr>)" for dev :: uint32
proof (unfold_locales, unfold cache_defs, goal_cases)
  case (1 s n)
  then show ?case by (rule refs_0)
next
  case (2 s n b t)
  then show ?case by (rule bread_spec)
next
  case (3 s b n)
  then show ?case by (simp add: holds_blk(1))
next
  case (4 s b n v)
  then show ?case using upd_data_spec[OF 4, of v] by (cases s) simp
next
  case (5 s b n u t)
  then show ?case using bwrite_spec by blast
next
  case (6 s b n u t)
  then show ?case using bunpin_spec by blast
next
  case (7 s b n u t)
  show ?case using brelse_spec[OF 7(1-3) _ 7(5)] 7(4) by blast
qed

end
