(* ===== verification/Wakeup.thy ===== *)
theory Wakeup
  imports Sleeplock
begin

text \<open>
  What the routines of \<^verbatim>\<open>kernel/proc.c\<close> and \<^verbatim>\<open>kernel/sleeplock.c\<close> that other components call in between do when no lock is
  contended: \<^verbatim>\<open>myproc\<close>, \<^verbatim>\<open>wakeup\<close> and the operations on sleep locks as equations on the state. With them a critical section
  evaluates by simplification.
\<close>

section \<open>The current process\<close>

lemma mycpu_cproc [simp]:
  "cproc (mycpu (push_off c)) = cproc (mycpu c)" "cproc (mycpu (settled c)) = cproc (mycpu c)"
  "cproc (mycpu (acquired l c)) = cproc (mycpu c)"
  by (cases c, auto simp: core_defs)+

lemma settled_acquired [simp]: "core_ok c \<Longrightarrow> settled (acquired l c) = acquired l c"
  by (auto simp: settled_def core_ok_def)

lemma myproc_eq: "core_ok (kcore s) \<Longrightarrow> myproc s = Ok (cproc (mycpu (kcore s)), s\<lparr>kcore := settled (kcore s)\<rparr>)"
  by (simp add: myproc_def kern_simps pop_push)

lemma curproc_eq:
  "core_ok (kcore s) \<Longrightarrow> cproc (mycpu (kcore s)) = Some p \<Longrightarrow> curproc s = Ok (p, s\<lparr>kcore := settled (kcore s)\<rparr>)"
  by (simp add: curproc_def kern_simps myproc_eq)

section \<open>Waking\<close>

text \<open>The process table after \<^verbatim>\<open>wakeup\<close>: the sleepers on the channel, the caller excepted, have become runnable.\<close>

definition woken :: "nat option \<Rightarrow> chan option \<Rightarrow> nat set \<Rightarrow> (nat \<Rightarrow> proc) \<Rightarrow> nat \<Rightarrow> proc" where
  "woken me ch ps f = (\<lambda>p. if p \<in> ps \<and> Some p \<noteq> me \<and> pstate (f p) = SLEEPING \<and> chan (f p) = ch
     then (f p)\<lparr>pstate := RUNNABLE\<rparr> else f p)"

lemma woken_sel [simp]: "pid (woken me ch ps f p) = pid (f p)"
  by (simp add: woken_def)

lemma woken_empty [simp]: "woken me ch {} f = f"
  by (simp add: woken_def)

lemma woken_step:
  "q \<notin> ps \<Longrightarrow> woken me ch ps (woken me ch {q} f) = woken me ch (insert q ps) f"
  by (auto simp: woken_def fun_eq_iff)

lemma wakeup_from_eq:
  assumes "core_ok (kcore s)" "\<And>p. p \<in> set ps \<Longrightarrow> lock_free (LProc p) (kcore s)" "distinct ps" "settled (kcore s) = kcore s"
  shows "wakeup_from ch ps s = Ok ((), s\<lparr>procs := woken (cproc (mycpu (kcore s))) ch (set ps) (procs s)\<rparr>)"
  using assms
proof (induction ps arbitrary: s)
  case Nil
  then show ?case by (simp add: ret_apply)
next
  case (Cons p ps)
  let ?c = "kcore s" let ?me = "cproc (mycpu ?c)"
  let ?s = "s\<lparr>procs := woken ?me ch {p} (procs s)\<rparr>"
  have "wakeup_from ch (p # ps) s = wakeup_from ch ps ?s"
  proof (cases "Some p = ?me")
    case True
    then have "woken ?me ch {p} (procs s) = procs s" by (auto simp: woken_def)
    then show ?thesis using Cons.prems True by (simp add: kern_simps myproc_eq)
  next
    case False
    have "woken ?me ch {p} (procs s) = (if pstate (procs s p) = SLEEPING \<and> chan (procs s p) = ch
        then (procs s)(p := (procs s p)\<lparr>pstate := RUNNABLE\<rparr>) else procs s)"
      using False by (auto simp: woken_def fun_eq_iff)
    then show ?thesis using Cons.prems False by (simp add: kern_simps myproc_eq)
  qed
  also have "\<dots> = Ok ((), ?s\<lparr>procs := woken ?me ch (set ps) (procs ?s)\<rparr>)"
    using Cons.IH[of ?s] Cons.prems by simp
  finally show ?case using Cons.prems(3) by (simp add: woken_step)
qed

lemma wakeup_ptr_eq:
  assumes "core_ok (kcore s)" "\<And>p. p < NPROC \<Longrightarrow> lock_free (LProc p) (kcore s)" "settled (kcore s) = kcore s"
  shows "wakeup_ptr ch s = Ok ((), s\<lparr>procs := woken (cproc (mycpu (kcore s))) ch {..<NPROC} (procs s)\<rparr>)"
  using assms wakeup_from_eq[of s "[0..<NPROC]" ch] by (simp add: wakeup_ptr_def lessThan_atLeast0)

text \<open>Without the assumption that nothing is left to restore: the first \<^verbatim>\<open>myproc\<close> does it.\<close>

lemma wakeup_from_settled:
  assumes "core_ok (kcore s)"
  shows "wakeup_from ch (p # ps) s = wakeup_from ch (p # ps) (s\<lparr>kcore := settled (kcore s)\<rparr>)"
  using assms by (simp add: bnd_apply myproc_eq)

lemma wakeup_eq:
  assumes "core_ok (kcore s)" "\<And>p. p < NPROC \<Longrightarrow> lock_free (LProc p) (kcore s)"
  shows "wakeup ch s = Ok ((), s\<lparr>kcore := settled (kcore s), procs := woken (cproc (mycpu (kcore s))) (Some ch) {..<NPROC} (procs s)\<rparr>)"
proof -
  have "[0..<NPROC] = 0 # [1..<NPROC]" by (simp add: NPROC_def upt_conv_Cons)
  then have "wakeup ch s = wakeup ch (s\<lparr>kcore := settled (kcore s)\<rparr>)"
    using wakeup_from_settled[OF assms(1)] by (simp only: wakeup_def wakeup_ptr_def)
  then show ?thesis using assms wakeup_ptr_eq[of "s\<lparr>kcore := settled (kcore s)\<rparr>" "Some ch"] by (simp add: wakeup_def)
qed

text \<open>In a critical section, where the core does not change.\<close>

lemma wakeup_inside:
  assumes "core_ok (kcore s)" "\<And>p. lock_free (LProc p) (kcore s)" "settled (kcore s) = kcore s"
  shows "\<exists>ps. wakeup ch s = Ok ((), s\<lparr>procs := ps\<rparr>)"
  using assms wakeup_ptr_eq[of s "Some ch"] by (auto simp: wakeup_def)

text \<open>A process whose lock another hart holds stops the walk.\<close>

lemma wakeup_from_waits:
  assumes "core_ok (kcore s)" "p \<in> set ps" "cproc (mycpu (kcore s)) \<noteq> Some p" "locked (locks (kcore s) (LProc p))" "\<not> holding (LProc p) (kcore s)"
    "\<And>q. q \<noteq> p \<Longrightarrow> lock_free (LProc q) (kcore s)"
  shows "wakeup_from ch ps s = Wait"
  using assms
proof (induction ps arbitrary: s)
  case (Cons q ps)
  have a: "acquire (LProc p) (settled (kcore s)) = Wait" using Cons.prems(4,5) by (auto simp: acquire_cases holding_def)
  show ?case
  proof (cases "q = p")
    case True
    then show ?thesis using Cons.prems(1,3) a by (simp add: kern_simps myproc_eq)
  next
    case False
    then have "p \<in> set ps" using Cons.prems(2) by simp
    then have IH: "wakeup_from ch ps (s\<lparr>procs := f, kcore := settled (kcore s)\<rparr>) = Wait" for f
      using Cons.IH[of "s\<lparr>procs := f, kcore := settled (kcore s)\<rparr>"] Cons.prems by simp
    show ?thesis using Cons.prems(1) Cons.prems(6)[of q] False IH[of "procs s"] IH by (simp add: kern_simps myproc_eq)
  qed
qed simp

section \<open>Sleep locks\<close>

text \<open>A process is running in the kernel, and no spin lock is held.\<close>

definition quiet :: "nat \<Rightarrow> core \<Rightarrow> bool" where
  "quiet p c \<longleftrightarrow> core_ok c \<and> cproc (mycpu c) = Some p \<and> (\<forall>l. lock_free l c)"

lemma quietD: "quiet p c \<Longrightarrow> core_ok c" "quiet p c \<Longrightarrow> cproc (mycpu c) = Some p" "quiet p c \<Longrightarrow> lock_free l c"
  by (simp_all add: quiet_def)

lemma quiet_settled [simp]: "quiet p (settled c) = quiet p c"
  by (simp add: quiet_def)

lemma acquiresleep_eq:
  assumes "quiet p (kcore s)" "\<not> slocked (slocks s l)"
  shows "acquiresleep l s = Ok ((), s\<lparr>kcore := settled (kcore s), slocks := (slocks s)(l := (slocks s l)\<lparr>slocked := True, slpid := pid (procs s p)\<rparr>)\<rparr>)"
  using assms(2) quietD[OF assms(1)] by (simp add: acquiresleep_def kern_simps curproc_eq)

lemma acquiresleep_waits:
  assumes "quiet p (kcore s)" "slocked (slocks s l)"
  shows "acquiresleep l s = Wait"
  using assms(2) quietD[OF assms(1)] by (simp add: acquiresleep_def kern_simps)

lemma holdingsleep_eq:
  assumes "quiet p (kcore s)"
  shows "holdingsleep l s = Ok (slocked (slocks s l) \<and> slpid (slocks s l) = pid (procs s p), s\<lparr>kcore := settled (kcore s)\<rparr>)"
  using quietD[OF assms] by (simp add: holdingsleep_def kern_simps curproc_eq)

lemma slk_not_proc [simp]: "slk l \<noteq> LProc p" "LProc p \<noteq> slk l"
  by (cases l; simp)+

lemma releasesleep_eq:
  assumes "quiet p (kcore s)"
  shows "releasesleep l s = Ok ((), s\<lparr>kcore := settled (kcore s), slocks := (slocks s)(l := (slocks s l)\<lparr>slocked := False, slpid := 0\<rparr>),
      procs := woken (Some p) (Some (slchan l)) {..<NPROC} (procs s)\<rparr>)"
  using quietD[OF assms] by (simp add: releasesleep_def kern_simps wakeup_def wakeup_ptr_eq)

section \<open>Examples\<close>

definition blank_proc :: proc where
  "blank_proc = \<lparr>pstate = UNUSED, chan = None, killed = 0, xstate = 0, pid = 0, parent = None, kstack = 0, sz = 0, pagetable = 0,
     trapframe = 0, pcontext = \<lparr>ctx_ra = 0, ctx_sp = 0\<rparr>, ofile = \<lambda>i. None, cwd = None, pname = []\<rparr>"

definition demo_core :: core where
  "demo_core = boot_core\<lparr>cpus := \<lambda>h. \<lparr>cproc = if h = 0 then Some 0 else None, noff = 0, intena = False\<rparr>\<rparr>"

text \<open>Process 0 runs on hart 0, process 1 sleeps on the ticks.\<close>

definition demo_procs :: "nat \<Rightarrow> proc" where
  "demo_procs = (\<lambda>p. blank_proc)(0 := blank_proc\<lparr>pstate := RUNNING, pid := 1\<rparr>,
     1 := blank_proc\<lparr>pstate := SLEEPING, chan := Some ChTicks, pid := 2\<rparr>)"

definition demo_proc_state :: proc_state where
  "demo_proc_state = \<lparr>kcore = demo_core, mem = \<lambda>a. 0, freelist = 0, kend = 0x87FFE000, procs = demo_procs, initproc = Some 0, nextpid = 3,
     peterson_locks = \<lambda>l. \<lparr>active = 0, flag = \<lambda>r. 0, turn = 0\<rparr>, trampoline = 0x80008000, forkret_addr = 0x80001000\<rparr>"

lemma demo_core_ok: "core_ok demo_core" "lock_free l demo_core" "cproc (mycpu demo_core) = Some 0" "quiet 0 demo_core"
  by (simp_all add: demo_core_def boot_core_def core_ok_def lock_free_def mycpu_def quiet_def)

section \<open>Sleeping and waking\<close>

text \<open>The same machine seen from another hart.\<close>

definition on_hart :: "nat \<Rightarrow> 'z kernel_scheme \<Rightarrow> 'z kernel_scheme" where
  "on_hart k s = s\<lparr>kcore := (kcore s)\<lparr>hart := k\<rparr>\<rparr>"

lemma set_cproc_acquired: "set_cproc q (acquired l c) = acquired l (set_cproc q c)"
  by (cases c) (auto simp: set_cproc_def core_defs fun_eq_iff)

lemma set_cproc_core [simp]: "core_ok (set_cproc q c) = core_ok c" "lock_free l (set_cproc q c) = lock_free l c" "hart (set_cproc q c) = hart c"
  by (cases c, auto simp: set_cproc_def core_defs)+

lemma acquired_other_hart:
  assumes "k \<noteq> hart c"
  shows "core_ok ((acquired l c)\<lparr>hart := k\<rparr>) = core_ok (c\<lparr>hart := k\<rparr>)" "cproc (mycpu ((acquired l c)\<lparr>hart := k\<rparr>)) = cproc (cpus c k)"
    "core_ok ((settled (set_cproc q c))\<lparr>hart := k\<rparr>) = core_ok (c\<lparr>hart := k\<rparr>)"
    "cproc (mycpu ((settled (set_cproc q c))\<lparr>hart := k\<rparr>)) = cproc (cpus c k)"
  using assms by (cases c, auto simp: set_cproc_def core_defs)+

lemma lock_free_hart [simp]: "lock_free l (c\<lparr>hart := k\<rparr>) = lock_free l c"
  by (simp add: lock_free_def)

lemma sleep_enter_eq:
  assumes "core_ok c" "\<And>l. lock_free l c" "noff (mycpu c) = 0" "cproc (mycpu c) = Some p" "lk \<noteq> LProc p" "kcore s = acquired lk c"
  shows "\<exists>b. sleep_enter ch lk s = Ok (b, s\<lparr>kcore := acquired (LProc p) c, procs := (procs s)(p := (procs s p)\<lparr>chan := Some ch, pstate := SLEEPING\<rparr>)\<rparr>)"
proof -
  have "\<not> intr_get (acquired (LProc p) c)" by (simp add: intr_get_def acquired_fields)
  then show ?thesis using assms by (simp add: sleep_enter_def sched_enter_def kern_simps curproc_eq)
qed



end
