(* ===== verification/Bio_Live.thy ===== *)
theory Bio_Live
  imports Bio_Inv Wakeup
begin

text \<open>
  The routines of the buffer cache return. Without contention for the locks, \<^verbatim>\<open>bread\<close> finds a buffer as long as one is
  unreferenced or the block is cached, and \<^verbatim>\<open>bwrite\<close>, \<^verbatim>\<open>bunpin\<close>, \<^verbatim>\<open>brelse\<close> of a buffer that the caller has locked do not panic.
  The locale \<open>live_cache\<close> adds these laws to the contract \<open>block_cache\<close>.
\<close>

section \<open>Buffers that are locked and buffers that are unused\<close>

text \<open>Process \<open>p\<close> runs, no spin lock is held, and the locked buffers are those in \<open>B\<close>, locked by \<open>p\<close> and referenced.\<close>

definition live :: "nat \<Rightarrow> 'z bio_state_scheme \<Rightarrow> nat set \<Rightarrow> bool" where
  "live p s B \<longleftrightarrow> quiet p (kcore s) \<and> B \<subseteq> {..<NBUF} \<and> (\<forall>b < NBUF. slocked (slocks s (SBuf b)) \<longleftrightarrow> b \<in> B) \<and>
     (\<forall>b \<in> B. slpid (slocks s (SBuf b)) = pid (procs s p) \<and> brefcnt (bufs s b) \<noteq> 0)"

definition unused :: "(nat \<Rightarrow> buf) \<Rightarrow> nat set" where
  "unused bs = {b. b < NBUF \<and> brefcnt (bs b) = 0}"

definition avail :: "'z bio_state_scheme \<Rightarrow> nat" where
  "avail s = card (unused (bufs s))"

lemma finite_unused [simp]: "finite (unused bs)"
  by (simp add: unused_def)

lemma unused_upd: "b < NBUF \<Longrightarrow> unused (bs(b := k)) = (if brefcnt k = 0 then insert b (unused bs) else unused bs - {b})"
  by (auto simp: unused_def)

lemma liveD:
  assumes "live p s B"
  shows "quiet p (kcore s)" "b \<in> B \<Longrightarrow> b < NBUF" "b < NBUF \<Longrightarrow> slocked (slocks s (SBuf b)) \<longleftrightarrow> b \<in> B"
    "b \<in> B \<Longrightarrow> slpid (slocks s (SBuf b)) = pid (procs s p)" "b \<in> B \<Longrightarrow> brefcnt (bufs s b) \<noteq> 0"
  using assms by (auto simp: live_def)

section \<open>The routines as equations\<close>

lemma bget_found_eq:
  assumes "quiet p (kcore s)" "bget_cached (NBUF + 1) dev n (bufs s) (bnext (bufs s NBUF)) = Found b" "\<not> slocked (slocks s (SBuf b))"
  shows "bget dev n s = Ok (b, s\<lparr>kcore := settled (kcore s), slocks := (slocks s)(SBuf b := (slocks s (SBuf b))\<lparr>slocked := True, slpid := pid (procs s p)\<rparr>),
     bufs := (bufs s)(b := (bufs s b)\<lparr>brefcnt := brefcnt (bufs s b) + 1\<rparr>)\<rparr>)"
  using assms(2,3) quietD[OF assms(1)] by (simp add: bget_def kern_simps acquiresleep_eq[where p = p] assms(1))

lemma bget_unused_eq:
  assumes "quiet p (kcore s)" "bget_cached (NBUF + 1) dev n (bufs s) (bnext (bufs s NBUF)) = Absent"
    "bget_unused (NBUF + 1) (bufs s) (bprev (bufs s NBUF)) = Found b" "\<not> slocked (slocks s (SBuf b))"
  shows "bget dev n s = Ok (b, s\<lparr>kcore := settled (kcore s), slocks := (slocks s)(SBuf b := (slocks s (SBuf b))\<lparr>slocked := True, slpid := pid (procs s p)\<rparr>),
     bufs := (bufs s)(b := (bufs s b)\<lparr>bdev := dev, bblockno := n, bvalid := False, brefcnt := 1\<rparr>)\<rparr>)"
  using assms(2,3,4) quietD[OF assms(1)] by (simp add: bget_def kern_simps acquiresleep_eq[where p = p] assms(1))

text \<open>What \<^verbatim>\<open>bread\<close> does after \<^verbatim>\<open>bget\<close> changes neither locks nor counts.\<close>

lemma bread_after_bget:
  assumes "bget dev n s = Ok (b, s1)"
  shows "\<exists>t. bread dev n s = Ok (b, t) \<and> kcore t = kcore s1 \<and> slocks t = slocks s1 \<and> procs t = procs s1 \<and>
    (\<forall>c. brefcnt (bufs t c) = brefcnt (bufs s1 c))"
  using assms by (simp add: bread_def kern_simps disk_rw_def)

lemma bwrite_eq:
  assumes "live p s B" "b \<in> B"
  shows "bwrite b s = Ok ((), s\<lparr>kcore := settled (kcore s), disk := (disk s)(bblockno (bufs s b) := bdata (bufs s b)), dtrace := disk s # dtrace s\<rparr>)"
  using assms(2) liveD[OF assms(1)] by (simp add: bwrite_def kern_simps holdingsleep_eq[where p = p] disk_rw_def)

lemma bunpin_eq:
  assumes "quiet p (kcore s)"
  shows "bunpin b s = Ok ((), s\<lparr>kcore := settled (kcore s), bufs := (bufs s)(b := (bufs s b)\<lparr>brefcnt := brefcnt (bufs s b) - 1\<rparr>)\<rparr>)"
  using quietD[OF assms] by (simp add: bunpin_def kern_simps)

lemma brelse_eq:
  assumes "live p s B" "b \<in> B"
  shows "brelse b s = Ok ((), s\<lparr>kcore := settled (kcore s), slocks := (slocks s)(SBuf b := (slocks s (SBuf b))\<lparr>slocked := False, slpid := 0\<rparr>),
      procs := woken (Some p) (Some (ChBuf b)) {..<NPROC} (procs s),
      bufs := (let bs = (bufs s)(b := (bufs s b)\<lparr>brefcnt := brefcnt (bufs s b) - 1\<rparr>)
        in if brefcnt (bs b) = 0 then push_front b (unlink_buf b bs) else bs)\<rparr>)"
  using assms(2) liveD[OF assms(1)] quietD[OF liveD(1)[OF assms(1)]]
  by (simp add: brelse_def kern_simps holdingsleep_eq[where p = p] releasesleep_eq[where p = p] Let_def)

lemma brefcnt_links [simp]: "brefcnt (set_next b x bs c) = brefcnt (bs c)" "brefcnt (set_prev b x bs c) = brefcnt (bs c)"
  by (simp_all add: set_next_def set_prev_def)

lemma brefcnt_relink [simp]: "brefcnt (push_front b (unlink_buf b bs) c) = brefcnt (bs c)"
  unfolding push_front_def unlink_buf_def Let_def by (simp only: brefcnt_links)

lemma unused_cong: "(\<And>c. brefcnt (bs c) = brefcnt (bs' c)) \<Longrightarrow> unused bs = unused bs'"
  by (simp add: unused_def)

section \<open>The laws\<close>

lemma lru_ends:
  assumes "lru bs ls"
  shows "bget_cached (NBUF + 1) dev n bs (bnext (bs NBUF)) \<noteq> Endless"
    and lru_unused: "b < NBUF \<Longrightarrow> brefcnt (bs b) = 0 \<Longrightarrow> \<exists>c. bget_unused (NBUF + 1) bs (bprev (bs NBUF)) = Found c"
proof -
  have l: "NBUF \<notin> set ls" "length ls < NBUF + 1" "set ls = {..<NBUF}" using assms lru_length[OF assms] by (auto simp: lru_def)
  have "bget_cached (NBUF + 1) dev n bs (bnext (bs NBUF)) =
     (case List.find (\<lambda>b. has_key dev n (bs b)) ls of None \<Rightarrow> Absent | Some b \<Rightarrow> Found b)"
    using lru_follows[OF assms] l by (intro bget_cached_follows) auto
  then show "bget_cached (NBUF + 1) dev n bs (bnext (bs NBUF)) \<noteq> Endless" by (simp split: option.splits)
  have u: "bget_unused (NBUF + 1) bs (bprev (bs NBUF)) =
     (case List.find (\<lambda>b. brefcnt (bs b) = 0) (rev ls) of None \<Rightarrow> Absent | Some b \<Rightarrow> Found b)"
    using lru_follows[OF assms] l by (intro bget_unused_follows) auto
  show "\<exists>c. bget_unused (NBUF + 1) bs (bprev (bs NBUF)) = Found c" if "b < NBUF" "brefcnt (bs b) = 0"
  proof -
    have "List.find (\<lambda>b. brefcnt (bs b) = 0) (rev ls) \<noteq> None" using that l(3) by (auto simp: find_None_iff)
    then show ?thesis using u by auto
  qed
qed

lemma bread_live:
  assumes "cache_ok dev s" "live p s B" "nrefs dev s n + 1 < 2 ^ 32" "\<And>b. b \<in> B \<Longrightarrow> \<not> buf_of dev s b n" "0 < nrefs dev s n \<or> 0 < avail s"
  shows "\<exists>b t. bread dev n s = Ok (b, t) \<and> b \<notin> B \<and> live p t (insert b B) \<and> avail t = avail s - (if nrefs dev s n = 0 then 1 else 0)"
proof -
  note q = liveD[OF assms(2)]
  have inv: "cache_inv dev (bufs s) (disk s)" using assms(1) by (simp add: cache_ok_def)
  obtain ls where ls: "lru (bufs s) ls" using cache_invD(1)[OF inv] by blast
  have step: ?thesis
    if g: "bget dev n s = Ok (b, s\<lparr>kcore := settled (kcore s), slocks := (slocks s)(SBuf b := (slocks s (SBuf b))\<lparr>slocked := True, slpid := pid (procs s p)\<rparr>),
        bufs := (bufs s)(b := k)\<rparr>)" (is "_ = Ok (b, ?s1)") "b < NBUF" "b \<notin> B" "brefcnt k \<noteq> 0"
      "nrefs dev s n = unat (brefcnt (bufs s b))" for b k
  proof -
    obtain t where t: "bread dev n s = Ok (b, t)" "kcore t = kcore ?s1" "slocks t = slocks ?s1" "procs t = procs ?s1"
      "\<And>c. brefcnt (bufs t c) = brefcnt (bufs ?s1 c)" using bread_after_bget[OF g(1)] by blast
    have "live p t (insert b B)" using q g(2-4) t(2-5) by (auto simp: live_def)
    moreover have "unused (bufs t) = unused (bufs s) - {b}" using g(2,4) t(5) by (auto simp: unused_def)
    moreover have "nrefs dev s n = 0 \<longleftrightarrow> b \<in> unused (bufs s)" using g(2,5) by (simp add: unused_def unsigned_eq_0_iff)
    ultimately show ?thesis using t(1) g(3) by (auto simp: avail_def)
  qed
  show ?thesis
  proof (cases "bget_cached (NBUF + 1) dev n (bufs s) (bnext (bufs s NBUF))")
    case (Found b)
    note b = lru_cached(1)[OF ls Found]
    have nb: "b \<notin> B" using assms(4)[of b] b q(5)[of b] cache_invD(5)[OF inv, of b] by (auto simp: buf_of_def holds_def)
    have r: "nrefs dev s n = unat (brefcnt (bufs s b))" using lookup_eq[OF inv, of b n] b by (simp add: nrefs_def refs_def)
    have "brefcnt (bufs s b) + 1 \<noteq> 0"
    proof
      assume "brefcnt (bufs s b) + 1 = 0"
      then have "brefcnt (bufs s b) = - 1" by (simp add: eq_neg_iff_add_eq_0)
      then show False using assms(3) r by (simp add: unsigned_minus_1_eq_mask mask_eq_exp_minus_1)
    qed
    then show ?thesis using step[OF bget_found_eq[OF q(1) Found]] nb b q(3)[of b] r by simp
  next
    case Absent
    then have "nrefs dev s n = 0" using lru_cached(2)[OF ls Absent] by (simp add: nrefs_def refs_def lookup_None[THEN iffD2])
    then have "unused (bufs s) \<noteq> {}" using assms(5) by (auto simp: avail_def)
    then obtain b where u: "bget_unused (NBUF + 1) (bufs s) (bprev (bufs s NBUF)) = Found b" using lru_unused[OF ls] by (auto simp: unused_def)
    note b = lru_cached(3)[OF ls u]
    have "b \<notin> B" using b q(5) by blast
    then show ?thesis using step[OF bget_unused_eq[OF q(1) Absent u]] b q(3)[of b] \<open>nrefs dev s n = 0\<close> by simp
  next
    case Endless
    then show ?thesis using lru_ends[OF ls] by blast
  qed
qed

lemma bwrite_live:
  assumes "live p s B" "b \<in> B"
  shows "\<exists>t. bwrite b s = Ok ((), t) \<and> live p t B \<and> avail t = avail s"
  using liveD[OF assms(1)] by (simp add: bwrite_eq[OF assms] live_def avail_def subset_iff)

lemma store_live:
  "live p s B \<Longrightarrow> live p (upd_buf b (\<lambda>k. k\<lparr>bdata := v\<rparr>) s) B \<and> avail (upd_buf b (\<lambda>k. k\<lparr>bdata := v\<rparr>) s) = avail s"
  by (auto simp: live_def avail_def unused_def intro!: arg_cong[of _ _ card])

text \<open>The count of a locked buffer, from the abstract count of its block.\<close>

lemma count_of: "cache_ok dev s \<Longrightarrow> buf_of dev s b n \<Longrightarrow> nrefs dev s n = unat (brefcnt (bufs s b))"
  using holds_blk(2) by (simp add: cache_defs)

lemma dec_zero:
  fixes w :: uint32
  assumes "0 < unat w"
  shows "w - 1 = 0 \<longleftrightarrow> unat w = 1"
  using assms by (metis One_nat_def diff_eq_eq add_0 unsigned_1 word_unat_eq_iff)

lemma bunpin_live:
  assumes "cache_ok dev s" "live p s B" "b \<in> B" "buf_of dev s b n" "1 < nrefs dev s n"
  shows "\<exists>t. bunpin b s = Ok ((), t) \<and> live p t B \<and> avail t = avail s"
proof -
  have c: "1 < unat (brefcnt (bufs s b))" using count_of[OF assms(1,4)] assms(5) by simp
  then have z: "brefcnt (bufs s b) - 1 \<noteq> 0" "brefcnt (bufs s b) \<noteq> 0" using dec_zero[of "brefcnt (bufs s b)"] by auto
  have b: "b < NBUF" using liveD(2)[OF assms(2,3)] .
  have "unused ((bufs s)(b := (bufs s b)\<lparr>brefcnt := brefcnt (bufs s b) - 1\<rparr>)) = unused (bufs s)"
    using b z by (auto simp: unused_upd) (simp add: unused_def)
  then show ?thesis using liveD[OF assms(2)] z by (auto simp: bunpin_eq[OF liveD(1)[OF assms(2)]] live_def avail_def)
qed

lemma brelse_live:
  assumes "cache_ok dev s" "live p s B" "b \<in> B" "buf_of dev s b n" "0 < nrefs dev s n"
  shows "\<exists>t. brelse b s = Ok ((), t) \<and> live p t (B - {b}) \<and> avail t = avail s + (if nrefs dev s n = 1 then 1 else 0)"
proof -
  let ?k = "(bufs s b)\<lparr>brefcnt := brefcnt (bufs s b) - 1\<rparr>"
  obtain t where t: "brelse b s = Ok ((), t)" "kcore t = settled (kcore s)"
    "slocks t = (slocks s)(SBuf b := (slocks s (SBuf b))\<lparr>slocked := False, slpid := 0\<rparr>)"
    "\<And>c. pid (procs t c) = pid (procs s c)" "\<And>c. brefcnt (bufs t c) = brefcnt (((bufs s)(b := ?k)) c)"
    using brelse_eq[OF assms(2,3)] by (simp add: Let_def)
  note q = liveD[OF assms(2)]
  have c: "nrefs dev s n = unat (brefcnt (bufs s b))" using count_of[OF assms(1,4)] .
  have "live p t (B - {b})" using q t(2-5) by (auto simp: live_def)
  moreover have "unused (bufs t) = unused ((bufs s)(b := ?k))" by (rule unused_cong) (rule t(5))
  then have "unused (bufs t) = (if nrefs dev s n = 1 then insert b (unused (bufs s)) else unused (bufs s) - {b})"
    unfolding unused_upd[OF q(2)[OF assms(3)]] using dec_zero[of "brefcnt (bufs s b)"] assms(5) c by simp
  moreover have "b \<notin> unused (bufs s)" using q(5)[OF assms(3)] by (simp add: unused_def)
  ultimately show ?thesis using t(1) by (simp add: avail_def)
qed

section \<open>The contract\<close>

text \<open>
  \<open>up s B\<close>: the buffers in \<open>B\<close> and no others are locked, by the caller; \<open>room s\<close>: the number of unreferenced buffers.
\<close>

locale live_cache = block_cache inv see cnt own dsk trc oth rd wr rls unpin dat sto
  for inv :: "'s \<Rightarrow> bool" and see :: "'s \<Rightarrow> disk" and cnt :: "'s \<Rightarrow> uint32 \<Rightarrow> nat"
    and own :: "'s \<Rightarrow> nat \<Rightarrow> uint32 \<Rightarrow> bool" and dsk :: "'s \<Rightarrow> disk" and trc :: "'s \<Rightarrow> disk list" and oth :: "'s \<Rightarrow> 'r"
    and rd :: "uint32 \<Rightarrow> ('s, nat) kern" and wr :: "nat \<Rightarrow> ('s, unit) kern" and rls :: "nat \<Rightarrow> ('s, unit) kern"
    and unpin :: "nat \<Rightarrow> ('s, unit) kern" and dat :: "nat \<Rightarrow> 's \<Rightarrow> uchar list" and sto :: "nat \<Rightarrow> uchar list \<Rightarrow> 's \<Rightarrow> 's" +
  fixes up :: "'s \<Rightarrow> nat set \<Rightarrow> bool" and room :: "'s \<Rightarrow> nat"
  assumes rd_up: "inv s \<Longrightarrow> up s B \<Longrightarrow> cnt s n + 1 < 2 ^ 32 \<Longrightarrow> (\<And>b. b \<in> B \<Longrightarrow> \<not> own s b n) \<Longrightarrow> 0 < cnt s n \<or> 0 < room s \<Longrightarrow>
      \<exists>b t. rd n s = Ok (b, t) \<and> b \<notin> B \<and> up t (insert b B) \<and> room t = room s - (if cnt s n = 0 then 1 else 0)"
    and wr_up: "up s B \<Longrightarrow> b \<in> B \<Longrightarrow> \<exists>t. wr b s = Ok ((), t) \<and> up t B \<and> room t = room s"
    and sto_up: "up s B \<Longrightarrow> up (sto b v s) B \<and> room (sto b v s) = room s"
    and unpin_up: "inv s \<Longrightarrow> up s B \<Longrightarrow> b \<in> B \<Longrightarrow> own s b n \<Longrightarrow> 1 < cnt s n \<Longrightarrow>
      \<exists>t. unpin b s = Ok ((), t) \<and> up t B \<and> room t = room s"
    and rls_up: "inv s \<Longrightarrow> up s B \<Longrightarrow> b \<in> B \<Longrightarrow> own s b n \<Longrightarrow> 0 < cnt s n \<Longrightarrow>
      \<exists>t. rls b s = Ok ((), t) \<and> up t (B - {b}) \<and> room t = room s + (if cnt s n = 1 then 1 else 0)"
    and own_block: "own s b m \<Longrightarrow> own s b n \<Longrightarrow> m = n"
begin

text \<open>Reading and rewriting one block ends, with as many unreferenced buffers as before.\<close>

lemma rewrite_up:
  assumes "inv s" "up s {}" "cnt s n + 1 < 2 ^ 32" "0 < cnt s n \<or> 0 < room s"
  shows "\<exists>t. bnd (rd n) (\<lambda>b. seqs [modify (\<lambda>s. sto b (f (dat b s)) s), wr b, rls b]) s = Ok ((), t) \<and> up t {} \<and> room t = room s"
proof -
  obtain b s1 where r: "rd n s = Ok (b, s1)" "up s1 {b}" "room s1 = room s - (if cnt s n = 0 then 1 else 0)"
    using rd_up[OF assms(1,2,3) _ assms(4)] by auto
  note h1 = rd_law[OF assms(1,3) r(1)]
  let ?s2 = "sto b (f (dat b s1)) s1"
  have c1: "inv s1" "own s1 b n" "0 < cnt s1 n" using h1 by auto
  note h2 = sto_law[OF c1, of "f (dat b s1)"]
  have u2: "up ?s2 {b}" "room ?s2 = room s1" using sto_up[OF r(2)] by auto
  obtain s3 where w: "wr b ?s2 = Ok ((), s3)" "up s3 {b}" "room s3 = room ?s2" using wr_up[OF u2(1)] by auto
  have c2: "inv ?s2" "own ?s2 b n" using h2 c1 by auto
  note h3 = wr_law[OF c2 w(1)]
  have c3: "inv s3" "own s3 b n" "0 < cnt s3 n" using h2 h3 c1 c2 by auto
  obtain t where t: "rls b s3 = Ok ((), t)" "up t {}" "room t = room s3 + (if cnt s3 n = 1 then 1 else 0)"
    using rls_up[OF c3(1) w(2) _ c3(2,3)] by auto
  have "cnt s3 n = cnt s n + 1" using h1 h2 h3 by simp
  then have "room t = room s" using t(3) w(3) u2(2) r(3) assms(4) by auto
  then show ?thesis using r(1) w(1) t by (simp add: kern_simps)
qed

lemma rd_two_up:
  assumes "inv s" "up s {}" "cnt s x + 1 < 2 ^ 32" "cnt s y + 1 < 2 ^ 32" "x \<noteq> y"
    "(if cnt s x = 0 then 1 else 0) + (if cnt s y = 0 then 1 else 0) \<le> room s"
  shows "\<exists>b s1 c s2. rd x s = Ok (b, s1) \<and> rd y s1 = Ok (c, s2) \<and> c \<noteq> b \<and> up s2 {b, c} \<and>
    room s2 = room s - ((if cnt s x = 0 then 1 else 0) + (if cnt s y = 0 then 1 else 0))"
proof -
  have rx: "0 < cnt s x \<or> 0 < room s" using assms(6) by (auto split: if_splits)
  obtain b s1 where r: "rd x s = Ok (b, s1)" "up s1 {b}" "room s1 = room s - (if cnt s x = 0 then 1 else 0)"
    using rd_up[OF assms(1,2,3) _ rx] by auto
  note h1 = rd_law[OF assms(1,3) r(1)]
  have c: "inv s1" "cnt s1 y + 1 < 2 ^ 32" "0 < cnt s1 y \<or> 0 < room s1" using h1 r(3) assms(4-6) by (auto split: if_splits)
  have no: "\<not> own s1 c y" if "c \<in> {b}" for c using that h1 own_block[of s1 b x y] assms(5) by auto
  obtain c s2 where "rd y s1 = Ok (c, s2)" "c \<notin> {b}" "up s2 (insert c {b})" "room s2 = room s1 - (if cnt s1 y = 0 then 1 else 0)"
    using rd_up[OF c(1) r(2) c(2) no c(3)] by blast
  then show ?thesis using r h1 assms(5) by (auto simp: insert_commute)
qed

lemma copy_tail_up:
  assumes "inv s" "up s {bf, bt}" "bt \<noteq> bf" "own s bt a" "own s bf c" "a \<noteq> c" "0 < cnt s a" "0 < cnt s c" "cnt s c = 1 \<Longrightarrow> see s c = dsk s c"
    "drop_pin \<Longrightarrow> 1 < cnt s a"
  shows "\<exists>t. seqs [modify (sto bt v), wr bt, whenb drop_pin (unpin bt), rls bf, rls bt] s = Ok ((), t) \<and> up t {} \<and>
    room t = room s + (if cnt s c = 1 then 1 else 0) + (if cnt s a = (if drop_pin then 2 else 1) then 1 else 0)"
proof -
  let ?s0 = "sto bt v s"
  note h0 = sto_law[OF assms(1,4,7), of v]
  have u0: "up ?s0 {bf, bt}" "room ?s0 = room s" using sto_up[OF assms(2)] by auto
  obtain s1 where w: "wr bt ?s0 = Ok ((), s1)" "up s1 {bf, bt}" "room s1 = room s" using wr_up[OF u0(1)] u0(2) by auto
  have c0: "inv ?s0" "own ?s0 bt a" using h0 assms(4) by auto
  note h1 = wr_law[OF c0 w(1)]
  obtain s2 where p: "whenb drop_pin (unpin bt) s1 = Ok ((), s2)" "up s2 {bf, bt}" "room s2 = room s"
    and h2: "inv s2 \<and> own s2 = own s1 \<and> see s2 = see s1 \<and> cnt s2 = (cnt s)(a := cnt s a - (if drop_pin then 1 else 0)) \<and> dsk s2 = dsk s1"
  proof (cases drop_pin)
    case True
    have c1: "inv s1" "own s1 bt a" "1 < cnt s1 a" using h0 h1 assms(4,10) True by auto
    obtain s2 where s2: "unpin bt s1 = Ok ((), s2)" "up s2 {bf, bt}" "room s2 = room s1" using unpin_up[OF c1(1) w(2) _ c1(2,3)] by auto
    show ?thesis using that[of s2] s2 unpin_law[OF c1 s2(1)] h0 h1 w(3) True by (simp add: whenb_def)
  next
    case False
    show ?thesis using that[of s1] h0 h1 w False by (simp add: whenb_def ret_apply)
  qed
  have c2: "inv s2" "own s2 bf c" "0 < cnt s2 c" "cnt s2 c = 1 \<Longrightarrow> see s2 c = dsk s2 c" using h0 h1 h2 assms(4-9) by auto
  obtain s3 where r3: "rls bf s2 = Ok ((), s3)" "up s3 {bt}" "room s3 = room s + (if cnt s2 c = 1 then 1 else 0)"
    using rls_up[OF c2(1) p(2) _ c2(2,3)] p(3) assms(3) by (auto simp: insert_Diff_if)
  note h3 = rls_law[OF c2 r3(1)]
  have c3: "inv s3" "own s3 bt a" "0 < cnt s3 a" using h0 h1 h2 h3 assms(4,6,7,10) by auto
  obtain t where t: "rls bt s3 = Ok ((), t)" "up t {}" "room t = room s3 + (if cnt s3 a = 1 then 1 else 0)"
    using rls_up[OF c3(1) r3(2) _ c3(2,3)] by auto
  have "cnt s2 c = cnt s c" "cnt s3 a = cnt s a - (if drop_pin then 1 else 0)" using h2 h3 assms(6) by auto
  then show ?thesis using w(1) p(1) r3 t assms(10) by (auto simp: kern_simps)
qed

end

interpretation bio_live: live_cache "cache_ok dev" "seen dev" "nrefs dev" "buf_of dev" disk dtrace bio_state.more
  "bread dev" bwrite brelse bunpin "\<lambda>b s. bdata (bufs s b)" "\<lambda>b v. upd_buf b (\<lambda>k. k\<lparr>bdata := v\<rparr>)" "live p" avail
  for dev :: uint32 and p :: nat
proof (unfold_locales, goal_cases)
  case (1 s B n)
  then show ?case using bread_live by blast
next
  case (2 s B b)
  then show ?case by (rule bwrite_live)
next
  case (3 s B b v)
  then show ?case by (rule store_live)
next
  case (4 s B b n)
  then show ?case by (rule bunpin_live)
next
  case (5 s B b n)
  then show ?case by (rule brelse_live)
next
  case (6 s b m n)
  then show ?case by (auto simp: buf_of_def holds_def has_key_def)
qed

section \<open>The cache as a memory of blocks\<close>

definition ring_buf :: "nat \<Rightarrow> buf" where
  "ring_buf b = \<lparr>bvalid = False, bdev = 0, bblockno = 0, brefcnt = 0, bprev = (b + 30) mod 31, bnext = (b + 1) mod 31, bdata = []\<rparr>"

lemma ring_lru: "lru ring_buf [0..<NBUF]"
proof -
  have "dlinks ring_buf (30 # [0..<30] @ [30])" by (simp add: ring_buf_def upt_conv_Cons)
  then show ?thesis by (auto simp: lru_def NBUF_def)
qed

lemma ring_cache: "cache_inv 1 ring_buf D"
  using ring_lru by (auto simp: cache_inv_def has_key_def ring_buf_def)

definition demo_bio :: "bio_state" where
  "demo_bio = \<lparr>kcore = demo_core, mem = \<lambda>a. 0, freelist = 0, kend = 0x87FFE000, procs = demo_procs, initproc = Some 0, nextpid = 3,
     peterson_locks = \<lambda>l. \<lparr>active = 0, flag = \<lambda>r. 0, turn = 0\<rparr>, trampoline = 0x80008000, forkret_addr = 0x80001000,
     uart_tx_buf = \<lambda>i. 0, uart_tx_w = 0, uart_tx_r = 0, tx_room = 0, sent = [], rx = [], uart_regs = [], panicked = False, pr_locking = True,
     cons_buf = \<lambda>i. 0, cons_r = 0, cons_w = 0, cons_e = 0, slocks = \<lambda>l. \<lparr>slocked = False, slpid = 0\<rparr>,
     bufs = ring_buf, disk = \<lambda>n. replicate 1024 0, dtrace = []\<rparr>"

lemma demo_bio_ok: "cache_ok 1 demo_bio" "live 0 demo_bio {}" "nrefs 1 demo_bio n = 0" "0 < avail demo_bio" "seen 1 demo_bio n = replicate 1024 0"
proof -
  show "cache_ok 1 demo_bio" using ring_cache by (simp add: cache_ok_def demo_bio_def)
  show "live 0 demo_bio {}" using demo_core_ok(4) by (simp add: live_def demo_bio_def)
  have l: "lookup 1 ring_buf n = None" by (simp add: lookup_None has_key_def ring_buf_def)
  then show "nrefs 1 demo_bio n = 0" "seen 1 demo_bio n = replicate 1024 0" by (simp_all add: nrefs_def refs_def seen_def blk_def demo_bio_def)
  have "0 \<in> unused ring_buf" by (simp add: unused_def ring_buf_def NBUF_def)
  then show "0 < avail demo_bio" by (auto simp: avail_def demo_bio_def card_gt_0_iff)
qed

text \<open>
  C9. The buffer cache is transparent. When no locks are contended and the block is cached or a buffer is free, \<^verbatim>\<open>bread\<close> returns
  a locked buffer with the current contents of the block; releasing it leaves everything a reader sees, the counts and the number of free buffers as
  they were; changing it, writing it and releasing it changes exactly that block, for readers and on the disk. The invariant of the cache
  (one ring of all buffers, no block twice, clean when unreferenced) is kept throughout.
\<close>

theorem cache_transparent:
  fixes s :: "'z bio_state_scheme"
  assumes "cache_ok dev s" "live p s {}" "nrefs dev s n + 1 < 2 ^ 32" "0 < nrefs dev s n \<or> 0 < avail s"
  shows "\<exists>b t. bread dev n s = Ok (b, t) \<and> cache_ok dev t \<and> live p t {b} \<and> bdata (bufs t b) = seen dev s n \<and>
     seen dev t = seen dev s \<and> disk t = disk s \<and> nrefs dev t = (nrefs dev s)(n := nrefs dev s n + 1) \<and>
     (\<exists>u. brelse b t = Ok ((), u) \<and> cache_ok dev u \<and> live p u {} \<and> seen dev u = seen dev s \<and> disk u = disk s \<and>
        nrefs dev u = nrefs dev s \<and> avail u = avail s) \<and>
     (\<exists>u. seqs [upd_data b f, bwrite b, brelse b] t = Ok ((), u) \<and> cache_ok dev u \<and> live p u {} \<and>
        seen dev u = (seen dev s)(n := f (seen dev s n)) \<and> disk u = (disk s)(n := f (seen dev s n)) \<and> nrefs dev u = nrefs dev s)"
proof -
  obtain b t where t: "bread dev n s = Ok (b, t)" "live p t {b}" "avail t = avail s - (if nrefs dev s n = 0 then 1 else 0)"
    using bio_live.rd_up[OF assms(1,2,3) _ assms(4)] by auto
  note h = bio.rd_law[OF assms(1,3) t(1)]
  have own: "cache_ok dev t" "buf_of dev t b n" "0 < nrefs dev t n" using h by auto
  have d: "bdata (bufs t b) = seen dev s n" using bio.dat_law[OF own(1,2)] h by simp
  obtain u where u: "brelse b t = Ok ((), u)" "live p u {}" "avail u = avail t + (if nrefs dev t n = 1 then 1 else 0)"
    using bio_live.rls_up[OF own(1) t(2) _ own(2,3)] by auto
  have cl: "nrefs dev t n = 1 \<Longrightarrow> seen dev t n = disk t n" using h bio.clean[OF assms(1), of n] by simp
  note k = bio.rls_law[OF own cl u(1)]
  have "nrefs dev u = nrefs dev s" "avail u = avail s" using k h u(3) t(3) assms(4) by (auto simp: fun_eq_iff)
  then have rls: "\<exists>u. brelse b t = Ok ((), u) \<and> cache_ok dev u \<and> live p u {} \<and> seen dev u = seen dev s \<and> disk u = disk s \<and>
        nrefs dev u = nrefs dev s \<and> avail u = avail s" using u(1,2) k h by (intro exI[of _ u]) simp
  obtain v where v: "bnd (bread dev n) (\<lambda>b. seqs [modify (\<lambda>s. upd_buf b (\<lambda>k. k\<lparr>bdata := f (bdata (bufs s b))\<rparr>) s), bwrite b, brelse b]) s = Ok ((), v)"
      "live p v {}" using bio_live.rewrite_up[OF assms, of f] by blast
  have "seqs [upd_data b f, bwrite b, brelse b] t = Ok ((), v)" using v(1) t(1) by (simp add: bnd_apply)
  then have "\<exists>u. seqs [upd_data b f, bwrite b, brelse b] t = Ok ((), u) \<and> cache_ok dev u \<and> live p u {} \<and>
        seen dev u = (seen dev s)(n := f (seen dev s n)) \<and> disk u = (disk s)(n := f (seen dev s n)) \<and> nrefs dev u = nrefs dev s"
    using v(2) bio.rewrite_block[OF assms(1,3) v(1)] by blast
  then show ?thesis using t(1,2) h d rls by blast
qed

theorem cache_transparent_witness:
  "\<exists>b t u. bread 1 33 demo_bio = Ok (b, t) \<and> bdata (bufs t b) = replicate 1024 0 \<and>
     seqs [upd_data b (\<lambda>d. put32 d 4 7), bwrite b, brelse b] t = Ok ((), u) \<and> get32 (disk u 33) 4 = 7 \<and> cache_ok 1 u"
proof -
  have "get32 (put32 (replicate 1024 0) 4 7) 4 = 7" by (rule get32_put_same) simp
  then show ?thesis using cache_transparent[OF demo_bio_ok(1,2), of 33 "\<lambda>d. put32 d 4 7"] demo_bio_ok(3,4,5) by fastforce
qed

end
