(* ===== verification/Log_Crash.thy ===== *)
theory Log_Crash
  imports Log Bio_Live
begin

text \<open>
  The log survives crashes. First the routines of \<^verbatim>\<open>kernel/log.c\<close> are brought to their effect on what the cache shows
  (\<open>blk\<close>), the disk and the disk's history, through the contract of the cache; then commit and recovery are
  compared on these alone: at whatever moment the power fails during \<^verbatim>\<open>commit\<close>, recovery finds the disk of before the
  transaction or the disk with all of its blocks, never a mixture.
\<close>

section \<open>Routines of the log on the abstract cache\<close>

type_synonym view = "disk \<times> disk \<times> disk list"

definition view :: "uint32 \<Rightarrow> 'z bio_state_scheme \<Rightarrow> view" where
  "view dev s = (seen dev s, disk s, dtrace s)"

lemma fst_view [simp]: "fst (view dev s) = seen dev s"
  by (simp add: view_def)

text \<open>A block changed in the cache and written to the disk.\<close>

definition put_block :: "uint32 \<Rightarrow> uchar list \<Rightarrow> view \<Rightarrow> view" where
  "put_block n v = (\<lambda>(b, d, t). (b(n := v), d(n := v), d # t))"

lemma more_log: "bio_state.more t = bio_state.more s \<Longrightarrow> log t = log s"
  by (cases s; cases t) simp

text \<open>The blocks of the log: the header, then the slots, in an area of \<^verbatim>\<open>LOGSIZE\<close> blocks.\<close>

definition SLOTS :: int where
  "SLOTS = LOGSIZE - 1"

definition in_log :: "uint32 \<Rightarrow> uint32 \<Rightarrow> bool" where
  "in_log start n \<longleftrightarrow> unat (n - start) \<le> nat SLOTS"

definition slot :: "uint32 \<Rightarrow> nat \<Rightarrow> uint32" where
  "slot start i = start + of_nat i + 1"

lemma unat_slot: "i < nat SLOTS \<Longrightarrow> unat (slot start i - start) = Suc i"
proof -
  assume "i < nat SLOTS"
  then have "Suc i < 2 ^ 32" by (simp add: SLOTS_def LOGSIZE_def MAXOPBLOCKS_def)
  moreover have "slot start i - start = of_nat (Suc i)" by (simp add: slot_def)
  ultimately show ?thesis by (simp only: unsigned_of_nat take_bit_eq_mod) simp
qed

lemma in_log_slots:
  assumes "i < nat SLOTS"
  shows "in_log start (slot start i)" "slot start i \<noteq> start" "j < nat SLOTS \<Longrightarrow> slot start i = slot start j \<Longrightarrow> i = j"
proof -
  note u = unat_slot[OF assms, of start]
  show "in_log start (slot start i)" using assms u by (simp add: in_log_def)
  show "slot start i \<noteq> start"
  proof
    assume "slot start i = start"
    then have "slot start i - start = 0" by simp
    then show False using u by (metis nat.distinct(1) unsigned_0)
  qed
  show "i = j" if "j < nat SLOTS" "slot start i = slot start j"
    using trans[OF u[symmetric] unat_slot[OF that(1), of start, folded that(2)]] by (rule Suc_inject)
qed

lemma in_log_start: "in_log start start"
  by (simp add: in_log_def)

text \<open>No reference count comes near to overflow.\<close>

definition few_refs :: "uint32 \<Rightarrow> 'z bio_state_scheme \<Rightarrow> bool" where
  "few_refs dev s \<longleftrightarrow> (\<forall>n. nrefs dev s n < 2 ^ 31)"

lemma write_log_from_view:
  assumes "cache_ok dev s" "few_refs dev s" "ldev (log s) = dev" "write_log_from ts s = Ok (u, t)"
    "\<And>i. i \<in> set ts \<Longrightarrow> slot (lstart (log s)) i \<noteq> lhblock (lh (log s)) i"
  shows "cache_ok dev t \<and> nrefs dev t = nrefs dev s \<and> log t = log s \<and>
     view dev t = fold (\<lambda>i v. put_block (slot (lstart (log s)) i) (fst v (lhblock (lh (log s)) i)) v) ts (view dev s)"
  using assms
proof (induction ts arbitrary: s)
  case Nil
  then show ?case by (simp add: ret_apply)
next
  case (Cons i ts)
  let ?l = "log s" let ?a = "slot (lstart ?l) i" and ?c = "lhblock (lh ?l) i"
  have ac: "?a \<noteq> ?c" using Cons.prems(5)[of i] by simp
  obtain b1 s1 b2 s2 where r1: "bread dev ?a s = Ok (b1, s1)" and r2: "bread dev ?c s1 = Ok (b2, s2)"
    and r3: "seqs [upd_data b1 (\<lambda>_. bdata (bufs s2 b2)), bwrite b1, brelse b2, brelse b1, write_log_from ts] s2 = Ok (u, t)"
    using Cons.prems(3,4) by (auto simp: bnd_apply gets_apply obind_eq_Ok slot_def)
  have lim: "nrefs dev s n + 1 < 2 ^ 32" for n using Cons.prems(2)[unfolded few_refs_def, rule_format, of n] by simp
  note h = bio.rd_two[OF Cons.prems(1) lim lim ac r1 r2]
  have i2: "cache_ok dev s2" "buf_of dev s2 b1 ?a" "buf_of dev s2 b2 ?c" using h by auto
  have d: "bdata (bufs s2 b2) = seen dev s2 ?c" using i2(1,3) by (rule bio.dat_law)
  obtain s3 where s3: "seqs [modify (upd_buf b1 (\<lambda>k. k\<lparr>bdata := seen dev s2 ?c\<rparr>)), bwrite b1, whenb False (bunpin b1), brelse b2, brelse b1] s2 = Ok ((), s3)"
    and r4: "write_log_from ts s3 = Ok (u, t)"
    using r3 unfolding d by (auto simp: thn_apply modify_apply obind_eq_Ok ret_apply whenb_apply)
  have cl: "nrefs dev s2 ?c = 1 \<Longrightarrow> seen dev s2 ?c = disk s2 ?c"
    using bio.clean[OF Cons.prems(1), of ?c] h ac by simp
  have pos: "0 < nrefs dev s2 ?a" "0 < nrefs dev s2 ?c" using h ac by auto
  note k = bio.copy_tail[OF i2 ac pos cl _ s3]
  have cnt: "nrefs dev s3 = nrefs dev s" using k h ac by (auto simp: fun_eq_iff)
  have lg: "log s3 = log s" using k h by (intro more_log) simp
  have v3: "view dev s3 = put_block ?a (seen dev s ?c) (view dev s)" using k h by (simp add: put_block_def view_def)
  have few: "few_refs dev s3" using Cons.prems(2) cnt by (simp add: few_refs_def)
  have ok3: "cache_ok dev s3" using k by blast
  show ?case using Cons.IH[OF ok3 few, unfolded lg, OF Cons.prems(3) r4] Cons.prems(5) cnt v3 by simp
qed

lemma install_trans_from_view:
  assumes "cache_ok dev s" "few_refs dev s" "ldev (log s) = dev" "install_trans_from rec ts s = Ok (u, t)" "distinct ts"
    "\<And>i. i \<in> set ts \<Longrightarrow> slot (lstart (log s)) i \<noteq> lhblock (lh (log s)) i"
    "inj_on (lhblock (lh (log s))) (set ts)"
    "\<And>i. \<not> rec \<Longrightarrow> i \<in> set ts \<Longrightarrow> 0 < nrefs dev s (lhblock (lh (log s)) i)"
  shows "cache_ok dev t \<and> few_refs dev t \<and> log t = log s \<and>
     (rec \<longrightarrow> nrefs dev t = nrefs dev s) \<and> (\<forall>n. n \<notin> lhblock (lh (log s)) ` set ts \<longrightarrow> nrefs dev t n = nrefs dev s n) \<and>
     view dev t = fold (\<lambda>i v. put_block (lhblock (lh (log s)) i) (fst v (slot (lstart (log s)) i)) v) ts (view dev s)"
  using assms
proof (induction ts arbitrary: s)
  case Nil
  then show ?case by (simp add: ret_apply)
next
  case (Cons i ts)
  let ?l = "log s" let ?c = "slot (lstart ?l) i" and ?a = "lhblock (lh ?l) i"
  have ca: "?c \<noteq> ?a" using Cons.prems(6)[of i] by simp
  then have ac: "?a \<noteq> ?c" by simp
  obtain b1 s1 b2 s2 where r1: "bread dev ?c s = Ok (b1, s1)" and r2: "bread dev ?a s1 = Ok (b2, s2)"
    and r3: "seqs [upd_data b2 (\<lambda>_. bdata (bufs s2 b1)), bwrite b2, whenb (\<not> rec) (bunpin b2), brelse b1, brelse b2, install_trans_from rec ts] s2 = Ok (u, t)"
    using Cons.prems(3,4) by (auto simp: bnd_apply gets_apply obind_eq_Ok slot_def)
  have lim: "nrefs dev s n + 1 < 2 ^ 32" for n using Cons.prems(2)[unfolded few_refs_def, rule_format, of n] by simp
  note h = bio.rd_two[OF Cons.prems(1) lim lim ca r1 r2]
  have i2: "cache_ok dev s2" "buf_of dev s2 b2 ?a" "buf_of dev s2 b1 ?c" using h by auto
  have d: "bdata (bufs s2 b1) = seen dev s2 ?c" using i2(1,3) by (rule bio.dat_law)
  obtain s3 where s3: "seqs [modify (upd_buf b2 (\<lambda>k. k\<lparr>bdata := seen dev s2 ?c\<rparr>)), bwrite b2, whenb (\<not> rec) (bunpin b2), brelse b1, brelse b2] s2 = Ok ((), s3)"
    and r4: "install_trans_from rec ts s3 = Ok (u, t)"
    using r3 unfolding d by (auto simp: thn_apply modify_apply obind_eq_Ok ret_apply)
  have cl: "nrefs dev s2 ?c = 1 \<Longrightarrow> seen dev s2 ?c = disk s2 ?c"
    using bio.clean[OF Cons.prems(1), of ?c] h ac by simp
  have pos: "0 < nrefs dev s2 ?a" "0 < nrefs dev s2 ?c" using h ac by auto
  have pin: "\<not> rec \<Longrightarrow> 1 < nrefs dev s2 ?a" using h Cons.prems(8)[of i] by simp
  note k = bio.copy_tail[OF i2 ac pos cl pin s3]
  have cnt: "nrefs dev s3 = (if rec then nrefs dev s else (nrefs dev s)(?a := nrefs dev s ?a - 1))"
    using k h ac by (auto simp: fun_eq_iff)
  have lg: "log s3 = log s" using k h by (intro more_log) simp
  have v3: "view dev s3 = put_block ?a (seen dev s ?c) (view dev s)" using k h by (simp add: put_block_def view_def)
  have few: "few_refs dev s3" using Cons.prems(2) cnt by (auto simp: few_refs_def less_imp_diff_less)
  have ok3: "cache_ok dev s3" using k by blast
  have pins: "0 < nrefs dev s3 (lhblock (lh ?l) j)" if "\<not> rec" "j \<in> set ts" for j
  proof -
    have "lhblock (lh ?l) j \<noteq> ?a" using Cons.prems(5,7) that(2) by (auto simp: inj_on_def)
    then show ?thesis using cnt that Cons.prems(8)[of j] by simp
  qed
  have inj: "inj_on (lhblock (lh ?l)) (set ts)" using Cons.prems(7) by simp
  show ?case using Cons.IH[OF ok3 few, unfolded lg, OF Cons.prems(3) r4 _ _ inj] Cons.prems(5,6) pins cnt v3 by simp
qed

text \<open>One round of either loop returns.\<close>

lemma write_log_from_Cons: "write_log_from (i # ts) s = obind (write_log_from [i] s) (\<lambda>(u, t). write_log_from ts t)"
  by (simp add: kern_simps obind_assoc split_def obind_unit)

lemma install_trans_from_Cons:
  "install_trans_from rec (i # ts) s = obind (install_trans_from rec [i] s) (\<lambda>(u, t). install_trans_from rec ts t)"
  by (simp add: kern_simps obind_assoc split_def obind_unit)

lemma write_log_one_up:
  assumes "cache_ok dev s" "few_refs dev s" "ldev (log s) = dev" "live p s {}" "0 < avail s"
    "slot (lstart (log s)) i \<noteq> lhblock (lh (log s)) i" "0 < nrefs dev s (lhblock (lh (log s)) i)"
  shows "\<exists>t. write_log_from [i] s = Ok ((), t) \<and> live p t {} \<and> avail t = avail s"
proof -
  let ?a = "slot (lstart (log s)) i" and ?c = "lhblock (lh (log s)) i"
  have lim: "nrefs dev s n + 1 < 2 ^ 32" for n using assms(2)[unfolded few_refs_def, rule_format, of n] by simp
  have room: "(if nrefs dev s ?a = 0 then 1 else 0) + (if nrefs dev s ?c = 0 then 1 else 0) \<le> avail s" using assms(5,7) by simp
  obtain b1 s1 b2 s2 where r: "bread dev ?a s = Ok (b1, s1)" "bread dev ?c s1 = Ok (b2, s2)" "b2 \<noteq> b1" "live p s2 {b1, b2}"
      "avail s2 = avail s - ((if nrefs dev s ?a = 0 then 1 else 0) + (if nrefs dev s ?c = 0 then 1 else 0))"
    using bio_live.rd_two_up[OF assms(1,4) lim lim assms(6) room] by blast
  note h = bio.rd_two[OF assms(1) lim lim assms(6) r(1,2)]
  have i2: "cache_ok dev s2" "live p s2 {b2, b1}" "b1 \<noteq> b2" "buf_of dev s2 b1 ?a" "buf_of dev s2 b2 ?c" "0 < nrefs dev s2 ?a" "0 < nrefs dev s2 ?c"
    using h r(3,4) assms(6) by (auto simp: insert_commute)
  have c1: "nrefs dev s2 ?c \<noteq> 1" using h assms(7) by simp
  obtain t where t: "seqs [modify (upd_buf b1 (\<lambda>k. k\<lparr>bdata := bdata (bufs s2 b2)\<rparr>)), bwrite b1, whenb False (bunpin b1), brelse b2, brelse b1] s2 = Ok ((), t)"
      "live p t {}" "avail t = avail s2 + (if nrefs dev s2 ?c = 1 then 1 else 0) + (if nrefs dev s2 ?a = 1 then 1 else 0)"
    using bio_live.copy_tail_up[OF i2(1-5) assms(6) i2(6,7), of False] c1 by auto
  have "write_log_from [i] s = Ok ((), t)" using r(1,2) t(1) assms(3) by (simp add: kern_simps slot_def whenb_def)
  moreover have "avail t = avail s" using t(3) r(5) h assms(5-7) by auto
  ultimately show ?thesis using t(2) by blast
qed

lemma write_log_from_up:
  assumes "cache_ok dev s" "few_refs dev s" "ldev (log s) = dev" "live p s {}" "0 < avail s"
    "\<And>i. i \<in> set ts \<Longrightarrow> slot (lstart (log s)) i \<noteq> lhblock (lh (log s)) i"
    "\<And>i. i \<in> set ts \<Longrightarrow> 0 < nrefs dev s (lhblock (lh (log s)) i)"
  shows "\<exists>t. write_log_from ts s = Ok ((), t) \<and> live p t {} \<and> avail t = avail s"
  using assms
proof (induction ts arbitrary: s)
  case Nil
  then show ?case by (simp add: ret_apply)
next
  case (Cons i ts)
  obtain s1 where s1: "write_log_from [i] s = Ok ((), s1)" "live p s1 {}" "avail s1 = avail s"
    using write_log_one_up[OF Cons.prems(1-5), of i] Cons.prems(6,7) by auto
  have v: "cache_ok dev s1" "nrefs dev s1 = nrefs dev s" "log s1 = log s"
    using write_log_from_view[OF Cons.prems(1-3) s1(1)] Cons.prems(6) by auto
  have "\<exists>t. write_log_from ts s1 = Ok ((), t) \<and> live p t {} \<and> avail t = avail s1"
    by (rule Cons.IH) (use v s1 Cons.prems in \<open>auto simp: few_refs_def\<close>)
  then show ?case using s1 write_log_from_Cons[of i ts s] by simp
qed

lemma install_one_up:
  assumes "cache_ok dev s" "few_refs dev s" "ldev (log s) = dev" "live p s {}" "(if rec then 2 else 1) \<le> avail s"
    "slot (lstart (log s)) i \<noteq> lhblock (lh (log s)) i" "\<not> rec \<Longrightarrow> 0 < nrefs dev s (lhblock (lh (log s)) i)"
  shows "\<exists>t. install_trans_from rec [i] s = Ok ((), t) \<and> live p t {} \<and> avail s \<le> avail t"
proof -
  let ?c = "slot (lstart (log s)) i" and ?a = "lhblock (lh (log s)) i"
  have lim: "nrefs dev s n + 1 < 2 ^ 32" for n using assms(2)[unfolded few_refs_def, rule_format, of n] by simp
  have room: "(if nrefs dev s ?c = 0 then 1 else 0) + (if nrefs dev s ?a = 0 then 1 else 0) \<le> avail s" using assms(5,7) by (auto split: if_splits)
  obtain b1 s1 b2 s2 where r: "bread dev ?c s = Ok (b1, s1)" "bread dev ?a s1 = Ok (b2, s2)" "b2 \<noteq> b1" "live p s2 {b1, b2}"
      "avail s2 = avail s - ((if nrefs dev s ?c = 0 then 1 else 0) + (if nrefs dev s ?a = 0 then 1 else 0))"
    using bio_live.rd_two_up[OF assms(1,4) lim lim assms(6) room] by blast
  note h = bio.rd_two[OF assms(1) lim lim assms(6) r(1,2)]
  have ac: "?a \<noteq> ?c" using assms(6) by simp
  have i2: "cache_ok dev s2" "buf_of dev s2 b2 ?a" "buf_of dev s2 b1 ?c" "0 < nrefs dev s2 ?a" "0 < nrefs dev s2 ?c"
    using h assms(6) by auto
  have cl: "nrefs dev s2 ?c = 1 \<Longrightarrow> seen dev s2 ?c = disk s2 ?c" using bio.clean[OF assms(1), of ?c] h ac by simp
  have pin: "\<not> rec \<Longrightarrow> 1 < nrefs dev s2 ?a" using h assms(7) by simp
  obtain t where t: "seqs [modify (upd_buf b2 (\<lambda>k. k\<lparr>bdata := bdata (bufs s2 b1)\<rparr>)), bwrite b2, whenb (\<not> rec) (bunpin b2), brelse b1, brelse b2] s2 = Ok ((), t)"
      "live p t {}" "avail t = avail s2 + (if nrefs dev s2 ?c = 1 then 1 else 0) + (if nrefs dev s2 ?a = (if \<not> rec then 2 else 1) then 1 else 0)"
    using bio_live.copy_tail_up[OF i2(1) r(4,3) i2(2,3) ac i2(4,5) cl pin] by blast
  have "install_trans_from rec [i] s = Ok ((), t)" using r(1,2) t(1) assms(3) by (simp add: kern_simps slot_def)
  moreover have "nrefs dev s2 ?c = nrefs dev s ?c + 1" "nrefs dev s2 ?a = nrefs dev s ?a + 1" using h ac by auto
  then have "avail s \<le> avail t" using t(3) r(5) room assms(7) by (cases rec) (auto split: if_splits)
  ultimately show ?thesis using t(2) by blast
qed

lemma install_from_up:
  assumes "cache_ok dev s" "few_refs dev s" "ldev (log s) = dev" "live p s {}" "(if rec then 2 else 1) \<le> avail s" "distinct ts"
    "\<And>i. i \<in> set ts \<Longrightarrow> slot (lstart (log s)) i \<noteq> lhblock (lh (log s)) i"
    "inj_on (lhblock (lh (log s))) (set ts)"
    "\<And>i. \<not> rec \<Longrightarrow> i \<in> set ts \<Longrightarrow> 0 < nrefs dev s (lhblock (lh (log s)) i)"
  shows "\<exists>t. install_trans_from rec ts s = Ok ((), t) \<and> live p t {} \<and> avail s \<le> avail t"
  using assms
proof (induction ts arbitrary: s)
  case Nil
  then show ?case by (simp add: ret_apply)
next
  case (Cons i ts)
  obtain s1 where s1: "install_trans_from rec [i] s = Ok ((), s1)" "live p s1 {}" "avail s \<le> avail s1"
    using install_one_up[OF Cons.prems(1-5), of i] Cons.prems(7,9) by auto
  have v: "cache_ok dev s1" "few_refs dev s1" "log s1 = log s" "\<And>n. n \<noteq> lhblock (lh (log s)) i \<Longrightarrow> nrefs dev s1 n = nrefs dev s n"
    using install_trans_from_view[OF Cons.prems(1-3) s1(1)] Cons.prems(7,9) by auto
  have ne: "lhblock (lh (log s)) j \<noteq> lhblock (lh (log s)) i" if "j \<in> set ts" for j
    using Cons.prems(6,8) that by (auto simp: inj_on_def)
  have "\<exists>t. install_trans_from rec ts s1 = Ok ((), t) \<and> live p t {} \<and> avail s1 \<le> avail t"
    by (rule Cons.IH) (use v s1 ne Cons.prems in \<open>auto simp: inj_on_def\<close>)
  then show ?case using s1 install_trans_from_Cons[of rec i ts s] by auto
qed

section \<open>The header\<close>

lemma upd_log_sel [simp]:
  "cache_ok dev (s\<lparr>log := l\<rparr>) = cache_ok dev s" "seen dev (s\<lparr>log := l\<rparr>) = seen dev s" "nrefs dev (s\<lparr>log := l\<rparr>) = nrefs dev s"
  "buf_of dev (s\<lparr>log := l\<rparr>) = buf_of dev s" "live p (s\<lparr>log := l\<rparr>) B = live p s B" "avail (s\<lparr>log := l\<rparr>) = avail s"
  "few_refs dev (s\<lparr>log := l\<rparr>) = few_refs dev s" "view dev (s\<lparr>log := l\<rparr>) = view dev s"
  by (simp_all add: cache_defs live_def avail_def few_refs_def view_def)

lemma write_head_up:
  assumes "cache_ok dev s" "few_refs dev s" "ldev (log s) = dev" "live p s {}" "0 < avail s"
  shows "\<exists>t. write_head s = Ok ((), t) \<and> live p t {} \<and> avail t = avail s \<and> cache_ok dev t \<and> nrefs dev t = nrefs dev s \<and> log t = log s \<and>
    view dev t = put_block (lstart (log s)) (header_bytes (lh (log s)) (seen dev s (lstart (log s)))) (view dev s)"
proof -
  let ?n = "lstart (log s)" and ?f = "header_bytes (lh (log s))"
  have lim: "nrefs dev s ?n + 1 < 2 ^ 32" using assms(2)[unfolded few_refs_def, rule_format, of ?n] by simp
  have room: "0 < nrefs dev s ?n \<or> 0 < avail s" using assms(5) by simp
  obtain t where t: "bnd (bread dev ?n) (\<lambda>b. seqs [modify (\<lambda>s. upd_buf b (\<lambda>k. k\<lparr>bdata := ?f (bdata (bufs s b))\<rparr>) s), bwrite b, brelse b]) s = Ok ((), t)"
      "live p t {}" "avail t = avail s" using bio_live.rewrite_up[OF assms(1,4) lim room, of ?f] by blast
  note h = bio.rewrite_block[OF assms(1) lim t(1)]
  have "write_head s = Ok ((), t)" using t(1) assms(3) by (simp add: write_head_def bnd_apply[of "gets log"] gets_apply)
  moreover have "log t = log s" using h by (intro more_log) simp
  moreover have "view dev t = put_block ?n (?f (seen dev s ?n)) (view dev s)" using h by (simp add: view_def put_block_def)
  ultimately show ?thesis using h t by blast
qed

lemma read_head_up:
  assumes "cache_ok dev s" "few_refs dev s" "ldev (log s) = dev" "live p s {}" "0 < avail s"
    "sint (get32 (seen dev s (lstart (log s))) 0) \<le> LOGSIZE"
  shows "\<exists>t. read_head s = Ok ((), t) \<and> live p t {} \<and> avail t = avail s \<and> cache_ok dev t \<and> nrefs dev t = nrefs dev s \<and>
    log t = (log s)\<lparr>lh := header_of (seen dev s (lstart (log s))) (lh (log s))\<rparr> \<and> view dev t = view dev s"
proof -
  let ?n = "lstart (log s)" let ?d = "seen dev s ?n"
  have lim: "nrefs dev s ?n + 1 < 2 ^ 32" using assms(2)[unfolded few_refs_def, rule_format, of ?n] by simp
  obtain b s1 where r: "bread dev ?n s = Ok (b, s1)" "live p s1 {b}" "avail s1 = avail s - (if nrefs dev s ?n = 0 then 1 else 0)"
    using bio_live.rd_up[OF assms(1,4) lim] assms(5) by auto
  note h = bio.rd_law[OF assms(1) lim r(1)]
  let ?s2 = "s1\<lparr>log := (log s1)\<lparr>lh := header_of ?d (lh (log s1))\<rparr>\<rparr>"
  have l1: "log s1 = log s" using h by (intro more_log) simp
  have d: "bdata (bufs s1 b) = ?d" using bio.dat_law[of dev s1 b ?n] h by simp
  have c: "cache_ok dev ?s2" "live p ?s2 {b}" "b \<in> {b}" "buf_of dev ?s2 b ?n" "0 < nrefs dev ?s2 ?n" using h r(2) by auto
  have cl: "nrefs dev ?s2 ?n = 1 \<Longrightarrow> seen dev ?s2 ?n = disk ?s2 ?n" using bio.clean[OF assms(1), of ?n] h by simp
  obtain t where t: "brelse b ?s2 = Ok ((), t)" "live p t {}" "avail t = avail ?s2 + (if nrefs dev ?s2 ?n = 1 then 1 else 0)"
    using bio_live.rls_up[OF c] by auto
  note k = bio.rls_law[OF c(1,4,5) cl t(1)]
  have "read_head s = Ok ((), t)" using r(1) t(1) assms(3,6) d by (simp add: read_head_def kern_simps)
  moreover have "avail t = avail s" using t(3) r(3) h assms(5) by auto
  moreover have "log t = log ?s2" using k by (intro more_log) simp
  moreover have "nrefs dev t = nrefs dev s" using k h by (auto simp: fun_eq_iff)
  moreover have "view dev t = view dev s" using k h by (simp add: view_def)
  ultimately show ?thesis using k t(2) l1 by simp
qed

end
