(* ===== verification/Crash_Safety.thy ===== *)
theory Crash_Safety
  imports Log_Crash
begin

text \<open>
  Crash safety of the log. A disk has a meaning of its own: what recovery makes of it (\<open>recovered\<close>). Every disk that
  \<^verbatim>\<open>commit\<close> passes through means the disk from before the transaction or the disk with all its blocks, and every disk that
  recovery passes through means the same as the one it started from.
\<close>

section \<open>The meaning of a disk\<close>

text \<open>The first \<open>k\<close> of a sequence of writes.\<close>

definition patched :: "(nat \<Rightarrow> uint32) \<Rightarrow> (nat \<Rightarrow> uchar list) \<Rightarrow> nat \<Rightarrow> disk \<Rightarrow> disk" where
  "patched a c k D = fold (\<lambda>i E. E(a i := c i)) [0..<k] D"

lemma patched_simps [simp]: "patched a c 0 D = D" "patched a c (Suc k) D = (patched a c k D)(a k := c k)"
  by (simp_all add: patched_def)

lemma patched_other: "(\<And>i. i < k \<Longrightarrow> a i \<noteq> x) \<Longrightarrow> patched a c k D x = D x"
  by (induction k) auto

lemma patched_at: "inj_on a {..<k} \<Longrightarrow> i < k \<Longrightarrow> patched a c k D (a i) = c i"
  by (induction k) (auto simp: inj_on_def less_Suc_eq)

lemma patched_cong: "(\<And>i. i < k \<Longrightarrow> a i = a' i \<and> c i = c' i) \<Longrightarrow> patched a c k D = patched a' c' k D"
  by (induction k) auto

text \<open>A loop of writes, on the cache, the disk and the history.\<close>

lemma fold_put_block:
  assumes "\<And>k. k < n \<Longrightarrow> src (patched a c k b) k = c k"
  shows "fold (\<lambda>i v. put_block (a i) (src (fst v) i) v) [0..<n] (b, d, t) =
    (patched a c n b, patched a c n d, map (\<lambda>k. patched a c k d) (rev [0..<n]) @ t)"
  using assms by (induction n) (auto simp: put_block_def)

definition log_count :: "uint32 \<Rightarrow> disk \<Rightarrow> nat" where
  "log_count start D = nat (sint (get32 (D start) 0))"

definition log_target :: "uint32 \<Rightarrow> disk \<Rightarrow> nat \<Rightarrow> uint32" where
  "log_target start D i = get32 (D start) (4 + 4 * i)"

text \<open>The header on disk fits its block and names different blocks outside the log.\<close>

definition log_wf :: "uint32 \<Rightarrow> disk \<Rightarrow> bool" where
  "log_wf start D \<longleftrightarrow> length (D start) = BSIZE \<and> sint (get32 (D start) 0) \<le> SLOTS \<and>
     inj_on (log_target start D) {..<log_count start D} \<and> (\<forall>i < log_count start D. \<not> in_log start (log_target start D i))"

definition recovered :: "uint32 \<Rightarrow> disk \<Rightarrow> disk" where
  "recovered start D = patched (log_target start D) (\<lambda>i. D (slot start i)) (log_count start D) D"

definition same_home :: "uint32 \<Rightarrow> disk \<Rightarrow> disk \<Rightarrow> bool" where
  "same_home start D E \<longleftrightarrow> (\<forall>n. \<not> in_log start n \<longrightarrow> D n = E n)"

lemma same_home_sym: "same_home start D E \<Longrightarrow> same_home start E D"
  by (simp add: same_home_def)

lemma same_home_trans: "same_home start D E \<Longrightarrow> same_home start E F \<Longrightarrow> same_home start D F"
  by (simp add: same_home_def)

lemma same_home_refl [simp]: "same_home start D D"
  by (simp add: same_home_def)

lemma home_not_start: "\<not> in_log start n \<Longrightarrow> n \<noteq> start"
  using in_log_start by auto

lemma home_not_slot: "\<not> in_log start n \<Longrightarrow> i < nat SLOTS \<Longrightarrow> n \<noteq> slot start i"
  using in_log_slots(1) by auto

text \<open>A header with count zero.\<close>

lemma empty_log:
  assumes "length (D start) = BSIZE" "sint (get32 (D start) 0) = 0"
  shows "log_wf start D" "recovered start D = D"
  using assms by (auto simp: log_wf_def recovered_def log_count_def SLOTS_def LOGSIZE_def MAXOPBLOCKS_def)

text \<open>Before the header is written: some slots have changed.\<close>

lemma meaning_writing:
  assumes "length (d start) = BSIZE" "sint (get32 (d start) 0) = 0" "k \<le> nat SLOTS"
  shows "log_wf start (patched (slot start) c k d)" "same_home start (recovered start (patched (slot start) c k d)) d"
proof -
  let ?D = "patched (slot start) c k d"
  have "?D start = d start" using in_log_slots(2) assms(3) by (intro patched_other) auto
  then have e: "log_wf start ?D" "recovered start ?D = ?D" using empty_log[of ?D start] assms by auto
  show "log_wf start ?D" by (rule e)
  show "same_home start (recovered start ?D) d" unfolding e(2) same_home_def
  proof (intro allI impI patched_other)
    fix x i assume "\<not> in_log start x" "i < k"
    then show "slot start i \<noteq> x" using in_log_slots(1)[of i start] assms(3) by auto
  qed
qed

text \<open>Once the header is written: the slots hold the new contents, some home blocks have them already.\<close>

lemma meaning_installing:
  assumes "length H = BSIZE" "sint (get32 H 0) = int n" "\<And>i. i < n \<Longrightarrow> get32 H (4 + 4 * i) = a i" "int n \<le> SLOTS"
    "inj_on a {..<n}" "\<And>i. i < n \<Longrightarrow> \<not> in_log start (a i)" "\<And>i. i < n \<Longrightarrow> E (slot start i) = c i" "k \<le> n"
  shows "log_wf start (patched a c k (E(start := H)))"
    "same_home start (recovered start (patched a c k (E(start := H)))) (patched a c n E)"
proof -
  let ?D = "patched a c k (E(start := H))"
  have n: "n \<le> nat SLOTS" using assms(4) by simp
  have out: "a i \<noteq> x" if "i < k" "in_log start x" for i x using assms(6)[of i] assms(8) that by auto
  have st: "?D start = H" using patched_other[of k a start c "E(start := H)", OF out] in_log_start by simp
  have sl: "?D (slot start i) = c i" if "i < n" for i
    using patched_other[of k a "slot start i" c "E(start := H)", OF out] in_log_slots(1,2)[of i start] assms(7) n that by simp
  have cnt: "log_count start ?D = n" by (simp add: log_count_def st assms(2))
  have tgt: "i < n \<Longrightarrow> log_target start ?D i = a i" for i by (simp add: log_target_def st assms(3))
  show "log_wf start ?D" using assms(1,2,4,5,6) tgt by (simp add: log_wf_def cnt st inj_on_def)
  have "recovered start ?D = patched a c n ?D" unfolding recovered_def cnt using tgt sl by (intro patched_cong) auto
  moreover have "patched a c n ?D x = patched a c n E x" if "\<not> in_log start x" for x
  proof (cases "\<exists>i < n. a i = x")
    case True
    then show ?thesis using patched_at[OF assms(5)] by auto
  next
    case False
    then have "\<And>i. i < n \<Longrightarrow> a i \<noteq> x" "\<And>i. i < k \<Longrightarrow> a i \<noteq> x" using assms(8) by auto
    then show ?thesis using home_not_start[OF that] by (simp add: patched_other)
  qed
  ultimately show "same_home start (recovered start ?D) (patched a c n E)" by (simp add: same_home_def)
qed

section \<open>The header block\<close>

lemma put_blocks_get:
  assumes "\<And>i. i \<in> set ks \<Longrightarrow> 8 + 4 * i \<le> length d" "distinct ks"
  shows "length (put_blocks d f ks) = length d"
    "4 \<le> length d \<Longrightarrow> get32 (put_blocks d f ks) 0 = get32 d 0"
    "8 + 4 * j \<le> length d \<Longrightarrow> get32 (put_blocks d f ks) (4 + 4 * j) = (if j \<in> set ks then f j else get32 d (4 + 4 * j))"
  using assms
proof (induction ks arbitrary: d)
  case (Cons i ks)
  case 1
  then show ?case using Cons.IH(1)[of "put32 d (4 + 4 * i) (f i)"] by simp
next
  case (Cons i ks)
  case 2
  then show ?case using Cons.IH(2)[of "put32 d (4 + 4 * i) (f i)"] by (simp add: get32_put_other)
next
  case (Cons i ks)
  case 3
  have "j \<noteq> i \<Longrightarrow> 4 + 4 * j + 4 \<le> 4 + 4 * i \<or> 4 + 4 * i + 4 \<le> 4 + 4 * j" by arith
  then show ?case using 3 Cons.IH(3)[of "put32 d (4 + 4 * i) (f i)"] get32_put_other[of "4 + 4 * i" "bytes32 (f i)" d "4 + 4 * j"]
    by (cases "j = i") auto
qed simp_all

lemma header_bytes_get:
  assumes "length d = BSIZE" "0 \<le> lhn h" "lhn h \<le> SLOTS"
  shows "length (header_bytes h d) = BSIZE" "sint (get32 (header_bytes h d) 0) = lhn h"
    "i < nat (lhn h) \<Longrightarrow> get32 (header_bytes h d) (4 + 4 * i) = lhblock h i"
proof -
  let ?d = "put32 d 0 (word_of_int (lhn h))"
  have l: "length ?d = 1024" using assms(1) by (simp add: BSIZE_def)
  have b: "8 + 4 * i \<le> length ?d" if "i \<in> set [0..<nat (lhn h)]" for i
    using that assms(3) l by (simp add: SLOTS_def LOGSIZE_def MAXOPBLOCKS_def)
  note p = put_blocks_get[OF b, where f = "lhblock h" and ks = "[0..<nat (lhn h)]"]
  show "length (header_bytes h d) = BSIZE" using p(1) l by (simp add: header_bytes_def BSIZE_def)
  have "get32 (header_bytes h d) 0 = word_of_int (lhn h)" using p(2) l assms(1) by (simp add: header_bytes_def BSIZE_def)
  moreover have "sint (word_of_int (lhn h) :: uint32) = lhn h"
    using assms(2,3) by (simp add: sint_uint uint_word_of_int signed_take_bit_eq_take_bit_shift take_bit_eq_mod SLOTS_def LOGSIZE_def MAXOPBLOCKS_def)
  ultimately show "sint (get32 (header_bytes h d) 0) = lhn h" by simp
  show "get32 (header_bytes h d) (4 + 4 * i) = lhblock h i" if "i < nat (lhn h)"
    using p(3)[of i] b[of i] that by (simp add: header_bytes_def)
qed

section \<open>Commit\<close>

text \<open>
  The log of device \<open>dev\<close> at the time of a commit: the header in memory names different blocks outside the log, each
  pinned in the cache, and the header on disk is empty.
\<close>

definition txn_ok :: "uint32 \<Rightarrow> 'z log_state_scheme \<Rightarrow> bool" where
  "txn_ok dev s \<longleftrightarrow> (let l = log s; n = lhn (lh l) in
     ldev l = dev \<and> 0 \<le> n \<and> n \<le> SLOTS \<and> inj_on (lhblock (lh l)) {..<nat n} \<and>
     (\<forall>i < nat n. \<not> in_log (lstart l) (lhblock (lh l) i) \<and> 0 < nrefs dev s (lhblock (lh l) i)) \<and>
     nrefs dev s (lstart l) = 0 \<and> length (disk s (lstart l)) = BSIZE \<and> sint (get32 (disk s (lstart l)) 0) = 0 \<and> lsize l \<le> LOGSIZE)"

lemma txn_okD:
  assumes "txn_ok dev s"
  shows "ldev (log s) = dev" "0 \<le> lhn (lh (log s))" "lhn (lh (log s)) \<le> SLOTS" "inj_on (lhblock (lh (log s))) {..<nat (lhn (lh (log s)))}"
    "i < nat (lhn (lh (log s))) \<Longrightarrow> \<not> in_log (lstart (log s)) (lhblock (lh (log s)) i)"
    "i < nat (lhn (lh (log s))) \<Longrightarrow> 0 < nrefs dev s (lhblock (lh (log s)) i)"
    "nrefs dev s (lstart (log s)) = 0" "length (disk s (lstart (log s))) = BSIZE" "sint (get32 (disk s (lstart (log s))) 0) = 0" "lsize (log s) \<le> LOGSIZE"
  using assms by (simp_all add: txn_ok_def Let_def)

text \<open>The disk with the transaction installed.\<close>

definition txn_disk :: "uint32 \<Rightarrow> 'z log_state_scheme \<Rightarrow> disk" where
  "txn_disk dev s = (\<lambda>n. if n \<in> lhblock (lh (log s)) ` {..<nat (lhn (lh (log s)))} then seen dev s n else disk s n)"

text \<open>The disks that commit passes through, and the two headers it writes.\<close>

abbreviation txn_len :: "'z log_state_scheme \<Rightarrow> nat" where
  "txn_len s \<equiv> nat (lhn (lh (log s)))"

definition txn_data :: "uint32 \<Rightarrow> 'z log_state_scheme \<Rightarrow> nat \<Rightarrow> uchar list" where
  "txn_data dev s i = seen dev s (lhblock (lh (log s)) i)"

definition full_header :: "'z log_state_scheme \<Rightarrow> uchar list" where
  "full_header s = header_bytes (lh (log s)) (disk s (lstart (log s)))"

definition done_header :: "'z log_state_scheme \<Rightarrow> uchar list" where
  "done_header s = header_bytes ((lh (log s))\<lparr>lhn := 0\<rparr>) (full_header s)"

definition logged :: "uint32 \<Rightarrow> 'z log_state_scheme \<Rightarrow> nat \<Rightarrow> disk \<Rightarrow> disk" where
  "logged dev s k D = patched (slot (lstart (log s))) (txn_data dev s) k D"

definition installed :: "uint32 \<Rightarrow> 'z log_state_scheme \<Rightarrow> nat \<Rightarrow> disk \<Rightarrow> disk" where
  "installed dev s k D = patched (lhblock (lh (log s))) (txn_data dev s) k ((logged dev s (txn_len s) D)(lstart (log s) := full_header s))"

lemma txn_blocks:
  assumes "txn_ok dev s" "i < txn_len s"
  shows "j < txn_len s \<Longrightarrow> lhblock (lh (log s)) j \<noteq> slot (lstart (log s)) i" "slot (lstart (log s)) i \<noteq> lstart (log s)"
    "lhblock (lh (log s)) i \<noteq> lstart (log s)" "inj_on (slot (lstart (log s))) {..<txn_len s}"
proof -
  note x = txn_okD[OF assms(1)]
  have nl: "txn_len s \<le> nat SLOTS" using x(3) by simp
  show "lhblock (lh (log s)) j \<noteq> slot (lstart (log s)) i" if "j < txn_len s"
    using in_log_slots(1)[of i "lstart (log s)"] x(5)[of j] that assms(2) nl by auto
  show "slot (lstart (log s)) i \<noteq> lstart (log s)" using in_log_slots(2)[of i "lstart (log s)"] assms(2) nl by simp
  show "lhblock (lh (log s)) i \<noteq> lstart (log s)" using home_not_start[OF x(5)] assms(2) by simp
  show "inj_on (slot (lstart (log s))) {..<txn_len s}" using in_log_slots(3)[of _ _ "lstart (log s)"] nl by (fastforce simp: inj_on_def)
qed

text \<open>The first half of a commit: the slots and the header.\<close>

lemma commit_logs:
  fixes s :: "'z log_state_scheme"
  assumes "cache_ok dev s" "few_refs dev s" "live p s {}" "0 < avail s" "txn_ok dev s"
  shows "\<exists>s1 s2. write_log s = Ok ((), s1) \<and> write_head s1 = Ok ((), s2) \<and>
     live p s2 {} \<and> avail s2 = avail s \<and> cache_ok dev s2 \<and> nrefs dev s2 = nrefs dev s \<and> log s2 = log s \<and>
     view dev s2 = ((logged dev s (txn_len s) (seen dev s))(lstart (log s) := full_header s),
       (logged dev s (txn_len s) (disk s))(lstart (log s) := full_header s),
       logged dev s (txn_len s) (disk s) # map (\<lambda>k. logged dev s k (disk s)) (rev [0..<txn_len s]) @ dtrace s)"
proof -
  note x = txn_okD[OF assms(5)] and y = txn_blocks[OF assms(5)]
  let ?n = "txn_len s" and ?start = "lstart (log s)" let ?D1 = "\<lambda>k. logged dev s k (disk s)"
  have ts: "slot ?start i \<noteq> lhblock (lh (log s)) i" if "i \<in> set [0..<?n]" for i using y(1)[of i i] that by (metis atLeastLessThan_iff set_upt)
  have pins: "0 < nrefs dev s (lhblock (lh (log s)) i)" if "i \<in> set [0..<?n]" for i using x(6)[of i] that by simp
  obtain s1 where s1: "write_log_from [0..<?n] s = Ok ((), s1)" "live p s1 {}" "avail s1 = avail s"
    using write_log_from_up[OF assms(1,2) x(1) assms(3,4) ts pins] by blast
  note v1 = write_log_from_view[OF assms(1,2) x(1) s1(1) ts]
  have "logged dev s k (seen dev s) (lhblock (lh (log s)) k) = txn_data dev s k" if "k < ?n" for k
    unfolding logged_def txn_data_def using y(1)[of _ k] that by (intro patched_other) (metis less_trans)
  then have w1: "view dev s1 = (logged dev s ?n (seen dev s), ?D1 ?n, map ?D1 (rev [0..<?n]) @ dtrace s)"
    using v1 fold_put_block[of ?n "\<lambda>b i. b (lhblock (lh (log s)) i)" "slot ?start" "txn_data dev s" "seen dev s" "disk s" "dtrace s"]
    by (simp add: view_def logged_def)
  have st1: "seen dev s1 ?start = disk s ?start"
    using w1 bio.clean[OF assms(1) x(7)] patched_other[of ?n "slot ?start" ?start] y(2) by (simp add: view_def logged_def)
  have f1: "cache_ok dev s1" "few_refs dev s1" "ldev (log s1) = dev" "0 < avail s1" using v1 assms(2,4) s1(3) x(1) by (auto simp: few_refs_def)
  obtain s2 where "write_head s1 = Ok ((), s2)" "live p s2 {}" "avail s2 = avail s" "cache_ok dev s2" "nrefs dev s2 = nrefs dev s" "log s2 = log s"
      "view dev s2 = put_block ?start (full_header s) (view dev s1)"
    using write_head_up[OF f1(1-3) s1(2) f1(4)] v1 s1(3) st1 by (auto simp: full_header_def)
  then show ?thesis using s1(1) w1 by (intro exI[of _ s1] exI[of _ s2]) (simp add: write_log_def kern_simps put_block_def)
qed

text \<open>The second half: the home blocks and the empty header.\<close>

lemma commit_installs:
  fixes s :: "'z log_state_scheme"
  assumes "txn_ok dev s" "cache_ok dev s2" "few_refs dev s2" "live p s2 {}" "0 < avail s2" "nrefs dev s2 = nrefs dev s" "log s2 = log s"
     "view dev s2 = ((logged dev s (txn_len s) b)(lstart (log s) := full_header s), (logged dev s (txn_len s) d)(lstart (log s) := full_header s), tr)"
  shows "\<exists>s3 t. install_trans False s2 = Ok ((), s3) \<and> write_head (s3\<lparr>log := (log s3)\<lparr>lh := (lh (log s3))\<lparr>lhn := 0\<rparr>\<rparr>\<rparr>) = Ok ((), t) \<and>
     cache_ok dev t \<and> few_refs dev t \<and> live p t {} \<and> avail s2 \<le> avail t \<and> log t = (log s)\<lparr>lh := (lh (log s))\<lparr>lhn := 0\<rparr>\<rparr> \<and>
     view dev t = ((installed dev s (txn_len s) b)(lstart (log s) := done_header s), (installed dev s (txn_len s) d)(lstart (log s) := done_header s),
       installed dev s (txn_len s) d # map (\<lambda>k. installed dev s k d) (rev [0..<txn_len s]) @ tr)"
proof -
  note x = txn_okD[OF assms(1)] and y = txn_blocks[OF assms(1)]
  let ?n = "txn_len s" and ?start = "lstart (log s)" and ?a = "lhblock (lh (log s))" and ?c = "txn_data dev s"
  have ts: "slot (lstart (log s2)) i \<noteq> lhblock (lh (log s2)) i" "0 < nrefs dev s2 (lhblock (lh (log s2)) i)" if "i \<in> set [0..<?n]" for i
    using y(1)[of i i] x(6)[of i] that assms(6,7) by auto
  have inj: "inj_on (lhblock (lh (log s2))) (set [0..<?n])" using x(4) assms(7) by (simp add: atLeast_upt)
  have l2: "ldev (log s2) = dev" using assms(7) x(1) by simp
  obtain s3 where s3: "install_trans_from False [0..<?n] s2 = Ok ((), s3)" "live p s3 {}" "avail s2 \<le> avail s3"
    using install_from_up[OF assms(2,3) l2 assms(4) _ distinct_upt ts(1) inj ts(2), of False] assms(5) by auto
  note v3 = install_trans_from_view[OF assms(2,3) l2 s3(1) distinct_upt ts(1) inj ts(2)]
  let ?b = "(logged dev s ?n b)(?start := full_header s)"
  have "patched ?a ?c k ?b (slot ?start k) = ?c k" if k: "k < ?n" for k
  proof -
    have "patched ?a ?c k ?b (slot ?start k) = ?b (slot ?start k)" using y(1)[OF k] k by (intro patched_other) simp
    then show ?thesis using y(2)[OF k] patched_at[OF y(4)[OF k] k, of ?c b] by (simp add: logged_def)
  qed
  then have w3: "view dev s3 = (installed dev s ?n b, installed dev s ?n d, map (\<lambda>k. installed dev s k d) (rev [0..<?n]) @ tr)"
    using v3 assms(7,8) fold_put_block[of ?n "\<lambda>b i. b (slot ?start i)" ?a ?c ?b "(logged dev s ?n d)(?start := full_header s)" tr]
    by (simp add: installed_def)
  let ?s4 = "s3\<lparr>log := (log s3)\<lparr>lh := (lh (log s3))\<lparr>lhn := 0\<rparr>\<rparr>\<rparr>"
  have l3: "log s3 = log s" using v3 assms(7) by simp
  have f4: "cache_ok dev ?s4" "few_refs dev ?s4" "ldev (log ?s4) = dev" "live p ?s4 {}" "0 < avail ?s4"
    using v3 s3(2,3) assms(5) x(1) l3 by auto
  have "seen dev s3 ?start = full_header s" using w3 patched_other[of ?n ?a ?start ?c ?b] y(3) by (simp add: view_def installed_def)
  then obtain t where t: "write_head ?s4 = Ok ((), t)" "live p t {}" "avail t = avail s3" "cache_ok dev t" "nrefs dev t = nrefs dev ?s4" "log t = log ?s4"
      "view dev t = put_block ?start (done_header s) (view dev s3)"
    using write_head_up[OF f4] l3 by (auto simp: done_header_def)
  have "install_trans False s2 = Ok ((), s3)" using s3(1) assms(7) by (simp add: install_trans_def kern_simps)
  moreover have "few_refs dev t" using f4(2) t(5) by (simp add: few_refs_def)
  ultimately show ?thesis using t s3(3) l3 w3 by (intro exI[of _ s3] exI[of _ t]) (simp add: put_block_def)
qed

lemma commit_views:
  fixes s :: "'z log_state_scheme"
  assumes "cache_ok dev s" "few_refs dev s" "live p s {}" "0 < avail s" "txn_ok dev s" "0 < lhn (lh (log s))"
  shows "\<exists>t. commit s = Ok ((), t) \<and> cache_ok dev t \<and> few_refs dev t \<and> live p t {} \<and> avail s \<le> avail t \<and>
     log t = (log s)\<lparr>lh := (lh (log s))\<lparr>lhn := 0\<rparr>\<rparr> \<and>
     seen dev t = (installed dev s (txn_len s) (seen dev s))(lstart (log s) := done_header s) \<and>
     disk t = (installed dev s (txn_len s) (disk s))(lstart (log s) := done_header s) \<and>
     dtrace t = (installed dev s (txn_len s) (disk s) # map (\<lambda>k. installed dev s k (disk s)) (rev [0..<txn_len s]) @
       logged dev s (txn_len s) (disk s) # map (\<lambda>k. logged dev s k (disk s)) (rev [0..<txn_len s])) @ dtrace s"
proof -
  obtain s1 s2 where s2: "write_log s = Ok ((), s1)" "write_head s1 = Ok ((), s2)" "live p s2 {}" "avail s2 = avail s" "cache_ok dev s2"
      "nrefs dev s2 = nrefs dev s" "log s2 = log s"
      "view dev s2 = ((logged dev s (txn_len s) (seen dev s))(lstart (log s) := full_header s),
       (logged dev s (txn_len s) (disk s))(lstart (log s) := full_header s),
       logged dev s (txn_len s) (disk s) # map (\<lambda>k. logged dev s k (disk s)) (rev [0..<txn_len s]) @ dtrace s)"
    using commit_logs[OF assms(1-5)] by blast
  have f: "few_refs dev s2" "0 < avail s2" using assms(2,4) s2(4,6) by (auto simp: few_refs_def)
  obtain s3 t where t: "install_trans False s2 = Ok ((), s3)" "write_head (s3\<lparr>log := (log s3)\<lparr>lh := (lh (log s3))\<lparr>lhn := 0\<rparr>\<rparr>\<rparr>) = Ok ((), t)"
      "cache_ok dev t" "few_refs dev t" "live p t {}" "avail s2 \<le> avail t" "log t = (log s)\<lparr>lh := (lh (log s))\<lparr>lhn := 0\<rparr>\<rparr>"
      "view dev t = ((installed dev s (txn_len s) (seen dev s))(lstart (log s) := done_header s),
       (installed dev s (txn_len s) (disk s))(lstart (log s) := done_header s),
       installed dev s (txn_len s) (disk s) # map (\<lambda>k. installed dev s k (disk s)) (rev [0..<txn_len s]) @
       logged dev s (txn_len s) (disk s) # map (\<lambda>k. logged dev s k (disk s)) (rev [0..<txn_len s]) @ dtrace s)"
    using commit_installs[OF assms(5) s2(5) f(1) s2(3) f(2) s2(6-8)] by blast
  have "commit s = Ok ((), t)" using assms(6) s2(1,2) t(1,2) by (simp add: commit_def kern_simps clear_log_def)
  then show ?thesis using t(3-8) s2(4) by (simp add: view_def)
qed

lemma header_empty:
  assumes "length d = BSIZE"
  shows "length (header_bytes (h\<lparr>lhn := 0\<rparr>) d) = BSIZE" "sint (get32 (header_bytes (h\<lparr>lhn := 0\<rparr>) d) 0) = 0"
  using header_bytes_get[OF assms, of "h\<lparr>lhn := 0\<rparr>"] by (simp_all add: SLOTS_def LOGSIZE_def MAXOPBLOCKS_def)

lemma commit_meaning:
  fixes s :: "'z log_state_scheme"
  assumes "cache_ok dev s" "few_refs dev s" "live p s {}" "0 < avail s" "txn_ok dev s"
  defines "start \<equiv> lstart (log s)"
  shows "\<exists>t ds. commit s = Ok ((), t) \<and> cache_ok dev t \<and> few_refs dev t \<and> live p t {} \<and> lhn (lh (log t)) = 0 \<and>
     same_home start (disk t) (txn_disk dev s) \<and> same_home start (seen dev t) (seen dev s) \<and> dtrace t = ds @ dtrace s \<and>
     (\<forall>D \<in> set (disk t # ds). log_wf start D \<and>
        (same_home start (recovered start D) (disk s) \<or> same_home start (recovered start D) (txn_disk dev s)))"
proof (cases "lhn (lh (log s)) = 0")
  case True
  then show ?thesis using assms(1-3) empty_log[of "disk s" "lstart (log s)", OF txn_okD(8,9)[OF assms(5)]]
    by (intro exI[of _ s] exI[of _ "[]"]) (simp add: commit_def kern_simps txn_disk_def start_def)
next
  case False
  note x = txn_okD[OF assms(5)]
  let ?a = "lhblock (lh (log s))" and ?n = "txn_len s" and ?c = "txn_data dev s" and ?H = "full_header s"
  let ?D1 = "\<lambda>k. logged dev s k (disk s)" and ?D2 = "\<lambda>k. installed dev s k (disk s)"
  have d1_eq: "?D1 k = patched (slot start) ?c k (disk s)" and d2_eq: "?D2 k = patched ?a ?c k ((?D1 ?n)(start := ?H))" for k
    by (simp_all add: logged_def installed_def start_def)
  have "0 < lhn (lh (log s))" using False x(2) by simp
  from commit_views[OF assms(1-5) this, folded start_def]
  obtain t where t: "commit s = Ok ((), t)" "cache_ok dev t" "few_refs dev t" "live p t {}" "log t = (log s)\<lparr>lh := (lh (log s))\<lparr>lhn := 0\<rparr>\<rparr>"
    "seen dev t = (installed dev s ?n (seen dev s))(start := done_header s)" "disk t = (?D2 ?n)(start := done_header s)"
    "dtrace t = (?D2 ?n # map ?D2 (rev [0..<?n]) @ ?D1 ?n # map ?D1 (rev [0..<?n])) @ dtrace s" by blast
  have nl: "?n \<le> nat SLOTS" "int ?n \<le> SLOTS" using x(2,3) by auto
  have sl: "slot start i \<noteq> y" if "i < ?n" "\<not> in_log start y" for i y using in_log_slots(1)[of i start] nl that by auto
  have home: "patched ?a ?c ?n (E(start := G)) y = (if y \<in> ?a ` {..<?n} then seen dev s y else E y)" if "\<not> in_log start y" for y E G
    using patched_at[OF x(4), of _ ?c] patched_other[of ?n ?a y ?c "E(start := G)"] home_not_start[OF that] by (auto simp: txn_data_def)
  have d1: "logged dev s ?n E y = E y" if "\<not> in_log start y" for y E
    unfolding logged_def start_def[symmetric] using sl that by (intro patched_other) auto
  have new: "same_home start (?D2 ?n) (txn_disk dev s)" unfolding d2_eq using home d1 by (simp add: same_home_def txn_disk_def)
  have inst: "same_home start (patched ?a ?c ?n (?D1 ?n)) (txn_disk dev s)"
    using home[where E = "?D1 ?n" and G = "?D1 ?n start"] d1 by (simp add: same_home_def txn_disk_def)
  have sls: "?D1 ?n (slot start i) = ?c i" if "i < ?n" for i
    unfolding d1_eq using in_log_slots(3)[of _ _ start] nl that by (intro patched_at) (fastforce simp: inj_on_def)+
  note hb = header_bytes_get[OF x(8) x(2,3), folded full_header_def]
  have w: "log_wf start (?D1 k)" "same_home start (recovered start (?D1 k)) (disk s)" if "k \<le> ?n" for k
    unfolding d1_eq using meaning_writing[of "disk s" start, OF x(8,9)[folded start_def], of k ?c] nl that by auto
  have c: "log_wf start (?D2 k)" "same_home start (recovered start (?D2 k)) (txn_disk dev s)" if "k \<le> ?n" for k
    unfolding d2_eq using meaning_installing[of ?H ?n ?a start "?D1 ?n" ?c k, OF hb(1) _ hb(3) nl(2) x(4) x(5)[folded start_def] sls that] hb(2) x(2) same_home_trans[OF _ inst] by auto
  have e: "log_wf start (disk t)" "recovered start (disk t) = disk t" using empty_log[of "disk t" start] header_empty[OF hb(1), of "lh (log s)", folded done_header_def] t(7) by auto
  have ht: "same_home start (disk t) (txn_disk dev s)" using new t(7) home_not_start by (auto simp: same_home_def)
  have "installed dev s ?n (seen dev s) y = seen dev s y" if "\<not> in_log start y" for y
    unfolding installed_def start_def[symmetric] using home[OF that] d1[OF that] by simp
  then have "same_home start (seen dev t) (seen dev s)" unfolding t(6) using home_not_start by (auto simp: same_home_def)
  moreover have "log_wf start D \<and> (same_home start (recovered start D) (disk s) \<or> same_home start (recovered start D) (txn_disk dev s))"
    if "D \<in> set (disk t # ?D2 ?n # map ?D2 (rev [0..<?n]) @ ?D1 ?n # map ?D1 (rev [0..<?n]))" for D
    using that w c e ht by auto
  ultimately show ?thesis using t(1-5,8) ht by (intro exI[of _ t] exI) (auto simp del: set_simps)
qed

section \<open>Recovery\<close>

text \<open>After a restart: nothing is cached as referenced, and there is room for the two buffers that recovery uses at a time.\<close>

definition cold :: "uint32 \<Rightarrow> nat \<Rightarrow> 'z log_state_scheme \<Rightarrow> bool" where
  "cold dev p s \<longleftrightarrow> cache_ok dev s \<and> (\<forall>n. nrefs dev s n = 0) \<and> live p s {} \<and> 2 \<le> avail s"

lemma cold_seen: "cold dev p s \<Longrightarrow> seen dev s = disk s"
  by (rule ext, rule bio.clean) (simp_all add: cold_def)

lemma initlock_free: "lock_free l c \<Longrightarrow> initlock l c = c"
  using lock_free_record[of l c] by (cases c) (simp add: initlock_def fun_upd_idem)

lemma recovery_disks:
  assumes "log_wf start d" "length H = BSIZE" "sint (get32 H 0) = 0"
  defines "n \<equiv> log_count start d"
  defines "part \<equiv> \<lambda>k. patched (log_target start d) (\<lambda>i. d (slot start i)) k d"
  shows "k \<le> n \<Longrightarrow> log_wf start (part k) \<and> same_home start (recovered start (part k)) (recovered start d)"
    "log_wf start ((part n)(start := H)) \<and> same_home start (recovered start ((part n)(start := H))) (recovered start d)"
proof -
  have rec: "recovered start d = part n" by (simp add: recovered_def n_def part_def)
  have "recovered start ((part n)(start := H)) = (part n)(start := H)" "log_wf start ((part n)(start := H))"
    using empty_log[of "(part n)(start := H)" start] assms(2,3) by auto
  then show "log_wf start ((part n)(start := H)) \<and> same_home start (recovered start ((part n)(start := H))) (recovered start d)"
    unfolding rec using home_not_start by (auto simp: same_home_def)
  show "log_wf start (part k) \<and> same_home start (recovered start (part k)) (recovered start d)" if "k \<le> n"
  proof (cases "n = 0")
    case True
    then show ?thesis using that assms(1) by (simp add: part_def)
  next
    case False
    then have h: "sint (get32 (d start) 0) = int n" "int n \<le> SLOTS" using assms(1) by (auto simp: n_def log_count_def log_wf_def)
    have w: "length (d start) = BSIZE" "inj_on (log_target start d) {..<n}" "\<And>i. i < n \<Longrightarrow> \<not> in_log start (log_target start d i)"
      using assms(1) by (auto simp: log_wf_def n_def)
    show ?thesis unfolding rec
      using meaning_installing[of "d start" n "log_target start d" start d "\<lambda>i. d (slot start i)" k, OF w(1) h(1) _ h(2) w(2,3) _ that]
      by (simp add: log_target_def part_def fun_upd_idem)
  qed
qed

lemma recovery_meaning:
  fixes s :: "'z log_state_scheme"
  assumes "cold dev p s" "log_wf start (disk s)" "ldev (log s) = dev" "lstart (log s) = start"
  shows "\<exists>t ds. recover_from_log s = Ok ((), t) \<and> cold dev p t \<and> lhn (lh (log t)) = 0 \<and> dtrace t = ds @ dtrace s \<and>
     length (disk t start) = BSIZE \<and> sint (get32 (disk t start) 0) = 0 \<and>
     (\<forall>D \<in> set (disk t # ds). log_wf start D \<and> same_home start (recovered start D) (recovered start (disk s)))"
proof -
  have s: "cache_ok dev s" "few_refs dev s" "live p s {}" "2 \<le> avail s" "seen dev s = disk s" "\<And>m. nrefs dev s m = 0"
    using assms(1) cold_seen[OF assms(1)] by (auto simp: cold_def few_refs_def)
  define n a c where "n = log_count start (disk s)" and "a = log_target start (disk s)" and "c = (\<lambda>i. disk s (slot start i))"
  let ?D = "\<lambda>k. patched a c k (disk s)"
  have w: "length (disk s start) = BSIZE" "sint (get32 (disk s start) 0) \<le> SLOTS" "inj_on a {..<n}" "\<And>i. i < n \<Longrightarrow> \<not> in_log start (a i)"
    using assms(2) by (auto simp: log_wf_def n_def a_def)
  have nl: "n \<le> nat SLOTS" using w(2) by (simp add: n_def log_count_def)
  have ca: "slot start i \<noteq> a j" if "i < n" "j < n" for i j using in_log_slots(1)[of i start] w(4)[of j] that nl by auto
  \<comment> \<open>the header is read\<close>
  have "sint (get32 (seen dev s (lstart (log s))) 0) \<le> LOGSIZE" "0 < avail s" using w(2) s(4,5) assms(4) by (auto simp: SLOTS_def)
  from read_head_up[OF s(1,2) assms(3) s(3) this(2,1)]
  obtain s1 where s1: "read_head s = Ok ((), s1)" "live p s1 {}" "avail s1 = avail s" "cache_ok dev s1" "nrefs dev s1 = nrefs dev s"
    "log s1 = (log s)\<lparr>lh := header_of (disk s start) (lh (log s))\<rparr>" "view dev s1 = (disk s, disk s, dtrace s)"
    using s(5) assms(4) by (auto simp: view_def)
  have l1: "lhn (lh (log s1)) = sint (get32 (disk s start) 0)" "lstart (log s1) = start" "ldev (log s1) = dev" "\<And>i. i < n \<Longrightarrow> lhblock (lh (log s1)) i = a i"
    using s1(6) assms(3,4) by (auto simp: header_of_def Let_def n_def a_def log_count_def log_target_def)
  \<comment> \<open>the blocks are installed\<close>
  have f1: "few_refs dev s1" "(if True then 2 else 1) \<le> avail s1" using s(2,4) s1(3,5) by (auto simp: few_refs_def)
  have ts: "slot (lstart (log s1)) i \<noteq> lhblock (lh (log s1)) i" if "i \<in> set [0..<n]" for i using that ca[of i i] l1(2,4) by simp
  have inj: "inj_on (lhblock (lh (log s1))) (set [0..<n])" using w(3) l1(4) by (auto simp: inj_on_def)
  obtain s2 where s2: "install_trans_from True [0..<n] s1 = Ok ((), s2)" "live p s2 {}" "avail s1 \<le> avail s2"
    using install_from_up[OF s1(4) f1(1) l1(3) s1(2) f1(2) distinct_upt ts inj] by auto
  have v2: "cache_ok dev s2" "few_refs dev s2" "log s2 = log s1" "nrefs dev s2 = nrefs dev s1"
     "view dev s2 = fold (\<lambda>i v. put_block (lhblock (lh (log s1)) i) (fst v (slot start i)) v) [0..<n] (view dev s1)"
    using install_trans_from_view[OF s1(4) f1(1) l1(3) s2(1) distinct_upt ts inj] l1(2) by auto
  have "fold (\<lambda>i v. put_block (lhblock (lh (log s1)) i) (fst v (slot start i)) v) [0..<n] v =
     fold (\<lambda>i v. put_block (a i) (fst v (slot start i)) v) [0..<n] v" for v by (rule fold_cong) (auto simp: l1(4))
  moreover have "?D k (slot start k) = c k" if "k < n" for k
    unfolding c_def using ca[of k] that by (intro patched_other) (metis less_trans)
  ultimately have w2: "view dev s2 = (?D n, ?D n, map ?D (rev [0..<n]) @ dtrace s)"
    using v2(5) s1(7) fold_put_block[of n "\<lambda>b i. b (slot start i)" a c "disk s" "disk s" "dtrace s"] by simp
  \<comment> \<open>the log is cleared\<close>
  let ?s3 = "s2\<lparr>log := (log s2)\<lparr>lh := (lh (log s2))\<lparr>lhn := 0\<rparr>\<rparr>\<rparr>"
  have Ds: "?D k start = disk s start" if "k \<le> n" for k using home_not_start[OF w(4)] that by (intro patched_other) simp
  have f3: "cache_ok dev ?s3" "few_refs dev ?s3" "ldev (log ?s3) = dev" "live p ?s3 {}" "0 < avail ?s3"
    using v2 s2(2,3) s1(3) s(4) l1(3) by auto
  have st: "seen dev s2 start = disk s start" using w2 Ds[of n] by (simp add: view_def)
  let ?H = "header_bytes ((lh (log s1))\<lparr>lhn := 0\<rparr>) (disk s start)"
  obtain t where t: "write_head ?s3 = Ok ((), t)" "live p t {}" "avail t = avail s2" "cache_ok dev t" "nrefs dev t = nrefs dev ?s3" "log t = log ?s3"
      "view dev t = put_block start ?H (view dev s2)"
    using write_head_up[OF f3] v2(3) l1(2) st by auto
  have ok: "recover_from_log s = Ok ((), t)"
    using s1(1) s2(1) t(1) l1(1) by (simp add: recover_from_log_def kern_simps install_trans_def clear_log_def n_def log_count_def)
  have dt: "disk t = (?D n)(start := ?H)" "dtrace t = (?D n # map ?D (rev [0..<n])) @ dtrace s"
    using t(7) w2 by (auto simp: view_def put_block_def)
  have cold: "cold dev p t" using t(2-5) s2(3) s1(3,5) s(4,6) v2(4) by (simp add: cold_def)
  note he = header_empty[OF w(1), of "lh (log s1)"]
  note r = recovery_disks[OF assms(2) he, folded n_def a_def c_def]
  have "log_wf start D \<and> same_home start (recovered start D) (recovered start (disk s))" if "D \<in> set (disk t # ?D n # map ?D (rev [0..<n]))" for D
    using that r(1) r(2) dt(1) by auto
  then show ?thesis using ok cold dt t(6) he by (intro exI[of _ t] exI[of _ "?D n # map ?D (rev [0..<n])"]) simp
qed

lemma initlog_recovers:
  assumes "cold dev p s"
  shows "initlog dev sb s = recover_from_log (s\<lparr>log := (log s)\<lparr>lstart := sb_logstart sb, lsize := sint (sb_nlog sb), ldev := dev\<rparr>\<rparr>)"
proof -
  have "live p s {}" using assms by (simp add: cold_def)
  then have "lock_free LLog (kcore s)" by (rule quietD(3)[OF liveD(1)])
  then have "initlock LLog (kcore s) = kcore s" by (rule initlock_free)
  then show ?thesis by (simp add: initlog_def kern_simps SLOTS_def LOGSIZE_def MAXOPBLOCKS_def BSIZE_def split_def obind_unit)
qed

lemma initlog_meaning:
  assumes "cold dev p s" "log_wf (sb_logstart sb) (disk s)"
  shows "\<exists>t ds. initlog dev sb s = Ok ((), t) \<and> cold dev p t \<and> lhn (lh (log t)) = 0 \<and> dtrace t = ds @ dtrace s \<and>
     sint (get32 (disk t (sb_logstart sb)) 0) = 0 \<and> same_home (sb_logstart sb) (disk t) (recovered (sb_logstart sb) (disk s)) \<and>
     (\<forall>D \<in> set (disk t # ds). log_wf (sb_logstart sb) D \<and>
        same_home (sb_logstart sb) (recovered (sb_logstart sb) D) (recovered (sb_logstart sb) (disk s)))"
proof -
  let ?s = "s\<lparr>log := (log s)\<lparr>lstart := sb_logstart sb, lsize := sint (sb_nlog sb), ldev := dev\<rparr>\<rparr>"
  have "cold dev p ?s" using assms(1) by (simp add: cold_def)
  from recovery_meaning[OF this, of "sb_logstart sb"] assms(2)
  obtain t ds where t: "recover_from_log ?s = Ok ((), t)" "cold dev p t" "lhn (lh (log t)) = 0" "dtrace t = ds @ dtrace s"
     "length (disk t (sb_logstart sb)) = BSIZE" "sint (get32 (disk t (sb_logstart sb)) 0) = 0"
     "\<forall>D \<in> set (disk t # ds). log_wf (sb_logstart sb) D \<and> same_home (sb_logstart sb) (recovered (sb_logstart sb) D) (recovered (sb_logstart sb) (disk s))"
    by auto
  then show ?thesis using initlog_recovers[OF assms(1)] empty_log(2)[of "disk t" "sb_logstart sb"]
    by (intro exI[of _ t] exI[of _ ds]) auto
qed

section \<open>Recording a block\<close>

lemma log_slot_range:
  "k \<le> log_slot f n k m" "log_slot f n k m \<le> k + m" "log_slot f n k m < k + m \<Longrightarrow> f (log_slot f n k m) = n"
  "k \<le> j \<Longrightarrow> j < log_slot f n k m \<Longrightarrow> f j \<noteq> n"
proof (induction f n k m rule: log_slot.induct)
  case (2 f n k m)
  case 4
  then show ?case using 2(4) by (cases "j = k") (auto split: if_splits)
qed (auto split: if_splits simp: le_SucI Suc_le_eq)

definition logged_blocks :: "'z log_state_scheme \<Rightarrow> uint32 set" where
  "logged_blocks s = lhblock (lh (log s)) ` {..<txn_len s}"

lemma log_slot_new:
  assumes "f ` {..<m} = A"
  shows "log_slot f n 0 m = m \<longleftrightarrow> n \<notin> A"
  using assms log_slot_range(2,3)[of f n 0 m] log_slot_range(4)[of 0 _ f n m] by (force simp: le_less)

lemma log_write_eq:
  fixes s :: "'z log_state_scheme"
  assumes "quiet p (kcore s)" "lhn (lh (log s)) < LOGSIZE" "lhn (lh (log s)) < lsize (log s) - 1" "1 \<le> outstanding (log s)" "0 \<le> lhn (lh (log s))"
    "bblockno (bufs s b) = n"
  shows "log_write b s = Ok ((), if n \<in> logged_blocks s then s\<lparr>kcore := settled (kcore s)\<rparr>
     else s\<lparr>kcore := settled (kcore s), bufs := (bufs s)(b := (bufs s b)\<lparr>brefcnt := brefcnt (bufs s b) + 1\<rparr>),
       log := (log s)\<lparr>lh := (lh (log s))\<lparr>lhblock := (lhblock (lh (log s)))(txn_len s := n), lhn := lhn (lh (log s)) + 1\<rparr>\<rparr>\<rparr>)"
proof -
  let ?i = "log_slot (lhblock (lh (log s))) n 0 (txn_len s)"
  note q = quietD[OF assms(1)]
  have i: "int ?i = lhn (lh (log s)) \<longleftrightarrow> n \<notin> logged_blocks s"
    using log_slot_new[of "lhblock (lh (log s))" "txn_len s" "logged_blocks s" n] assms(5) by (auto simp: logged_blocks_def)
  show ?thesis
  proof (cases "n \<in> logged_blocks s")
    case True
    then have "?i \<noteq> txn_len s" using log_slot_new[of "lhblock (lh (log s))" "txn_len s" "logged_blocks s" n] by (simp add: logged_blocks_def)
    then have "lhblock (lh (log s)) ?i = n" using log_slot_range(2,3)[of "lhblock (lh (log s))" n 0 "txn_len s"] by simp
    then have "(log s)\<lparr>lh := (lh (log s))\<lparr>lhblock := (lhblock (lh (log s)))(?i := n)\<rparr>\<rparr> = log s" by (simp add: fun_upd_idem)
    then show ?thesis using assms(2-4,6) q i True by (simp add: log_write_def kern_simps Let_def)
  next
    case False
    then have "?i = txn_len s" using log_slot_new[of "lhblock (lh (log s))" "txn_len s" "logged_blocks s" n] by (simp add: logged_blocks_def)
    then show ?thesis using assms(2-6) q False by (simp add: log_write_def kern_simps Let_def bpin_def)
  qed
qed

lemma pinned_once_more:
  assumes "cache_ok dev s" "buf_of dev s b n" "nrefs dev s n + 1 < 2 ^ 32"
  defines "bs \<equiv> (bufs s)(b := (bufs s b)\<lparr>brefcnt := brefcnt (bufs s b) + 1\<rparr>)"
  shows "cache_inv dev bs (disk s)" "blk dev bs (disk s) = seen dev s" "refs dev bs = (nrefs dev s)(n := nrefs dev s n + 1)"
proof -
  have inv: "cache_inv dev (bufs s) (disk s)" and own: "holds dev (bufs s) b n" using assms(1,2) by (auto simp: cache_ok_def buf_of_def)
  have r: "nrefs dev s n = unat (brefcnt (bufs s b))" using count_of[OF assms(1,2)] .
  then have r1: "unat (brefcnt (bufs s b) + 1) = nrefs dev s n + 1"
    using assms(3) by (simp add: unat_plus_if_size word_size)
  then have nz: "brefcnt (bufs s b) + 1 \<noteq> 0" by (metis add_eq_0_iff_both_eq_0 one_neq_zero unsigned_0)
  have k: "(bufs s b)\<lparr>brefcnt := brefcnt (bufs s b) + 1\<rparr> = (bufs s b)\<lparr>brefcnt := brefcnt (bufs s b) + 1, bdata := bdata (bufs s b)\<rparr>" by simp
  have dat: "bdata (bufs s b) = seen dev s n" using holds_blk(1)[OF inv own] by (simp add: seen_def)
  note u = held_update[OF inv own k]
  show "cache_inv dev bs (disk s)" using u(1) nz by (simp add: bs_def)
  show "blk dev bs (disk s) = seen dev s" using u(2) nz dat by (simp add: bs_def seen_def fun_upd_idem)
  show "refs dev bs = (nrefs dev s)(n := nrefs dev s n + 1)" using u(3) nz r1 by (simp add: bs_def nrefs_def)
qed

text \<open>What the operations of a transaction leave alone in the log.\<close>

definition log_config :: "'z log_state_scheme \<Rightarrow> uint32 \<times> int \<times> int \<times> bool \<times> uint32" where
  "log_config s = (lstart (log s), lsize (log s), outstanding (log s), committing (log s), ldev (log s))"

lemma log_write_up:
  fixes s :: "'z log_state_scheme"
  assumes "cache_ok dev s" "few_refs dev s" "live p s B" "b \<in> B" "buf_of dev s b n" "txn_ok dev s" "\<not> in_log (lstart (log s)) n"
    "lhn (lh (log s)) < lsize (log s) - 1" "1 \<le> outstanding (log s)"
  shows "\<exists>t. log_write b s = Ok ((), t) \<and> txn_ok dev t \<and> cache_ok dev t \<and> live p t B \<and> logged_blocks t = insert n (logged_blocks s) \<and>
     lhn (lh (log t)) = (if n \<in> logged_blocks s then lhn (lh (log s)) else lhn (lh (log s)) + 1) \<and>
     nrefs dev t = (if n \<in> logged_blocks s then nrefs dev s else (nrefs dev s)(n := nrefs dev s n + 1)) \<and>
     seen dev t = seen dev s \<and> disk t = disk s \<and> dtrace t = dtrace s \<and>
     buf_of dev t = buf_of dev s \<and> avail t = avail s \<and> log_config t = log_config s \<and> log_state.more t = log_state.more s"
proof -
  note q = liveD[OF assms(3)] and x = txn_okD[OF assms(6)]
  have n: "bblockno (bufs s b) = n" using assms(5) by (simp add: buf_of_def holds_def has_key_def)
  have cap: "lhn (lh (log s)) < LOGSIZE" using assms(8) x(10) by simp
  note w = log_write_eq[OF q(1) cap assms(8,9) x(2) n]
  show ?thesis
  proof (cases "n \<in> logged_blocks s")
    case True
    let ?t = "s\<lparr>kcore := settled (kcore s)\<rparr>"
    have "cache_ok dev ?t" "nrefs dev ?t = nrefs dev s" "seen dev ?t = seen dev s" "buf_of dev ?t = buf_of dev s" "avail ?t = avail s"
      using assms(1) by (simp_all add: cache_defs avail_def)
    moreover have "live p ?t B" using assms(3) by (simp add: live_def)
    moreover have "txn_ok dev ?t" using assms(6) calculation(2) by (simp add: txn_ok_def)
    ultimately show ?thesis using w True by (auto simp: logged_blocks_def insert_absorb log_config_def)
  next
    case False
    let ?k = "txn_len s" and ?f = "(lhblock (lh (log s)))(txn_len s := n)"
    let ?t = "s\<lparr>kcore := settled (kcore s), bufs := (bufs s)(b := (bufs s b)\<lparr>brefcnt := brefcnt (bufs s b) + 1\<rparr>),
       log := (log s)\<lparr>lh := (lh (log s))\<lparr>lhblock := ?f, lhn := lhn (lh (log s)) + 1\<rparr>\<rparr>\<rparr>"
    have lim: "nrefs dev s n + 1 < 2 ^ 32" using assms(2)[unfolded few_refs_def, rule_format, of n] by simp
    note u = pinned_once_more[OF assms(1,5) lim]
    have c: "cache_ok dev ?t" "seen dev ?t = seen dev s" "nrefs dev ?t = (nrefs dev s)(n := nrefs dev s n + 1)"
      using u by (simp_all add: cache_defs)
    have nz: "brefcnt (bufs s b) + 1 \<noteq> 0"
      using count_of[OF c(1), of b n] c(3) assms(5) by (auto simp: buf_of_def holds_def has_key_def)
    then have "live p ?t B" using q by (auto simp: live_def)
    moreover have "buf_of dev ?t = buf_of dev s" by (auto simp: buf_of_def holds_def has_key_def fun_eq_iff)
    moreover have "unused (bufs ?t) = unused (bufs s)" using nz q(5)[OF assms(4)] by (auto simp: unused_def)
    moreover have len: "nat (lhn (lh (log s)) + 1) = Suc ?k" using x(2) by simp
    have blocks: "?f ` {..<Suc ?k} = insert n (logged_blocks s)" by (auto simp: logged_blocks_def lessThan_Suc image_iff)
    moreover have "txn_ok dev ?t"
    proof -
      have "inj_on ?f {..<Suc ?k}" using x(4) False by (auto simp: inj_on_def logged_blocks_def less_Suc_eq)
      moreover have "\<not> in_log (lstart (log s)) (?f i) \<and> 0 < ((nrefs dev s)(n := nrefs dev s n + 1)) (?f i)" if "i < Suc ?k" for i
        using that x(5,6)[of i] assms(7) by (auto simp: less_Suc_eq)
      moreover have "n \<noteq> lstart (log s)" using home_not_start[OF assms(7)] .
      ultimately show ?thesis using x c(3) assms(8) by (simp add: txn_ok_def Let_def len SLOTS_def)
    qed
    ultimately show ?thesis using w False c blocks by (auto simp: logged_blocks_def len log_config_def avail_def)
  qed
qed

section \<open>An example\<close>

text \<open>
  Device 1 with its log at block 2 and the header empty; block 100 is in buffer 0, changed and pinned, and is the one block of
  the transaction. The other buffers are unused.
\<close>

definition demo_log :: "(nat \<Rightarrow> buf) \<Rightarrow> disk \<Rightarrow> int \<Rightarrow> log_state" where
  "demo_log bs D n = \<lparr>kcore = demo_core, mem = \<lambda>a. 0, freelist = 0, kend = 0x87FFE000, procs = demo_procs, initproc = Some 0, nextpid = 3,
     peterson_locks = \<lambda>l. \<lparr>active = 0, flag = \<lambda>r. 0, turn = 0\<rparr>, trampoline = 0x80008000, forkret_addr = 0x80001000,
     uart_tx_buf = \<lambda>i. 0, uart_tx_w = 0, uart_tx_r = 0, tx_room = 0, sent = [], rx = [], uart_regs = [], panicked = False, pr_locking = True,
     cons_buf = \<lambda>i. 0, cons_r = 0, cons_w = 0, cons_e = 0, slocks = \<lambda>l. \<lparr>slocked = False, slpid = 0\<rparr>,
     bufs = bs, disk = D, dtrace = [],
     log = \<lparr>lstart = 2, lsize = 30, outstanding = 0, committing = False, ldev = 1, lh = \<lparr>lhn = n, lhblock = \<lambda>i. 100\<rparr>\<rparr>\<rparr>"

definition demo_sb :: superblock where
  "demo_sb = \<lparr>sb_magic = 0, sb_size = 0, sb_nblocks = 0, sb_ninodes = 0, sb_nlog = 30, sb_logstart = 2, sb_inodestart = 0, sb_bmapstart = 0\<rparr>"

definition zero_disk :: disk where
  "zero_disk n = replicate 1024 0"

definition new_block :: "uchar list" where
  "new_block = replicate 1024 7"

definition demo_bufs :: "nat \<Rightarrow> buf" where
  "demo_bufs = ring_buf(0 := (ring_buf 0)\<lparr>bvalid := True, bdev := 1, bblockno := 100, brefcnt := 1, bdata := new_block\<rparr>)"

lemma demo_cache: "cache_inv 1 demo_bufs D"
proof -
  have "lru demo_bufs [0..<NBUF]" using ring_lru by (subst lru_cong[of _ ring_buf]) (auto simp: demo_bufs_def)
  then show ?thesis by (auto simp: cache_inv_def demo_bufs_def has_key_def ring_buf_def split: if_splits)
qed

lemma demo_refs: "refs 1 ring_buf n = 0" "refs 1 demo_bufs n = (if n = 100 then 1 else 0)"
proof -
  have "lookup 1 ring_buf n = None" by (simp add: lookup_None has_key_def ring_buf_def)
  then show "refs 1 ring_buf n = 0" by (simp add: refs_def)
  have "lookup 1 demo_bufs 100 = Some 0" by (rule lookup_eq[OF demo_cache]) (simp_all add: NBUF_def demo_bufs_def has_key_def)
  moreover have "n \<noteq> 100 \<Longrightarrow> lookup 1 demo_bufs n = None" by (auto simp: lookup_None has_key_def demo_bufs_def ring_buf_def)
  ultimately show "refs 1 demo_bufs n = (if n = 100 then 1 else 0)" by (simp add: refs_def demo_bufs_def)
qed

lemma demo_live: "live 0 (demo_log bs D n) {}"
  using demo_core_ok(4) by (simp add: live_def demo_log_def)

lemma demo_avail: "2 \<le> avail (demo_log ring_buf D n)" "0 < avail (demo_log demo_bufs D n)"
proof -
  have "card {0::nat, 1} \<le> card (unused ring_buf)" by (rule card_mono) (auto simp: unused_def ring_buf_def NBUF_def)
  then show "2 \<le> avail (demo_log ring_buf D n)" by (simp add: avail_def demo_log_def)
  have "1 \<in> unused demo_bufs" by (simp add: unused_def demo_bufs_def ring_buf_def NBUF_def)
  then show "0 < avail (demo_log demo_bufs D n)" by (auto simp: avail_def demo_log_def card_gt_0_iff)
qed

lemma zero_header: "get32 (replicate 1024 0) 0 = 0"
  by (simp add: get32_def)

lemma demo_cold: "cold 1 0 (demo_log ring_buf D n)"
  using ring_cache[of D] demo_live demo_avail(1) by (simp add: cold_def cache_ok_def nrefs_def demo_refs demo_log_def)

lemma demo_txn: "txn_ok 1 (demo_log demo_bufs zero_disk 1)"
  by (simp add: txn_ok_def demo_log_def nrefs_def demo_refs in_log_def SLOTS_def LOGSIZE_def MAXOPBLOCKS_def zero_disk_def zero_header BSIZE_def inj_on_def)

lemma demo_ok: "cache_ok 1 (demo_log demo_bufs zero_disk 1)" "few_refs 1 (demo_log demo_bufs zero_disk 1)"
  using demo_cache[of zero_disk] by (simp_all add: cache_ok_def few_refs_def nrefs_def demo_refs demo_log_def)

lemma demo_seen: "seen 1 (demo_log demo_bufs zero_disk 1) 100 = new_block"
proof -
  have "holds 1 demo_bufs 0 100" by (simp add: holds_def demo_bufs_def has_key_def NBUF_def)
  then show ?thesis using holds_blk(1)[OF demo_cache] by (simp add: seen_def demo_log_def demo_bufs_def)
qed

section \<open>Properties\<close>

text \<open>
  C2. A transaction survives a power failure whole or not at all. \<^verbatim>\<open>commit\<close> returns; the home blocks on disk then
  have the contents that the cache had, and readers see what they saw before. Take any of the disks that existed
  meanwhile, restart from it with an empty cache, and run \<^verbatim>\<open>initlog\<close>: it returns, and outside the log the disk is the one from before the commit,
  or the one with all blocks of the transaction.
\<close>

theorem commit_crash_atomic:
  fixes s :: "'z log_state_scheme"
  assumes "cache_ok dev s" "few_refs dev s" "live p s {}" "0 < avail s" "txn_ok dev s"
  defines "start \<equiv> lstart (log s)"
  shows "\<exists>t ds. commit s = Ok ((), t) \<and> same_home start (disk t) (txn_disk dev s) \<and> same_home start (seen dev t) (seen dev s) \<and>
     lhn (lh (log t)) = 0 \<and> dtrace t = ds @ dtrace s \<and>
     (\<forall>D \<in> set (disk t # ds). \<forall>(r :: 'z log_state_scheme) q sb. cold dev q r \<longrightarrow> disk r = D \<longrightarrow> sb_logstart sb = start \<longrightarrow>
        (\<exists>r'. initlog dev sb r = Ok ((), r') \<and>
           (same_home start (disk r') (disk s) \<or> same_home start (disk r') (txn_disk dev s))))"
proof -
  obtain t ds where t: "commit s = Ok ((), t)" "lhn (lh (log t)) = 0" "same_home start (disk t) (txn_disk dev s)" "same_home start (seen dev t) (seen dev s)"
     "dtrace t = ds @ dtrace s" "\<forall>D \<in> set (disk t # ds). log_wf start D \<and>
        (same_home start (recovered start D) (disk s) \<or> same_home start (recovered start D) (txn_disk dev s))"
    using commit_meaning[OF assms(1-5)] unfolding start_def by blast
  have "\<exists>r'. initlog dev sb r = Ok ((), r') \<and> (same_home start (disk r') (disk s) \<or> same_home start (disk r') (txn_disk dev s))"
    if D: "D \<in> set (disk t # ds)" and r: "cold dev q r" "disk r = D" "sb_logstart sb = start" for D and r :: "'z log_state_scheme" and q sb
  proof -
    have "log_wf start D" and m: "same_home start (recovered start D) (disk s) \<or> same_home start (recovered start D) (txn_disk dev s)"
      using bspec[OF t(6) D] by auto
    then obtain r' where "initlog dev sb r = Ok ((), r')" "same_home start (disk r') (recovered start D)"
      using initlog_meaning[OF r(1), of sb] r(2,3) by auto
    then show ?thesis using m same_home_trans by blast
  qed
  then show ?thesis using t(1-5) by (intro exI[of _ t] exI[of _ ds]) blast
qed

theorem commit_crash_atomic_witness:
  "\<exists>t ds. commit (demo_log demo_bufs zero_disk 1) = Ok ((), t) \<and> disk t 100 = new_block \<and> dtrace t = ds \<and>
     (\<exists>r. initlog 1 demo_sb
        (demo_log ring_buf (disk t) 0) = Ok ((), r) \<and> disk r 100 \<in> {new_block, replicate 1024 0})"
proof -
  let ?s = "demo_log demo_bufs zero_disk 1"
  have h: "\<not> in_log 2 100" by (simp add: in_log_def SLOTS_def LOGSIZE_def MAXOPBLOCKS_def)
  have l: "lstart (log ?s) = 2" by (simp add: demo_log_def)
  obtain t ds where t: "commit ?s = Ok ((), t)" "same_home 2 (disk t) (txn_disk 1 ?s)" "dtrace t = ds @ dtrace ?s"
    "\<forall>D \<in> set (disk t # ds). \<forall>(r :: log_state) q sb. cold 1 q r \<longrightarrow> disk r = D \<longrightarrow> sb_logstart sb = 2 \<longrightarrow>
        (\<exists>r'. initlog 1 sb r = Ok ((), r') \<and> (same_home 2 (disk r') (disk ?s) \<or> same_home 2 (disk r') (txn_disk 1 ?s)))"
    using commit_crash_atomic[OF demo_ok demo_live demo_avail(2) demo_txn] unfolding l by blast
  have d: "txn_disk 1 ?s 100 = new_block" "disk ?s 100 = replicate 1024 0"
    using demo_seen by (simp_all add: txn_disk_def) (simp_all add: demo_log_def zero_disk_def)
  have e: "disk (demo_log ring_buf (disk t) 0) = disk t" "sb_logstart demo_sb = 2" by (simp_all add: demo_log_def demo_sb_def)
  have "disk t \<in> set (disk t # ds)" by simp
  from bspec[OF t(4) this, rule_format, OF demo_cold e]
  obtain r where r: "initlog 1 demo_sb (demo_log ring_buf (disk t) 0) = Ok ((), r)" "same_home 2 (disk r) (disk ?s) \<or> same_home 2 (disk r) (txn_disk 1 ?s)" by blast
  have "disk t 100 = new_block" "disk r 100 = new_block \<or> disk r 100 = replicate 1024 0" using t(2) r(2) h d by (auto simp: same_home_def)
  then show ?thesis using t(1) r(1) by blast
qed

text \<open>
  C17. What \<^verbatim>\<open>log_write\<close> records. Inside a transaction that is not full, with a locked buffer of a block outside the log, it returns
  and keeps the invariant of the transaction: the block is recorded, once; a block that was already recorded is absorbed, a new one is pinned in the
  cache by one more reference; nothing is written to the disk.
\<close>

theorem log_write_records:
  fixes s :: "'z log_state_scheme"
  assumes "cache_ok dev s" "few_refs dev s" "live p s B" "b \<in> B" "buf_of dev s b n" "txn_ok dev s" "\<not> in_log (lstart (log s)) n"
    "lhn (lh (log s)) < lsize (log s) - 1" "1 \<le> outstanding (log s)"
  shows "\<exists>t. log_write b s = Ok ((), t) \<and> txn_ok dev t \<and> cache_ok dev t \<and> live p t B \<and> logged_blocks t = insert n (logged_blocks s) \<and>
     lhn (lh (log t)) = (if n \<in> logged_blocks s then lhn (lh (log s)) else lhn (lh (log s)) + 1) \<and>
     nrefs dev t = (if n \<in> logged_blocks s then nrefs dev s else (nrefs dev s)(n := nrefs dev s n + 1)) \<and>
     seen dev t = seen dev s \<and> disk t = disk s \<and> dtrace t = dtrace s"
  using log_write_up[OF assms] by blast

definition demo_open :: log_state where
  "demo_open = (demo_log demo_bufs zero_disk 0)\<lparr>slocks := (\<lambda>l. \<lparr>slocked = l = SBuf 0, slpid = 1\<rparr>),
     log := (log (demo_log demo_bufs zero_disk 0))\<lparr>outstanding := 1\<rparr>\<rparr>"

lemma demo_open_ok: "cache_ok 1 demo_open" "few_refs 1 demo_open" "live 0 demo_open {0}" "buf_of 1 demo_open 0 100" "txn_ok 1 demo_open"
proof -
  show "cache_ok 1 demo_open" "few_refs 1 demo_open" using demo_cache[of zero_disk]
    by (simp_all add: cache_ok_def few_refs_def nrefs_def demo_refs demo_log_def demo_open_def)
  show "live 0 demo_open {0}" using demo_core_ok(4)
    by (simp add: live_def demo_open_def demo_log_def NBUF_def demo_bufs_def demo_procs_def)
  show "buf_of 1 demo_open 0 100" by (simp add: buf_of_def holds_def demo_open_def demo_log_def demo_bufs_def has_key_def NBUF_def)
  show "txn_ok 1 demo_open"
    by (simp add: txn_ok_def demo_open_def demo_log_def nrefs_def demo_refs SLOTS_def LOGSIZE_def MAXOPBLOCKS_def zero_disk_def zero_header BSIZE_def)
qed

theorem log_write_records_witness:
  "\<exists>t. log_write 0 demo_open = Ok ((), t) \<and> logged_blocks t = {100} \<and> nrefs 1 t 100 = 2"
proof -
  have "logged_blocks demo_open = {}" "nrefs 1 demo_open 100 = 1" "lstart (log demo_open) = 2" "lhn (lh (log demo_open)) = 0"
    "lsize (log demo_open) = 30" "outstanding (log demo_open) = 1"
    by (simp_all add: logged_blocks_def demo_open_def demo_log_def nrefs_def demo_refs)
  then show ?thesis using log_write_records[OF demo_open_ok(1-3) _ demo_open_ok(4,5)]
    by (fastforce simp: in_log_def SLOTS_def LOGSIZE_def MAXOPBLOCKS_def)
qed

text \<open>
  C16. Recovery may itself be interrupted. From a restart with a well-formed log, \<^verbatim>\<open>initlog\<close> returns with the logged blocks
  installed and the log empty; and every disk that exists on the way has a well-formed log and recovers to
  the same contents.
\<close>

theorem recovery_restartable:
  assumes "cold dev p s" "log_wf (sb_logstart sb) (disk s)"
  shows "\<exists>t ds. initlog dev sb s = Ok ((), t) \<and> dtrace t = ds @ dtrace s \<and> lhn (lh (log t)) = 0 \<and>
     sint (get32 (disk t (sb_logstart sb)) 0) = 0 \<and> same_home (sb_logstart sb) (disk t) (recovered (sb_logstart sb) (disk s)) \<and>
     (\<forall>D \<in> set (disk t # ds). log_wf (sb_logstart sb) D \<and>
        same_home (sb_logstart sb) (recovered (sb_logstart sb) D) (recovered (sb_logstart sb) (disk s)))"
  using initlog_meaning[OF assms] by blast

theorem recovery_restartable_witness:
  "\<exists>t. initlog 1 demo_sb
     (demo_log ring_buf (zero_disk(3 := new_block, 2 := bytes32 1 @ bytes32 100 @ replicate 1016 0)) 0) = Ok ((), t) \<and> disk t 100 = new_block"
proof -
  let ?D = "zero_disk(3 := new_block, 2 := bytes32 1 @ bytes32 100 @ replicate 1016 0)"
  have g: "get32 (?D 2) 0 = 1" "get32 (?D 2) 4 = 100" by (simp_all add: get32_def bytes32_def nth_Cons')
  then have n: "log_count 2 ?D = 1" "log_target 2 ?D 0 = 100" by (simp_all add: log_count_def log_target_def)
  have h: "\<not> in_log 2 100" by (simp add: in_log_def SLOTS_def LOGSIZE_def MAXOPBLOCKS_def)
  have w: "log_wf 2 ?D" using g n h by (simp add: log_wf_def SLOTS_def LOGSIZE_def MAXOPBLOCKS_def BSIZE_def inj_on_def)
  have dk: "disk (demo_log ring_buf ?D 0) = ?D" by (simp add: demo_log_def)
  have "log_wf (sb_logstart demo_sb) (disk (demo_log ring_buf ?D 0))" unfolding dk using w by (simp add: demo_sb_def)
  from recovery_restartable[OF demo_cold this]
  obtain t where t: "initlog 1 demo_sb (demo_log ring_buf ?D 0) = Ok ((), t)" "same_home 2 (disk t) (recovered 2 ?D)" unfolding dk by (auto simp: demo_sb_def)
  have "recovered 2 ?D 100 = new_block" using n by (simp add: recovered_def slot_def)
  then show ?thesis using t h by (auto simp: same_home_def)
qed

end
