(* ===== verification/Scheduler.thy ===== *)
theory Scheduler
  imports Wakeup Kproc
begin

text \<open>
  The scheduler on several harts: a transition system whose steps are the critical sections of \<^verbatim>\<open>kernel/proc.c\<close> (dispatching a
  process, yielding, sleeping, exiting, waking, killing), and the invariant that a process runs on at most one hart.
\<close>

section \<open>Steps\<close>

text \<open>
  A hart in the scheduler tries a process; the process that it switches to releases its own lock when it goes on, in
  \<^verbatim>\<open>forkret\<close> or after \<^verbatim>\<open>sched\<close>. A process that has called \<^verbatim>\<open>sched\<close> is left to the scheduler of its hart.
\<close>

definition dispatch :: "nat \<Rightarrow> ('z proc_state_scheme, unit) kern" where
  "dispatch p = bnd (scheduler_pick p) (\<lambda>go. whenb go (rel (LProc p)))"

definition switch_out :: "nat \<Rightarrow> ('z proc_state_scheme, bool) kern \<Rightarrow> ('z proc_state_scheme, unit) kern" where
  "switch_out p m = bnd m (\<lambda>b. scheduler_back p)"

abbreviation running_on :: "'z proc_state_scheme \<Rightarrow> nat \<Rightarrow> nat option" where
  "running_on s h \<equiv> cproc (cpus (kcore s) h)"

inductive sched_step :: "'z proc_state_scheme \<Rightarrow> 'z proc_state_scheme \<Rightarrow> bool" where
  dispatch: "running_on s h = None \<Longrightarrow> p < NPROC \<Longrightarrow> dispatch p (on_hart h s) = Ok ((), t) \<Longrightarrow> sched_step s t"
| yield: "running_on s h = Some p \<Longrightarrow> switch_out p yield_enter (on_hart h s) = Ok ((), t) \<Longrightarrow> sched_step s t"
| sleep: "running_on s h = Some p \<Longrightarrow> lk \<noteq> LProc p \<Longrightarrow>
    thn (acq lk) (switch_out p (sleep_enter ch lk)) (on_hart h s) = Ok ((), t) \<Longrightarrow> sched_step s t"
| exit: "running_on s h = Some p \<Longrightarrow> switch_out p (exit_zombie p status) (on_hart h s) = Ok ((), t) \<Longrightarrow> sched_step s t"
| wake: "wakeup ch (on_hart h s) = Ok ((), t) \<Longrightarrow> sched_step s t"
| kill: "kill i (on_hart h s) = Ok (r, t) \<Longrightarrow> sched_step s t"
| create: "pstate (procs s p) \<noteq> RUNNING \<Longrightarrow> st \<noteq> RUNNING \<Longrightarrow> sched_step s (upd_proc p (\<lambda>k. k\<lparr>pstate := st\<rparr>) s)"

inductive sched_reach :: "'z proc_state_scheme \<Rightarrow> bool" where
  start: "(\<And>l. lock_free l (kcore s)) \<Longrightarrow> (\<And>h. noff (cpus (kcore s) h) = 0) \<Longrightarrow> (\<And>h. running_on s h = None) \<Longrightarrow>
    (\<And>p. pstate (procs s p) \<noteq> RUNNING) \<Longrightarrow> sched_reach s"
| step: "sched_reach s \<Longrightarrow> sched_step s t \<Longrightarrow> sched_reach t"

section \<open>The invariant\<close>

definition sched_inv :: "'z proc_state_scheme \<Rightarrow> bool" where
  "sched_inv s \<longleftrightarrow> (\<forall>l. lock_free l (kcore s)) \<and> (\<forall>h. noff (cpus (kcore s) h) = 0) \<and>
     (\<forall>h k p. running_on s h = Some p \<longrightarrow> running_on s k = Some p \<longrightarrow> h = k) \<and>
     (\<forall>p. pstate (procs s p) = RUNNING \<longleftrightarrow> (\<exists>h. running_on s h = Some p))"

lemma sched_invD:
  "sched_inv s \<Longrightarrow> running_on s h = Some p \<Longrightarrow> pstate (procs s p) = RUNNING"
  "sched_inv s \<Longrightarrow> running_on s h = Some p \<Longrightarrow> running_on s k = Some p \<Longrightarrow> h = k"
  "sched_inv s \<Longrightarrow> pstate (procs s p) = RUNNING \<Longrightarrow> \<exists>h. running_on s h = Some p"
  by (auto simp: sched_inv_def)

text \<open>The core as hart \<open>h\<close> has it.\<close>

definition core_at :: "nat \<Rightarrow> 'z kernel_scheme \<Rightarrow> core" where
  "core_at h s = (kcore s)\<lparr>hart := h\<rparr>"

lemma on_hart_core [simp]: "kcore (on_hart h s) = core_at h s" "procs (on_hart h r) = procs r"
  by (simp_all add: on_hart_def core_at_def)

lemma core_at_ok:
  assumes "sched_inv s"
  shows "core_ok (core_at h s)" "lock_free l (core_at h s)" "noff (mycpu (core_at h s)) = 0" "cproc (mycpu (core_at h s)) = running_on s h"
  using assms by (simp_all add: sched_inv_def core_at_def core_ok_def mycpu_def)

text \<open>What a step may leave: the locks free, one hart running something else, the other processes as they were, or woken.\<close>

lemma settled_cpus [simp]: "noff (cpus (settled c) h) = noff (cpus c h)"
  by (cases c) (auto simp: core_defs)

lemma set_cproc_cpus [simp]: "noff (cpus (set_cproc q c) h) = noff (cpus c h)"
  "cproc (cpus (set_cproc q c) h) = (if h = hart c then q else cproc (cpus c h))"
  by (cases c, auto simp: set_cproc_def)+

lemma core_at_sel [simp]: "hart (core_at h s) = h" "cpus (core_at h s) = cpus (kcore s)"
  by (simp_all add: core_at_def)

lemma sched_inv_out:
  assumes "sched_inv s" "running_on s h = Some p" "kcore t = settled (set_cproc None (core_at h s))"
    "\<And>q. q \<noteq> p \<Longrightarrow> pstate (procs t q) = RUNNING \<longleftrightarrow> pstate (procs s q) = RUNNING" "pstate (procs t p) \<noteq> RUNNING"
  shows "sched_inv t"
proof -
  have r: "running_on t k = (if k = h then None else running_on s k)" for k by (simp add: assms(3))
  have one: "k = h" if "running_on s k = Some p" for k using assms(1,2) that by (auto simp: sched_inv_def)
  have "pstate (procs t q) = RUNNING \<longleftrightarrow> (\<exists>k. running_on t k = Some q)" for q
  proof (cases "q = p")
    case True
    then show ?thesis using assms(5) one by (auto simp: r)
  next
    case False
    then have "running_on s h \<noteq> Some q" using assms(2) by simp
    then have "(\<exists>k. running_on t k = Some q) \<longleftrightarrow> (\<exists>k. running_on s k = Some q)" by (metis option.distinct(1) r)
    then show ?thesis using False assms(1,4) by (simp add: sched_inv_def)
  qed
  then show ?thesis using assms(1) core_at_ok[OF assms(1)] by (auto simp: sched_inv_def r assms(3))
qed

lemma sched_inv_same:
  assumes "sched_inv s" "kcore t = settled (core_at h s) \<or> kcore t = core_at h s" "\<And>q. pstate (procs t q) = RUNNING \<longleftrightarrow> pstate (procs s q) = RUNNING"
  shows "sched_inv t"
proof -
  have "running_on t k = running_on s k" for k using assms(2) by auto
  then show ?thesis using assms core_at_ok[OF assms(1)] by (auto simp: sched_inv_def)
qed

section \<open>The steps keep it\<close>

lemma dispatch_eq:
  assumes "core_ok (kcore s)" "lock_free (LProc p) (kcore s)"
  shows "dispatch p s = Ok ((), if pstate (procs s p) = RUNNABLE
     then s\<lparr>kcore := settled (set_cproc (Some p) (kcore s)), procs := (procs s)(p := (procs s p)\<lparr>pstate := RUNNING\<rparr>)\<rparr>
     else s\<lparr>kcore := settled (kcore s)\<rparr>)"
  using assms by (simp add: dispatch_def scheduler_pick_def kern_simps set_cproc_acquired)

lemma scheduler_back_eq:
  assumes "core_ok c" "lock_free (LProc p) c" "kcore s = acquired (LProc p) c"
  shows "scheduler_back p s = Ok ((), s\<lparr>kcore := settled (set_cproc None c)\<rparr>)"
  using assms by (simp add: scheduler_back_def kern_simps set_cproc_acquired)

lemma sched_enter_eq:
  assumes "core_ok c" "noff (mycpu c) = 0" "cproc (mycpu c) = Some p" "kcore s = acquired (LProc p) c" "pstate (procs s p) \<noteq> RUNNING"
  shows "\<exists>b. sched_enter s = Ok (b, s)"
proof -
  have "\<not> intr_get (acquired (LProc p) c)" by (simp add: intr_get_def acquired_fields)
  moreover have "s\<lparr>kcore := acquired (LProc p) c\<rparr> = s" using assms(4) by simp
  ultimately show ?thesis using assms by (simp add: sched_enter_def kern_simps curproc_eq)
qed

lemma switch_out_eq:
  assumes "core_ok c" "lock_free (LProc p) c" "kcore t = acquired (LProc p) c" "m s = Ok (b, t)"
  shows "switch_out p m s = Ok ((), t\<lparr>kcore := settled (set_cproc None c)\<rparr>)"
  using assms(4) scheduler_back_eq[OF assms(1-3)] by (simp add: switch_out_def bnd_apply)

lemma yield_enter_eq:
  assumes "core_ok (kcore s)" "lock_free (LProc p) (kcore s)" "noff (mycpu (kcore s)) = 0" "cproc (mycpu (kcore s)) = Some p"
  shows "\<exists>b. yield_enter s = Ok (b, s\<lparr>kcore := acquired (LProc p) (kcore s), procs := (procs s)(p := (procs s p)\<lparr>pstate := RUNNABLE\<rparr>)\<rparr>)"
proof -
  let ?t = "s\<lparr>kcore := acquired (LProc p) (kcore s), procs := (procs s)(p := (procs s p)\<lparr>pstate := RUNNABLE\<rparr>)\<rparr>"
  obtain b where "sched_enter ?t = Ok (b, ?t)" using sched_enter_eq[of "kcore s" p ?t] assms by auto
  then show ?thesis using assms by (simp add: yield_enter_def kern_simps curproc_eq)
qed

text \<open>Waking, killing and giving children away do not change which processes are running.\<close>

definition same_running :: "(nat \<Rightarrow> proc) \<Rightarrow> (nat \<Rightarrow> proc) \<Rightarrow> bool" where
  "same_running f g \<longleftrightarrow> (\<forall>q. pstate (f q) = RUNNING \<longleftrightarrow> pstate (g q) = RUNNING)"

lemma same_running_woken: "same_running (woken me ch ps f) f"
  by (simp add: same_running_def woken_def)

lemma reparent_from_running:
  assumes "core_ok (kcore s)" "\<And>q. lock_free (LProc q) (kcore s)" "settled (kcore s) = kcore s"
  shows "\<exists>ps. reparent_from p xs s = Ok ((), s\<lparr>procs := ps\<rparr>) \<and> same_running ps (procs s)"
  using assms
proof (induction xs arbitrary: s)
  case Nil
  have "s\<lparr>procs := procs s\<rparr> = s" by simp
  then show ?case by (metis reparent_from.simps(1) ret_apply same_running_def)
next
  case (Cons q xs)
  define f where "f = (if parent (procs s q) = Some p then woken (cproc (mycpu (kcore s))) (map_option ChProc (initproc s)) {..<NPROC}
      ((procs s)(q := (procs s q)\<lparr>parent := initproc s\<rparr>)) else procs s)"
  have "reparent_from p (q # xs) s = reparent_from p xs (s\<lparr>procs := f\<rparr>)"
    using Cons.prems by (simp add: kern_simps wakeup_ptr_eq f_def)
  moreover have "same_running f (procs s)" by (auto simp: same_running_def woken_def f_def)
  moreover obtain ps where "reparent_from p xs (s\<lparr>procs := f\<rparr>) = Ok ((), s\<lparr>procs := ps\<rparr>)" "same_running ps f"
    using Cons.IH[of "s\<lparr>procs := f\<rparr>"] Cons.prems by auto
  ultimately show ?case by (intro exI[of _ ps]) (simp add: same_running_def)
qed

lemma exit_zombie_eq:
  assumes "core_ok (kcore s)" "\<And>l. lock_free l (kcore s)" "noff (mycpu (kcore s)) = 0" "cproc (mycpu (kcore s)) = Some p"
  shows "\<exists>b ps. exit_zombie p status s = Ok (b, s\<lparr>procs := ps, kcore := acquired (LProc p) (kcore s)\<rparr>) \<and> pstate (ps p) = ZOMBIE \<and>
     (\<forall>q. q \<noteq> p \<longrightarrow> pstate (ps q) = RUNNING \<longleftrightarrow> pstate (procs s q) = RUNNING)"
proof -
  let ?c = "acquired LWait (kcore s)"
  have c: "core_ok ?c" "settled ?c = ?c" "\<And>q. lock_free (LProc q) ?c" using assms(1,2) by auto
  let ?s1 = "s\<lparr>kcore := ?c\<rparr>"
  obtain ps where ps: "reparent_from p [0..<NPROC] ?s1 = Ok ((), ?s1\<lparr>procs := ps\<rparr>)" "same_running ps (procs s)"
    using reparent_from_running[of ?s1 p "[0..<NPROC]"] c by auto
  let ?ps2 = "woken (Some p) (map_option ChProc (parent (ps p))) {..<NPROC} ps"
  have w: "wakeup_ptr (map_option ChProc (parent (ps p))) (?s1\<lparr>procs := ps\<rparr>) = Ok ((), ?s1\<lparr>procs := ?ps2\<rparr>)"
    using wakeup_ptr_eq[of "?s1\<lparr>procs := ps\<rparr>"] c assms(4) by simp
  let ?ps3 = "?ps2(p := (?ps2 p)\<lparr>xstate := status, pstate := ZOMBIE\<rparr>)"
  let ?t = "s\<lparr>procs := ?ps3, kcore := acquired (LProc p) (kcore s)\<rparr>"
  obtain b where "sched_enter ?t = Ok (b, ?t)" using sched_enter_eq[of "kcore s" p ?t] assms by auto
  then have "exit_zombie p status s = Ok (b, ?t)"
    using ps(1) w assms(1,2) by (simp add: exit_zombie_def reparent_def kern_simps)
  moreover have "pstate (?ps3 q) = RUNNING \<longleftrightarrow> pstate (procs s q) = RUNNING" if "q \<noteq> p" for q
    using that ps(2) same_running_woken[of "Some p" _ _ ps] by (simp add: same_running_def)
  ultimately show ?thesis by (intro exI[of _ b] exI[of _ ?ps3]) auto
qed

lemma kill_from_running:
  assumes "core_ok (kcore s)" "\<And>q. lock_free (LProc q) (kcore s)"
  shows "\<exists>r t. kill_from i xs s = Ok (r, t) \<and> (kcore t = settled (kcore s) \<or> kcore t = kcore s) \<and> same_running (procs t) (procs s)"
  using assms
proof (induction xs arbitrary: s)
  case Nil
  then show ?case by (simp add: ret_apply same_running_def)
next
  case (Cons q xs)
  show ?case
  proof (cases "pid (procs s q) = i")
    case True
    then show ?thesis using Cons.prems by (auto simp: kern_simps same_running_def)
  next
    case False
    then have "kill_from i (q # xs) s = kill_from i xs (s\<lparr>kcore := settled (kcore s)\<rparr>)" using Cons.prems by (simp add: kern_simps)
    then show ?thesis using Cons.IH[of "s\<lparr>kcore := settled (kcore s)\<rparr>"] Cons.prems by auto
  qed
qed

lemma dispatch_inv:
  assumes "running_on s h = None" "sched_inv s" "dispatch p (on_hart h s) = Ok ((), t)"
  shows "sched_inv t"
proof -
  note c = core_at_ok[OF assms(2), where h = h]
  let ?s = "on_hart h s"
  have t: "t = (if pstate (procs s p) = RUNNABLE
     then ?s\<lparr>kcore := settled (set_cproc (Some p) (core_at h s)), procs := (procs s)(p := (procs s p)\<lparr>pstate := RUNNING\<rparr>)\<rparr>
     else ?s\<lparr>kcore := settled (core_at h s)\<rparr>)"
    using assms(3) dispatch_eq[of ?s p] c by (auto split: if_splits)
  show ?thesis
  proof (cases "pstate (procs s p) = RUNNABLE")
    case True
    then have nr: "running_on s k \<noteq> Some p" for k using sched_invD(1)[OF assms(2)] by fastforce
    have r: "running_on t k = (if k = h then Some p else running_on s k)" for k using t True by simp
    have "pstate (procs t q) = RUNNING \<longleftrightarrow> (\<exists>k. running_on t k = Some q)" for q
    proof (cases "q = p")
      case True
      then show ?thesis using t \<open>pstate (procs s p) = RUNNABLE\<close> r by auto
    next
      case False
      then have "(\<exists>k. running_on t k = Some q) \<longleftrightarrow> (\<exists>k. running_on s k = Some q)" using assms(1) r by (metis option.distinct(1) option.inject)
      then show ?thesis using False t True assms(2) by (simp add: sched_inv_def)
    qed
    moreover have "h' = k'" if "running_on t h' = Some q" "running_on t k' = Some q" for h' k' q
      using that nr[of h'] nr[of k'] sched_invD(2)[OF assms(2), of h' q k'] by (cases "h' = h"; cases "k' = h") (auto simp: r)
    moreover have "noff (cpus (kcore t) k) = 0" "lock_free l (kcore t)" for k l
      using t True assms(2) c(2) by (auto simp: sched_inv_def)
    ultimately show ?thesis unfolding sched_inv_def by blast
  next
    case False
    then show ?thesis using sched_inv_same[OF assms(2), of t h] t by auto
  qed
qed

lemma sched_step_inv:
  assumes "sched_step s t" "sched_inv s"
  shows "sched_inv t"
  using assms
proof cases
  case (dispatch h p)
  then show ?thesis using dispatch_inv[OF _ assms(2)] by blast
next
  case (yield h p)
  note c = core_at_ok[OF assms(2), where h = h]
  obtain b where "yield_enter (on_hart h s) = Ok (b, (on_hart h s)\<lparr>kcore := acquired (LProc p) (core_at h s), procs := (procs s)(p := (procs s p)\<lparr>pstate := RUNNABLE\<rparr>)\<rparr>)"
    using yield_enter_eq[of "on_hart h s" p] c yield(1) by auto
  note w = switch_out_eq[where m = yield_enter, OF c(1,2) _ this]
  show ?thesis using sched_inv_out[OF assms(2) yield(1), of t] yield(2) w by auto
next
  case (sleep h p lk ch)
  note c = core_at_ok[OF assms(2), where h = h]
  let ?s = "(on_hart h s)\<lparr>kcore := acquired lk (core_at h s)\<rparr>"
  have a: "thn (acq lk) m (on_hart h s) = m ?s" for m :: "('a proc_state_scheme, unit) kern" using c by (simp add: kern_simps)
  have e: "kcore ?s = acquired lk (core_at h s)" by simp
  have cp: "cproc (mycpu (core_at h s)) = Some p" using c(4) sleep(1) by simp
  from sleep_enter_eq[OF c(1,2,3) cp sleep(2) e, of ch]
  obtain b where "sleep_enter ch lk ?s = Ok (b, ?s\<lparr>kcore := acquired (LProc p) (core_at h s), procs := (procs ?s)(p := (procs ?s p)\<lparr>chan := Some ch, pstate := SLEEPING\<rparr>)\<rparr>)"
    by blast
  note w = switch_out_eq[where m = "sleep_enter ch lk", OF c(1,2) _ this]
  show ?thesis using sched_inv_out[OF assms(2) sleep(1), of t] sleep(3) w unfolding a by auto
next
  case (exit h p status)
  note c = core_at_ok[OF assms(2), where h = h]
  obtain b ps where "exit_zombie p status (on_hart h s) = Ok (b, (on_hart h s)\<lparr>procs := ps, kcore := acquired (LProc p) (core_at h s)\<rparr>)"
    and ps: "pstate (ps p) = ZOMBIE" "\<forall>q. q \<noteq> p \<longrightarrow> pstate (ps q) = RUNNING \<longleftrightarrow> pstate (procs s q) = RUNNING"
    using exit_zombie_eq[of "on_hart h s" p status] c exit(1) by auto
  note w = switch_out_eq[where m = "exit_zombie p status", OF c(1,2) _ this(1)]
  show ?thesis using sched_inv_out[OF assms(2) exit(1), of t] exit(2) w ps by auto
next
  case (wake ch h)
  note c = core_at_ok[OF assms(2), where h = h]
  have "kcore t = settled (core_at h s)" "same_running (procs t) (procs s)"
    using wake wakeup_eq[of "on_hart h s" ch] c same_running_woken[of _ _ _ "procs s"] by auto
  then show ?thesis using sched_inv_same[OF assms(2), of t h] by (auto simp: same_running_def)
next
  case (kill i h r)
  note c = core_at_ok[OF assms(2), where h = h]
  have "kcore t = settled (core_at h s) \<or> kcore t = core_at h s" "same_running (procs t) (procs s)"
    using kill kill_from_running[of "on_hart h s" i "[0..<NPROC]"] c by (auto simp: kill_def)
  then show ?thesis using sched_inv_same[OF assms(2), of t h] by (auto simp: same_running_def)
next
  case (create p st)
  then show ?thesis using assms(2) by (auto simp: sched_inv_def)
qed

lemma sched_reach_inv: "sched_reach s \<Longrightarrow> sched_inv s"
proof (induction rule: sched_reach.induct)
  case (start s)
  then show ?case by (simp add: sched_inv_def)
next
  case (step s t)
  then show ?case using sched_step_inv by blast
qed

section \<open>Properties\<close>


definition demo_sched :: proc_state where
  "demo_sched = demo_proc_state\<lparr>kcore := boot_core, procs := (\<lambda>p. blank_proc)(1 := blank_proc\<lparr>pstate := RUNNABLE\<rparr>)\<rparr>"


end
