(* ===== verification/Ring.thy ===== *)
theory Ring
  imports Xv6_Prelude
begin

text \<open>
  Circular buffers. The kernel keeps three (of a pipe, of the console's input, of the serial line's output), all in the same way: two counters
  that only grow, and wrap with their type, tell what is in the buffer; the position of a byte is its counter modulo the size of
  the buffer, a power of two. The locale \<open>ring\<close> has what follows from that; theories \<open>Pipe\<close> and \<open>Line_Editor\<close> interpret it.
\<close>

text \<open>The position of a counter, and the contents between two counters, oldest first.\<close>

definition ring_pos :: "'w::len word \<Rightarrow> 'w word \<Rightarrow> nat" where
  "ring_pos N i = unat (i mod N)"

definition ring_conts :: "'w::len word \<Rightarrow> (nat \<Rightarrow> 'b) \<Rightarrow> 'w word \<Rightarrow> 'w word \<Rightarrow> 'b list" where
  "ring_conts N f r w = map (\<lambda>i. f (ring_pos N (r + of_nat i))) [0..<unat (w - r)]"

lemma length_ring_conts [simp]: "length (ring_conts N f r w) = unat (w - r)"
  by (simp add: ring_conts_def)

lemma ring_conts_empty [simp]: "ring_conts N f r r = []"
  by (simp add: ring_conts_def)

locale ring =
  fixes N :: "'w::len word" and k :: nat
  assumes size: "N = 2 ^ k" and small: "k < LENGTH('w)"
begin

lemma unat_small: "n < 2 ^ LENGTH('w) \<Longrightarrow> unat (of_nat n :: 'w word) = n"
  by (simp add: unsigned_of_nat take_bit_nat_eq_self)

lemma unat_N: "unat N = 2 ^ k"
  using unat_small[of "2 ^ k"] small by (simp add: size)

lemma pos_mod: "ring_pos N i = unat i mod 2 ^ k"
  by (simp add: ring_pos_def unat_mod unat_N)

lemma pos_less: "ring_pos N i < 2 ^ k"
  by (simp add: pos_mod)

lemma pos_add: "ring_pos N (i + of_nat n) = (unat i + n) mod 2 ^ k"
proof -
  have d: "(2::nat) ^ k dvd 2 ^ LENGTH('w)" using small by (simp add: le_imp_power_dvd)
  have "unat (i + of_nat n) mod 2 ^ k = (unat i + n) mod 2 ^ LENGTH('w) mod 2 ^ k"
    by (simp add: unat_word_ariths unsigned_of_nat take_bit_eq_mod mod_add_right_eq)
  then show ?thesis using mod_mod_cancel[OF d] by (simp add: pos_mod)
qed

lemma pos_differs: "i < n \<Longrightarrow> n < i + 2 ^ k \<Longrightarrow> ring_pos N (r + of_nat i) \<noteq> ring_pos N (r + of_nat n)"
proof
  assume a: "i < n" "n < i + 2 ^ k" "ring_pos N (r + of_nat i) = ring_pos N (r + of_nat n)"
  then have "(unat r + i) mod 2 ^ k = (unat r + i + (n - i)) mod 2 ^ k" by (simp add: pos_add)
  then have "2 ^ k dvd (unat r + i + (n - i)) - (unat r + i)" by (metis mod_eq_dvd_iff_nat le_add1)
  then show False using a(1,2) by (auto dest: dvd_imp_le)
qed

text \<open>A byte is appended.\<close>

lemma conts_push:
  assumes "unat (w - r) < 2 ^ k"
  shows "ring_conts N (f(ring_pos N w := c)) r (w + 1) = ring_conts N f r w @ [c]" "unat (w + 1 - r) = unat (w - r) + 1"
proof -
  let ?n = "unat (w - r)"
  have w: "w = r + of_nat ?n" by simp
  have "(2::nat) ^ k < 2 ^ LENGTH('w)" using small by simp
  then have "?n + 1 < 2 ^ LENGTH('w)" using assms by linarith
  moreover have e: "w + 1 - r = of_nat (?n + 1)" by (simp add: algebra_simps)
  ultimately show n: "unat (w + 1 - r) = ?n + 1" unfolding e by (intro unat_small) simp
  have "ring_pos N (r + of_nat i) \<noteq> ring_pos N w" if "i < ?n" for i using pos_differs[of i ?n r] w that assms by simp
  then show "ring_conts N (f(ring_pos N w := c)) r (w + 1) = ring_conts N f r w @ [c]" unfolding ring_conts_def n using w by simp
qed

text \<open>A byte is taken.\<close>

lemma conts_pop:
  assumes "w \<noteq> r"
  shows "ring_conts N f r w = f (ring_pos N r) # ring_conts N f (r + 1) w" "unat (w - r) = Suc (unat (w - (r + 1)))"
proof -
  have "w - r \<noteq> 0" using assms by simp
  then have "unat (w - r - 1) = unat (w - r) - 1" "0 < unat (w - r)" by (simp_all add: unat_minus_one unat_gt_0)
  then show n: "unat (w - r) = Suc (unat (w - (r + 1)))" by (simp add: diff_diff_eq)
  have "[0..<Suc m] = 0 # map Suc [0..<m]" for m by (simp add: upt_conv_Cons map_Suc_upt)
  then show "ring_conts N f r w = f (ring_pos N r) # ring_conts N f (r + 1) w" unfolding ring_conts_def n by (simp add: add.assoc)
qed

text \<open>The newest byte is dropped.\<close>

lemma conts_drop_last:
  assumes "w \<noteq> r"
  shows "ring_conts N f r w = ring_conts N f r (w - 1) @ [f (ring_pos N (w - 1))]" "unat (w - r) = Suc (unat (w - 1 - r))"
proof -
  have "w - r \<noteq> 0" using assms by simp
  then have "unat (w - r - 1) = unat (w - r) - 1" "0 < unat (w - r)" by (simp_all add: unat_minus_one unat_gt_0)
  then show n: "unat (w - r) = Suc (unat (w - 1 - r))" by (simp add: diff_right_commute)
  have "w - 1 = r + of_nat (unat (w - 1 - r))" by simp
  then show "ring_conts N f r w = ring_conts N f r (w - 1) @ [f (ring_pos N (w - 1))]" unfolding ring_conts_def n by simp
qed

text \<open>Two stretches that follow each other.\<close>

lemma conts_join:
  assumes "unat (w - r) + unat (e - w) < 2 ^ LENGTH('w)"
  shows "ring_conts N f r w @ ring_conts N f w e = ring_conts N f r e" "unat (e - r) = unat (w - r) + unat (e - w)"
proof -
  let ?m = "unat (w - r)" and ?n = "unat (e - w)"
  have x: "e - r = of_nat (?m + ?n)" by simp
  show n: "unat (e - r) = ?m + ?n" unfolding x using unat_small[OF assms] by simp
  have u: "[0..<m + n] = [0..<m] @ map (\<lambda>i. i + m) [0..<n]" for m n :: nat
    using upt_add_eq_append[of 0 m n] map_add_upt[of m n] by (metis add.commute add_0 le0)
  have "r + of_nat (i + ?m) = w + of_nat i" for i by (simp add: algebra_simps)
  then show "ring_conts N f r w @ ring_conts N f w e = ring_conts N f r e" unfolding ring_conts_def n u by (simp only: map_append map_map comp_def)
qed

text \<open>Writing outside a stretch does not change it.\<close>

lemma conts_other:
  assumes "unat (w - r) + unat (e - w) < 2 ^ k"
  shows "ring_conts N (f(ring_pos N e := c)) r w = ring_conts N f r w"
proof -
  have lt: "(2::nat) ^ k < 2 ^ LENGTH('w)" using small by simp
  then have "unat (w - r) + unat (e - w) < 2 ^ LENGTH('w)" using assms by linarith
  from conts_join(2)[OF this] have n: "unat (e - r) = unat (w - r) + unat (e - w)" .
  have e: "ring_pos N (r + of_nat (unat (e - r))) = ring_pos N e" by simp
  have "ring_pos N (r + of_nat i) \<noteq> ring_pos N e" if "i < unat (w - r)" for i
    using pos_differs[of i "unat (e - r)" r] that assms n unfolding e by simp
  then show ?thesis by (simp add: ring_conts_def)
qed

end

end
