(* ===== verification/Pipe.thy ===== *)
theory Pipe
  imports File Vm_Map Wakeup Ring
begin

text \<open>
  Pipes are queues of bytes: what \<^verbatim>\<open>pipewrite\<close> and \<^verbatim>\<open>piperead\<close> of \<^verbatim>\<open>kernel/pipe.c\<close> do to the contents of the pipe and to the memory of the
  calling process, across the wrap of the counters and of the circular buffer.
\<close>

section \<open>The contents of a pipe\<close>

interpretation pipe_ring: ring PIPESIZE 9
  by unfold_locales (simp_all add: PIPESIZE_def)

definition pipe_bytes :: "pipe \<Rightarrow> uchar list" where
  "pipe_bytes k = ring_conts PIPESIZE (pdata k) (nread k) (nwrite k)"

definition pipe_ok :: "pipe \<Rightarrow> bool" where
  "pipe_ok k \<longleftrightarrow> length (pipe_bytes k) \<le> 512"

lemma pipe_full: "pipe_ok k \<Longrightarrow> nwrite k = nread k + PIPESIZE \<longleftrightarrow> length (pipe_bytes k) = 512"
proof -
  have "nwrite k = nread k + PIPESIZE \<longleftrightarrow> nwrite k - nread k = 512" by (auto simp: PIPESIZE_def algebra_simps)
  also have "\<dots> \<longleftrightarrow> unat (nwrite k - nread k) = 512" using word_unat_eq_iff[of "nwrite k - nread k" 512] by simp
  finally show ?thesis by (simp add: pipe_bytes_def)
qed

lemma pipe_empty: "nread k = nwrite k \<longleftrightarrow> pipe_bytes k = []"
  using pipe_ring.conts_pop(1)[of "nwrite k" "nread k" "pdata k"] by (cases "nwrite k = nread k") (auto simp: pipe_bytes_def)

lemma pipe_push:
  assumes "length (pipe_bytes k) < 512"
  shows "pipe_bytes (k\<lparr>pdata := (pdata k)(unat (nwrite k mod PIPESIZE) := c), nwrite := nwrite k + 1\<rparr>) = pipe_bytes k @ [c]"
  using assms pipe_ring.conts_push(1)[of "nwrite k" "nread k" "pdata k" c] by (simp add: pipe_bytes_def ring_pos_def)

lemma pipe_pop:
  assumes "nread k \<noteq> nwrite k"
  shows "pipe_bytes k = pdata k (unat (nread k mod PIPESIZE)) # pipe_bytes (k\<lparr>nread := nread k + 1\<rparr>)"
  using assms pipe_ring.conts_pop(1)[of "nwrite k" "nread k" "pdata k"] by (simp add: pipe_bytes_def ring_pos_def)

section \<open>The memory of a process\<close>

lemma user_mem_cong:
  assumes "mem t = mem s"
  shows "user_mapped t = user_mapped s" "user_byte t = user_byte s" "user_ok t = user_ok s"
proof -
  have p: "page_map t = page_map s" using assms by (intro ext) (simp add: page_map_def)
  show m: "user_mapped t = user_mapped s" using p by (intro ext) (simp add: user_mapped_def)
  have a: "user_pa t = user_pa s" using p by (intro ext) (simp add: user_pa_def)
  show "user_byte t = user_byte s" using a assms by (intro ext) (simp add: user_byte_def)
  show "user_ok t = user_ok s" using a m assms by (intro ext) (simp add: user_ok_def)
qed

text \<open>A range of addresses that the process may use.\<close>

definition user_range :: "'z kmem_state_scheme \<Rightarrow> uint64 \<Rightarrow> uint64 \<Rightarrow> nat \<Rightarrow> bool" where
  "user_range s root addr n \<longleftrightarrow> unat addr + n \<le> unat MAXVA \<and> (\<forall>i < n. user_mapped s root (addr + of_nat i))"

definition user_bytes :: "'z kmem_state_scheme \<Rightarrow> uint64 \<Rightarrow> uint64 \<Rightarrow> nat \<Rightarrow> uchar list" where
  "user_bytes s root addr n = map (\<lambda>i. user_byte s root (addr + of_nat i)) [0..<n]"

lemma user_bytes_Suc: "user_bytes s root addr (Suc n) = user_byte s root addr # user_bytes s root (addr + 1) n"
proof -
  have "[0..<Suc n] = 0 # map Suc [0..<n]" by (simp add: upt_conv_Cons map_Suc_upt)
  then show ?thesis by (simp add: user_bytes_def add.assoc)
qed

lemma user_range_Suc:
  assumes "user_range s root addr (Suc n)"
  shows "user_mapped s root addr" "unat addr + 1 \<le> unat MAXVA" "user_range s root (addr + 1) n" "unat (addr + 1) = unat addr + 1"
proof -
  have r: "unat addr + Suc n \<le> unat MAXVA" "\<And>i. i < Suc n \<Longrightarrow> user_mapped s root (addr + of_nat i)" using assms by (auto simp: user_range_def)
  show "user_mapped s root addr" using r(2)[of 0] by simp
  show "unat addr + 1 \<le> unat MAXVA" using r(1) by simp
  then show a: "unat (addr + 1) = unat addr + 1" using unat_add_offset[of addr 1] by (simp add: MAXVA_eq)
  have "user_mapped s root (addr + 1 + of_nat i)" if "i < n" for i using r(2)[of "Suc i"] that by (simp add: add.assoc)
  then show "user_range s root (addr + 1) n" using r(1) a by (simp add: user_range_def)
qed

lemma copyin_byte:
  assumes "user_ok s pos root" "user_mapped s root va" "unat va + 1 \<le> unat MAXVA"
  shows "copyin root va 1 s = Ok ((0, [user_byte s root va]), s)"
  using copyin_reads[OF assms(1), of va 1] assms(2,3) by simp

section \<open>Writing\<close>

lemma is_killed_eq:
  assumes "core_ok (kcore s)" "lock_free (LProc p) (kcore s)" "settled (kcore s) = kcore s"
  shows "is_killed p s = Ok (killed (procs s p), s)"
  using assms by (simp add: is_killed_def kern_simps)

text \<open>The process runs with the pipe's lock held.\<close>

definition in_pipe :: "uint64 \<Rightarrow> nat \<Rightarrow> core \<Rightarrow> 'z kernel_scheme \<Rightarrow> bool" where
  "in_pipe pi p c s \<longleftrightarrow> quiet p c \<and> kcore s = acquired (LPipe pi) c"

lemma in_pipeD:
  assumes "in_pipe pi p c s"
  shows "core_ok (kcore s)" "settled (kcore s) = kcore s" "lock_free (LProc q) (kcore s)" "cproc (mycpu (kcore s)) = Some p"
  using assms quietD by (auto simp: in_pipe_def)

lemma pipewrite_done_eq:
  assumes "in_pipe pi p c s"
  shows "\<exists>t. pipewrite_done pi i s = Ok (Inr i, t) \<and> pipes t = pipes s \<and> mem t = mem s"
proof -
  note q = in_pipeD[OF assms]
  have c: "core_ok c" "lock_free (LPipe pi) c" "kcore s = acquired (LPipe pi) c" using assms quietD by (auto simp: in_pipe_def)
  show ?thesis using wakeup_eq[OF q(1,3), of "ChPipeR pi"] q(2) c by (simp add: pipewrite_done_def kern_simps)
qed

lemma pipewrite_loop_eq:
  fixes s :: "'z file_state_scheme"
  assumes "in_pipe pi p c s" "killed (procs s p) = 0" "readopen (pipes s pi)" "pipe_ok (pipes s pi)"
    "user_ok s pos (pagetable (procs s p))" "user_range s (pagetable (procs s p)) (addr + of_int i) m" "n = i + int m"
  defines "room \<equiv> 512 - length (pipe_bytes (pipes s pi))"
  shows "\<exists>t. pipewrite_loop pi p addr n i s = Ok (if m \<le> room then Inr n else Inl (i + int room), t) \<and> mem t = mem s \<and>
     pipe_bytes (pipes t pi) = pipe_bytes (pipes s pi) @ user_bytes s (pagetable (procs s p)) (addr + of_int i) (min m room)"
  using assms(1-7) unfolding room_def
proof (induction m arbitrary: s i)
  case 0
  have "pipewrite_loop pi p addr n i s = pipewrite_done pi i s" using "0.prems"(7) by (subst pipewrite_loop.simps) simp
  then show ?case using pipewrite_done_eq[OF "0.prems"(1), of i] "0.prems"(7) by (auto simp: user_bytes_def)
next
  case (Suc m)
  let ?k = "pipes s pi" and ?root = "pagetable (procs s p)" and ?a = "addr + of_int i"
  note q = in_pipeD[OF Suc.prems(1)]
  have less: "i < n" using Suc.prems(7) by simp
  have kill: "is_killed p s = Ok (0, s)" using is_killed_eq[OF q(1,3,2)] Suc.prems(2) by simp
  show ?case
  proof (cases "length (pipe_bytes ?k) = 512")
    case True
    then have full: "nwrite ?k = nread ?k + PIPESIZE" using pipe_full[OF Suc.prems(4)] by simp
    obtain t where "wakeup (ChPipeR pi) s = Ok ((), t)" "pipes t = pipes s" "mem t = mem s" using wakeup_eq[OF q(1,3)] by simp
    then have "pipewrite_loop pi p addr n i s = Ok (Inl i, t)"
      using less kill full Suc.prems(3) by (subst pipewrite_loop.simps) (simp add: kern_simps)
    then show ?thesis using True \<open>pipes t = pipes s\<close> \<open>mem t = mem s\<close> by (simp add: user_bytes_def)
  next
    case False
    then have room: "length (pipe_bytes ?k) < 512" "nwrite ?k \<noteq> nread ?k + PIPESIZE"
      using Suc.prems(4) pipe_full[OF Suc.prems(4)] by (auto simp: pipe_ok_def)
    note r = user_range_Suc[OF Suc.prems(6)]
    let ?b = "user_byte s ?root ?a"
    let ?k' = "?k\<lparr>pdata := (pdata ?k)(unat (nwrite ?k mod PIPESIZE) := ?b), nwrite := nwrite ?k + 1\<rparr>"
    let ?s = "s\<lparr>pipes := (pipes s)(pi := ?k')\<rparr>"
    have step: "pipewrite_loop pi p addr n i s = pipewrite_loop pi p addr n (i + 1) ?s"
      using less kill room(2) Suc.prems(3) copyin_byte[OF Suc.prems(5) r(1,2)] by (subst pipewrite_loop.simps) (simp add: kern_simps)
    have b: "pipe_bytes ?k' = pipe_bytes ?k @ [?b]" using pipe_push[OF room(1)] .
    note u = user_mem_cong[of ?s s]
    have next_addr: "addr + of_int (i + 1) = ?a + 1" by simp
    obtain t where t: "pipewrite_loop pi p addr n (i + 1) ?s = Ok (if m \<le> 512 - length (pipe_bytes ?k') then Inr n else Inl (i + 1 + int (512 - length (pipe_bytes ?k'))), t)"
      "mem t = mem ?s" "pipe_bytes (pipes t pi) = pipe_bytes ?k' @ user_bytes ?s ?root (?a + 1) (min m (512 - length (pipe_bytes ?k')))"
      using Suc.IH[of ?s "i + 1"] Suc.prems b r(3) room(1) u unfolding next_addr by (auto simp: in_pipe_def pipe_ok_def user_range_def)
    have ub: "user_bytes ?s ?root (?a + 1) j = user_bytes s ?root (?a + 1) j" for j using u(2) by (simp add: user_bytes_def)
    have l: "512 - length (pipe_bytes ?k) = Suc (512 - length (pipe_bytes ?k'))" using b room(1) by simp
    show ?thesis unfolding step using t b l by (auto simp: ub user_bytes_Suc)
  qed
qed

section \<open>Reading\<close>

text \<open>Bytes placed in the memory of a process from an address on, everything else in its memory unchanged.\<close>

definition placed :: "'z kmem_state_scheme \<Rightarrow> uint64 \<Rightarrow> uint64 \<Rightarrow> uchar list \<Rightarrow> 'z kmem_state_scheme \<Rightarrow> bool" where
  "placed s root addr bs t \<longleftrightarrow> user_mapped t root = user_mapped s root \<and>
     (\<forall>va. user_mapped s root va \<longrightarrow> user_byte t root va =
        (if unat addr \<le> unat va \<and> unat va < unat addr + length bs then bs ! (unat va - unat addr) else user_byte s root va))"

lemma placed_Nil: "mem t = mem s \<Longrightarrow> placed s root addr [] t"
  using user_mem_cong[of t s] by (auto simp: placed_def)

lemma placed_Cons:
  assumes "placed s root addr [b] u" "placed u root (addr + 1) bs t" "unat (addr + 1) = unat addr + 1"
  shows "placed s root addr (b # bs) t"
  using assms by (auto simp: placed_def nth_Cons')

lemma copyout_byte:
  assumes "user_ok s pos root" "user_mapped s root va" "unat va + 1 \<le> unat MAXVA"
  shows "\<exists>t. copyout root va [b] s = Ok (0, t) \<and> t = s\<lparr>mem := mem t\<rparr> \<and> user_ok t pos root \<and> placed s root va [b] t"
proof -
  obtain t where t: "copyout root va [b] s = Ok (0, t)" "copied_out s root va [b] t" "user_ok t pos root"
    using copyout_writes[OF assms(1), of va "[b]"] assms(2,3) by auto
  have "user_mapped t root = user_mapped s root" using user_mapped_cong[of t root s] t(2) by (simp add: copied_out_def)
  then show ?thesis using t by (auto simp: copied_out_def placed_def)
qed

lemma piperead_copy_eq:
  fixes s :: "'z file_state_scheme" and pi :: uint64
  assumes "user_ok s pos (pagetable (procs s p))" "user_range s (pagetable (procs s p)) (addr + of_int i) m" "n = i + int m"
  defines "l \<equiv> min m (length (pipe_bytes (pipes s pi)))"
  shows "\<exists>t. piperead_copy pi p addr n i s = Ok (i + int l, t) \<and> kcore t = kcore s \<and> procs t = procs s \<and>
     pipe_bytes (pipes t pi) = drop l (pipe_bytes (pipes s pi)) \<and>
     placed s (pagetable (procs s p)) (addr + of_int i) (take l (pipe_bytes (pipes s pi))) t"
  using assms(1-3) unfolding l_def
proof (induction m arbitrary: s i)
  case 0
  have "piperead_copy pi p addr n i s = Ok (i, s)" using "0.prems"(3) by (subst piperead_copy.simps) (simp add: ret_apply)
  then show ?case using placed_Nil[of s s] by simp
next
  case (Suc m)
  let ?k = "pipes s pi" and ?root = "pagetable (procs s p)" and ?a = "addr + of_int i"
  show ?case
  proof (cases "pipe_bytes ?k = []")
    case True
    then have "nread ?k = nwrite ?k" using pipe_empty by simp
    then have "piperead_copy pi p addr n i s = Ok (i, s)" using Suc.prems(3) by (subst piperead_copy.simps) (simp add: kern_simps)
    then show ?thesis using True placed_Nil[of s s] by simp
  next
    case False
    then have ne: "nread ?k \<noteq> nwrite ?k" using pipe_empty by simp
    note pop = pipe_pop[OF ne] and r = user_range_Suc[OF Suc.prems(2)]
    let ?b = "pdata ?k (unat (nread ?k mod PIPESIZE))" let ?k' = "?k\<lparr>nread := nread ?k + 1\<rparr>"
    let ?s1 = "s\<lparr>pipes := (pipes s)(pi := ?k')\<rparr>"
    note u = user_mem_cong[of ?s1 s]
    have s1: "user_ok ?s1 pos ?root" "user_mapped ?s1 ?root ?a" using u Suc.prems(1) r(1) by auto
    obtain v where v: "copyout ?root ?a [?b] ?s1 = Ok (0, v)" "v = ?s1\<lparr>mem := mem v\<rparr>" "user_ok v pos ?root" "placed ?s1 ?root ?a [?b] v"
      using copyout_byte[OF s1 r(2)] by blast
    have v2: "pipes v = (pipes s)(pi := ?k')" "procs v = procs s" "kcore v = kcore s"
      using arg_cong[OF v(2), of pipes] arg_cong[OF v(2), of procs] arg_cong[OF v(2), of kcore] by simp_all
    have step: "piperead_copy pi p addr n i s = piperead_copy pi p addr n (i + 1) v"
      using Suc.prems(3) ne v(1) by (subst piperead_copy.simps) (simp add: kern_simps)
    have pl: "placed s ?root ?a [?b] v" using v(4) u by (simp add: placed_def)
    have next_addr: "addr + of_int (i + 1) = ?a + 1" by simp
    have "user_range v ?root (?a + 1) m" using r(3) pl by (simp add: user_range_def placed_def)
    then obtain t where t: "piperead_copy pi p addr n (i + 1) v = Ok (i + 1 + int (min m (length (pipe_bytes ?k'))), t)" "kcore t = kcore v" "procs t = procs v"
      "pipe_bytes (pipes t pi) = drop (min m (length (pipe_bytes ?k'))) (pipe_bytes ?k')"
      "placed v ?root (?a + 1) (take (min m (length (pipe_bytes ?k'))) (pipe_bytes ?k')) t"
      using Suc.IH[of v "i + 1"] v(3) v2 Suc.prems(3) unfolding next_addr by auto
    show ?thesis unfolding step using t v2 placed_Cons[OF pl t(5) r(4)] by (auto simp: pop)
  qed
qed

lemma piperead_eq:
  fixes s :: "'z file_state_scheme" and pi :: uint64
  assumes "quiet p (kcore s)" "pipe_bytes (pipes s pi) \<noteq> [] \<or> \<not> writeopen (pipes s pi)" "user_ok s pos (pagetable (procs s p))"
    "user_range s (pagetable (procs s p)) addr m"
  defines "l \<equiv> min m (length (pipe_bytes (pipes s pi)))"
  shows "\<exists>t. piperead pi addr (int m) s = Ok (Inr (int l), t) \<and> pipe_bytes (pipes t pi) = drop l (pipe_bytes (pipes s pi)) \<and>
     placed s (pagetable (procs s p)) addr (take l (pipe_bytes (pipes s pi))) t"
proof -
  note q = quietD[OF assms(1)]
  let ?s1 = "s\<lparr>kcore := acquired (LPipe pi) (kcore s)\<rparr>" and ?root = "pagetable (procs s p)"
  note u = user_mem_cong[of ?s1 s]
  have "user_ok ?s1 pos ?root" "user_range ?s1 ?root (addr + of_int 0) m" using assms(3,4) u by (auto simp: user_range_def)
  then obtain t where t: "piperead_copy pi p addr (int m) 0 ?s1 = Ok (int l, t)" "kcore t = acquired (LPipe pi) (kcore s)" "procs t = procs s"
     "pipe_bytes (pipes t pi) = drop l (pipe_bytes (pipes s pi))" "placed ?s1 ?root addr (take l (pipe_bytes (pipes s pi))) t"
    using piperead_copy_eq[of ?s1 pos p addr 0 m "int m" pi] by (auto simp: l_def)
  have ne: "\<not> (nread (pipes s pi) = nwrite (pipes s pi) \<and> writeopen (pipes s pi))" using assms(2) pipe_empty by auto
  obtain v where v: "wakeup (ChPipeW pi) t = Ok ((), v)" "kcore v = acquired (LPipe pi) (kcore s)" "pipes v = pipes t" "mem v = mem t"
    using wakeup_eq[of t "ChPipeW pi"] t(2) q by simp
  let ?v = "v\<lparr>kcore := settled (kcore s)\<rparr>"
  have "piperead pi addr (int m) s = Ok (Inr (int l), ?v)"
    using q ne t(1) v(1,2) by (cases "nread (pipes s pi) = nwrite (pipes s pi)") (simp_all add: piperead_def piperead_body_def kern_simps curproc_eq)
  moreover have "placed s ?root addr (take l (pipe_bytes (pipes s pi))) ?v"
    using t(5) u user_mem_cong[of ?v t] v(4) by (simp add: placed_def)
  ultimately show ?thesis using t(4) v(3) by (intro exI[of _ ?v]) simp
qed

lemma pipewrite_eq:
  fixes s :: "'z file_state_scheme" and pi :: uint64
  assumes "quiet p (kcore s)" "killed (procs s p) = 0" "readopen (pipes s pi)" "pipe_ok (pipes s pi)" "user_ok s pos (pagetable (procs s p))"
    "user_range s (pagetable (procs s p)) addr m"
  defines "room \<equiv> 512 - length (pipe_bytes (pipes s pi))"
  shows "\<exists>t. pipewrite pi addr (int m) s = Ok (if m \<le> room then Inr (int m) else Inl (int room), t) \<and> mem t = mem s \<and>
     pipe_bytes (pipes t pi) = pipe_bytes (pipes s pi) @ user_bytes s (pagetable (procs s p)) addr (min m room)"
proof -
  note q = quietD[OF assms(1)]
  let ?s1 = "s\<lparr>kcore := acquired (LPipe pi) (kcore s)\<rparr>" and ?root = "pagetable (procs s p)"
  note u = user_mem_cong[of ?s1 s]
  have "in_pipe pi p (kcore s) ?s1" using assms(1) by (simp add: in_pipe_def)
  moreover have "user_ok ?s1 pos ?root" "user_range ?s1 ?root (addr + of_int 0) m" using assms(5,6) u by (auto simp: user_range_def)
  moreover have "user_bytes ?s1 ?root addr j = user_bytes s ?root addr j" for j using u(2) by (simp add: user_bytes_def)
  moreover have "pipewrite pi addr (int m) s = pipewrite_loop pi p addr (int m) 0 ?s1"
    using q by (simp add: pipewrite_def kern_simps curproc_eq)
  ultimately show ?thesis using pipewrite_loop_eq[of pi p "kcore s" ?s1 pos addr 0 m "int m"] assms(2-4) by (simp add: room_def cong: if_cong)
qed

section \<open>Properties\<close>

text \<open>
  C10. Pipes are queues. With no lock contended, writing \<open>m\<close> bytes of mapped user memory appends them to the contents of the pipe, in order: all of
  them when there is room, and otherwise as many as there is room for, after which the writer sleeps; the buffer never holds more than
  \<^verbatim>\<open>PIPESIZE\<close>. Reading up to \<open>m\<close> bytes from a pipe that is not empty returns how many it took, has taken exactly that many from the front, and has placed them in the
  memory of the process, which is otherwise unchanged. The counters may wrap.
\<close>

theorem pipe_fifo:
  fixes s :: "'z file_state_scheme" and pi :: uint64
  assumes "quiet p (kcore s)" "killed (procs s p) = 0" "readopen (pipes s pi)" "pipe_ok (pipes s pi)" "user_ok s pos (pagetable (procs s p))"
    "user_range s (pagetable (procs s p)) addr m"
  defines "bs \<equiv> pipe_bytes (pipes s pi)" and "root \<equiv> pagetable (procs s p)"
  shows "(\<exists>t. pipewrite pi addr (int m) s = Ok (if length bs + m \<le> 512 then Inr (int m) else Inl (512 - int (length bs)), t) \<and>
       pipe_bytes (pipes t pi) = bs @ user_bytes s root addr (min m (512 - length bs)) \<and> pipe_ok (pipes t pi) \<and> mem t = mem s) \<and>
     (bs \<noteq> [] \<longrightarrow> (\<exists>t. piperead pi addr (int m) s = Ok (Inr (int (min m (length bs))), t) \<and>
       pipe_bytes (pipes t pi) = drop m bs \<and> placed s root addr (take m bs) t))"
proof (intro conjI impI)
  have l: "length bs \<le> 512" using assms(4) by (simp add: pipe_ok_def bs_def)
  obtain t where t: "pipewrite pi addr (int m) s = Ok (if m \<le> 512 - length bs then Inr (int m) else Inl (int (512 - length bs)), t)" "mem t = mem s"
     "pipe_bytes (pipes t pi) = bs @ user_bytes s root addr (min m (512 - length bs))"
    using pipewrite_eq[OF assms(1-6)] unfolding bs_def root_def by blast
  have "pipe_ok (pipes t pi)" using t(3) l by (simp add: pipe_ok_def user_bytes_def)
  moreover have "m \<le> 512 - length bs \<longleftrightarrow> length bs + m \<le> 512" "int (512 - length bs) = 512 - int (length bs)" using l by auto
  ultimately show "\<exists>t. pipewrite pi addr (int m) s = Ok (if length bs + m \<le> 512 then Inr (int m) else Inl (512 - int (length bs)), t) \<and>
       pipe_bytes (pipes t pi) = bs @ user_bytes s root addr (min m (512 - length bs)) \<and> pipe_ok (pipes t pi) \<and> mem t = mem s"
    using t by auto
  assume "bs \<noteq> []"
  then show "\<exists>t. piperead pi addr (int m) s = Ok (Inr (int (min m (length bs))), t) \<and>
       pipe_bytes (pipes t pi) = drop m bs \<and> placed s root addr (take m bs) t"
    using piperead_eq[OF assms(1) _ assms(5,6), of pi] unfolding bs_def root_def by (auto simp: min_def split: if_splits)
qed

text \<open>A pipe whose counters have just wrapped, read by a process with one page of memory.\<close>

definition demo_pipe :: pipe where
  "demo_pipe = \<lparr>pdata = (\<lambda>i. 0)(511 := 7, 0 := 9), nread = 0xFFFFFFFF, nwrite = 1, readopen = True, writeopen = True\<rparr>"

definition demo_file :: file_state where
  "demo_file = \<lparr>kcore = demo_core, mem = mem demo_user, freelist = 0, kend = 0x87FFA000,
     procs = demo_procs(0 := (demo_procs 0)\<lparr>pagetable := 0x87FFD000\<rparr>), initproc = Some 0, nextpid = 3,
     peterson_locks = \<lambda>l. \<lparr>active = 0, flag = \<lambda>r. 0, turn = 0\<rparr>, trampoline = 0x80008000, forkret_addr = 0x80001000,
     uart_tx_buf = \<lambda>i. 0, uart_tx_w = 0, uart_tx_r = 0, tx_room = 0, sent = [], rx = [], uart_regs = [], panicked = False, pr_locking = True,
     cons_buf = \<lambda>i. 0, cons_r = 0, cons_w = 0, cons_e = 0, slocks = \<lambda>l. \<lparr>slocked = False, slpid = 0\<rparr>,
     bufs = \<lambda>b. \<lparr>bvalid = False, bdev = 0, bblockno = 0, brefcnt = 0, bprev = 0, bnext = 0, bdata = []\<rparr>, disk = \<lambda>n. [], dtrace = [],
     log = \<lparr>lstart = 2, lsize = 30, outstanding = 0, committing = False, ldev = 1, lh = \<lparr>lhn = 0, lhblock = \<lambda>i. 0\<rparr>\<rparr>,
     sb = \<lparr>sb_magic = 0, sb_size = 0, sb_nblocks = 0, sb_ninodes = 0, sb_nlog = 30, sb_logstart = 2, sb_inodestart = 0, sb_bmapstart = 0\<rparr>,
     inodes = \<lambda>i. \<lparr>idev = 0, inum = 0, iref = 0, ivalid = False, itype = 0, imajor = 0, iminor = 0, nlink = 0, isize = 0, addrs = []\<rparr>,
     ftable = \<lambda>f. \<lparr>ftype = FD_NONE, fref = 0, readable = False, writable = False, fpipe = 0, fip = 0, foff = 0, fmajor = 0\<rparr>,
     pipes = \<lambda>p. demo_pipe, devsw = \<lambda>d. False, stack_bytes = []\<rparr>"

theorem pipe_fifo_witness:
  "\<exists>t. piperead 0x87F00000 0xFFE 2 demo_file = Ok (Inr 2, t) \<and> pipe_bytes (pipes t 0x87F00000) = [] \<and>
     user_byte t 0x87FFD000 0xFFE = 7 \<and> user_byte t 0x87FFD000 0xFFF = 9"
proof -
  have f: "kcore demo_file = demo_core" "killed (procs demo_file 0) = 0" "pagetable (procs demo_file 0) = 0x87FFD000" "pipes demo_file p = demo_pipe"
    "mem demo_file = mem demo_user" for p
    by (simp_all add: demo_file_def demo_procs_def blank_proc_def)
  have bs: "pipe_bytes demo_pipe = [7, 9]"
    by (simp add: pipe_bytes_def demo_pipe_def ring_conts_def ring_pos_def PIPESIZE_def upt_rec)
  note u = user_mem_cong[of demo_file demo_user, OF f(5)]
  have ok: "user_ok demo_file demo_pos 0x87FFD000" using demo_user_ok u by simp
  have m: "user_mapped demo_file 0x87FFD000 va \<longleftrightarrow> unat va < 4096" for va using demo_user_mapped u by simp
  have "i < 2 \<Longrightarrow> i = 0 \<or> i = 1" for i :: nat by auto
  then have "user_range demo_file 0x87FFD000 0xFFE 2" by (force simp: user_range_def m MAXVA_eq)
  then obtain t where t: "piperead 0x87F00000 0xFFE (int 2) demo_file = Ok (Inr (int (min 2 2)), t)" "pipe_bytes (pipes t 0x87F00000) = drop 2 [7, 9]"
    "placed demo_file 0x87FFD000 0xFFE (take 2 [7, 9]) t"
    using pipe_fifo[of 0 demo_file "0x87F00000" demo_pos "0xFFE" 2] f ok demo_core_ok(4) bs by (auto simp: pipe_ok_def demo_pipe_def)
  then show ?thesis using m[of "0xFFE"] m[of "0xFFF"] by (auto simp: placed_def)
qed

end
