(* ===== verification/Line_Editor.thy ===== *)
theory Line_Editor
  imports Console Wakeup Ring
begin

text \<open>
  The input side of \<^verbatim>\<open>kernel/console.c\<close> as a line editor: the circular buffer holds the lines that readers may take and, after
  them, the line that is being typed; \<^verbatim>\<open>consoleintr\<close> implements the editing commands on these two.
\<close>

interpretation cons_ring: ring INPUT_BUF_SIZE 7
  by unfold_locales (simp_all add: INPUT_BUF_SIZE_def)

section \<open>The editor\<close>

definition ready_bytes :: "'z cons_state_scheme \<Rightarrow> uchar list" where
  "ready_bytes s = ring_conts INPUT_BUF_SIZE (cons_buf s) (cons_r s) (cons_w s)"

definition typed_line :: "'z cons_state_scheme \<Rightarrow> uchar list" where
  "typed_line s = ring_conts INPUT_BUF_SIZE (cons_buf s) (cons_w s) (cons_e s)"

text \<open>The indices are in order, the buffer is not over-full, and the line being typed has no end of line.\<close>

definition cons_inv :: "'z cons_state_scheme \<Rightarrow> bool" where
  "cons_inv s \<longleftrightarrow> length (ready_bytes s) + length (typed_line s) \<le> 128 \<and> 10 \<notin> set (typed_line s)"

text \<open>What a character does: erase the line, erase a character, or add one, which may complete the line.\<close>

definition edit :: "int \<Rightarrow> uchar list \<times> uchar list \<Rightarrow> uchar list \<times> uchar list" where
  "edit c = (\<lambda>(rdy, line).
     if c = Ctrl (CHR ''U'') then (rdy, [])
     else if c = Ctrl (CHR ''H'') \<or> c = 0x7f then (rdy, butlast line)
     else if c = 0 \<or> length rdy + length line \<ge> 128 then (rdy, line)
     else
       let ch = (if c = 13 then 10 else c); line' = line @ [word_of_int ch] in
       if ch = 10 \<or> ch = Ctrl (CHR ''D'') \<or> length rdy + length line' = 128 then (rdy @ line', []) else (rdy, line'))"

section \<open>Echo\<close>

lemma consputc_eq:
  assumes "core_ok (kcore s)" "settled (kcore s) = kcore s" "\<not> panicked s"
  shows "\<exists>bs n. consputc c s = Ok ((), s\<lparr>sent := bs, tx_room := n\<rparr>)"
proof -
  have one: "\<exists>bs n. uartputc_sync b s = Ok ((), s\<lparr>sent := bs, tx_room := n\<rparr>)"
    if "core_ok (kcore s)" "settled (kcore s) = kcore s" "\<not> panicked s" for b and s :: "'a uart_state_scheme"
    using that by (intro exI) (simp add: uartputc_sync_def write_thr_def kern_simps pop_push)
  show ?thesis
  proof (cases "c = BACKSPACE")
    case True
    obtain b1 n1 where 1: "uartputc_sync 8 s = Ok ((), s\<lparr>sent := b1, tx_room := n1\<rparr>)" using one[OF assms] by blast
    obtain b2 n2 where 2: "uartputc_sync 32 (s\<lparr>sent := b1, tx_room := n1\<rparr>) = Ok ((), s\<lparr>sent := b2, tx_room := n2\<rparr>)"
      using one[of "s\<lparr>sent := b1, tx_room := n1\<rparr>" 32] assms by auto
    obtain b3 n3 where 3: "uartputc_sync 8 (s\<lparr>sent := b2, tx_room := n2\<rparr>) = Ok ((), s\<lparr>sent := b3, tx_room := n3\<rparr>)"
      using one[of "s\<lparr>sent := b2, tx_room := n2\<rparr>" 8] assms by auto
    show ?thesis using True 1 2 3 by (intro exI[of _ b3] exI[of _ n3]) (simp add: consputc_def kern_simps)
  next
    case False
    then show ?thesis using one[OF assms] by (simp add: consputc_def)
  qed
qed

section \<open>The commands\<close>

text \<open>Inside the critical section of the console; the core does not change there.\<close>

definition editing :: "'z cons_state_scheme \<Rightarrow> bool" where
  "editing s \<longleftrightarrow> core_ok (kcore s) \<and> settled (kcore s) = kcore s \<and> \<not> panicked s \<and> (\<forall>p. lock_free (LProc p) (kcore s))"

lemma typed_split:
  assumes "cons_e s \<noteq> cons_w s"
  shows "typed_line s = typed_line (s\<lparr>cons_e := cons_e s - 1\<rparr>) @ [cons_at s (cons_e s - 1)]"
  using cons_ring.conts_drop_last(1)[OF assms, of "cons_buf s"] by (simp add: typed_line_def ring_pos_def)

lemma typed_empty: "typed_line s = [] \<longleftrightarrow> cons_e s = cons_w s"
  using typed_split[of s] by (cases "cons_e s = cons_w s") (auto simp: typed_line_def)

lemma erase_eq:
  assumes "editing s" "cons_e s \<noteq> cons_w s"
  shows "\<exists>t. seqs [modify (\<lambda>s. s\<lparr>cons_e := cons_e s - 1\<rparr>), consputc BACKSPACE] s = Ok ((), t) \<and> editing t \<and> kcore t = kcore s \<and>
     ready_bytes t = ready_bytes s \<and> typed_line t = butlast (typed_line s)"
proof -
  let ?s = "s\<lparr>cons_e := cons_e s - 1\<rparr>"
  obtain bs n where "consputc BACKSPACE ?s = Ok ((), ?s\<lparr>sent := bs, tx_room := n\<rparr>)"
    using consputc_eq[of ?s BACKSPACE] assms(1) by (auto simp: editing_def)
  then show ?thesis using assms typed_split[OF assms(2)]
    by (auto simp: kern_simps editing_def ready_bytes_def typed_line_def)
qed

lemma backspace_eq:
  assumes "editing s"
  shows "\<exists>t. backspace s = Ok ((), t) \<and> editing t \<and> kcore t = kcore s \<and> ready_bytes t = ready_bytes s \<and> typed_line t = butlast (typed_line s)"
proof (cases "cons_e s = cons_w s")
  case True
  then show ?thesis using assms typed_empty[of s] by (simp add: backspace_def kern_simps)
next
  case False
  then show ?thesis using erase_eq[OF assms False] by (simp add: backspace_def bnd_apply gets_apply whenb_apply)
qed

lemma kill_line_eq:
  assumes "editing s" "10 \<notin> set (typed_line s)" "length (typed_line s) = n"
  shows "\<exists>t. kill_line n s = Ok ((), t) \<and> editing t \<and> kcore t = kcore s \<and> ready_bytes t = ready_bytes s \<and> typed_line t = []"
  using assms
proof (induction n arbitrary: s)
  case 0
  then show ?case by (simp add: ret_apply)
next
  case (Suc n)
  then have ne: "cons_e s \<noteq> cons_w s" using typed_empty[of s] by auto
  have c: "cons_at s (cons_e s - 1) \<noteq> 10" using Suc.prems(2) typed_split[OF ne] by auto
  obtain t where t: "seqs [modify (\<lambda>s. s\<lparr>cons_e := cons_e s - 1\<rparr>), consputc BACKSPACE] s = Ok ((), t)" "editing t" "kcore t = kcore s"
     "ready_bytes t = ready_bytes s" "typed_line t = butlast (typed_line s)" using erase_eq[OF Suc.prems(1) ne] by blast
  have "10 \<notin> set (typed_line t)" "length (typed_line t) = n" using t(5) Suc.prems(2,3) in_set_butlastD[of 10 "typed_line s"] by auto
  from Suc.IH[OF t(2) this] obtain u where "kill_line n t = Ok ((), u)" "editing u" "kcore u = kcore t" "ready_bytes u = ready_bytes t" "typed_line u = []"
    by blast
  moreover have "kill_line (Suc n) s = kill_line n t" using c t(1) by (auto simp: kern_simps obind_eq_Ok obind_unit)
  ultimately show ?case using t(3,4) by auto
qed

lemma line_room: "cons_inv s \<Longrightarrow> unat (cons_e s - cons_r s) = length (ready_bytes s) + length (typed_line s)"
proof -
  assume "cons_inv s"
  then have "unat (cons_w s - cons_r s) + unat (cons_e s - cons_w s) < 2 ^ LENGTH(32)" by (simp add: cons_inv_def ready_bytes_def typed_line_def)
  from cons_ring.conts_join(2)[OF this] show ?thesis by (simp add: ready_bytes_def typed_line_def)
qed

text \<open>The buffer after a character has been stored at its end.\<close>

lemma stored:
  assumes "cons_inv s" "length (ready_bytes s) + length (typed_line s) < 128"
    "cons_buf t = (cons_buf s)(unat (cons_e s mod INPUT_BUF_SIZE) := c)" "cons_e t = cons_e s + 1" "cons_r t = cons_r s" "cons_w t = cons_w s"
  shows "ready_bytes t = ready_bytes s" "typed_line t = typed_line s @ [c]"
    "cons_e t - cons_r t = INPUT_BUF_SIZE \<longleftrightarrow> length (ready_bytes s) + Suc (length (typed_line s)) = 128"
    "ready_bytes (t\<lparr>cons_w := cons_e t\<rparr>) = ready_bytes s @ typed_line s @ [c]" "typed_line (t\<lparr>cons_w := cons_e t\<rparr>) = []"
proof -
  have l: "unat (cons_w s - cons_r s) + unat (cons_e s - cons_w s) < 2 ^ 7" "unat (cons_e s - cons_w s) < 2 ^ 7"
    using assms(2) by (simp_all add: ready_bytes_def typed_line_def)
  have p: "unat (cons_e s mod INPUT_BUF_SIZE) = ring_pos INPUT_BUF_SIZE (cons_e s)" by (simp add: ring_pos_def)
  note push = cons_ring.conts_push(1)[OF l(2), of "cons_buf s" c] cons_ring.conts_push(2)[OF l(2)]
  show r: "ready_bytes t = ready_bytes s" using cons_ring.conts_other[OF l(1), of "cons_buf s" c] assms(3-6) by (simp add: ready_bytes_def p)
  show y: "typed_line t = typed_line s @ [c]" using push(1) assms(3-6) by (simp add: typed_line_def p)
  have n: "unat (cons_w t - cons_r t) + unat (cons_e t - cons_w t) < 2 ^ LENGTH(32)" using l(1) push(2) assms(4-6) by simp
  note join = cons_ring.conts_join(1)[OF n, of "cons_buf t"] cons_ring.conts_join(2)[OF n]
  have "unat (cons_e t - cons_r t) = length (ready_bytes s) + Suc (length (typed_line s))"
    using join(2) push(2) assms(4-6) by (simp add: ready_bytes_def typed_line_def)
  moreover have "cons_e t - cons_r t = INPUT_BUF_SIZE \<longleftrightarrow> unat (cons_e t - cons_r t) = 128"
    using word_unat_eq_iff[of "cons_e t - cons_r t" 128] by (simp add: INPUT_BUF_SIZE_def)
  ultimately show "cons_e t - cons_r t = INPUT_BUF_SIZE \<longleftrightarrow> length (ready_bytes s) + Suc (length (typed_line s)) = 128" by simp
  show "ready_bytes (t\<lparr>cons_w := cons_e t\<rparr>) = ready_bytes s @ typed_line s @ [c]"
    using join(1) r y by (simp add: ready_bytes_def typed_line_def)
  show "typed_line (t\<lparr>cons_w := cons_e t\<rparr>) = []" by (simp add: typed_line_def)
qed

lemma store_char_eq:
  fixes s :: "'z cons_state_scheme" and c :: int
  assumes "editing s" "cons_inv s" "length (ready_bytes s) + length (typed_line s) < 128"
  defines "ch \<equiv> if c = 13 then 10 else c"
  shows "\<exists>t. store_char c s = Ok ((), t) \<and> editing t \<and> kcore t = kcore s \<and>
     (ready_bytes t, typed_line t) = (let line' = typed_line s @ [word_of_int ch] in
        if ch = 10 \<or> ch = Ctrl (CHR ''D'') \<or> length (ready_bytes s) + length line' = 128 then (ready_bytes s @ line', []) else (ready_bytes s, line'))"
proof -
  obtain bs n where e: "consputc ch s = Ok ((), s\<lparr>sent := bs, tx_room := n\<rparr>)" using consputc_eq[of s ch] assms(1) by (auto simp: editing_def)
  let ?s1 = "s\<lparr>sent := bs, tx_room := n\<rparr>"
  let ?t = "?s1\<lparr>cons_buf := (cons_buf s)(unat (cons_e s mod INPUT_BUF_SIZE) := word_of_int ch), cons_e := cons_e s + 1\<rparr>"
  have ed: "editing ?t" "editing (?t\<lparr>cons_w := cons_e ?t\<rparr>)" using assms(1) by (auto simp: editing_def)
  note st = stored[OF assms(2,3), of ?t "word_of_int ch"]
  obtain ps where w: "wakeup ChCons (?t\<lparr>cons_w := cons_e ?t\<rparr>) = Ok ((), ?t\<lparr>cons_w := cons_e ?t, procs := ps\<rparr>)"
    using wakeup_inside[of "?t\<lparr>cons_w := cons_e ?t\<rparr>"] ed(2) unfolding editing_def by blast
  let ?full = "ch = 10 \<or> ch = Ctrl (CHR ''D'') \<or> length (ready_bytes s) + Suc (length (typed_line s)) = 128"
  have step: "store_char c s = (if ?full then Ok ((), ?t\<lparr>cons_w := cons_e ?t, procs := ps\<rparr>) else Ok ((), ?t))"
    using e w st(3) unfolding store_char_def Let_def ch_def[symmetric] by (simp add: kern_simps)
  show ?thesis
  proof (cases ?full)
    case True
    then have l: "length (ready_bytes s) + length (typed_line s @ [word_of_int ch]) = 128 \<or> ch = 10 \<or> ch = Ctrl (CHR ''D'')" by auto
    have "ready_bytes (?t\<lparr>cons_w := cons_e ?t, procs := ps\<rparr>) = ready_bytes s @ typed_line s @ [word_of_int ch]"
      "typed_line (?t\<lparr>cons_w := cons_e ?t, procs := ps\<rparr>) = []" using st(4,5) by (simp_all add: ready_bytes_def typed_line_def)
    then show ?thesis using step True ed(2) by (intro exI[of _ "?t\<lparr>cons_w := cons_e ?t, procs := ps\<rparr>"]) (auto simp: editing_def Let_def)
  next
    case False
    then show ?thesis using step ed(1) st(1,2) by (intro exI[of _ ?t]) (auto simp: Let_def)
  qed
qed

section \<open>Properties\<close>

lemma edit_inv:
  assumes "length rdy + length line \<le> 128" "10 \<notin> set line" "0 \<le> c" "c < 256" "edit c (rdy, line) = (rdy', line')"
  shows "length rdy' + length line' \<le> 128 \<and> 10 \<notin> set line'"
proof -
  have w: "c \<noteq> 10 \<Longrightarrow> (word_of_int c :: uchar) \<noteq> 10"
    using assms(3,4) word_uint_eq_iff[of "word_of_int c :: uchar" 10] by (simp add: uint_word_of_int)
  show ?thesis using assms w by (auto simp: edit_def Let_def split: if_splits dest: in_set_butlastD)
qed


definition demo_cons :: cons_state where
  "demo_cons = \<lparr>kcore = demo_core, mem = \<lambda>a. 0, freelist = 0, kend = 0x87FFE000, procs = demo_procs, initproc = Some 0, nextpid = 3,
     peterson_locks = \<lambda>l. \<lparr>active = 0, flag = \<lambda>r. 0, turn = 0\<rparr>, trampoline = 0x80008000, forkret_addr = 0x80001000,
     uart_tx_buf = \<lambda>i. 0, uart_tx_w = 0, uart_tx_r = 0, tx_room = 0, sent = [], rx = [], uart_regs = [], panicked = False, pr_locking = True,
     cons_buf = (\<lambda>i. 0)(127 := 97), cons_r = 0xFFFFFFFF, cons_w = 0xFFFFFFFF, cons_e = 0\<rparr>"


end
