(* ===== verification/Virtio_Queue.thy ===== *)
theory Virtio_Queue
  imports Virtio Wakeup
begin

text \<open>
  A transfer through the queue of \<^verbatim>\<open>kernel/virtio_disk.c\<close>, from the allocation of its descriptors to their release.
\<close>

section \<open>Descriptors\<close>

definition free_list :: "'z vdisk_state_scheme \<Rightarrow> nat list" where
  "free_list s = filter (vfree s) [0..<NUM]"

lemma find_hd: "filter P xs = x # ys \<Longrightarrow> List.find P xs = Some x"
  by (induction xs) (auto split: if_splits)

lemma alloc_desc_eq:
  assumes "free_list s = i # rest"
  shows "alloc_desc s = Ok (int i, s\<lparr>vfree := (vfree s)(i := False)\<rparr>)" "free_list (s\<lparr>vfree := (vfree s)(i := False)\<rparr>) = rest"
    "i < NUM" "vfree s i" "i \<notin> set rest"
proof -
  have f: "List.find (vfree s) [0..<NUM] = Some i" using assms find_hd by (simp add: free_list_def)
  then show "alloc_desc s = Ok (int i, s\<lparr>vfree := (vfree s)(i := False)\<rparr>)" by (simp add: alloc_desc_def kern_simps)
  have "i \<in> set (free_list s)" using assms by simp
  then show i: "i < NUM" "vfree s i" by (auto simp: free_list_def)
  have d: "distinct (free_list s)" by (simp add: free_list_def)
  then show "i \<notin> set rest" using assms by simp
  have "filter ((vfree s)(i := False)) [0..<NUM] = filter (\<lambda>j. j \<noteq> i) (free_list s)"
    unfolding free_list_def filter_filter by (rule filter_cong) auto
  also have "\<dots> = rest" using assms d by (auto intro!: filter_True)
  finally show "free_list (s\<lparr>vfree := (vfree s)(i := False)\<rparr>) = rest" by (simp add: free_list_def)
qed

lemma alloc3_desc_eq:
  assumes "free_list s = i0 # i1 # i2 # rest"
  shows "alloc3_desc s = Ok (Some [i0, i1, i2], s\<lparr>vfree := (vfree s)(i0 := False, i1 := False, i2 := False)\<rparr>)"
    "free_list (s\<lparr>vfree := (vfree s)(i0 := False, i1 := False, i2 := False)\<rparr>) = rest"
    "distinct [i0, i1, i2]" "i0 < NUM" "i1 < NUM" "i2 < NUM" "vfree s i0" "vfree s i1" "vfree s i2"
proof -
  note a = alloc_desc_eq[OF assms]
  note b = alloc_desc_eq[OF a(2)]
  note c = alloc_desc_eq[OF b(2)]
  show "alloc3_desc s = Ok (Some [i0, i1, i2], s\<lparr>vfree := (vfree s)(i0 := False, i1 := False, i2 := False)\<rparr>)"
    using a(1) b(1) c(1) by (simp add: alloc3_desc_def numeral_3_eq_3 kern_simps)
  show "free_list (s\<lparr>vfree := (vfree s)(i0 := False, i1 := False, i2 := False)\<rparr>) = rest" using c(2) by simp
  show "distinct [i0, i1, i2]" "i0 < NUM" "i1 < NUM" "i2 < NUM" "vfree s i0" "vfree s i1" "vfree s i2"
    using a(3-5) b(3-5) c(3-5) by auto
qed

text \<open>Freeing, with the driver's lock held.\<close>

definition in_driver :: "'z vdisk_state_scheme \<Rightarrow> bool" where
  "in_driver s \<longleftrightarrow> core_ok (kcore s) \<and> settled (kcore s) = kcore s \<and> (\<forall>p. lock_free (LProc p) (kcore s))"

definition blank_desc :: virtq_desc where
  "blank_desc = \<lparr>vaddr = DNull, vlen = 0, vflags = 0, vnext = 0\<rparr>"

lemma free_desc_eq:
  assumes "in_driver s" "i < NUM" "\<not> vfree s i"
  shows "\<exists>ps. free_desc i s = Ok ((), s\<lparr>vdesc := (vdesc s)(i := blank_desc), vfree := (vfree s)(i := True), procs := ps\<rparr>)"
proof -
  let ?t = "s\<lparr>vdesc := (vdesc s)(i := blank_desc), vfree := (vfree s)(i := True)\<rparr>"
  have "in_driver ?t" using assms(1) by (simp add: in_driver_def)
  then obtain ps where "wakeup ChDisk ?t = Ok ((), ?t\<lparr>procs := ps\<rparr>)" using wakeup_inside[of ?t ChDisk] unfolding in_driver_def by blast
  then show ?thesis using assms(2,3) by (intro exI[of _ ps]) (simp add: free_desc_def kern_simps blank_desc_def)
qed

text \<open>The chain of a request.\<close>

lemma free_chain_eq:
  assumes "in_driver s" "distinct [i0, i1, i2]" "i0 < NUM" "i1 < NUM" "i2 < NUM" "\<not> vfree s i0" "\<not> vfree s i1" "\<not> vfree s i2"
    "vflags (vdesc s i0) AND 1 \<noteq> 0" "vnext (vdesc s i0) = of_nat i1" "vflags (vdesc s i1) AND 1 \<noteq> 0" "vnext (vdesc s i1) = of_nat i2"
    "vflags (vdesc s i2) AND 1 = 0"
  shows "\<exists>ps ds. free_chain i0 s = Ok ((), s\<lparr>vdesc := ds, vfree := (vfree s)(i0 := True, i1 := True, i2 := True), procs := ps\<rparr>)"
proof -
  have u: "unat (of_nat i :: ushort) = i" if "i < NUM" for i using that by (simp add: unsigned_of_nat take_bit_nat_eq_self NUM_def)
  have ne: "i1 \<noteq> i0" "i2 \<noteq> i0" "i2 \<noteq> i1" using assms(2) by auto
  obtain p0 where f0: "free_desc i0 s = Ok ((), s\<lparr>vdesc := (vdesc s)(i0 := blank_desc), vfree := (vfree s)(i0 := True), procs := p0\<rparr>)"
    using free_desc_eq[OF assms(1,3,6)] by blast
  let ?s1 = "s\<lparr>vdesc := (vdesc s)(i0 := blank_desc), vfree := (vfree s)(i0 := True), procs := p0\<rparr>"
  have "in_driver ?s1" "\<not> vfree ?s1 i1" using assms(1,7) ne by (auto simp: in_driver_def)
  then obtain p1 where f1: "free_desc i1 ?s1 = Ok ((), s\<lparr>vdesc := (vdesc s)(i0 := blank_desc, i1 := blank_desc), vfree := (vfree s)(i0 := True, i1 := True), procs := p1\<rparr>)"
    using free_desc_eq[of ?s1 i1] assms(4) by auto
  let ?s2 = "s\<lparr>vdesc := (vdesc s)(i0 := blank_desc, i1 := blank_desc), vfree := (vfree s)(i0 := True, i1 := True), procs := p1\<rparr>"
  have "in_driver ?s2" "\<not> vfree ?s2 i2" using assms(1,8) ne by (auto simp: in_driver_def)
  then obtain p2 where f2: "free_desc i2 ?s2 = Ok ((), s\<lparr>vdesc := (vdesc s)(i0 := blank_desc, i1 := blank_desc, i2 := blank_desc),
      vfree := (vfree s)(i0 := True, i1 := True, i2 := True), procs := p2\<rparr>)"
    using free_desc_eq[of ?s2 i2] assms(5) by auto
  have "free_chain_loop (Suc (Suc (Suc n))) i0 s = Ok ((), s\<lparr>vdesc := (vdesc s)(i0 := blank_desc, i1 := blank_desc, i2 := blank_desc),
      vfree := (vfree s)(i0 := True, i1 := True, i2 := True), procs := p2\<rparr>)" for n
    using f0 f1 f2 assms(9-13) ne u[OF assms(4)] u[OF assms(5)] by (simp add: kern_simps)
  moreover have "free_chain i0 = free_chain_loop (Suc (Suc (Suc 5))) i0" by (simp add: free_chain_def NUM_def)
  ultimately show ?thesis by metis
qed

section \<open>A transfer\<close>

text \<open>
  What the device does with the one request that is outstanding: it writes the status and the head of the chain into the used ring.
\<close>

definition device_done :: "nat \<Rightarrow> 'z vdisk_state_scheme \<Rightarrow> 'z vdisk_state_scheme" where
  "device_done i0 s = s\<lparr>used_ring := (used_ring s)(unat (used_idx s mod of_nat NUM) := of_nat i0), used_idx_dev := used_idx s + 1,
     info_status := (info_status s)(i0 := 0)\<rparr>"

lemma rw_start_eq:
  assumes "core_ok (kcore s)" "lock_free LDisk (kcore s)" "free_list s = i0 # i1 # i2 # rest"
  shows "virtio_disk_rw_start b write s =
    bnd (submit b write (ucast (bblockno (bufs s b) * of_nat (BSIZE div 512))) i0 i1 i2) (\<lambda>u. ret i0)
      (s\<lparr>kcore := acquired LDisk (kcore s), vfree := (vfree s)(i0 := False, i1 := False, i2 := False)\<rparr>)"
proof -
  have "free_list (s\<lparr>kcore := acquired LDisk (kcore s)\<rparr>) = i0 # i1 # i2 # rest" using assms(3) by (simp add: free_list_def)
  from alloc3_desc_eq(1)[OF this] show ?thesis using assms(1,2) by (simp add: virtio_disk_rw_start_def kern_simps)
qed

lemma intr_eq:
  assumes "core_ok (kcore s)" "\<And>l. lock_free l (kcore s)" "used_ring s (unat (used_idx s mod of_nat NUM)) = of_nat i0" "used_idx_dev s = used_idx s + 1"
    "i0 < NUM" "info_status s i0 = 0" "info_b s i0 = Some b"
  shows "\<exists>ps m. virtio_disk_intr s = Ok ((), s\<lparr>kcore := settled (kcore s), mmio_writes := m, bdisk := (bdisk s)(b := False), procs := ps, used_idx := used_idx s + 1\<rparr>)"
proof -
  have u: "unat (of_nat i0 :: uint32) = i0" using assms(5) by (simp add: unsigned_of_nat take_bit_nat_eq_self NUM_def)
  let ?m = "mmio_writes s @ [(0x064, mmio s 0x060 AND 3)]"
  let ?s = "s\<lparr>kcore := acquired LDisk (kcore s), mmio_writes := ?m, bdisk := (bdisk s)(b := False)\<rparr>"
  obtain ps where "wakeup (ChDiskBuf b) ?s = Ok ((), ?s\<lparr>procs := ps\<rparr>)" using wakeup_inside[of ?s "ChDiskBuf b"] assms(1,2) by auto
  moreover have "unat (used_idx_dev s - used_idx s) = Suc 0" using assms(4) by simp
  ultimately show ?thesis using assms u by (intro exI[of _ ps] exI[of _ ?m]) (simp add: virtio_disk_intr_def mmio_write_def kern_simps)
qed

lemma rw_finish_eq:
  assumes "kcore s = acquired LDisk c" "core_ok c" "\<And>l. lock_free l c" "\<not> bdisk s b" "distinct [i0, i1, i2]" "i0 < NUM" "i1 < NUM" "i2 < NUM"
    "\<not> vfree s i0" "\<not> vfree s i1" "\<not> vfree s i2"
    "vflags (vdesc s i0) AND 1 \<noteq> 0" "vnext (vdesc s i0) = of_nat i1" "vflags (vdesc s i1) AND 1 \<noteq> 0" "vnext (vdesc s i1) = of_nat i2"
    "vflags (vdesc s i2) AND 1 = 0"
  shows "\<exists>ps ds. virtio_disk_rw_finish b i0 s = Ok ((), s\<lparr>info_b := (info_b s)(i0 := None), vdesc := ds,
     vfree := (vfree s)(i0 := True, i1 := True, i2 := True), procs := ps, kcore := settled c\<rparr>)"
proof -
  let ?s = "s\<lparr>info_b := (info_b s)(i0 := None)\<rparr>"
  have "in_driver ?s" using assms(1-3) by (simp add: in_driver_def)
  from free_chain_eq[OF this, of i0 i1 i2] assms(5-16)
  obtain ps ds where "free_chain i0 ?s = Ok ((), ?s\<lparr>vdesc := ds, vfree := (vfree s)(i0 := True, i1 := True, i2 := True), procs := ps\<rparr>)" by auto
  then show ?thesis using assms(1-4) by (intro exI[of _ ps] exI[of _ ds]) (simp add: virtio_disk_rw_finish_def kern_simps)
qed

section \<open>Properties\<close>


definition demo_vdisk :: vdisk_state where
  "demo_vdisk = \<lparr>kcore = demo_core, mem = \<lambda>a. 0, freelist = 0, kend = 0x87FFE000, procs = demo_procs, initproc = Some 0, nextpid = 3,
     peterson_locks = \<lambda>l. \<lparr>active = 0, flag = \<lambda>r. 0, turn = 0\<rparr>, trampoline = 0x80008000, forkret_addr = 0x80001000,
     uart_tx_buf = \<lambda>i. 0, uart_tx_w = 0, uart_tx_r = 0, tx_room = 0, sent = [], rx = [], uart_regs = [], panicked = False, pr_locking = True,
     cons_buf = \<lambda>i. 0, cons_r = 0, cons_w = 0, cons_e = 0, slocks = \<lambda>l. \<lparr>slocked = False, slpid = 0\<rparr>,
     bufs = \<lambda>b. \<lparr>bvalid = False, bdev = 1, bblockno = 33, brefcnt = 1, bprev = 0, bnext = 0, bdata = []\<rparr>, disk = \<lambda>n. [], dtrace = [],
     log = \<lparr>lstart = 2, lsize = 30, outstanding = 0, committing = False, ldev = 1, lh = \<lparr>lhn = 0, lhblock = \<lambda>i. 0\<rparr>\<rparr>,
     sb = \<lparr>sb_magic = 0, sb_size = 0, sb_nblocks = 0, sb_ninodes = 0, sb_nlog = 30, sb_logstart = 2, sb_inodestart = 0, sb_bmapstart = 0\<rparr>,
     inodes = \<lambda>i. \<lparr>idev = 0, inum = 0, iref = 0, ivalid = False, itype = 0, imajor = 0, iminor = 0, nlink = 0, isize = 0, addrs = []\<rparr>,
     ftable = \<lambda>f. \<lparr>ftype = FD_NONE, fref = 0, readable = False, writable = False, fpipe = 0, fip = 0, foff = 0, fmajor = 0\<rparr>,
     pipes = \<lambda>p. \<lparr>pdata = \<lambda>i. 0, nread = 0, nwrite = 0, readopen = False, writeopen = False\<rparr>, devsw = \<lambda>d. False, stack_bytes = [],
     ticks = 0, first = False,
     vdesc = \<lambda>i. blank_desc, avail_ring = \<lambda>i. 0, avail_idx = 0xFFFF, used_ring = \<lambda>i. 0, used_idx_dev = 0xFFFF, vfree = \<lambda>i. i \<noteq> 1, used_idx = 0xFFFF,
     info_b = \<lambda>i. None, info_status = \<lambda>i. 0, vops = \<lambda>i. \<lparr>req_type = 0, req_sector = 0\<rparr>, bdisk = \<lambda>b. False, mmio = \<lambda>r. 0, mmio_writes = [],
     queue_pages = (0, 0, 0)\<rparr>"


end
