(* ===== verification/Peterson_Calls.thy ===== *)
theory Peterson_Calls
  imports Trap Wakeup
begin

text \<open>
  The way of a system call on a Peterson lock: from the trap (\<^verbatim>\<open>usertrap\<close>) through the dispatcher (\<^verbatim>\<open>syscall\<close>) and the handlers of
  \<^verbatim>\<open>kernel/sysproc.c\<close> to the lock table, and back to user space (\<^verbatim>\<open>usertrapret\<close>).
\<close>

section \<open>The trapframe\<close>

definition reg :: "nat \<Rightarrow> uint64 \<Rightarrow> 'z proc_state_scheme \<Rightarrow> uint64" where
  "reg p f s = load64 (mem s) (trapframe (procs s p) + f)"

text \<open>The C conversion of a register to \<^verbatim>\<open>int\<close>.\<close>

definition int_arg :: "uint64 \<Rightarrow> int" where
  "int_arg w = sint (ucast w :: uint32)"

lemma load_store_field:
  assumes "8 \<le> unat (a - b)" "8 \<le> unat (b - a)"
  shows "load64 (store64 m (t + a) v) (t + b) = load64 m (t + b)"
proof (rule load64_cong)
  fix x assume x: "in_range (t + b) 8 x"
  have "\<not> in_range (t + a) 8 x"
  proof
    assume y: "in_range (t + a) 8 x"
    let ?u = "x - (t + b)" and ?v = "x - (t + a)"
    have uv: "unat ?u < 8" "unat ?v < 8" using x y by (simp_all add: in_range_def)
    have d: "a - b = ?u - ?v" "b - a = ?v - ?u" by simp_all
    show False
    proof (cases "?v \<le> ?u")
      case True
      then have "unat (a - b) = unat ?u - unat ?v" unfolding d by (rule unat_sub)
      then show False using assms uv by simp
    next
      case False
      then have "unat (b - a) = unat ?v - unat ?u" unfolding d by (intro unat_sub) simp
      then show False using assms uv by simp
    qed
  qed
  then show "store64 m (t + a) v x = m x" by (rule store64_other)
qed

section \<open>The dispatcher\<close>

text \<open>What the four calls ask of the lock table, by number.\<close>

definition peterson_call :: "int \<Rightarrow> int \<Rightarrow> int \<Rightarrow> lock_table \<Rightarrow> (int \<times> lock_table) outcome" where
  "peterson_call num a b ls =
     (if num = 22 then Ok (petersonlock_create ls)
      else if num = 23 then petersonlock_acquire a b ls
      else if num = 24 then petersonlock_release a b ls
      else Ok (petersonlock_destroy a ls))"

lemma argint_eq:
  assumes "quiet p (kcore s)" "n \<le> 5"
  shows "argint n s = Ok (int_arg (reg p (TF_a0 + 8 * of_nat n) s), s\<lparr>kcore := settled (kcore s)\<rparr>)"
  using assms(2) quietD[OF assms(1)] by (simp add: argint_def argraw_def tf_get_def kern_simps curproc_eq reg_def int_arg_def)

lemma is_killed_quiet:
  assumes "quiet p (kcore s)"
  shows "is_killed q s = Ok (killed (procs s q), s\<lparr>kcore := settled (kcore s)\<rparr>)"
  using quietD[OF assms] by (simp add: is_killed_def kern_simps)

lemma syscall_peterson:
  assumes "quiet p (kcore s)" "int_arg (reg p TF_a7 s) = num" "num \<in> {22, 23, 24, 25}"
  shows "syscall s = obind (peterson_call num (int_arg (reg p TF_a0 s)) (int_arg (reg p TF_a1 s)) (peterson_locks s))
    (\<lambda>(r, ls). Ok (None, s\<lparr>kcore := settled (kcore s), peterson_locks := ls, mem := store64 (mem s) (trapframe (procs s p) + TF_a0) (of_int r)\<rparr>))"
proof -
  have a: "argint 0 (s\<lparr>kcore := settled (kcore s)\<rparr>) = Ok (int_arg (reg p TF_a0 s), s\<lparr>kcore := settled (kcore s)\<rparr>)"
    "argint 1 (s\<lparr>kcore := settled (kcore s)\<rparr>) = Ok (int_arg (reg p TF_a1 s), s\<lparr>kcore := settled (kcore s)\<rparr>)"
    using assms(1) argint_eq[of p "s\<lparr>kcore := settled (kcore s)\<rparr>" 0] argint_eq[of p "s\<lparr>kcore := settled (kcore s)\<rparr>" 1] by (simp_all add: reg_def)
  have n: "sint (ucast (load64 (mem s) (trapframe (procs s p) + TF_a7)) :: uint32) = num" using assms(2) by (simp add: int_arg_def reg_def)
  show ?thesis using assms(3) quietD[OF assms(1)] n a
    by (auto simp: syscall_def kern_simps curproc_eq tf_get_def tf_set_def syscalls_def plain_def sys_peterson_create_def sys_peterson_acquire_def
      sys_peterson_release_def sys_peterson_destroy_def on_peterson_def peterson_call_def Let_def split_beta obind_assoc intro!: arg_cong[where f = "obind _"])
qed

section \<open>The trap\<close>

lemma core_intr [simp]:
  "mycpu (intr_on c) = mycpu c" "mycpu (intr_off c) = mycpu c" "hart (intr_on c) = hart c" "hart (intr_off c) = hart c"
  "lock_free l (intr_on c) = lock_free l c" "lock_free l (intr_off c) = lock_free l c" "intr_get (intr_on c)" "\<not> intr_get (intr_off c)"
  by (simp_all add: core_defs)

lemma quiet_intr:
  "quiet p c \<Longrightarrow> noff (mycpu c) = 0 \<Longrightarrow> quiet p (intr_on c)" "quiet p c \<Longrightarrow> quiet p (intr_off c)"
  by (auto simp: quiet_def core_ok_def)

lemma settled_flags [simp]: "hart (settled c) = hart c" "intr_get (settled c) = intr_get c"
  by (simp_all add: core_defs)

lemma sie_not_spp: "(x OR SSTATUS_SIE) AND SSTATUS_SPP = x AND SSTATUS_SPP" "(x AND NOT SSTATUS_SIE) AND SSTATUS_SPP = x AND SSTATUS_SPP"
proof -
  have "SSTATUS_SIE AND SSTATUS_SPP = 0" "NOT SSTATUS_SIE AND SSTATUS_SPP = SSTATUS_SPP" by simp_all
  then show "(x OR SSTATUS_SIE) AND SSTATUS_SPP = x AND SSTATUS_SPP" "(x AND NOT SSTATUS_SIE) AND SSTATUS_SPP = x AND SSTATUS_SPP"
    by (simp_all add: bit.conj_disj_distrib2 and.assoc del: push_bit_of_1)
qed

text \<open>The process asks for a call on a Peterson lock: it runs alone in the kernel, has not been killed, and came from user space with the trap number of a call.\<close>

definition peterson_trap :: "nat \<Rightarrow> 'z trap_state_scheme \<Rightarrow> bool" where
  "peterson_trap p s \<longleftrightarrow> quiet p (kcore s) \<and> noff (mycpu (kcore s)) = 0 \<and> killed (procs s p) = 0 \<and>
     csrs s (hart (kcore s)) Scause = 8 \<and> csrs s (hart (kcore s)) Sstatus AND SSTATUS_SPP = 0 \<and> int_arg (reg p TF_a7 s) \<in> {22, 23, 24, 25}"

text \<open>The state after \<^verbatim>\<open>usertrap\<close>, with the result of the call and the new lock table.\<close>

definition trapped :: "nat \<Rightarrow> 'z trap_state_scheme \<Rightarrow> int \<Rightarrow> lock_table \<Rightarrow> 'z trap_state_scheme" where
  "trapped p s r ls = s\<lparr>
     csrs := (csrs s)(hart (kcore s) := (csrs s (hart (kcore s)))(Stvec := symbol s ''kernelvec'')),
     peterson_locks := ls,
     mem := store64 (store64 (store64 (mem s) (trapframe (procs s p) + TF_epc) (csrs s (hart (kcore s)) Sepc))
       (trapframe (procs s p) + TF_epc) (csrs s (hart (kcore s)) Sepc + 4)) (trapframe (procs s p) + TF_a0) (of_int r),
     kcore := settled (intr_on (settled (kcore s)))\<rparr>"

lemma usertrap_peterson:
  assumes "peterson_trap p s"
  shows "usertrap s = obind (peterson_call (int_arg (reg p TF_a7 s)) (int_arg (reg p TF_a0 s)) (int_arg (reg p TF_a1 s)) (peterson_locks s))
    (\<lambda>(r, ls). Ok (TReturn, trapped p s r ls))"
proof -
  let ?h = "hart (kcore s)" and ?t = "trapframe (procs s p)"
  let ?c = "intr_on (settled (kcore s))"
  let ?m = "store64 (store64 (mem s) (?t + TF_epc) (csrs s ?h Sepc)) (?t + TF_epc) (csrs s ?h Sepc + 4)"
  let ?s = "s\<lparr>csrs := (csrs s)(?h := (csrs s ?h)(Stvec := symbol s ''kernelvec'')), mem := ?m, kcore := ?c\<rparr>"
  note a = assms[unfolded peterson_trap_def]
  have q: "quiet p (kcore s)" "quiet p ?c" using a quiet_intr(1)[of p "settled (kcore s)"] by simp_all
  have r: "reg p TF_a7 ?s = reg p TF_a7 s" "reg p TF_a0 ?s = reg p TF_a0 s" "reg p TF_a1 ?s = reg p TF_a1 s"
    by (simp_all add: reg_def load_store_field)
  have "usertrap s = bnd syscall (\<lambda>r. case r of Some b \<Rightarrow> ret (TExit b) | None \<Rightarrow> usertrap_end p 0) ?s"
    using a quietD[OF q(1)]
    by (simp add: usertrap_def usertrap_syscall_def kern_simps r_sstatus_def r_csr_def w_csr_def w_stvec_def r_sepc_def r_scause_def curproc_eq
      is_killed_quiet[of p] sie_not_spp[simplified] tf_get_def tf_set_def)
  also have "\<dots> = obind (peterson_call (int_arg (reg p TF_a7 s)) (int_arg (reg p TF_a0 s)) (int_arg (reg p TF_a1 s)) (peterson_locks s))
    (\<lambda>(r, ls). Ok (TReturn, trapped p s r ls))"
    using a q syscall_peterson[of p ?s "int_arg (reg p TF_a7 s)"]
    by (auto simp: r bnd_apply obind_assoc usertrap_end_def kern_simps is_killed_quiet[of p] trapped_def intro!: obind_cong)
  finally show ?thesis .
qed

section \<open>The return\<close>

lemma sstatus_bits:
  "((x AND NOT SSTATUS_SIE) AND NOT SSTATUS_SPP OR SSTATUS_SPIE) AND SSTATUS_SIE = 0"
  "((x AND NOT SSTATUS_SIE) AND NOT SSTATUS_SPP OR SSTATUS_SPIE) AND SSTATUS_SPP = 0"
proof -
  have "SSTATUS_SPIE AND SSTATUS_SIE = 0" "SSTATUS_SPIE AND SSTATUS_SPP = 0" "NOT SSTATUS_SIE AND NOT SSTATUS_SPP AND SSTATUS_SIE = 0"
    "NOT SSTATUS_SIE AND NOT SSTATUS_SPP AND SSTATUS_SPP = 0" by simp_all
  then show "((x AND NOT SSTATUS_SIE) AND NOT SSTATUS_SPP OR SSTATUS_SPIE) AND SSTATUS_SIE = 0"
    "((x AND NOT SSTATUS_SIE) AND NOT SSTATUS_SPP OR SSTATUS_SPIE) AND SSTATUS_SPP = 0"
    by (simp_all only: bit.conj_disj_distrib2 and.assoc or.left_neutral and_zero_eq or.right_neutral)
qed

lemma outside_frame:
  assumes "\<not> in_range t 40 x" "unat f + 8 \<le> 40"
  shows "store64 m (t + f) v x = m x"
proof (rule store64_other, rule notI)
  assume "in_range (t + f) 8 x"
  then have "unat (x - (t + f)) < 8" by (simp add: in_range_def)
  moreover have "x - t = (x - (t + f)) + f" by simp
  moreover have "unat (x - (t + f) + f) \<le> unat (x - (t + f)) + unat f" by (simp only: unat_word_ariths mod_less_eq_dividend)
  ultimately have "unat (x - t) < 40" using assms(2) by simp
  then show False using assms(1) by (simp add: in_range_def)
qed

text \<open>The processor as \<^verbatim>\<open>sret\<close> will find it: the next trap goes to \<^verbatim>\<open>uservec\<close>, the return goes to user mode at the saved counter, and no interrupt comes before.\<close>

definition leaving :: "nat \<Rightarrow> 'z trap_state_scheme \<Rightarrow> 'z trap_state_scheme \<Rightarrow> bool" where
  "leaving p s s' \<longleftrightarrow>
     csrs s' (hart (kcore s)) Sepc = reg p TF_epc s \<and> csrs s' (hart (kcore s)) Sstatus AND SSTATUS_SPP = 0 \<and> \<not> intr_get (kcore s') \<and>
     csrs s' (hart (kcore s)) Stvec = TRAMPOLINE + (symbol s ''uservec'' - symbol s ''trampoline'') \<and>
     procs s' = procs s \<and> peterson_locks s' = peterson_locks s \<and> quiet p (kcore s') \<and>
     (\<forall>x. \<not> in_range (trapframe (procs s p)) 40 x \<longrightarrow> mem s' x = mem s x)"

lemma leaving_reg:
  assumes "leaving p s s'" "40 \<le> unat f" "unat f \<le> 4088"
  shows "reg p f s' = reg p f s"
proof -
  let ?t = "trapframe (procs s p)"
  have "mem s' x = mem s x" if "in_range (?t + f) 8 x" for x
  proof -
    have d: "unat (x - (?t + f)) < 8" using that by (simp add: in_range_def)
    have "x - ?t = (x - (?t + f)) + f" by simp
    moreover have "unat ((x - (?t + f)) + f) = unat (x - (?t + f)) + unat f" using d assms(3) by (intro unat_add_lem[THEN iffD1]) simp
    ultimately have "\<not> in_range ?t 40 x" using assms(2) by (simp add: in_range_def)
    then show ?thesis using assms(1) by (simp add: leaving_def)
  qed
  then show ?thesis using assms(1) by (auto simp: reg_def leaving_def intro: load64_cong)
qed

lemma usertrapret_eq:
  assumes "quiet p (kcore s)"
  shows "\<exists>s'. usertrapret s = Ok ((MAKE_SATP (pagetable (procs s p)), TRAMPOLINE + (symbol s ''userret'' - symbol s ''trampoline'')), s') \<and> leaving p s s'"
proof -
  have q: "quiet p (intr_off (settled (kcore s)))" using quiet_intr(2)[of p "settled (kcore s)"] assms by simp
  have "intr_off (intr_off c) = intr_off c" for c by (simp add: intr_off_def)
  then show ?thesis using quietD[OF assms] q
    by (simp add: usertrapret_def leaving_def kern_simps curproc_eq r_sstatus_def w_sstatus_def r_csr_def w_csr_def w_stvec_def r_satp_def r_tp_def w_sepc_def
      tf_get_def tf_set_def sstatus_bits[simplified] load_store_field load_store_field[of 0, simplified] reg_def outside_frame outside_frame[of _ _ 0, simplified])
qed

end
