(* ===== verification/Fs_Txn.thy ===== *)
theory Fs_Txn
  imports Fs_Format Crash_Safety
begin

text \<open>
  The file system inside a transaction. Between \<^verbatim>\<open>begin_op\<close> and \<^verbatim>\<open>end_op\<close> the file system reads blocks, changes them and passes them to
  \<^verbatim>\<open>log_write\<close>. The predicate \<open>in_txn\<close> says where such a transaction stands; reading a block, and changing and logging one, keep it,
  return, and change what readers see of that block alone.
\<close>

section \<open>The state of a transaction\<close>

text \<open>
  The process \<open>p\<close> has locked the buffers \<open>B\<close> of the blocks \<open>H\<close>. Otherwise the buffers in use are those that the log has pinned, and only those
  differ from the disk.
\<close>

definition in_txn :: "uint32 \<Rightarrow> nat \<Rightarrow> nat set \<Rightarrow> uint32 set \<Rightarrow> 'z log_state_scheme \<Rightarrow> bool" where
  "in_txn dev p B H s \<longleftrightarrow> cache_ok dev s \<and> live p s B \<and> txn_ok dev s \<and>
     (\<forall>n. nrefs dev s n = (if n \<in> logged_blocks s then 1 else 0) + (if n \<in> H then 1 else 0)) \<and>
     (\<forall>b \<in> B. \<exists>n \<in> H. buf_of dev s b n) \<and> (\<forall>n. n \<notin> logged_blocks s \<longrightarrow> seen dev s n = disk s n)"

text \<open>The entries left in the log.\<close>

definition log_room :: "'z log_state_scheme \<Rightarrow> nat" where
  "log_room s = nat (lsize (log s) - 1 - lhn (lh (log s)))"

text \<open>What no operation of a transaction changes.\<close>

definition same_rest :: "'z log_state_scheme \<Rightarrow> 'z log_state_scheme \<Rightarrow> bool" where
  "same_rest s t \<longleftrightarrow> disk t = disk s \<and> dtrace t = dtrace s \<and> log_config t = log_config s \<and> log_state.more t = log_state.more s"

lemma same_rest_refl [simp]: "same_rest s s"
  by (simp add: same_rest_def)

lemma same_rest_trans [trans]: "same_rest s t \<Longrightarrow> same_rest t u \<Longrightarrow> same_rest s u"
  by (simp add: same_rest_def)

lemma in_txnD:
  assumes "in_txn dev p B H s"
  shows "cache_ok dev s" "live p s B" "txn_ok dev s"
    "nrefs dev s n = (if n \<in> logged_blocks s then 1 else 0) + (if n \<in> H then 1 else 0)"
    "b \<in> B \<Longrightarrow> \<exists>n \<in> H. buf_of dev s b n" "n \<notin> logged_blocks s \<Longrightarrow> seen dev s n = disk s n" "few_refs dev s"
  using assms by (auto simp: in_txn_def few_refs_def)

lemma one_buffer: "cache_ok dev s \<Longrightarrow> buf_of dev s b n \<Longrightarrow> buf_of dev s c n \<Longrightarrow> b = c"
  by (auto simp: cache_ok_def buf_of_def holds_def cache_inv_def)

lemma logged_home: "txn_ok dev s \<Longrightarrow> n \<in> logged_blocks s \<Longrightarrow> \<not> in_log (lstart (log s)) n"
  using txn_okD(5) by (auto simp: logged_blocks_def)

lemma txn_ok_refs:
  assumes "txn_ok dev s" "log t = log s" "disk t = disk s" "nrefs dev t (lstart (log s)) = 0" "\<And>n. n \<in> logged_blocks s \<Longrightarrow> 0 < nrefs dev t n"
  shows "txn_ok dev t"
  using assms by (auto simp: txn_ok_def Let_def logged_blocks_def)

section \<open>Reading a block\<close>

lemma txn_bread:
  assumes "in_txn dev p B H s" "n \<notin> H" "n \<notin> logged_blocks s \<Longrightarrow> 0 < avail s" "n \<noteq> lstart (log s)"
  shows "\<exists>b t. bread dev n s = Ok (b, t) \<and> in_txn dev p (insert b B) (insert n H) t \<and> b \<notin> B \<and> buf_of dev t b n \<and> bdata (bufs t b) = seen dev s n \<and>
     seen dev t = seen dev s \<and> logged_blocks t = logged_blocks s \<and> log_room t = log_room s \<and> same_rest s t \<and>
     avail t = avail s - (if n \<in> logged_blocks s then 0 else 1) \<and> (\<forall>c m. c \<in> B \<longrightarrow> buf_of dev s c m \<longrightarrow> buf_of dev t c m)"
proof -
  note d = in_txnD[OF assms(1)]
  have no: "\<not> buf_of dev s b n" if "b \<in> B" for b
    using d(5)[OF that] bio_live.own_block[of dev s b n] assms(2) by auto
  have c: "nrefs dev s n + 1 < 2 ^ 32" using d(4)[of n] by simp
  have r: "0 < nrefs dev s n \<or> 0 < avail s" using d(4)[of n] assms(3) by auto
  obtain b t where t: "bread dev n s = Ok (b, t)" "b \<notin> B" "live p t (insert b B)" "avail t = avail s - (if nrefs dev s n = 0 then 1 else 0)"
    using bio_live.rd_up[OF d(1,2) c no r] by blast
  note h = bio.rd_law[OF d(1) c t(1)]
  have lg: "log t = log s" "log_state.more t = log_state.more s" using h more_log[of t s] by (auto, cases s, cases t, simp)
  have lb: "logged_blocks t = logged_blocks s" by (simp add: logged_blocks_def lg)
  have nr: "nrefs dev t m = (if m \<in> logged_blocks t then 1 else 0) + (if m \<in> insert n H then 1 else 0)" for m
    using h d(4)[of m] assms(2) by (auto simp: lb)
  have keep: "buf_of dev t c m" if "c \<in> B" "buf_of dev s c m" for c m
  proof -
    obtain m' where "m' \<in> H" "buf_of dev s c m'" using d(5) \<open>c \<in> B\<close> by blast
    then have "m \<in> H" using bio_live.own_block[OF that(2)] by blast
    then show ?thesis using h that(2) d(4)[of m] by auto
  qed
  have own: "\<exists>m \<in> insert n H. buf_of dev t c m" if "c \<in> insert b B" for c
    using that h keep d(5)[of c] by (cases "c = b") blast+
  have "txn_ok dev t" using h txn_okD(7)[OF d(3)] assms(4) nr by (intro txn_ok_refs[OF d(3) lg(1)]) (auto simp: lb)
  then have "in_txn dev p (insert b B) (insert n H) t"
    using h t(3) d(6) nr own by (simp add: in_txn_def lb lg)
  then show ?thesis using t h keep lb lg d(4)[of n] assms(2) bio.dat_law[of dev t b n] by (auto simp: log_room_def same_rest_def log_config_def)
qed

lemma txn_brelse:
  assumes "in_txn dev p B H s" "b \<in> B" "buf_of dev s b n" "n \<in> H"
  shows "\<exists>t. brelse b s = Ok ((), t) \<and> in_txn dev p (B - {b}) (H - {n}) t \<and> seen dev t = seen dev s \<and> logged_blocks t = logged_blocks s \<and>
     log_room t = log_room s \<and> same_rest s t \<and> avail t = avail s + (if n \<in> logged_blocks s then 0 else 1) \<and> buf_of dev t = buf_of dev s"
proof -
  note d = in_txnD[OF assms(1)]
  have pos: "0 < nrefs dev s n" using d(4)[of n] assms(4) by simp
  have cl: "nrefs dev s n = 1 \<Longrightarrow> seen dev s n = disk s n" using d(4)[of n] d(6)[of n] assms(4) by (auto split: if_splits)
  obtain t where t: "brelse b s = Ok ((), t)" "live p t (B - {b})" "avail t = avail s + (if nrefs dev s n = 1 then 1 else 0)"
    using bio_live.rls_up[OF d(1,2) assms(2,3) pos] by blast
  note h = bio.rls_law[OF d(1) assms(3) pos cl t(1)]
  have lg: "log t = log s" "log_state.more t = log_state.more s" using h more_log[of t s] by (auto, cases s, cases t, simp)
  have lb: "logged_blocks t = logged_blocks s" by (simp add: logged_blocks_def lg)
  have nr: "nrefs dev t m = (if m \<in> logged_blocks t then 1 else 0) + (if m \<in> H - {n} then 1 else 0)" for m
    using h d(4)[of m] assms(4) by (auto simp: lb)
  have one: "m \<noteq> n" if "c \<in> B - {b}" "buf_of dev s c m" for c m
    using that one_buffer[OF d(1) assms(3)] by auto
  have z: "nrefs dev t (lstart (log s)) = 0" using h txn_okD(7)[OF d(3)] by auto
  have "txn_ok dev t" using h z nr by (intro txn_ok_refs[OF d(3) lg(1)]) (auto simp: lb)
  moreover have "\<exists>m \<in> H - {n}. buf_of dev t c m" if "c \<in> B - {b}" for c
  proof -
    have "buf_of dev t = buf_of dev s" using h by simp
    then show ?thesis using that one d(5)[of c] by auto
  qed
  ultimately have "in_txn dev p (B - {b}) (H - {n}) t"
    using h t(2) d(6) nr by (simp add: in_txn_def lb lg)
  then show ?thesis using t h lb lg d(4)[of n] assms(4) by (auto simp: log_room_def same_rest_def log_config_def)
qed

section \<open>Changing a block\<close>

lemma txn_update:
  assumes "in_txn dev p B H s" "b \<in> B" "buf_of dev s b n" "n \<in> H" "0 < log_room s" "\<not> in_log (lstart (log s)) n" "1 \<le> outstanding (log s)"
  shows "\<exists>t. thn (upd_data b f) (log_write b) s = Ok ((), t) \<and> in_txn dev p B H t \<and> seen dev t = (seen dev s)(n := f (seen dev s n)) \<and>
     logged_blocks t = insert n (logged_blocks s) \<and> log_room t = log_room s - (if n \<in> logged_blocks s then 0 else 1) \<and> same_rest s t \<and>
     avail t = avail s \<and> buf_of dev t = buf_of dev s"
proof -
  note d = in_txnD[OF assms(1)]
  let ?v = "f (seen dev s n)" let ?s = "upd_buf b (\<lambda>k. k\<lparr>bdata := ?v\<rparr>) s"
  have pos: "0 < nrefs dev s n" using d(4)[of n] assms(4) by simp
  note h = bio.sto_law[OF d(1) assms(3) pos, of ?v]
  have lv: "live p ?s B" "avail ?s = avail s" using bio_live.sto_up[OF d(2), of b ?v] by auto
  have dt: "bdata (bufs s b) = seen dev s n" by (rule bio.dat_law[OF d(1) assms(3)])
  have s0: "upd_data b f s = Ok ((), ?s)" by (simp add: modify_apply dt)
  have lg: "log ?s = log s" "logged_blocks ?s = logged_blocks s" by (simp_all add: logged_blocks_def)
  have few: "few_refs dev ?s" using d(7) h by (simp add: few_refs_def)
  have own: "buf_of dev ?s b n" using h assms(3) by simp
  have tx: "txn_ok dev ?s" using d(3) h by (simp add: txn_ok_def)
  have cap: "lhn (lh (log ?s)) < lsize (log ?s) - 1" "1 \<le> outstanding (log ?s)"
    using assms(5,7) by (auto simp: log_room_def)
  have hm: "\<not> in_log (lstart (log ?s)) n" using assms(6) by simp
  have ck: "cache_ok dev ?s" using h by blast
  obtain t where t: "log_write b ?s = Ok ((), t)" "txn_ok dev t" "cache_ok dev t" "live p t B" "logged_blocks t = insert n (logged_blocks s)"
    "lhn (lh (log t)) = (if n \<in> logged_blocks s then lhn (lh (log s)) else lhn (lh (log s)) + 1)"
    "nrefs dev t = (if n \<in> logged_blocks s then nrefs dev s else (nrefs dev s)(n := nrefs dev s n + 1))"
    "seen dev t = (seen dev s)(n := ?v)" "disk t = disk s" "dtrace t = dtrace s" "buf_of dev t = buf_of dev s" "avail t = avail s"
    "log_config t = log_config ?s" "log_state.more t = log_state.more ?s"
    using log_write_up[OF ck few lv(1) assms(2) own tx hm cap] h lv(2) by (auto simp: lg)
  have nr: "nrefs dev t m = (if m \<in> logged_blocks t then 1 else 0) + (if m \<in> H then 1 else 0)" for m
    using t(5,7) d(4)[of m] assms(4) by auto
  have "\<exists>m \<in> H. buf_of dev t c m" if "c \<in> B" for c using d(5)[OF that] by (simp add: t(11))
  moreover have "seen dev t m = disk t m" if "m \<notin> logged_blocks t" for m using that d(6)[of m] by (simp add: t(5,8,9))
  ultimately have "in_txn dev p B H t" using t(2-4) nr by (simp add: in_txn_def)
  moreover have "log_room t = log_room s - (if n \<in> logged_blocks s then 0 else 1)"
    using t(6,13) by (auto simp: log_room_def log_config_def)
  moreover have "same_rest s t" using t(9,10,13,14) by (simp add: same_rest_def log_config_def)
  ultimately show ?thesis using t s0 by (intro exI[of _ t]) (simp add: thn_apply)
qed

text \<open>Read and release.\<close>

lemma txn_look:
  assumes "in_txn dev p B H s" "n \<notin> H" "n \<notin> logged_blocks s \<Longrightarrow> 0 < avail s" "n \<noteq> lstart (log s)"
  shows "\<exists>b t u. bread dev n s = Ok (b, t) \<and> bdata (bufs t b) = seen dev s n \<and> log_state.more t = log_state.more s \<and> brelse b t = Ok ((), u) \<and>
     in_txn dev p B H u \<and> seen dev u = seen dev s \<and> logged_blocks u = logged_blocks s \<and> log_room u = log_room s \<and> same_rest s u \<and>
     avail u = avail s \<and> (\<forall>c m. c \<in> B \<longrightarrow> buf_of dev s c m \<longrightarrow> buf_of dev u c m)"
proof -
  obtain b t where t: "bread dev n s = Ok (b, t)" "in_txn dev p (insert b B) (insert n H) t" "b \<notin> B" "buf_of dev t b n" "bdata (bufs t b) = seen dev s n"
     "seen dev t = seen dev s" "logged_blocks t = logged_blocks s" "log_room t = log_room s" "same_rest s t"
     "avail t = avail s - (if n \<in> logged_blocks s then 0 else 1)" "\<forall>c m. c \<in> B \<longrightarrow> buf_of dev s c m \<longrightarrow> buf_of dev t c m"
    using txn_bread[OF assms] by blast
  obtain u where u: "brelse b t = Ok ((), u)" "in_txn dev p (insert b B - {b}) (insert n H - {n}) u" "seen dev u = seen dev t"
    "logged_blocks u = logged_blocks t" "log_room u = log_room t" "same_rest t u" "avail u = avail t + (if n \<in> logged_blocks t then 0 else 1)"
    "buf_of dev u = buf_of dev t"
    using txn_brelse[OF t(2) _ t(4)] by auto
  have "insert b B - {b} = B" "insert n H - {n} = H" using t(3) assms(2) by auto
  moreover have "same_rest s u" using t(9) u(6) by (rule same_rest_trans)
  moreover have "avail u = avail s" using u(7) t(7,10) assms(3) by auto
  moreover have "log_state.more t = log_state.more s" using t(9) by (simp add: same_rest_def)
  ultimately show ?thesis using t u by (intro exI[of _ b] exI[of _ t] exI[of _ u]) auto
qed

text \<open>Read, change, log and release.\<close>

lemma txn_change:
  assumes "in_txn dev p B H s" "n \<notin> H" "n \<notin> logged_blocks s \<Longrightarrow> 0 < avail s" "0 < log_room s" "\<not> in_log (lstart (log s)) n"
    "1 \<le> outstanding (log s)"
  shows "\<exists>b t u. bread dev n s = Ok (b, t) \<and> bdata (bufs t b) = seen dev s n \<and> log_state.more t = log_state.more s \<and>
     seqs [upd_data b f, log_write b, brelse b] t = Ok ((), u) \<and>
     in_txn dev p B H u \<and> seen dev u = (seen dev s)(n := f (seen dev s n)) \<and> logged_blocks u = insert n (logged_blocks s) \<and>
     log_room u = log_room s - (if n \<in> logged_blocks s then 0 else 1) \<and> same_rest s u \<and>
     avail u = avail s - (if n \<in> logged_blocks s then 0 else 1) \<and> (\<forall>c m. c \<in> B \<longrightarrow> buf_of dev s c m \<longrightarrow> buf_of dev u c m)"
proof -
  obtain b t where t: "bread dev n s = Ok (b, t)" "in_txn dev p (insert b B) (insert n H) t" "b \<notin> B" "buf_of dev t b n" "bdata (bufs t b) = seen dev s n"
     "seen dev t = seen dev s" "logged_blocks t = logged_blocks s" "log_room t = log_room s" "same_rest s t"
     "avail t = avail s - (if n \<in> logged_blocks s then 0 else 1)" "\<forall>c m. c \<in> B \<longrightarrow> buf_of dev s c m \<longrightarrow> buf_of dev t c m"
    using txn_bread[OF assms(1-3) home_not_start[OF assms(5)]] by blast
  have r: "0 < log_room t" "\<not> in_log (lstart (log t)) n" "1 \<le> outstanding (log t)" using t(8,9) assms(4-6) by (auto simp: same_rest_def log_config_def)
  obtain v where v: "thn (upd_data b f) (log_write b) t = Ok ((), v)" "in_txn dev p (insert b B) (insert n H) v"
     "seen dev v = (seen dev t)(n := f (seen dev t n))" "logged_blocks v = insert n (logged_blocks t)"
     "log_room v = log_room t - (if n \<in> logged_blocks t then 0 else 1)" "same_rest t v" "avail v = avail t" "buf_of dev v = buf_of dev t"
    using txn_update[OF t(2) insertI1 t(4) insertI1 r, of f] by blast
  have o: "buf_of dev v b n" using t(4) v(8) by simp
  obtain u where u: "brelse b v = Ok ((), u)" "in_txn dev p (insert b B - {b}) (insert n H - {n}) u" "seen dev u = seen dev v"
    "logged_blocks u = logged_blocks v" "log_room u = log_room v" "same_rest v u" "avail u = avail v + (if n \<in> logged_blocks v then 0 else 1)"
    "buf_of dev u = buf_of dev v"
    using txn_brelse[OF v(2) _ o] by auto
  have "insert b B - {b} = B" "insert n H - {n} = H" using t(3) assms(2) by auto
  moreover have "same_rest s u" using t(9) v(6) u(6) same_rest_trans by blast
  moreover have "seqs [upd_data b f, log_write b, brelse b] t = Ok ((), u)" using v(1) u(1) by (auto simp: thn_apply obind_eq_Ok ret_apply)
  moreover have "log_state.more t = log_state.more s" using t(9) by (simp add: same_rest_def)
  ultimately show ?thesis using t u v by (intro exI[of _ b] exI[of _ t] exI[of _ u]) auto
qed

end
