(* ===== verification/Fs_Alloc.thy ===== *)
theory Fs_Alloc
  imports Fs_Txn
begin

text \<open>
  The free map and the allocation of blocks (\<^verbatim>\<open>balloc\<close>), on a file system of at most \<^verbatim>\<open>BPB\<close> blocks, whose free map is one block. (\<^verbatim>\<open>mkfs\<close>
  makes file systems of 2000 blocks; \<^verbatim>\<open>BPB\<close> is 8192.)
\<close>

section \<open>The free map\<close>

lemma map_bit_iff: "map_bit d i \<longleftrightarrow> bit (d ! (i div 8)) (i mod 8)"
  by (simp add: map_bit_def bit_iff_and_push_bit_not_eq_0)

lemma map_bit_set: "i div 8 < length d \<Longrightarrow> map_bit (set_map_bit d i) j \<longleftrightarrow> j = i \<or> map_bit d j"
proof (cases "j div 8 = i div 8")
  case True
  assume "i div 8 < length d"
  moreover have "j mod 8 = i mod 8 \<longleftrightarrow> j = i" using True by (metis div_mult_mod_eq)
  ultimately show ?thesis using True by (auto simp: map_bit_iff set_map_bit_def bit_simps)
next
  case False
  then show ?thesis by (auto simp: map_bit_iff set_map_bit_def)
qed

lemma length_set_map_bit [simp]: "length (set_map_bit d i) = length d"
  by (simp add: set_map_bit_def)

definition used :: "disk \<Rightarrow> superblock \<Rightarrow> uint32 \<Rightarrow> bool" where
  "used D z n \<longleftrightarrow> map_bit (D (sb_bmapstart z)) (unat n)"

text \<open>Blocks that belong to no file.\<close>

definition meta :: "superblock \<Rightarrow> uint32 \<Rightarrow> uint32 \<Rightarrow> bool" where
  "meta z start n \<longleftrightarrow> n = 0 \<or> n = sb_bmapstart z \<or> in_log start n \<or> (\<exists>i. unat i < unat (sb_ninodes z) \<and> n = IBLOCK i z)"

definition layout_ok :: "superblock \<Rightarrow> uint32 \<Rightarrow> disk \<Rightarrow> bool" where
  "layout_ok z start D \<longleftrightarrow> unat (sb_size z) \<le> BPB \<and> length (D (sb_bmapstart z)) = BSIZE \<and> \<not> in_log start (sb_bmapstart z) \<and>
     (\<forall>i. unat i < unat (sb_ninodes z) \<longrightarrow> \<not> in_log start (IBLOCK i z) \<and> IBLOCK i z \<noteq> sb_bmapstart z) \<and>
     (\<forall>n. meta z start n \<longrightarrow> n < sb_size z \<longrightarrow> used D z n)"

lemma used_set:
  assumes "length (D (sb_bmapstart z)) = BSIZE" "unat n < BPB" "n \<noteq> sb_bmapstart z"
  shows "used (D(sb_bmapstart z := set_map_bit (D (sb_bmapstart z)) (unat n), n := v)) z m \<longleftrightarrow> m = n \<or> used D z m"
proof -
  have "unat n div 8 < length (D (sb_bmapstart z))" using assms(1,2) by (simp add: BPB_def less_mult_imp_div_less)
  from map_bit_set[OF this] show ?thesis using assms(3) by (simp add: used_def) (metis unsigned_word_eqI)
qed

lemma free_not_meta: "layout_ok z start D \<Longrightarrow> \<not> used D z n \<Longrightarrow> n < sb_size z \<Longrightarrow> \<not> meta z start n"
  by (auto simp: layout_ok_def)

lemma more_fs: "log_state.more t = log_state.more s \<Longrightarrow> sb t = sb s \<and> inodes t = inodes s \<and> fs_state.more t = fs_state.more s"
  by (cases s; cases t) simp

lemma same_restD:
  assumes "same_rest s t"
  shows "lstart (log t) = lstart (log s)" "outstanding (log t) = outstanding (log s)" "disk t = disk s" "log_state.more t = log_state.more s"
  using assms by (simp_all add: same_rest_def log_config_def)

section \<open>Room for a transaction to grow\<close>

text \<open>Both an entry of the log and a buffer are needed for a new block.\<close>

definition room :: "'z log_state_scheme \<Rightarrow> nat" where
  "room s = min (log_room s) (avail s)"

abbreviation fresh :: "'z log_state_scheme \<Rightarrow> uint32 \<Rightarrow> nat" where
  "fresh s n \<equiv> (if n \<in> logged_blocks s then 0 else 1)"

section \<open>Allocation\<close>

lemma bzero_spec:
  assumes "in_txn dev p B H s" "n \<notin> H" "0 < room s" "\<not> in_log (lstart (log s)) n" "1 \<le> outstanding (log s)"
  shows "\<exists>t. bzero dev n s = Ok ((), t) \<and> in_txn dev p B H t \<and> seen dev t = (seen dev s)(n := replicate BSIZE 0) \<and>
     logged_blocks t = insert n (logged_blocks s) \<and> log_room t = log_room s - fresh s n \<and> avail t = avail s - fresh s n \<and> same_rest s t \<and>
     (\<forall>c m. c \<in> B \<longrightarrow> buf_of dev s c m \<longrightarrow> buf_of dev t c m)"
proof -
  have r: "n \<notin> logged_blocks s \<Longrightarrow> 0 < avail s" "0 < log_room s" using assms(3) by (auto simp: room_def)
  show ?thesis using txn_change[OF assms(1,2) r assms(4,5), of "\<lambda>_. replicate BSIZE 0"]
    unfolding bzero_def bnd_apply by force
qed

text \<open>The block \<^verbatim>\<open>balloc\<close> hands out was free; it is marked in the map and zeroed.\<close>

definition allocated :: "superblock \<Rightarrow> uint32 \<Rightarrow> disk \<Rightarrow> disk" where
  "allocated z n D = D(sb_bmapstart z := set_map_bit (D (sb_bmapstart z)) (unat n), n := replicate BSIZE 0)"

lemma free_bit_spec:
  assumes "m \<le> BPB"
  shows "free_bit d 0 m = None \<Longrightarrow> i < m \<Longrightarrow> map_bit d i" "free_bit d 0 m = Some i \<Longrightarrow> i < m \<and> \<not> map_bit d i"
  using assms by (auto simp: free_bit_def find_None_iff find_Some_iff)

lemma balloc_spec:
  fixes s :: "'z fs_state_scheme"
  assumes "in_txn dev p B H s" "layout_ok (sb s) (lstart (log s)) (seen dev s)" "sb_bmapstart (sb s) \<notin> H"
    "\<And>n. n \<in> H \<Longrightarrow> used (seen dev s) (sb s) n" "fresh s (sb_bmapstart (sb s)) < room s" "1 \<le> outstanding (log s)"
  defines "bm \<equiv> sb_bmapstart (sb s)"
  shows "\<exists>r t. balloc dev s = Ok (r, t) \<and> in_txn dev p B H t \<and> same_rest s t \<and> (\<forall>c m. c \<in> B \<longrightarrow> buf_of dev s c m \<longrightarrow> buf_of dev t c m) \<and>
     (if r = 0 then seen dev t = seen dev s \<and> logged_blocks t = logged_blocks s \<and> log_room t = log_room s \<and> avail t = avail s \<and>
        (\<forall>n < sb_size (sb s). used (seen dev s) (sb s) n)
      else r < sb_size (sb s) \<and> \<not> used (seen dev s) (sb s) r \<and> seen dev t = allocated (sb s) r (seen dev s) \<and>
        logged_blocks t = insert r (insert bm (logged_blocks s)) \<and> log_room t = log_room s - fresh s bm - fresh s r \<and>
        avail t = avail s - fresh s bm - fresh s r)"
proof -
  let ?m = "unat (sb_size (sb s))" let ?f = "free_bit (seen dev s bm) 0 ?m"
  have bb: "BBLOCK (of_nat 0) (sb s) = bm" by (simp add: BBLOCK_def bm_def)
  have l: "?m \<le> BPB" "\<not> in_log (lstart (log s)) bm" using assms(2) by (auto simp: layout_ok_def bm_def)
  have bH: "bm \<notin> H" using assms(3) by (simp add: bm_def)
  have r: "bm \<notin> logged_blocks s \<Longrightarrow> 0 < avail s" "0 < log_room s" using assms(5) by (auto simp: room_def)
  have u: "used (seen dev s) (sb s) n \<longleftrightarrow> map_bit (seen dev s bm) (unat n)" for n by (simp add: used_def bm_def)
  show ?thesis
  proof (cases ?f)
    case None
    obtain b t u' where t: "bread dev bm s = Ok (b, t)" "bdata (bufs t b) = seen dev s bm" "log_state.more t = log_state.more s" "brelse b t = Ok ((), u')"
      "in_txn dev p B H u'" "seen dev u' = seen dev s" "logged_blocks u' = logged_blocks s" "log_room u' = log_room s" "same_rest s u'"
      "avail u' = avail s" "\<forall>c m. c \<in> B \<longrightarrow> buf_of dev s c m \<longrightarrow> buf_of dev u' c m"
      using txn_look[OF assms(1) bH r(1) home_not_start[OF l(2)]] by blast
    have all: "\<forall>n < sb_size (sb s). used (seen dev s) (sb s) n"
      using free_bit_spec(1)[OF l(1) None] u by (simp add: word_less_nat_alt)
    have sb: "sb t = sb s" "sb u' = sb s" using more_fs[OF t(3)] more_fs[OF same_restD(4)[OF t(9)]] by auto
    have "balloc_loop dev BPB u' = Ok (0, u')" using l(1) sb by (subst balloc_loop.simps) simp
    then have "0 < ?m \<Longrightarrow> balloc dev s = Ok (0, u')"
      unfolding balloc_def using t(1,2,4) sb None by (subst balloc_loop.simps) (simp add: bb[simplified] bnd_apply gets_apply thn_apply)
    moreover have "?m = 0 \<Longrightarrow> balloc dev s = Ok (0, s)" unfolding balloc_def by (subst balloc_loop.simps) simp
    ultimately show ?thesis using all assms(1) t by (cases "?m = 0") auto
  next
    case (Some i)
    let ?n = "of_nat i :: uint32"
    have i: "i < ?m" "\<not> map_bit (seen dev s bm) i" using free_bit_spec(2)[OF l(1) Some] by auto
    then have un: "unat ?n = i" using unsigned_less[of "sb_size (sb s)", where 'a = nat] by (simp add: unsigned_of_nat take_bit_nat_eq_self)
    then have n: "\<not> used (seen dev s) (sb s) ?n" "?n < sb_size (sb s)" using i u[of ?n] by (simp_all add: word_less_nat_alt)
    note nm = free_not_meta[OF assms(2) n]
    obtain b t v where t: "bread dev bm s = Ok (b, t)" "bdata (bufs t b) = seen dev s bm" "log_state.more t = log_state.more s"
      "seqs [upd_data b (\<lambda>d. set_map_bit d i), log_write b, brelse b] t = Ok ((), v)" "in_txn dev p B H v"
      "seen dev v = (seen dev s)(bm := set_map_bit (seen dev s bm) i)" "logged_blocks v = insert bm (logged_blocks s)"
      "log_room v = log_room s - fresh s bm" "same_rest s v" "avail v = avail s - fresh s bm"
      "\<forall>c m. c \<in> B \<longrightarrow> buf_of dev s c m \<longrightarrow> buf_of dev v c m"
      using txn_change[OF assms(1) bH r l(2) assms(6), of "\<lambda>d. set_map_bit d i"] by blast
    have nH: "?n \<notin> H" using n(1) assms(4) by blast
    have z: "0 < room v" "\<not> in_log (lstart (log v)) ?n" "1 \<le> outstanding (log v)"
      using assms(5,6) nm t(8,10) same_restD(1,2)[OF t(9)] by (auto simp: room_def bm_def meta_def)
    obtain w where w: "bzero dev ?n v = Ok ((), w)" "in_txn dev p B H w" "seen dev w = (seen dev v)(?n := replicate BSIZE 0)"
      "logged_blocks w = insert ?n (logged_blocks v)" "log_room w = log_room v - fresh v ?n" "avail w = avail v - fresh v ?n" "same_rest v w"
      "\<forall>c m. c \<in> B \<longrightarrow> buf_of dev v c m \<longrightarrow> buf_of dev w c m"
      using bzero_spec[OF t(5) nH z] by blast
    have nz: "?n \<noteq> 0" "?n \<noteq> bm" using nm by (auto simp: meta_def bm_def)
    have "fresh v ?n = fresh s ?n" using nz t(7) by auto
    moreover have "balloc dev s = Ok (?n, w)"
      unfolding balloc_def using t(1,2,4) w(1) more_fs[OF t(3)] Some i(1)
      by (subst balloc_loop.simps) (simp add: bb[simplified] bnd_apply gets_apply thn_apply obind_eq_Ok, fastforce simp: obind_eq_Ok ret_apply)
    moreover have "seen dev w = allocated (sb s) ?n (seen dev s)" by (simp add: w(3) t(6) allocated_def un bm_def)
    moreover have "same_rest s w" using t(9) w(7) by (rule same_rest_trans)
    ultimately show ?thesis using nz n w t(7,8,10,11) by (intro exI[of _ ?n] exI[of _ w]) auto
  qed
qed

end
