(* ===== verification/Fs_Content.thy ===== *)
theory Fs_Content
  imports Fs_Alloc
begin

text \<open>
  The blocks and the contents of a file, and how \<^verbatim>\<open>bmap\<close> extends the one without changing the other. A file of the disk has 13 block
  numbers in its inode and, when the last of them is not zero, 256 more in the block that it names. A block number of zero stands for a block
  of zeros.
\<close>

section \<open>Block numbers\<close>

text \<open>Number \<open>j\<close> of all block numbers of a file: first those of the inode, then those of the indirect block.\<close>

definition ptr :: "disk \<Rightarrow> inode \<Rightarrow> nat \<Rightarrow> uint32" where
  "ptr D k j = (if j \<le> NDIRECT then addrs k ! j
     else if addrs k ! NDIRECT = 0 then 0 else get32 (D (addrs k ! NDIRECT)) (4 * (j - NDIRECT - 1)))"

definition pslot :: "nat \<Rightarrow> nat" where
  "pslot bn = (if bn < NDIRECT then bn else bn + 1)"

definition file_blocks :: "disk \<Rightarrow> inode \<Rightarrow> uint32 set" where
  "file_blocks D k = {ptr D k j | j. j \<le> MAXFILE} - {0}"

definition file_ok :: "superblock \<Rightarrow> uint32 \<Rightarrow> disk \<Rightarrow> inode \<Rightarrow> bool" where
  "file_ok z start D k \<longleftrightarrow> length (addrs k) = NDIRECT + 1 \<and>
     (\<forall>n \<in> file_blocks D k. used D z n \<and> n < sb_size z \<and> \<not> meta z start n \<and> length (D n) = BSIZE) \<and>
     (\<forall>i j. i \<le> MAXFILE \<longrightarrow> j \<le> MAXFILE \<longrightarrow> ptr D k i \<noteq> 0 \<longrightarrow> ptr D k i = ptr D k j \<longrightarrow> i = j)"

definition fblock :: "disk \<Rightarrow> inode \<Rightarrow> nat \<Rightarrow> uchar list" where
  "fblock D k bn = (if ptr D k (pslot bn) = 0 then replicate BSIZE 0 else D (ptr D k (pslot bn)))"

lemma file_okD:
  assumes "file_ok z start D k"
  shows "length (addrs k) = NDIRECT + 1" "n \<in> file_blocks D k \<Longrightarrow> used D z n" "n \<in> file_blocks D k \<Longrightarrow> n < sb_size z"
    "n \<in> file_blocks D k \<Longrightarrow> \<not> meta z start n" "n \<in> file_blocks D k \<Longrightarrow> length (D n) = BSIZE"
    "i \<le> MAXFILE \<Longrightarrow> j \<le> MAXFILE \<Longrightarrow> ptr D k i \<noteq> 0 \<Longrightarrow> ptr D k i = ptr D k j \<Longrightarrow> i = j"
  using assms unfolding file_ok_def by blast+

lemma ptr_block: "j \<le> MAXFILE \<Longrightarrow> ptr D k j \<noteq> 0 \<Longrightarrow> ptr D k j \<in> file_blocks D k"
  by (auto simp: file_blocks_def)

lemma pslot_range: "bn < MAXFILE \<Longrightarrow> pslot bn \<le> MAXFILE" "pslot bn \<noteq> NDIRECT"
  by (auto simp: pslot_def)

section \<open>Extension of a file\<close>

text \<open>
  From \<open>D\<close> and \<open>k\<close> to \<open>D'\<close> and \<open>k'\<close> the file has kept its blocks and has perhaps got new ones that were free; blocks in use that are not of the file, the
  free map excepted, are as they were.
\<close>

definition extends :: "superblock \<Rightarrow> disk \<Rightarrow> inode \<Rightarrow> disk \<Rightarrow> inode \<Rightarrow> bool" where
  "extends z D k D' k' \<longleftrightarrow> (\<forall>n. used D z n \<longrightarrow> used D' z n) \<and>
     (\<forall>n. used D z n \<longrightarrow> n \<noteq> sb_bmapstart z \<longrightarrow> n \<notin> file_blocks D k \<longrightarrow> D' n = D n) \<and>
     (\<forall>n \<in> file_blocks D' k'. n \<in> file_blocks D k \<or> \<not> used D z n) \<and>
     (\<forall>j \<le> MAXFILE. ptr D k j \<noteq> 0 \<longrightarrow> ptr D' k' j = ptr D k j) \<and> k' = k\<lparr>addrs := addrs k'\<rparr>"

definition same_content :: "disk \<Rightarrow> inode \<Rightarrow> disk \<Rightarrow> inode \<Rightarrow> bool" where
  "same_content D k D' k' \<longleftrightarrow> (\<forall>bn < MAXFILE. fblock D' k' bn = fblock D k bn)"

lemma extends_refl: "extends z D k D k"
  by (simp add: extends_def)

lemma extends_trans: "extends z D k D' k' \<Longrightarrow> extends z D' k' D'' k'' \<Longrightarrow> extends z D k D'' k''"
proof -
  assume a: "extends z D k D' k'" "extends z D' k' D'' k''"
  have "D'' n = D n" if "used D z n" "n \<noteq> sb_bmapstart z" "n \<notin> file_blocks D k" for n
    using a that unfolding extends_def by metis
  moreover have "n \<in> file_blocks D k \<or> \<not> used D z n" if "n \<in> file_blocks D'' k''" for n
    using a that unfolding extends_def by blast
  moreover have "ptr D'' k'' j = ptr D k j" if "j \<le> MAXFILE" "ptr D k j \<noteq> 0" for j
    using a that unfolding extends_def by metis
  moreover have "k'' = k\<lparr>addrs := addrs k''\<rparr>" using a unfolding extends_def by (metis inode.surjective inode.update_convs(10))
  ultimately show ?thesis using a unfolding extends_def by blast
qed

text \<open>A free block becomes number \<open>j\<close> of the file. The pointer is in the inode, or in the indirect block.\<close>

lemma new_block_ok:
  assumes "layout_ok z start D" "file_ok z start D k" "\<not> used D z r" "r < sb_size z" "j \<le> MAXFILE" "ptr D k j = 0"
    and P: "\<And>i. i \<le> MAXFILE \<Longrightarrow> ptr D' k' i = (if i = j then r else ptr D k i)"
    and U: "\<And>m. used D' z m \<longleftrightarrow> m = r \<or> used D z m"
    and D': "\<And>n. n \<noteq> sb_bmapstart z \<Longrightarrow> n \<noteq> r \<Longrightarrow> n = ptr D k NDIRECT \<longrightarrow> n = 0 \<Longrightarrow> D' n = D n" "D' r = replicate BSIZE 0"
      "length (D' (sb_bmapstart z)) = BSIZE" "ptr D k NDIRECT \<noteq> 0 \<Longrightarrow> length (D' (ptr D k NDIRECT)) = BSIZE"
    and K: "k' = k\<lparr>addrs := addrs k'\<rparr>" "length (addrs k') = NDIRECT + 1"
  shows "layout_ok z start D'" "file_ok z start D' k'" "extends z D k D' k'" "same_content D k D' k'"
proof -
  note f = file_okD[OF assms(2)]
  have r: "\<not> meta z start r" "r \<notin> file_blocks D k" "r \<noteq> 0" using free_not_meta[OF assms(1,3,4)] f(2)[of r] assms(3) by (auto simp: meta_def)
  have i: "NDIRECT \<le> MAXFILE" by (simp add: MAXFILE_def)
  have "(\<exists>i \<le> MAXFILE. n = ptr D' k' i \<and> n \<noteq> 0) \<longleftrightarrow> n = r \<or> (\<exists>i \<le> MAXFILE. n = ptr D k i \<and> n \<noteq> 0)" for n
    using P assms(5,6) r(3) by metis
  then have fb: "file_blocks D' k' = insert r (file_blocks D k)" by (auto simp: file_blocks_def)
  have old: "D' n = D n" if "n \<in> file_blocks D k" "n \<noteq> ptr D k NDIRECT" for n
    using that f(4)[OF that(1)] r(2) by (intro D'(1)) (auto simp: meta_def)
  show "layout_ok z start D'" using assms(1) U D'(3) by (auto simp: layout_ok_def)
  have "length (D' n) = BSIZE" if "n \<in> file_blocks D' k'" for n
  proof (cases "n = ptr D k NDIRECT")
    case True
    then show ?thesis using that r D'(2,4) by (auto simp: fb file_blocks_def)
  next
    case False
    then show ?thesis using that old[of n] f(5)[of n] D'(2) by (auto simp: fb)
  qed
  moreover have "i = j'" if "i \<le> MAXFILE" "j' \<le> MAXFILE" "ptr D' k' i \<noteq> 0" "ptr D' k' i = ptr D' k' j'" for i j'
    using that f(6)[of i j'] r(2,3) ptr_block[of _ D k] by (auto simp: P split: if_splits)
  ultimately show "file_ok z start D' k'" using K(2) f(2-4) r(1) assms(4) U by (auto simp: file_ok_def fb)
  show "same_content D k D' k'" unfolding same_content_def
  proof (intro allI impI)
    fix bn assume bn: "bn < MAXFILE"
    note ps = pslot_range(1)[OF bn] pslot_range(2)[of bn]
    show "fblock D' k' bn = fblock D k bn"
    proof (cases "pslot bn = j \<or> ptr D k (pslot bn) = 0")
      case True
      then show ?thesis using P[OF ps(1)] D'(2) assms(6) r(3) by (auto simp: fblock_def)
    next
      case False
      then have "ptr D k (pslot bn) \<noteq> ptr D k NDIRECT" using f(6)[OF ps(1) i] ps(2) by auto
      then show ?thesis using False P[OF ps(1)] old ptr_block[OF ps(1)] by (auto simp: fblock_def)
    qed
  qed
  have "D' n = D n" if "used D z n" "n \<noteq> sb_bmapstart z" "n \<notin> file_blocks D k" for n
    using that assms(3) ptr_block[OF i, of D k] D'(1)[of n] f(4) by (cases "ptr D k NDIRECT = 0"; cases "n = 0") auto
  then show "extends z D k D' k'" using U fb P assms(6) K(1) assms(3) by (auto simp: extends_def)
qed

lemma new_direct:
  assumes "layout_ok z start D" "file_ok z start D k" "\<not> used D z r" "r < sb_size z" "j \<le> NDIRECT" "addrs k ! j = 0"
  defines "D' \<equiv> allocated z r D" and "k' \<equiv> k\<lparr>addrs := (addrs k)[j := r]\<rparr>"
  shows "layout_ok z start D'" "file_ok z start D' k'" "extends z D k D' k'" "same_content D k D' k'" "ptr D' k' j = r"
proof -
  note f = file_okD[OF assms(2)]
  have l: "length (addrs k) = NDIRECT + 1" "length (D (sb_bmapstart z)) = BSIZE" "unat (sb_size z) \<le> BPB"
    using f(1) assms(1) by (simp_all add: layout_ok_def)
  have r: "\<not> meta z start r" "r \<notin> file_blocks D k" using free_not_meta[OF assms(1,3,4)] f(2)[of r] assms(3) by auto
  have rb: "r \<noteq> sb_bmapstart z" "unat r < BPB" using r l(3) assms(4) by (auto simp: meta_def word_less_nat_alt)
  have i: "NDIRECT \<le> MAXFILE" by (simp add: MAXFILE_def)
  have j: "j \<le> MAXFILE" "ptr D k j = 0" using assms(5,6) i by (simp_all add: ptr_def)
  have dir: "addrs k' ! i = (if i = j then r else addrs k ! i)" if "i \<le> NDIRECT" for i
    using that l(1) assms(5) by (simp add: k'_def nth_list_update)
  have ind: "D' (addrs k ! NDIRECT) = D (addrs k ! NDIRECT)" if "addrs k ! NDIRECT \<noteq> 0"
  proof -
    have "addrs k ! NDIRECT \<in> file_blocks D k" using ptr_block[OF i, of D k] that by (simp add: ptr_def)
    then show ?thesis using r f(4) by (auto simp: D'_def allocated_def meta_def)
  qed
  have P: "ptr D' k' i = (if i = j then r else ptr D k i)" if "i \<le> MAXFILE" for i
  proof (cases "i \<le> NDIRECT")
    case True
    then show ?thesis using dir by (simp add: ptr_def)
  next
    case False
    then have "4 * (i - NDIRECT - 1) + 4 \<le> BSIZE" using that by (simp add: MAXFILE_def NINDIRECT_def NDIRECT_def BSIZE_def)
    then have "get32 (replicate BSIZE 0) (4 * (i - NDIRECT - 1)) = 0" by (simp add: get32_def)
    then show ?thesis using False assms(5,6) dir[of NDIRECT] ind by (auto simp: ptr_def D'_def allocated_def)
  qed
  have U: "used D' z m \<longleftrightarrow> m = r \<or> used D z m" for m
    unfolding D'_def allocated_def using used_set[of D z, OF l(2) rb(2,1)] .
  have D: "D' n = D n" if "n \<noteq> sb_bmapstart z" "n \<noteq> r" "n = ptr D k NDIRECT \<longrightarrow> n = 0" for n using that by (simp add: D'_def allocated_def)
  have z: "D' r = replicate BSIZE 0" "length (D' (sb_bmapstart z)) = BSIZE" using l(2) rb(1) by (auto simp: D'_def allocated_def)
  have il: "length (D' (ptr D k NDIRECT)) = BSIZE" if "ptr D k NDIRECT \<noteq> 0"
    using that ind f(5) ptr_block[OF i, of D k] by (simp add: ptr_def)
  have K: "k' = k\<lparr>addrs := addrs k'\<rparr>" "length (addrs k') = NDIRECT + 1" using l(1) by (simp_all add: k'_def)
  note n = new_block_ok[OF assms(1-4) j P U D z il K]
  show "layout_ok z start D'" by (rule n(1))
  show "file_ok z start D' k'" by (rule n(2))
  show "extends z D k D' k'" by (rule n(3))
  show "same_content D k D' k'" by (rule n(4))
  show "ptr D' k' j = r" using P[OF j(1)] by simp
qed

lemma new_indirect:
  assumes "layout_ok z start D" "file_ok z start D k" "\<not> used D z r" "r < sb_size z" "NDIRECT < j" "j \<le> MAXFILE" "ptr D k j = 0" "addrs k ! NDIRECT \<noteq> 0"
  defines "D' \<equiv> (allocated z r D)(addrs k ! NDIRECT := put32 (D (addrs k ! NDIRECT)) (4 * (j - NDIRECT - 1)) r)"
  shows "layout_ok z start D'" "file_ok z start D' k" "extends z D k D' k" "same_content D k D' k" "ptr D' k j = r"
proof -
  let ?a = "addrs k ! NDIRECT"
  note f = file_okD[OF assms(2)]
  have l: "length (addrs k) = NDIRECT + 1" "length (D (sb_bmapstart z)) = BSIZE" "unat (sb_size z) \<le> BPB"
    using f(1) assms(1) by (simp_all add: layout_ok_def)
  have r: "\<not> meta z start r" "r \<notin> file_blocks D k" using free_not_meta[OF assms(1,3,4)] f(2)[of r] assms(3) by auto
  have rb: "r \<noteq> sb_bmapstart z" "unat r < BPB" using r l(3) assms(4) by (auto simp: meta_def word_less_nat_alt)
  have i: "NDIRECT \<le> MAXFILE" "ptr D k NDIRECT = ?a" by (simp_all add: MAXFILE_def ptr_def)
  have "?a \<in> file_blocks D k" using ptr_block[OF i(1), of D k] assms(8) i(2) by simp
  then have a: "?a \<noteq> r" "?a \<noteq> sb_bmapstart z" "length (D ?a) = BSIZE" using r f(4,5) by (auto simp: meta_def)
  have P: "ptr D' k i = (if i = j then r else ptr D k i)" if "i \<le> MAXFILE" for i
  proof -
    have "4 * (i - NDIRECT - 1) + 4 \<le> BSIZE" "4 * (j - NDIRECT - 1) + 4 \<le> BSIZE" if "NDIRECT < i"
      using that \<open>i \<le> MAXFILE\<close> assms(5,6) by (simp_all add: MAXFILE_def NINDIRECT_def NDIRECT_def BSIZE_def)
    moreover have "i \<noteq> j \<Longrightarrow> NDIRECT < i \<Longrightarrow> 4 * (i - NDIRECT - 1) + 4 \<le> 4 * (j - NDIRECT - 1) \<or> 4 * (j - NDIRECT - 1) + 4 \<le> 4 * (i - NDIRECT - 1)"
      using assms(5) by auto
    ultimately show ?thesis using assms(5,8) a(3) by (auto simp: ptr_def D'_def get32_put_other)
  qed
  have U: "used D' z m \<longleftrightarrow> m = r \<or> used D z m" for m
    using used_set[of D z, OF l(2) rb(2,1), of "replicate BSIZE 0" m] a(2) by (simp add: D'_def allocated_def used_def)
  have D: "D' n = D n" if "n \<noteq> sb_bmapstart z" "n \<noteq> r" "n = ptr D k NDIRECT \<longrightarrow> n = 0" for n
    using that i(2) assms(8) by (auto simp: D'_def allocated_def)
  have "4 * (j - NDIRECT - 1) + 4 \<le> BSIZE" using assms(5,6) by (simp add: MAXFILE_def NINDIRECT_def NDIRECT_def BSIZE_def)
  then have z: "D' r = replicate BSIZE 0" "length (D' (sb_bmapstart z)) = BSIZE" "ptr D k NDIRECT \<noteq> 0 \<Longrightarrow> length (D' (ptr D k NDIRECT)) = BSIZE"
    using l(2) rb(1) a i(2) by (auto simp: D'_def allocated_def)
  have K: "k = k\<lparr>addrs := addrs k\<rparr>" by simp
  note n = new_block_ok[OF assms(1-4,6,7) P U D z K l(1)]
  show "layout_ok z start D'" by (rule n(1))
  show "file_ok z start D' k" by (rule n(2))
  show "extends z D k D' k" by (rule n(3))
  show "same_content D k D' k" by (rule n(4))
  show "ptr D' k j = r" using P[OF assms(6)] by simp
qed

end
