(* ===== verification/Fs_Bmap.thy ===== *)
theory Fs_Bmap
  imports Fs_Content
begin

text \<open>
  \<^verbatim>\<open>bmap\<close> inside a transaction: it returns, the block number is that of the file, blocks that it allocates do not change the contents, and it
  stays within the entries of the log that were counted for it.
\<close>

section \<open>A file inside a transaction\<close>

definition fs_at :: "uint32 \<Rightarrow> nat \<Rightarrow> nat \<Rightarrow> 'z fs_state_scheme \<Rightarrow> bool" where
  "fs_at dev p ip s \<longleftrightarrow> in_txn dev p {} {} s \<and> layout_ok (sb s) (lstart (log s)) (seen dev s) \<and>
     file_ok (sb s) (lstart (log s)) (seen dev s) (inodes s ip) \<and> idev (inodes s ip) = dev"

text \<open>The same inside a transaction, where blocks may be changed.\<close>

definition fs_ready :: "uint32 \<Rightarrow> nat \<Rightarrow> nat \<Rightarrow> 'z fs_state_scheme \<Rightarrow> bool" where
  "fs_ready dev p ip s \<longleftrightarrow> fs_at dev p ip s \<and> 1 \<le> outstanding (log s)"

definition fs_step :: "uint32 \<Rightarrow> nat \<Rightarrow> 'z fs_state_scheme \<Rightarrow> 'z fs_state_scheme \<Rightarrow> bool" where
  "fs_step dev ip s t \<longleftrightarrow> disk t = disk s \<and> log_config t = log_config s \<and> sb t = sb s \<and> fs_state.more t = fs_state.more s \<and>
     (\<forall>i. i \<noteq> ip \<longrightarrow> inodes t i = inodes s i) \<and> extends (sb s) (seen dev s) (inodes s ip) (seen dev t) (inodes t ip)"

definition disk_full :: "uint32 \<Rightarrow> 'z fs_state_scheme \<Rightarrow> bool" where
  "disk_full dev s \<longleftrightarrow> (\<forall>n < sb_size (sb s). used (seen dev s) (sb s) n)"

text \<open>The blocks, beside data blocks, that the next allocations may add to the log: the free map and the indirect block.\<close>

definition need :: "'z fs_state_scheme \<Rightarrow> nat \<Rightarrow> nat" where
  "need s ip = fresh s (sb_bmapstart (sb s)) +
     (if addrs (inodes s ip) ! NDIRECT = 0 then 1 else fresh s (addrs (inodes s ip) ! NDIRECT))"

lemma fs_step_refl: "fs_step dev ip s s"
  by (simp add: fs_step_def extends_refl)

lemma fs_step_trans: "fs_step dev ip s t \<Longrightarrow> fs_step dev ip t u \<Longrightarrow> fs_step dev ip s u"
  using extends_trans by (fastforce simp: fs_step_def)

lemma upd_inodes [simp]:
  fixes s :: "'z fs_state_scheme"
  shows "in_txn dev p B H (s\<lparr>inodes := f\<rparr>) = in_txn dev p B H s" "seen dev (s\<lparr>inodes := f\<rparr>) = seen dev s"
    "logged_blocks (s\<lparr>inodes := f\<rparr>) = logged_blocks s" "log_room (s\<lparr>inodes := f\<rparr>) = log_room s" "avail (s\<lparr>inodes := f\<rparr>) = avail s"
    "room (s\<lparr>inodes := f\<rparr>) = room s" "log_config (s\<lparr>inodes := f\<rparr>) = log_config s" "buf_of dev (s\<lparr>inodes := f\<rparr>) = buf_of dev s"
  by (simp_all add: in_txn_def cache_defs live_def txn_ok_def logged_blocks_def log_room_def avail_def room_def log_config_def)

lemma fs_readyD:
  assumes "fs_ready dev p ip s"
  shows "in_txn dev p {} {} s" "1 \<le> outstanding (log s)" "layout_ok (sb s) (lstart (log s)) (seen dev s)"
    "file_ok (sb s) (lstart (log s)) (seen dev s) (inodes s ip)" "idev (inodes s ip) = dev"
  using assms by (simp_all add: fs_ready_def fs_at_def)

text \<open>A state in which nothing but the cache has changed.\<close>

lemma fs_at_same:
  assumes "fs_at dev p ip s" "in_txn dev p {} {} t" "same_rest s t" "seen dev t = seen dev s"
  shows "fs_at dev p ip t"
  using assms more_fs[OF same_restD(4)[OF assms(3)]] same_restD[OF assms(3)] by (auto simp: fs_at_def)

lemma fs_ready_same:
  assumes "fs_ready dev p ip s" "in_txn dev p {} {} t" "same_rest s t" "seen dev t = seen dev s"
  shows "fs_ready dev p ip t" "fs_step dev ip s t"
  using assms more_fs[OF same_restD(4)[OF assms(3)]] same_restD[OF assms(3)] extends_refl
  by (auto simp: fs_ready_def fs_at_def fs_step_def same_rest_def)

section \<open>Block numbers in the inode\<close>

lemma bmap_slot_spec:
  assumes "fs_ready dev p ip s" "j \<le> NDIRECT" "need s ip + c \<le> room s" "1 \<le> c"
  shows "\<exists>a t. bmap_slot ip j s = Ok (a, t) \<and> fs_ready dev p ip t \<and> fs_step dev ip s t \<and>
     same_content (seen dev s) (inodes s ip) (seen dev t) (inodes t ip) \<and>
     (if a = 0 then disk_full dev t \<and> need t ip + c \<le> room t
      else addrs (inodes t ip) ! j = a \<and> need t ip + (if j = NDIRECT then c else c - 1 + fresh t a) \<le> room t)"
proof (cases "addrs (inodes s ip) ! j = 0")
  case False
  moreover have "fresh s n \<le> 1" for n by simp
  ultimately show ?thesis using assms fs_step_refl[of dev ip s]
    by (intro exI[of _ "addrs (inodes s ip) ! j"] exI[of _ s]) (auto simp: bmap_slot_def kern_simps same_content_def)
next
  case True
  let ?z = "sb s" and ?k = "inodes s ip" let ?bm = "sb_bmapstart ?z"
  note d = fs_readyD[OF assms(1)]
  have fr: "fresh s ?bm < room s" using assms(3,4) by (auto simp: need_def split: if_splits)
  obtain r t where t: "balloc dev s = Ok (r, t)" "in_txn dev p {} {} t" "same_rest s t"
     "if r = 0 then seen dev t = seen dev s \<and> logged_blocks t = logged_blocks s \<and> log_room t = log_room s \<and> avail t = avail s \<and>
        (\<forall>n < sb_size ?z. used (seen dev s) ?z n)
      else r < sb_size ?z \<and> \<not> used (seen dev s) ?z r \<and> seen dev t = allocated ?z r (seen dev s) \<and>
        logged_blocks t = insert r (insert ?bm (logged_blocks s)) \<and> log_room t = log_room s - fresh s ?bm - fresh s r \<and>
        avail t = avail s - fresh s ?bm - fresh s r"
    using balloc_spec[OF d(1,3) _ _ fr d(2)] by auto
  note m = more_fs[OF same_restD(4)[OF t(3)]] and c = same_restD[OF t(3)]
  show ?thesis
  proof (cases "r = 0")
    case z: True
    have "bmap_slot ip j s = Ok (0, t)" using True d(5) t(1) z by (simp add: bmap_slot_def kern_simps)
    moreover have "need t ip = need s ip" "room t = room s" using t(4) z m by (simp_all add: need_def room_def)
    then have "need t ip + c \<le> room t" using assms(3) by simp
    moreover have "disk_full dev t" using t(4) z m by (simp add: disk_full_def)
    moreover have "same_content (seen dev s) ?k (seen dev t) (inodes t ip)" using t(4) z m by (simp add: same_content_def)
    ultimately show ?thesis using fs_ready_same[OF assms(1) t(2,3)] t(4) z by (intro exI[of _ 0] exI[of _ t]) simp
  next
    case nz: False
    let ?k' = "?k\<lparr>addrs := (addrs ?k)[j := r]\<rparr>" let ?t = "t\<lparr>inodes := (inodes t)(ip := ?k')\<rparr>"
    have r: "r < sb_size ?z" "\<not> used (seen dev s) ?z r" "seen dev t = allocated ?z r (seen dev s)" using t(4) nz by auto
    note n = new_direct[OF d(3,4) r(2,1) assms(2) True, folded r(3)]
    have run: "bmap_slot ip j s = Ok (r, ?t)" using True d(5) t(1) nz m by (simp add: bmap_slot_def kern_simps)
    have len: "length (addrs ?k) = NDIRECT + 1" using file_okD(1)[OF d(4)] .
    have at: "addrs (inodes ?t ip) ! j = r" using len assms(2) by simp
    have ready: "fs_ready dev p ip ?t" using n(1,2) t(2) d(2,5) m c by (simp add: fs_ready_def fs_at_def)
    have step: "fs_step dev ip s ?t" using n(3) t(3) m by (simp add: fs_step_def same_rest_def)
    have nb: "r \<noteq> ?bm" "r \<notin> file_blocks (seen dev s) ?k"
      using free_not_meta[OF d(3) r(2,1)] file_okD(2)[OF d(4)] r(2) by (auto simp: meta_def)
    have rm: "room ?t = room s - fresh s ?bm - fresh s r" using t(4) nz by (simp add: room_def min_diff)
    have lb: "logged_blocks ?t = insert r (insert ?bm (logged_blocks s))" using t(4) nz by simp
    have "need ?t ip + (if j = NDIRECT then c else c - 1 + fresh ?t r) \<le> room ?t"
    proof (cases "j = NDIRECT")
      case True
      then have "need ?t ip = 0" using at nz lb m by (simp add: need_def)
      moreover have "need s ip = fresh s ?bm + 1" using True \<open>addrs ?k ! j = 0\<close> by (simp add: need_def)
      ultimately show ?thesis using True rm assms(3) by (auto split: if_splits)
    next
      case False
      then have i: "addrs (inodes ?t ip) ! NDIRECT = addrs ?k ! NDIRECT" using len by simp
      have "addrs ?k ! NDIRECT \<noteq> 0 \<Longrightarrow> addrs ?k ! NDIRECT \<in> file_blocks (seen dev s) ?k"
        using ptr_block[of NDIRECT "seen dev s" ?k] by (simp add: ptr_def MAXFILE_def)
      then have "addrs ?k ! NDIRECT \<noteq> 0 \<Longrightarrow> addrs ?k ! NDIRECT \<noteq> r \<and> addrs ?k ! NDIRECT \<noteq> ?bm"
        using nb file_okD(4)[OF d(4)] by (auto simp: meta_def)
      then have "need ?t ip + fresh s ?bm = need s ip" using i lb m by (auto simp: need_def)
      then show ?thesis using False rm assms(3,4) lb by auto
    qed
    then show ?thesis using run ready step n(4) at nz m by (intro exI[of _ r] exI[of _ ?t]) simp
  qed
qed

section \<open>Block numbers in the indirect block\<close>

text \<open>The part of \<^verbatim>\<open>bmap\<close> that works on entry \<open>e\<close> of the indirect block \<open>addr\<close>.\<close>

definition bmap_entry :: "uint32 \<Rightarrow> uint32 \<Rightarrow> nat \<Rightarrow> ('z fs_state_scheme, uint32) kern" where
  "bmap_entry dev addr e =
     bnd (bread dev addr) (\<lambda>bp.
     bnd (get_data bp) (\<lambda>d.
     bnd (if get32 d (4 * e) \<noteq> 0 then ret (get32 d (4 * e))
          else
            bnd (balloc dev) (\<lambda>a.
            thn (whenb (a \<noteq> 0) (seqs [upd_data bp (\<lambda>d. put32 d (4 * e) a), log_write bp]))
            (ret a))) (\<lambda>a.
     thn (brelse bp) (ret a))))"

lemma bmap_eq:
  "bmap ip bn = (if unat bn < NDIRECT then bmap_slot ip (unat bn)
     else if unat bn < MAXFILE then
       bnd (bmap_slot ip NDIRECT) (\<lambda>addr. if addr = 0 then ret 0 else bnd (inode_at ip) (\<lambda>k. bmap_entry (idev k) addr (unat bn - NDIRECT)))
     else panic ''bmap: out of range'')"
  unfolding bmap_def bmap_entry_def Let_def by (auto simp: MAXFILE_def)

lemma indirect_block:
  assumes "fs_at dev p ip s" "addrs (inodes s ip) ! NDIRECT = addr" "addr \<noteq> 0"
  shows "addr \<in> file_blocks (seen dev s) (inodes s ip)" "used (seen dev s) (sb s) addr" "addr \<noteq> sb_bmapstart (sb s)" "\<not> in_log (lstart (log s)) addr"
proof -
  have f: "file_ok (sb s) (lstart (log s)) (seen dev s) (inodes s ip)" using assms(1) by (simp add: fs_at_def)
  show b: "addr \<in> file_blocks (seen dev s) (inodes s ip)"
    using ptr_block[of NDIRECT "seen dev s" "inodes s ip"] assms(2,3) by (simp add: ptr_def MAXFILE_def)
  show "used (seen dev s) (sb s) addr" using file_okD(2)[OF f b] .
  show "addr \<noteq> sb_bmapstart (sb s)" "\<not> in_log (lstart (log s)) addr" using file_okD(4)[OF f b] by (auto simp: meta_def)
qed

lemma bmap_entry_there:
  assumes "fs_at dev p ip s" "addrs (inodes s ip) ! NDIRECT = addr" "addr \<noteq> 0" "0 < avail s" "get32 (seen dev s addr) (4 * e) = a" "a \<noteq> 0"
  shows "\<exists>t. bmap_entry dev addr e s = Ok (a, t) \<and> in_txn dev p {} {} t \<and> same_rest s t \<and> seen dev t = seen dev s \<and>
     log_room t = log_room s \<and> avail t = avail s \<and> logged_blocks t = logged_blocks s"
proof -
  have d: "in_txn dev p {} {} s" using assms(1) by (simp add: fs_at_def)
  note i = indirect_block[OF assms(1-3)]
  obtain b t u where t: "bread dev addr s = Ok (b, t)" "bdata (bufs t b) = seen dev s addr" "brelse b t = Ok ((), u)"
     "in_txn dev p {} {} u" "seen dev u = seen dev s" "logged_blocks u = logged_blocks s" "log_room u = log_room s" "same_rest s u" "avail u = avail s"
    using txn_look[OF d _ assms(4) home_not_start[OF i(4)]] by auto
  have "bmap_entry dev addr e s = Ok (a, u)" using t(1-3) assms(5,6) by (simp add: bmap_entry_def kern_simps)
  then show ?thesis using t by blast
qed

text \<open>A block that the file has is found without change.\<close>

lemma bmap_there:
  assumes "fs_at dev p ip s" "unat bn < MAXFILE" "ptr (seen dev s) (inodes s ip) (pslot (unat bn)) = a" "a \<noteq> 0" "0 < avail s"
  shows "\<exists>t. bmap ip bn s = Ok (a, t) \<and> in_txn dev p {} {} t \<and> same_rest s t \<and> seen dev t = seen dev s \<and>
     log_room t = log_room s \<and> avail t = avail s \<and> logged_blocks t = logged_blocks s"
proof (cases "unat bn < NDIRECT")
  case True
  then show ?thesis using assms(1,3,4) by (intro exI[of _ s]) (simp add: bmap_eq bmap_slot_def ptr_def pslot_def kern_simps fs_at_def)
next
  case False
  let ?x = "addrs (inodes s ip) ! NDIRECT"
  have x: "?x \<noteq> 0" "get32 (seen dev s ?x) (4 * (unat bn - NDIRECT)) = a"
    using False assms(3,4) by (auto simp: ptr_def pslot_def split: if_splits)
  have "idev (inodes s ip) = dev" using assms(1) by (simp add: fs_at_def)
  then show ?thesis using bmap_entry_there[OF assms(1) refl x(1) assms(5) x(2) assms(4)] False assms(2) x(1)
    by (simp add: bmap_eq bmap_slot_def kern_simps)
qed

lemma bmap_entry_new:
  assumes "fs_ready dev p ip s" "addrs (inodes s ip) ! NDIRECT = addr" "addr \<noteq> 0" "need s ip + c \<le> room s" "2 \<le> c"
    "e < NINDIRECT" "get32 (seen dev s addr) (4 * e) = 0"
  shows "\<exists>a t. bmap_entry dev addr e s = Ok (a, t) \<and> fs_ready dev p ip t \<and> fs_step dev ip s t \<and>
     same_content (seen dev s) (inodes s ip) (seen dev t) (inodes t ip) \<and>
     (if a = 0 then disk_full dev t \<and> need t ip + c \<le> room t
      else ptr (seen dev t) (inodes t ip) (NDIRECT + 1 + e) = a \<and> need t ip + (c - 1 + fresh t a) \<le> room t)"
proof -
  let ?z = "sb s" and ?k = "inodes s ip" and ?D = "seen dev s" let ?bm = "sb_bmapstart ?z"
  have fa: "fs_at dev p ip s" using assms(1) by (simp add: fs_ready_def)
  note d = fs_readyD[OF assms(1)] and i = indirect_block[OF fa assms(2,3)]
  have nd: "need s ip = fresh s ?bm + fresh s addr" using assms(2,3) by (simp add: need_def)
  have av: "0 < avail s" using assms(4,5) by (simp add: room_def)
  obtain b t where t: "bread dev addr s = Ok (b, t)" "in_txn dev p {b} {addr} t" "buf_of dev t b addr" "bdata (bufs t b) = ?D addr"
     "seen dev t = ?D" "logged_blocks t = logged_blocks s" "log_room t = log_room s" "same_rest s t" "avail t = avail s - fresh s addr"
    using txn_bread[OF d(1) _ av home_not_start[OF i(4)]] by auto
  note mt = more_fs[OF same_restD(4)[OF t(8)]] and ct = same_restD[OF t(8)]
  have fr: "fresh t (sb_bmapstart (sb t)) < room t" using assms(4,5) nd t(6,7,9) mt by (auto simp: room_def split: if_splits)
  have lay: "layout_ok (sb t) (lstart (log t)) (seen dev t)" "sb_bmapstart (sb t) \<notin> {addr}" "1 \<le> outstanding (log t)"
    using d(2,3) i(3) mt ct t(5) by auto
  have us: "used (seen dev t) (sb t) n" if "n \<in> {addr}" for n using that i(2) mt t(5) by simp
  obtain r v where v': "balloc dev t = Ok (r, v)" "in_txn dev p {b} {addr} v" "same_rest t v" "buf_of dev v b addr"
     "if r = 0 then seen dev v = seen dev t \<and> logged_blocks v = logged_blocks t \<and> log_room v = log_room t \<and> avail v = avail t \<and>
        (\<forall>n < sb_size (sb t). used (seen dev t) (sb t) n)
      else r < sb_size (sb t) \<and> \<not> used (seen dev t) (sb t) r \<and> seen dev v = allocated (sb t) r (seen dev t) \<and>
        logged_blocks v = insert r (insert (sb_bmapstart (sb t)) (logged_blocks t)) \<and> log_room v = log_room t - fresh t (sb_bmapstart (sb t)) - fresh t r \<and>
        avail v = avail t - fresh t (sb_bmapstart (sb t)) - fresh t r"
    using balloc_spec[OF t(2) lay(1,2) us fr lay(3)] t(3) by blast
  have "if r = 0 then seen dev v = ?D \<and> logged_blocks v = logged_blocks s \<and> log_room v = log_room t \<and> avail v = avail t \<and>
        (\<forall>n < sb_size ?z. used ?D ?z n)
      else r < sb_size ?z \<and> \<not> used ?D ?z r \<and> seen dev v = allocated ?z r ?D \<and>
        logged_blocks v = insert r (insert ?bm (logged_blocks s)) \<and> log_room v = log_room t - fresh s ?bm - fresh s r \<and>
        avail v = avail t - fresh s ?bm - fresh s r"    using v'(5) unfolding conjunct1[OF mt] t(5,6) .
  note v = v'(1-4) this
  show ?thesis
  proof (cases "r = 0")
    case True
    obtain u where u: "brelse b v = Ok ((), u)" "in_txn dev p {} {} u" "seen dev u = ?D" "logged_blocks u = logged_blocks s" "log_room u = log_room s"
      "same_rest v u" "avail u = avail s"
      using txn_brelse[OF v(2) _ v(4)] v(5) True t(7,9) av by (auto split: if_splits)
    have sr: "same_rest s u" using t(8) v(3) u(6) same_rest_trans by blast
    note m = more_fs[OF same_restD(4)[OF sr]]
    have "bmap_entry dev addr e s = Ok (0, u)" using t(1,4) v(1) u(1) assms(7) True by (simp add: bmap_entry_def kern_simps)
    moreover have "need u ip = need s ip" "room u = room s" using u m by (simp_all add: need_def room_def)
    moreover have "disk_full dev u" using v(5) True u(3) m by (simp add: disk_full_def)
    ultimately show ?thesis using fs_ready_same[OF assms(1) u(2) sr u(3)] u(3) m assms(4) by (intro exI[of _ 0] exI[of _ u]) (simp add: same_content_def)
  next
    case False
    then have r: "r < sb_size ?z" "\<not> used ?D ?z r" "seen dev v = allocated ?z r ?D" "logged_blocks v = insert r (insert ?bm (logged_blocks s))"
      "log_room v = log_room s - fresh s ?bm - fresh s r" "avail v = avail s - fresh s addr - fresh s ?bm - fresh s r" using v(5) t(7,9) by auto
    have nr: "addr \<noteq> r" using i(2) r(2) by auto
    have j: "NDIRECT < NDIRECT + 1 + e" "NDIRECT + 1 + e \<le> MAXFILE" "ptr ?D ?k (NDIRECT + 1 + e) = 0" "addrs ?k ! NDIRECT \<noteq> 0"
      using assms(2,3,6,7) by (simp_all add: MAXFILE_def ptr_def)
    note n = new_indirect[OF d(3,4) r(2,1) j, unfolded assms(2)]
    have cv: "0 < log_room v" "\<not> in_log (lstart (log v)) addr" "1 \<le> outstanding (log v)"
      using r(5) assms(4,5) nd i(4) ct lay(3) same_restD[OF v(3)] by (auto simp: room_def split: if_splits)
    obtain w where w: "thn (upd_data b (\<lambda>d. put32 d (4 * e) r)) (log_write b) v = Ok ((), w)" "in_txn dev p {b} {addr} w"
      "seen dev w = (seen dev v)(addr := put32 (seen dev v addr) (4 * e) r)" "logged_blocks w = insert addr (logged_blocks v)"
      "log_room w = log_room v - fresh v addr" "same_rest v w" "avail w = avail v" "buf_of dev w b addr"
      using txn_update[OF v(2) _ v(4) _ cv, of "\<lambda>d. put32 d (4 * e) r"] v(4) by auto
    obtain u where u: "brelse b w = Ok ((), u)" "in_txn dev p {} {} u" "seen dev u = seen dev w" "logged_blocks u = logged_blocks w" "log_room u = log_room w"
      "same_rest w u" "avail u = avail w"
      using txn_brelse[OF w(2) _ w(8)] w(4) by auto
    have sr: "same_rest s u" using t(8) v(3) w(6) u(6) same_rest_trans by blast
    note m = more_fs[OF same_restD(4)[OF sr]] and c = same_restD[OF sr]
    have D: "seen dev u = (allocated ?z r ?D)(addr := put32 (?D addr) (4 * (NDIRECT + 1 + e - NDIRECT - 1)) r)"
      using u(3) w(3) r(3) nr i(3) by (simp add: allocated_def)
    have run: "bmap_entry dev addr e s = Ok (r, u)" using t(1,4) v(1) w(1) u(1) assms(7) False
      by (auto simp: bmap_entry_def kern_simps obind_eq_Ok)
    have fv: "fresh v addr = fresh s addr" using r(4) nr i(3) by auto
    have rm: "room u = room s - fresh s addr - fresh s ?bm - fresh s r" using u(5,7) w(5,7) r(5,6) fv by (auto simp: room_def min_def)
    have nu: "need u ip = 0" "fresh u r = 0" using u(4) w(4) r(4) m assms(2,3) by (auto simp: need_def)
    have "need u ip + (c - 1 + fresh u r) \<le> room u" using nu rm assms(4,5) nd by (auto split: if_splits)
    moreover have "fs_ready dev p ip u" using n(1,2)[folded D] u(2) d(2,5) m c by (simp add: fs_ready_def fs_at_def)
    moreover have "fs_step dev ip s u" using n(3)[folded D] sr m by (simp add: fs_step_def same_rest_def)
    ultimately show ?thesis using run n(4,5)[folded D] m False by (intro exI[of _ r] exI[of _ u]) simp
  qed
qed

section \<open>The routine\<close>

lemma bmap_spec:
  assumes "fs_ready dev p ip s" "unat bn < MAXFILE" "need s ip + c \<le> room s" "2 \<le> c"
  shows "\<exists>a t. bmap ip bn s = Ok (a, t) \<and> fs_ready dev p ip t \<and> fs_step dev ip s t \<and>
     same_content (seen dev s) (inodes s ip) (seen dev t) (inodes t ip) \<and>
     (if a = 0 then disk_full dev t \<and> need t ip + c \<le> room t
      else ptr (seen dev t) (inodes t ip) (pslot (unat bn)) = a \<and> need t ip + (c - 1 + fresh t a) \<le> room t)"
proof (cases "unat bn < NDIRECT")
  case True
  have c: "1 \<le> c" using assms(4) by simp
  have j: "unat bn \<noteq> NDIRECT" "bmap ip bn = bmap_slot ip (unat bn)" "ptr D k (pslot (unat bn)) = addrs k ! unat bn" for D k
    using True by (simp_all add: bmap_eq ptr_def pslot_def)
  show ?thesis using bmap_slot_spec[OF assms(1) less_imp_le[OF True] assms(3) c] unfolding j(2,3) if_not_P[OF j(1)] .
next
  case False
  let ?e = "unat bn - NDIRECT"
  have e: "?e < NINDIRECT" "pslot (unat bn) = NDIRECT + 1 + ?e" using False assms(2) by (auto simp: MAXFILE_def pslot_def)
  have c: "1 \<le> c" using assms(4) by simp
  obtain x t where t: "bmap_slot ip NDIRECT s = Ok (x, t)" "fs_ready dev p ip t" "fs_step dev ip s t"
     "same_content (seen dev s) (inodes s ip) (seen dev t) (inodes t ip)" "need t ip + c \<le> room t"
     "x = 0 \<Longrightarrow> disk_full dev t" "x \<noteq> 0 \<Longrightarrow> addrs (inodes t ip) ! NDIRECT = x"
    using bmap_slot_spec[OF assms(1) order_refl assms(3) c] by (auto split: if_splits)
  show ?thesis
  proof (cases "x = 0")
    case True
    then show ?thesis using t False assms(2) by (intro exI[of _ 0] exI[of _ t]) (simp add: bmap_eq kern_simps)
  next
    case nz: False
    note x = t(7)[OF nz] and dv = fs_readyD(5)[OF t(2)]
    have run: "bmap ip bn s = bmap_entry dev x ?e t" using t(1) nz False assms(2) dv by (simp add: bmap_eq kern_simps)
    let ?a = "get32 (seen dev t x) (4 * ?e)"
    show ?thesis
    proof (cases "?a = 0")
      case True
      obtain a u where "bmap_entry dev x ?e t = Ok (a, u)" "fs_ready dev p ip u" "fs_step dev ip t u"
        "same_content (seen dev t) (inodes t ip) (seen dev u) (inodes u ip)"
        "if a = 0 then disk_full dev u \<and> need u ip + c \<le> room u
         else ptr (seen dev u) (inodes u ip) (NDIRECT + 1 + ?e) = a \<and> need u ip + (c - 1 + fresh u a) \<le> room u"
        using bmap_entry_new[OF t(2) x nz t(5) assms(4) e(1) True] by blast
      then show ?thesis using run t(3,4) fs_step_trans e(2) by (intro exI[of _ a] exI[of _ u]) (auto simp: same_content_def)
    next
      case False
      have rm: "0 < avail t" "fs_at dev p ip t" using t(2,5) c by (simp_all add: room_def fs_ready_def)
      obtain u where u: "bmap_entry dev x ?e t = Ok (?a, u)" "in_txn dev p {} {} u" "same_rest t u" "seen dev u = seen dev t"
         "log_room u = log_room t" "avail u = avail t" "logged_blocks u = logged_blocks t"
        using bmap_entry_there[OF rm(2) x nz rm(1) refl False] by blast
      note m = more_fs[OF same_restD(4)[OF u(3)]] and r = fs_ready_same[OF t(2) u(2-4)]
      have "ptr (seen dev u) (inodes u ip) (pslot (unat bn)) = ?a" using u(4) m e x nz by (simp add: ptr_def)
      moreover have "need u ip = need t ip" "room u = room t" using u m by (simp_all add: need_def room_def)
      moreover have "need t ip + (c - 1 + fresh u ?a) \<le> room t" using t(5) c by auto
      ultimately show ?thesis using run u(1,4) m r t(3,4) fs_step_trans False by (intro exI[of _ ?a] exI[of _ u]) (auto simp: same_content_def)
    qed
  qed
qed

end
