(* ===== verification/Fs_Write.thy ===== *)
theory Fs_Write
  imports Fs_Bmap
begin

text \<open>
  Files as arrays of bytes: what \<^verbatim>\<open>readi\<close> and \<^verbatim>\<open>writei\<close> of \<^verbatim>\<open>kernel/fs.c\<close> do to the contents of a file, with data in kernel memory.
\<close>

section \<open>One block\<close>

lemma upd_settled [simp]:
  fixes s :: "'z log_state_scheme"
  shows "in_txn dev p B H (s\<lparr>kcore := settled (kcore s)\<rparr>) = in_txn dev p B H s" "seen dev (s\<lparr>kcore := c\<rparr>) = seen dev s"
    "logged_blocks (s\<lparr>kcore := c\<rparr>) = logged_blocks s" "log_room (s\<lparr>kcore := c\<rparr>) = log_room s" "avail (s\<lparr>kcore := c\<rparr>) = avail s"
    "log_config (s\<lparr>kcore := c\<rparr>) = log_config s" "buf_of dev (s\<lparr>kcore := c\<rparr>) = buf_of dev s"
  by (simp_all add: in_txn_def cache_defs live_def txn_ok_def logged_blocks_def log_room_def avail_def log_config_def)

lemma kernel_copies:
  fixes s :: "'z log_state_scheme"
  assumes "in_txn dev p B H s"
  shows "either_copyin (FromKernel bs) m s = Ok ((0, take m bs), s\<lparr>kcore := settled (kcore s)\<rparr>)"
    "either_copyout ToKernel cs s = Ok (0, s\<lparr>kcore := settled (kcore s)\<rparr>)"
proof -
  have "core_ok (kcore s)" using assms liveD(1) quietD(1) in_txnD(2) by blast
  then show "either_copyin (FromKernel bs) m s = Ok ((0, take m bs), s\<lparr>kcore := settled (kcore s)\<rparr>)"
    "either_copyout ToKernel cs s = Ok (0, s\<lparr>kcore := settled (kcore s)\<rparr>)"
    by (simp_all add: either_copyin_def either_copyout_def kern_simps myproc_eq)
qed

text \<open>A turn of the loop in \<^verbatim>\<open>writei\<close> after \<^verbatim>\<open>bmap\<close>, and then \<open>K\<close>.\<close>

lemma block_in:
  fixes s :: "'z log_state_scheme"
  assumes "in_txn dev p {} {} s" "0 < room s" "\<not> in_log (lstart (log s)) a" "1 \<le> outstanding (log s)"
  shows "\<exists>u. bnd (bread dev a) (\<lambda>bp. bnd (either_copyin (FromKernel bs) m) (\<lambda>(r, cs).
       thn (upd_data bp (\<lambda>d. put d i cs)) (if r = -1 then thn (brelse bp) X else thn (seqs [log_write bp, brelse bp]) K))) s = K u \<and>
     in_txn dev p {} {} u \<and> seen dev u = (seen dev s)(a := put (seen dev s a) i (take m bs)) \<and> logged_blocks u = insert a (logged_blocks s) \<and>
     room u = room s - fresh s a \<and> same_rest s u"
proof -
  have av: "0 < avail s" "0 < log_room s" using assms(2) by (auto simp: room_def)
  obtain b t where t: "bread dev a s = Ok (b, t)" "in_txn dev p {b} {a} t" "buf_of dev t b a" "seen dev t = seen dev s"
     "logged_blocks t = logged_blocks s" "log_room t = log_room s" "same_rest s t" "avail t = avail s - fresh s a"
    using txn_bread[OF assms(1) _ av(1) home_not_start[OF assms(3)]] by auto
  let ?t = "t\<lparr>kcore := settled (kcore t)\<rparr>"
  have c: "in_txn dev p {b} {a} ?t" "buf_of dev ?t b a" "0 < log_room ?t" "\<not> in_log (lstart (log ?t)) a" "1 \<le> outstanding (log ?t)"
    using t(2,3,6) av(2) assms(3,4) same_restD[OF t(7)] by simp_all
  obtain v where v: "thn (upd_data b (\<lambda>d. put d i (take m bs))) (log_write b) ?t = Ok ((), v)" "in_txn dev p {b} {a} v"
     "seen dev v = (seen dev t)(a := put (seen dev t a) i (take m bs))" "logged_blocks v = insert a (logged_blocks t)"
     "log_room v = log_room t - fresh t a" "same_rest ?t v" "avail v = avail t" "buf_of dev v b a"
    using txn_update[OF c(1) _ c(2) _ c(3-5), of "\<lambda>d. put d i (take m bs)"] t(3) by auto
  obtain u where u: "brelse b v = Ok ((), u)" "in_txn dev p {} {} u" "seen dev u = seen dev v" "logged_blocks u = logged_blocks v"
    "log_room u = log_room v" "same_rest v u" "avail u = avail v"
    using txn_brelse[OF v(2) _ v(8)] v(4) by auto
  have "same_rest t ?t" by (simp add: same_rest_def)
  then have "same_rest s u" using t(7) v(6) u(6) same_rest_trans by blast
  moreover have "room u = room s - fresh s a" using u(5,7) v(5,7) t(5,6,8) by (auto simp: room_def min_def)
  moreover have "bnd (bread dev a) (\<lambda>bp. bnd (either_copyin (FromKernel bs) m) (\<lambda>(r, cs).
       thn (upd_data bp (\<lambda>d. put d i cs)) (if r = -1 then thn (brelse bp) X else thn (seqs [log_write bp, brelse bp]) K))) s = K u"
    using t(1) kernel_copies(1)[OF t(2)] v(1) u(1) by (auto simp: kern_simps obind_eq_Ok)
  ultimately show ?thesis using u v t by (intro exI[of _ u]) simp
qed

text \<open>A turn of the loop in \<^verbatim>\<open>readi\<close>.\<close>

lemma block_out:
  fixes s :: "'z log_state_scheme"
  assumes "in_txn dev p {} {} s" "0 < avail s" "\<not> in_log (lstart (log s)) a"
  shows "\<exists>u. bnd (bread dev a) (\<lambda>bp. bnd (get_data bp) (\<lambda>d. bnd (either_copyout ToKernel (f d)) (\<lambda>r.
       if r = -1 then thn (brelse bp) X else thn (brelse bp) (K d)))) s = K (seen dev s a) u \<and>
     in_txn dev p {} {} u \<and> seen dev u = seen dev s \<and> logged_blocks u = logged_blocks s \<and> avail u = avail s \<and> log_room u = log_room s \<and> same_rest s u"
proof -
  obtain b t where t: "bread dev a s = Ok (b, t)" "in_txn dev p {b} {a} t" "buf_of dev t b a" "bdata (bufs t b) = seen dev s a" "seen dev t = seen dev s"
     "logged_blocks t = logged_blocks s" "log_room t = log_room s" "same_rest s t" "avail t = avail s - fresh s a"
    using txn_bread[OF assms(1) _ assms(2) home_not_start[OF assms(3)]] by auto
  let ?t = "t\<lparr>kcore := settled (kcore t)\<rparr>"
  have c: "in_txn dev p {b} {a} ?t" "buf_of dev ?t b a" using t(2,3) by simp_all
  obtain u where u: "brelse b ?t = Ok ((), u)" "in_txn dev p {} {} u" "seen dev u = seen dev t" "logged_blocks u = logged_blocks t"
    "log_room u = log_room t" "same_rest ?t u" "avail u = avail t + fresh t a"
    using txn_brelse[OF c(1) _ c(2)] by auto
  have "same_rest t ?t" by (simp add: same_rest_def)
  then have "same_rest s u" using t(8) u(6) same_rest_trans by blast
  moreover have "avail u = avail s" using u(7) t(6,9) assms(2) by auto
  ultimately show ?thesis using t u kernel_copies(2)[OF t(2)] by (intro exI[of _ u]) (simp add: kern_simps)
qed

section \<open>Bytes\<close>

definition fbyte :: "disk \<Rightarrow> inode \<Rightarrow> nat \<Rightarrow> uchar" where
  "fbyte D k i = fblock D k (i div BSIZE) ! (i mod BSIZE)"

text \<open>The number of blocks that \<open>l\<close> bytes from offset \<open>i\<close> touch.\<close>

definition touched :: "nat \<Rightarrow> nat \<Rightarrow> nat" where
  "touched i l = (if l = 0 then 0 else (i + l - 1) div BSIZE - i div BSIZE + 1)"

lemma touched_step:
  assumes "0 < l" "m = min l (BSIZE - i mod BSIZE)"
  shows "touched i l = touched (i + m) (l - m) + 1"
proof -
  let ?q = "i div 1024" and ?r = "i mod 1024"
  have i: "i = 1024 * ?q + ?r" "?r < 1024" by simp_all
  show ?thesis
  proof (cases "l \<le> 1024 - ?r")
    case True
    have "(i + l - 1) div 1024 = ?q"
    proof (rule div_nat_eqI)
      show "1024 * ?q \<le> i + l - 1" using i assms(1) by linarith
      have "l + ?r \<le> 1024" "1024 * Suc ?q = 1024 * ?q + 1024" using i(2) True by simp_all
      then show "i + l - 1 < 1024 * Suc ?q" using i(1) assms(1) by linarith
    qed
    moreover have "m = l" using True assms(2) by (simp add: BSIZE_def)
    ultimately show ?thesis using assms(1) by (simp add: touched_def BSIZE_def)
  next
    case False
    then have m: "m = 1024 - ?r" "m < l" using assms(2) by (simp_all add: BSIZE_def)
    have "m + ?r = 1024" "1024 * (?q + 1) = 1024 * ?q + 1024" using i(2) m(1) by simp_all
    then have e: "i + m = 1024 * (?q + 1)" using i(1) by linarith
    have "1024 * (?q + 1) \<le> i + l - 1" using e m(2) by linarith
    then have "?q + 1 \<le> (i + l - 1) div 1024" by (metis div_le_mono nonzero_mult_div_cancel_left zero_neq_numeral)
    moreover have "(i + m) div 1024 = ?q + 1" unfolding e by simp
    moreover have "i + m + (l - m) - 1 = i + l - 1" using m(2) by simp
    ultimately show ?thesis using m(2) by (simp add: touched_def BSIZE_def) linarith
  qed
qed

text \<open>A data block of the file is replaced.\<close>

lemma new_data:
  assumes "layout_ok z start D" "file_ok z start D k" "bn < MAXFILE" "ptr D k (pslot bn) = a" "a \<noteq> 0" "length v = BSIZE"
  defines "D' \<equiv> D(a := v)"
  shows "layout_ok z start D'" "file_ok z start D' k" "extends z D k D' k" "ptr D' k j = ptr D k j \<or> MAXFILE < j"
    "i < MAXFILE \<Longrightarrow> fblock D' k i = (if i = bn then v else fblock D k i)"
proof -
  note f = file_okD[OF assms(2)] and ps = pslot_range(1)[OF assms(3)] pslot_range(2)[of bn]
  have a: "a \<in> file_blocks D k" using ptr_block[OF ps(1)] assms(4,5) by blast
  have na: "a \<noteq> sb_bmapstart z" "a \<noteq> addrs k ! NDIRECT"
  proof -
    show "a \<noteq> sb_bmapstart z" using f(4)[OF a] by (simp add: meta_def)
    show "a \<noteq> addrs k ! NDIRECT" using f(6)[OF ps(1), of NDIRECT] ps(2) assms(4,5) by (auto simp: ptr_def MAXFILE_def)
  qed
  have p: "ptr D' k = ptr D k" using na(2) by (simp add: fun_eq_iff ptr_def D'_def)
  have b: "file_blocks D' k = file_blocks D k" by (simp add: file_blocks_def p)
  have u: "used D' z = used D z" using na(1) by (simp add: fun_eq_iff used_def D'_def)
  have e: "D' n = (if n = a then v else D n)" for n by (simp add: D'_def)
  show "layout_ok z start D'" using assms(1) na(1) by (simp add: layout_ok_def u e)
  show "file_ok z start D' k" using assms(2,6) by (auto simp: file_ok_def p b u e)
  show "extends z D k D' k" using a by (auto simp: extends_def p b u e)
  show "ptr D' k j = ptr D k j \<or> MAXFILE < j" by (simp add: p)
  show "fblock D' k i = (if i = bn then v else fblock D k i)" if "i < MAXFILE"
  proof (cases "i = bn")
    case True
    then show ?thesis using assms(4,5) by (simp add: fblock_def p e)
  next
    case False
    then have "pslot i \<noteq> pslot bn" by (auto simp: pslot_def split: if_splits)
    then have "ptr D k (pslot i) \<noteq> a" using f(6)[OF ps(1) pslot_range(1)[OF that]] assms(4,5) by auto
    then show ?thesis using False by (simp add: fblock_def p e)
  qed
qed

lemma fblock_length: "file_ok z start D k \<Longrightarrow> bn < MAXFILE \<Longrightarrow> length (fblock D k bn) = BSIZE"
  using file_okD(5) ptr_block[OF pslot_range(1)] by (fastforce simp: fblock_def)

text \<open>The bytes after \<open>cs\<close> has been put at offset \<open>i\<close>, inside one block.\<close>

lemma fbyte_put:
  assumes "file_ok z start D k" "i < MAXFILE * BSIZE" "i mod BSIZE + length cs \<le> BSIZE" "x < MAXFILE * BSIZE"
    and F: "\<And>b. b < MAXFILE \<Longrightarrow> fblock D' k' b = (if b = i div BSIZE then put (fblock D k b) (i mod BSIZE) cs else fblock D k b)"
  shows "fbyte D' k' x = (if i \<le> x \<and> x < i + length cs then cs ! (x - i) else fbyte D k x)"
proof -
  have b: "x div BSIZE < MAXFILE" "i div BSIZE < MAXFILE" using assms(2,4) by (simp_all add: less_mult_imp_div_less)
  have B: "0 < BSIZE" by (simp add: BSIZE_def)
  have xi: "x = x div BSIZE * BSIZE + x mod BSIZE" "i = i div BSIZE * BSIZE + i mod BSIZE" "x mod BSIZE < BSIZE" using B by simp_all
  show ?thesis
  proof (cases "x div BSIZE = i div BSIZE")
    case True
    have l: "length (fblock D k (x div BSIZE)) = BSIZE" by (rule fblock_length[OF assms(1) b(1)])
    have "i mod BSIZE \<le> x mod BSIZE \<longleftrightarrow> i \<le> x" "x mod BSIZE < i mod BSIZE + length cs \<longleftrightarrow> x < i + length cs" "x mod BSIZE - i mod BSIZE = x - i"
      using xi True by (metis add_le_cancel_left, metis add.assoc add_less_cancel_left, metis add_diff_cancel_left)
    then show ?thesis using F[OF b(1)] True l assms(3) xi(3) by (simp add: fbyte_def put_nth)
  next
    case False
    have "\<not> (i \<le> x \<and> x < i + length cs)"
    proof
      assume x: "i \<le> x \<and> x < i + length cs"
      moreover have "(i div BSIZE + 1) * BSIZE = i div BSIZE * BSIZE + BSIZE" by simp
      ultimately have "x < (i div BSIZE + 1) * BSIZE" using xi(2) assms(3) by linarith
      then have "x div BSIZE \<le> i div BSIZE" using less_mult_imp_div_less[of x "i div BSIZE + 1" BSIZE] by simp
      then show False using False x div_le_mono[of i x BSIZE] by simp
    qed
    then show ?thesis using F[OF b(1)] False by (auto simp: fbyte_def)
  qed
qed

section \<open>Writing\<close>

lemma chunk_eq: "tot < n \<Longrightarrow> unat (chunk off n tot) = min (unat n - unat tot) (BSIZE - unat off mod BSIZE)"
proof -
  assume a: "tot < n"
  have m: "unat (of_nat BSIZE - off mod of_nat BSIZE) = BSIZE - unat off mod BSIZE"
    by (simp add: BSIZE_def unat_sub_if_size unat_mod word_le_nat_alt)
  have d: "unat (n - tot) = unat n - unat tot" using a by (simp add: unat_sub_if_size word_less_nat_alt)
  show ?thesis unfolding chunk_def min_def word_le_nat_alt m d by (simp add: m d)
qed

lemma offsets: "unat (off div of_nat BSIZE :: uint32) = unat off div BSIZE" "unat (off mod of_nat BSIZE :: uint32) = unat off mod BSIZE"
  by (simp_all add: BSIZE_def unat_div unat_mod)

text \<open>One turn: \<^verbatim>\<open>bmap\<close> has found block \<open>a\<close>, and the bytes \<open>cs\<close> go there.\<close>

lemma write_turn:
  fixes s :: "'z fs_state_scheme"
  assumes "fs_ready dev p ip s" "i < MAXFILE * BSIZE" "ptr (seen dev s) (inodes s ip) (pslot (i div BSIZE)) = a" "a \<noteq> 0"
    "need s ip + (c + fresh s a) \<le> room s" "1 \<le> c" "i mod BSIZE + length (take m bs) \<le> BSIZE"
  shows "\<exists>u. bnd (bread dev a) (\<lambda>bp. bnd (either_copyin (FromKernel bs) m) (\<lambda>(r, cs).
       thn (upd_data bp (\<lambda>d. put d (i mod BSIZE) cs)) (if r = -1 then thn (brelse bp) X else thn (seqs [log_write bp, brelse bp]) K))) s = K u \<and>
     fs_ready dev p ip u \<and> fs_step dev ip s u \<and> need u ip + c \<le> room u \<and> ptr (seen dev u) (inodes u ip) (pslot (i div BSIZE)) \<noteq> 0 \<and>
     (\<forall>x < MAXFILE * BSIZE. fbyte (seen dev u) (inodes u ip) x =
        (if i \<le> x \<and> x < i + length (take m bs) then take m bs ! (x - i) else fbyte (seen dev s) (inodes s ip) x))"
proof -
  let ?k = "inodes s ip" and ?D = "seen dev s" and ?b = "i div BSIZE" and ?cs = "take m bs"
  note d = fs_readyD[OF assms(1)] and f = file_okD[OF fs_readyD(4)[OF assms(1)]]
  have b: "?b < MAXFILE" using assms(2) by (simp add: less_mult_imp_div_less)
  have a: "a \<in> file_blocks ?D ?k" using ptr_block[OF pslot_range(1)[OF b]] assms(3,4) by blast
  have na: "a \<noteq> sb_bmapstart (sb s)" "\<not> in_log (lstart (log s)) a" "length (?D a) = BSIZE" using f(4,5)[OF a] by (auto simp: meta_def)
  have rm: "0 < room s" using assms(5,6) by simp
  obtain u where u: "bnd (bread dev a) (\<lambda>bp. bnd (either_copyin (FromKernel bs) m) (\<lambda>(r, cs).
       thn (upd_data bp (\<lambda>d. put d (i mod BSIZE) cs)) (if r = -1 then thn (brelse bp) X else thn (seqs [log_write bp, brelse bp]) K))) s = K u"
     "in_txn dev p {} {} u" "seen dev u = ?D(a := put (?D a) (i mod BSIZE) ?cs)" "logged_blocks u = insert a (logged_blocks s)"
     "room u = room s - fresh s a" "same_rest s u"
    using block_in[OF d(1) rm na(2) d(2), where bs = bs and m = m and i = "i mod BSIZE" and X = X and K = K] by blast
  note mu = more_fs[OF same_restD(4)[OF u(6)]] and cu = same_restD[OF u(6)]
  have lv: "length (put (?D a) (i mod BSIZE) ?cs) = BSIZE" using na(3) assms(7) by simp
  note n = new_data[OF d(3,4) b assms(3,4) lv, folded u(3)]
  have "a \<noteq> addrs ?k ! NDIRECT"
    using f(6)[OF pslot_range(1)[OF b], of NDIRECT] pslot_range(2)[of ?b] assms(3,4) by (auto simp: ptr_def MAXFILE_def)
  then have "need u ip = need s ip" using u(4) mu na(1) by (simp add: need_def)
  then have "need u ip + c \<le> room u" using u(5) assms(5) by simp
  moreover have "fs_ready dev p ip u" using n(1,2) u(2) d(2,5) mu cu by (simp add: fs_ready_def fs_at_def)
  moreover have "fs_step dev ip s u" using n(3) u(6) mu by (simp add: fs_step_def same_rest_def)
  moreover have "ptr (seen dev u) (inodes u ip) (pslot ?b) \<noteq> 0" using n(4)[of "pslot ?b"] pslot_range(1)[OF b] assms(3,4) mu by auto
  moreover have "fbyte (seen dev u) (inodes u ip) x = (if i \<le> x \<and> x < i + length ?cs then ?cs ! (x - i) else fbyte ?D ?k x)" if "x < MAXFILE * BSIZE" for x
  proof (rule fbyte_put[OF d(4) assms(2,7) that])
    fix b' assume "b' < MAXFILE"
    from n(5)[OF this] show "fblock (seen dev u) (inodes u ip) b' = (if b' = ?b then put (fblock ?D ?k b') (i mod BSIZE) ?cs else fblock ?D ?k b')"
      using assms(3,4) mu by (simp add: fblock_def)
  qed
  ultimately show ?thesis using u(1) by blast
qed

text \<open>What \<open>l\<close> bytes of \<open>bs\<close>, written at offset \<open>i\<close>, have made of a file.\<close>

definition written :: "uint32 \<Rightarrow> nat \<Rightarrow> nat \<Rightarrow> uchar list \<Rightarrow> nat \<Rightarrow> 'z fs_state_scheme \<Rightarrow> 'z fs_state_scheme \<Rightarrow> bool" where
  "written dev ip i bs l s t \<longleftrightarrow>
     (\<forall>x < MAXFILE * BSIZE. fbyte (seen dev t) (inodes t ip) x =
        (if i \<le> x \<and> x < i + l then bs ! (x - i) else fbyte (seen dev s) (inodes s ip) x)) \<and>
     (\<forall>x. i \<le> x \<longrightarrow> x < i + l \<longrightarrow> ptr (seen dev t) (inodes t ip) (pslot (x div BSIZE)) \<noteq> 0)"

lemma written_none: "same_content (seen dev s) (inodes s ip) (seen dev t) (inodes t ip) \<Longrightarrow> written dev ip i bs 0 s t"
  by (auto simp: written_def same_content_def fbyte_def less_mult_imp_div_less)

lemma written_more:
  assumes u: "\<And>x. x < MAXFILE * BSIZE \<Longrightarrow> fbyte (seen dev u) (inodes u ip) x = (if i \<le> x \<and> x < i + m then bs ! (x - i) else fbyte (seen dev s) (inodes s ip) x)"
    and p: "ptr (seen dev u) (inodes u ip) (pslot (i div BSIZE)) \<noteq> 0" "i mod BSIZE + m \<le> BSIZE" "i < MAXFILE * BSIZE"
    and w: "written dev ip (i + m) (drop m bs) l u t" "fs_step dev ip u t"
    and m: "m \<le> length bs"
  shows "written dev ip i bs (m + l) s t"
proof -
  have "ptr (seen dev t) (inodes t ip) (pslot (x div BSIZE)) \<noteq> 0" if "i \<le> x" "x < i + m" for x
  proof -
    have "x div BSIZE = i div BSIZE"
    proof (rule div_nat_eqI)
      have e: "i = BSIZE * (i div BSIZE) + i mod BSIZE" "BSIZE * Suc (i div BSIZE) = BSIZE * (i div BSIZE) + BSIZE" by simp_all
      show "BSIZE * (i div BSIZE) \<le> x" "x < BSIZE * Suc (i div BSIZE)" using e that p(2) by linarith+
    qed
    moreover have "pslot (i div BSIZE) \<le> MAXFILE" using p(3) by (intro pslot_range) (simp add: less_mult_imp_div_less)
    ultimately show ?thesis using p(1) w(2) by (auto simp: fs_step_def extends_def)
  qed
  moreover have "ptr (seen dev t) (inodes t ip) (pslot (x div BSIZE)) \<noteq> 0" if "i + m \<le> x" "x < i + m + l" for x
    using that w(1) by (simp add: written_def)
  moreover have "fbyte (seen dev t) (inodes t ip) x = (if i \<le> x \<and> x < i + (m + l) then bs ! (x - i) else fbyte (seen dev s) (inodes s ip) x)"
    if "x < MAXFILE * BSIZE" for x
    using that w(1) u[OF that] m by (auto simp: written_def)
  ultimately show ?thesis unfolding written_def by (metis add.assoc linorder_le_cases linorder_not_less)
qed

lemma writei_loop_spec:
  fixes s :: "'z fs_state_scheme"
  assumes "fs_ready dev p ip s" "tot \<le> n" "length bs = unat n - unat tot" "unat off + length bs \<le> MAXFILE * BSIZE"
    "need s ip + (touched (unat off) (length bs) + 1) \<le> room s"
  shows "\<exists>l t. writei_loop ip (FromKernel bs) off n tot s = Ok ((tot + of_nat l, off + of_nat l), t) \<and> l \<le> length bs \<and> fs_ready dev p ip t \<and>
     fs_step dev ip s t \<and> need t ip + 1 \<le> room t \<and> (l < length bs \<longrightarrow> disk_full dev t) \<and> written dev ip (unat off) bs l s t"
  using assms
proof (induction "length bs" arbitrary: s tot off bs rule: less_induct)
  case less
  show ?case
  proof (cases "tot < n")
    case False
    then have "length bs = 0" using less.prems(2,3) by (simp add: word_less_nat_alt word_le_nat_alt)
    moreover have "written dev ip (unat off) bs 0 s s" by (rule written_none) (simp add: same_content_def)
    ultimately show ?thesis using less.prems(1,5) False fs_step_refl[of dev ip s]
      by (intro exI[of _ 0] exI[of _ s]) (subst writei_loop.simps, simp add: ret_apply touched_def)
  next
    case True
    let ?m = "chunk off n tot" let ?l = "unat ?m" and ?i = "unat off"
    have pos: "0 < length bs" using True less.prems(3) by (simp add: word_less_nat_alt)
    have l: "?l = min (length bs) (BSIZE - ?i mod BSIZE)" "0 < ?l" using chunk_eq[OF True] chunk_bounds(1)[OF True] less.prems(3) by simp_all
    have lb: "length (take ?l bs) = ?l" "?i mod BSIZE + ?l \<le> BSIZE" "?l \<le> length bs" using l(1) by (auto simp: BSIZE_def)
    have i: "?i < MAXFILE * BSIZE" using less.prems(4) pos by linarith
    then have ib: "?i div BSIZE < MAXFILE" by (rule less_mult_imp_div_less)
    have M: "MAXFILE * BSIZE < 2 ^ 32" by (simp add: MAXFILE_def NDIRECT_def NINDIRECT_def BSIZE_def)
    have om: "unat (off + ?m) = ?i + ?l" using less.prems(4) lb(3) M by (simp add: unat_word_ariths(1))
    note tm = chunk_bounds(2,3)[OF True, of off]
    let ?c = "touched ?i (length bs) + 1"
    have tc: "touched ?i (length bs) = touched (?i + ?l) (length bs - ?l) + 1" using touched_step[OF pos l(1)] .
    have bn: "unat (off div of_nat BSIZE) < MAXFILE" using ib by (simp only: offsets)
    have c2: "2 \<le> ?c" using tc by simp
    obtain a t where t: "bmap ip (off div of_nat BSIZE) s = Ok (a, t)" "fs_ready dev p ip t" "fs_step dev ip s t"
       "same_content (seen dev s) (inodes s ip) (seen dev t) (inodes t ip)"
       "if a = 0 then disk_full dev t \<and> need t ip + ?c \<le> room t
        else ptr (seen dev t) (inodes t ip) (pslot (?i div BSIZE)) = a \<and> need t ip + (?c - 1 + fresh t a) \<le> room t"
      using bmap_spec[OF less.prems(1) bn less.prems(5) c2] unfolding offsets by blast
    show ?thesis
    proof (cases "a = 0")
      case z: True
      then show ?thesis using t True written_none[OF t(4)]
        by (intro exI[of _ 0] exI[of _ t]) (subst writei_loop.simps, simp add: bnd_apply ret_apply)
    next
      case nz: False
      have a: "ptr (seen dev t) (inodes t ip) (pslot (?i div BSIZE)) = a" "need t ip + (?c - 1 + fresh t a) \<le> room t" using t(5) nz by simp_all
      let ?K = "writei_loop ip (FromKernel (drop ?l bs)) (off + ?m) n (tot + ?m)"
      have fit: "?i mod BSIZE + length (take ?l bs) \<le> BSIZE" "1 \<le> ?c - 1" using lb(1,2) c2 by simp_all
      obtain u where u: "bnd (bread dev a) (\<lambda>bp. bnd (either_copyin (FromKernel bs) ?l) (\<lambda>(r, cs).
           thn (upd_data bp (\<lambda>d. put d (?i mod BSIZE) cs)) (if r = -1 then thn (brelse bp) (ret (tot, off)) else thn (seqs [log_write bp, brelse bp]) ?K))) t = ?K u"
         "fs_ready dev p ip u" "fs_step dev ip t u" "need u ip + (?c - 1) \<le> room u" "ptr (seen dev u) (inodes u ip) (pslot (?i div BSIZE)) \<noteq> 0"
         "\<forall>x < MAXFILE * BSIZE. fbyte (seen dev u) (inodes u ip) x =
            (if ?i \<le> x \<and> x < ?i + length (take ?l bs) then take ?l bs ! (x - ?i) else fbyte (seen dev t) (inodes t ip) x)"
        using write_turn[OF t(2) i a(1) nz a(2) fit(2,1), where X = "ret (tot, off)" and K = ?K] by blast
      have run: "writei_loop ip (FromKernel bs) off n tot s = ?K u"
        unfolding u(1)[symmetric] using True t(1) nz fs_readyD(5)[OF t(2)]
        by (subst writei_loop.simps) (simp add: bnd_apply gets_apply Let_def offsets src_advance_def split_def cong: if_cong)
      have pre: "length (drop ?l bs) < length bs" "tot + ?m \<le> n" "length (drop ?l bs) = unat n - unat (tot + ?m)"
          "unat (off + ?m) + length (drop ?l bs) \<le> MAXFILE * BSIZE" "need u ip + (touched (unat (off + ?m)) (length (drop ?l bs)) + 1) \<le> room u"
        using l(2) pos tm less.prems(3,4) lb(3) u(4) tc by (simp_all add: word_le_nat_alt om)
      obtain l' t' where v: "?K u = Ok ((tot + ?m + of_nat l', off + ?m + of_nat l'), t')" "l' \<le> length (drop ?l bs)" "fs_ready dev p ip t'" "fs_step dev ip u t'"
         "need t' ip + 1 \<le> room t'" "l' < length (drop ?l bs) \<longrightarrow> disk_full dev t'" "written dev ip (?i + ?l) (drop ?l bs) l' u t'"
        using less.hyps[OF pre(1) u(2) pre(2-5)] unfolding om by blast
      have "fbyte (seen dev t) (inodes t ip) x = fbyte (seen dev s) (inodes s ip) x" if "x < MAXFILE * BSIZE" for x
        using that t(4) by (simp add: same_content_def fbyte_def less_mult_imp_div_less)
      then have "written dev ip ?i bs (?l + l') s t'"
        using u(6) lb(1) by (intro written_more[OF _ u(5) lb(2) i v(7,4) lb(3)]) auto
      moreover have "fs_step dev ip s t'" using t(3) u(3) v(4) fs_step_trans by blast
      moreover have "tot + ?m + of_nat l' = tot + of_nat (?l + l')" "off + ?m + of_nat l' = off + of_nat (?l + l')" by (simp_all add: add.assoc)
      ultimately show ?thesis using run v lb(3) by (intro exI[of _ "?l + l'"] exI[of _ t']) auto
    qed
  qed
qed

end
