(* ===== verification/Fs_File.thy ===== *)
theory Fs_File
  imports Fs_Write
begin

text \<open>
  Reading a file (\<^verbatim>\<open>readi\<close>), the inode on disk (\<^verbatim>\<open>iupdate\<close>), and the contract of \<^verbatim>\<open>writei\<close> and \<^verbatim>\<open>readi\<close> together: a file is an array of bytes.
\<close>

section \<open>Reading\<close>

lemma slice_fbytes:
  assumes "length (fblock D k (i div BSIZE)) = BSIZE" "i mod BSIZE + m \<le> BSIZE"
  shows "slice (fblock D k (i div BSIZE)) (i mod BSIZE) m = map (fbyte D k) [i..<i + m]"
proof (rule nth_equalityI)
  show "length (slice (fblock D k (i div BSIZE)) (i mod BSIZE) m) = length (map (fbyte D k) [i..<i + m])"
    using assms by (simp add: slice_def)
  fix j assume "j < length (slice (fblock D k (i div BSIZE)) (i mod BSIZE) m)"
  then have j: "j < m" by (simp add: slice_def)
  have B: "0 < BSIZE" by (simp add: BSIZE_def)
  have lt: "i mod BSIZE + j < BSIZE" using j assms(2) by simp
  have "i + j = i div BSIZE * BSIZE + (i mod BSIZE + j)" by simp
  then have "(i + j) div BSIZE = i div BSIZE" "(i + j) mod BSIZE = i mod BSIZE + j"
    using lt by (metis add.commute div_less div_mult_self3 add.right_neutral B less_numeral_extra(3), metis mod_less mod_mult_self3)
  then show "slice (fblock D k (i div BSIZE)) (i mod BSIZE) m ! j = map (fbyte D k) [i..<i + m] ! j"
    using j assms by (simp add: slice_def fbyte_def)
qed

lemma readi_loop_spec:
  fixes s :: "'z fs_state_scheme"
  assumes "fs_at dev p ip s" "tot \<le> n" "unat off + (unat n - unat tot) \<le> MAXFILE * BSIZE" "0 < avail s"
    "\<And>x. unat off \<le> x \<Longrightarrow> x < unat off + (unat n - unat tot) \<Longrightarrow> ptr (seen dev s) (inodes s ip) (pslot (x div BSIZE)) \<noteq> 0"
  shows "\<exists>t. readi_loop ip ToKernel off n tot acc s =
       Ok ((n, acc @ map (fbyte (seen dev s) (inodes s ip)) [unat off..<unat off + (unat n - unat tot)]), t) \<and>
     in_txn dev p {} {} t \<and> same_rest s t \<and> seen dev t = seen dev s \<and> avail t = avail s"
  using assms
proof (induction "unat n - unat tot" arbitrary: s tot off acc rule: less_induct)
  case less
  let ?D = "seen dev s" and ?k = "inodes s ip" and ?i = "unat off" and ?r = "unat n - unat tot"
  have f: "file_ok (sb s) (lstart (log s)) ?D ?k" "in_txn dev p {} {} s" "idev ?k = dev" using less.prems(1) by (simp_all add: fs_at_def)
  show ?case
  proof (cases "tot < n")
    case False
    then have "n = tot" using less.prems(2) by simp
    then show ?thesis using f(2) by (intro exI[of _ s]) (subst readi_loop.simps, simp add: ret_apply)
  next
    case True
    let ?m = "chunk off n tot" let ?l = "unat ?m"
    have pos: "0 < ?r" using True by (simp add: word_less_nat_alt)
    have l: "?l = min ?r (BSIZE - ?i mod BSIZE)" "0 < ?l" using chunk_eq[OF True] chunk_bounds(1)[OF True] by simp_all
    have lb: "?i mod BSIZE + ?l \<le> BSIZE" "?l \<le> ?r" using l(1) by (auto simp: BSIZE_def)
    have i: "?i < MAXFILE * BSIZE" using less.prems(3) pos by linarith
    then have ib: "?i div BSIZE < MAXFILE" by (rule less_mult_imp_div_less)
    have M: "MAXFILE * BSIZE < 2 ^ 32" by (simp add: MAXFILE_def NDIRECT_def NINDIRECT_def BSIZE_def)
    have om: "unat (off + ?m) = ?i + ?l" using less.prems(3) lb(2) M by (simp add: unat_word_ariths(1))
    note tm = chunk_bounds(2,3)[OF True, of off]
    let ?a = "ptr ?D ?k (pslot (?i div BSIZE))"
    have a: "?a \<noteq> 0" using less.prems(5)[of ?i] pos by simp
    have bn: "unat (off div of_nat BSIZE) < MAXFILE" "ptr ?D ?k (pslot (unat (off div of_nat BSIZE))) = ?a" using ib by (simp_all only: offsets)
    obtain t where t: "bmap ip (off div of_nat BSIZE) s = Ok (?a, t)" "in_txn dev p {} {} t" "same_rest s t" "seen dev t = ?D" "avail t = avail s"
      using bmap_there[OF less.prems(1) bn a less.prems(4)] by blast
    note mt = more_fs[OF same_restD(4)[OF t(3)]]
    have ab: "?a \<in> file_blocks ?D ?k" using ptr_block[OF pslot_range(1)[OF ib]] a by blast
    have na: "\<not> in_log (lstart (log t)) ?a" "0 < avail t"
      using file_okD(4)[OF f(1) ab] same_restD(1)[OF t(3)] less.prems(4) t(5) by (auto simp: meta_def)
    let ?f = "\<lambda>d. slice d (?i mod BSIZE) ?l"
    let ?K = "\<lambda>d. readi_loop ip ToKernel (off + ?m) n (tot + ?m) (acc @ ?f d)"
    obtain u where u: "bnd (bread dev ?a) (\<lambda>bp. bnd (get_data bp) (\<lambda>d. bnd (either_copyout ToKernel (?f d)) (\<lambda>r.
         if r = -1 then thn (brelse bp) (ret (-1, acc)) else thn (brelse bp) (?K d)))) t = ?K (?D ?a) u"
       "in_txn dev p {} {} u" "seen dev u = ?D" "avail u = avail s" "same_rest t u"
      using block_out[OF t(2) na(2,1), where f = ?f and X = "ret (-1, acc)" and K = ?K] t(4,5) by auto
    have su: "same_rest s u" using t(3) u(5) by (rule same_rest_trans)
    note mu = more_fs[OF same_restD(4)[OF su]]
    have bs: "?f (?D ?a) = map (fbyte ?D ?k) [?i..<?i + ?l]"
      using slice_fbytes[OF fblock_length[OF f(1) ib] lb(1)] a by (simp add: fblock_def)
    have run: "readi_loop ip ToKernel off n tot acc s = ?K (?D ?a) u"
      unfolding u(1)[symmetric] using True t(1) a f(3) mt
      by (subst readi_loop.simps) (simp add: bnd_apply gets_apply Let_def offsets dst_advance_def split_def cong: if_cong)
    have pre: "unat n - unat (tot + ?m) < ?r" "tot + ?m \<le> n" "unat (off + ?m) + (unat n - unat (tot + ?m)) \<le> MAXFILE * BSIZE" "0 < avail u"
      using l(2) pos tm less.prems(3,4) lb(2) u(4) by (simp_all add: word_le_nat_alt om)
    have ua: "fs_at dev p ip u" by (rule fs_at_same[OF less.prems(1) u(2) su u(3)])
    have pm: "ptr (seen dev u) (inodes u ip) (pslot (x div BSIZE)) \<noteq> 0" if "unat (off + ?m) \<le> x" "x < unat (off + ?m) + (unat n - unat (tot + ?m))" for x
      using less.prems(5)[of x] that om tm lb(2) mu u(3) by simp
    obtain v where v: "?K (?D ?a) u = Ok ((n, (acc @ ?f (?D ?a)) @ map (fbyte (seen dev u) (inodes u ip))
         [unat (off + ?m)..<unat (off + ?m) + (unat n - unat (tot + ?m))]), v)" "in_txn dev p {} {} v" "same_rest u v" "seen dev v = seen dev u" "avail v = avail u"
      using less.hyps[OF pre(1) ua pre(2-4) pm, of "acc @ ?f (?D ?a)"] by blast
    have e: "?i + ?l + (?r - ?l) = ?i + ?r" using lb(2) by linarith
    have "[?i..<?i + ?l] @ [?i + ?l..<?i + ?l + (?r - ?l)] = [?i..<?i + ?r]" using upt_add_eq_append[of ?i "?i + ?l" "?r - ?l"] unfolding e by simp
    then have "(acc @ ?f (?D ?a)) @ map (fbyte (seen dev u) (inodes u ip)) [unat (off + ?m)..<unat (off + ?m) + (unat n - unat (tot + ?m))] =
        acc @ map (fbyte ?D ?k) [?i..<?i + ?r]" unfolding bs om tm using u(3) mu by (metis append.assoc diff_diff_left map_append)
    then show ?thesis using run v su u(3,4) same_rest_trans by (intro exI[of _ v]) auto
  qed
qed

section \<open>The inode on disk\<close>

lemma new_meta:
  assumes "layout_ok z start D" "file_ok z start D k" "meta z start a" "a \<noteq> sb_bmapstart z"
  shows "layout_ok z start (D(a := v))" "file_ok z start (D(a := v)) k" "ptr (D(a := v)) k = ptr D k" "used (D(a := v)) z = used D z"
    "b < MAXFILE \<Longrightarrow> fblock (D(a := v)) k b = fblock D k b"
proof -
  have nb: "a \<notin> file_blocks D k" using file_okD(4)[OF assms(2)] assms(3) by blast
  have "addrs k ! NDIRECT \<noteq> 0 \<Longrightarrow> addrs k ! NDIRECT \<noteq> a"
    using ptr_block[of NDIRECT D k] nb by (auto simp: ptr_def MAXFILE_def)
  then show p: "ptr (D(a := v)) k = ptr D k" by (auto simp: fun_eq_iff ptr_def)
  show u: "used (D(a := v)) z = used D z" using assms(4) by (auto simp: fun_eq_iff used_def)
  have b: "file_blocks (D(a := v)) k = file_blocks D k" by (simp only: file_blocks_def p)
  show "layout_ok z start (D(a := v))" using assms(1,4) by (simp only: layout_ok_def u) simp
  have "(D(a := v)) n = D n" if "n \<in> file_blocks D k" for n using that nb by auto
  then show "file_ok z start (D(a := v)) k" using assms(2) unfolding file_ok_def p u b by metis
  show "fblock (D(a := v)) k b = fblock D k b" if "b < MAXFILE"
    using ptr_block[OF pslot_range(1)[OF that], of D k] nb unfolding fblock_def p by auto
qed

lemma iupdate_spec:
  fixes s :: "'z fs_state_scheme"
  assumes "fs_ready dev p ip s" "unat (inum (inodes s ip)) < unat (sb_ninodes (sb s))" "0 < room s"
  defines "a \<equiv> IBLOCK (inum (inodes s ip)) (sb s)"
  shows "\<exists>t. iupdate ip s = Ok ((), t) \<and> fs_ready dev p ip t \<and> same_rest s t \<and>
     seen dev t = (seen dev s)(a := put (seen dev s a) (dinode_off (inum (inodes s ip))) (dinode_bytes (dinode_of (inodes s ip))))"
proof -
  let ?k = "inodes s ip"
  note d = fs_readyD[OF assms(1)]
  have m: "meta (sb s) (lstart (log s)) a" "a \<noteq> sb_bmapstart (sb s)" "\<not> in_log (lstart (log s)) a"
    using assms(2) d(3) by (auto simp: meta_def a_def layout_ok_def)
  have r: "a \<notin> logged_blocks s \<Longrightarrow> 0 < avail s" "0 < log_room s" using assms(3) by (auto simp: room_def)
  obtain b t u where u: "bread dev a s = Ok (b, t)"
     "seqs [upd_data b (\<lambda>d. put d (dinode_off (inum ?k)) (dinode_bytes (dinode_of ?k))), log_write b, brelse b] t = Ok ((), u)" "in_txn dev p {} {} u"
     "seen dev u = (seen dev s)(a := put (seen dev s a) (dinode_off (inum ?k)) (dinode_bytes (dinode_of ?k)))" "same_rest s u"
    using txn_change[OF d(1) _ r m(3) d(2), of "\<lambda>d. put d (dinode_off (inum ?k)) (dinode_bytes (dinode_of ?k))"] by auto
  note mu = more_fs[OF same_restD(4)[OF u(5)]] and cu = same_restD[OF u(5)]
  have "iupdate ip s = Ok ((), u)" using u(1,2) d(5) by (simp add: iupdate_def bnd_apply gets_apply a_def)
  moreover have "fs_ready dev p ip u"
    using new_meta(1,2)[OF d(3,4) m(1,2), folded u(4)] u(3) d(2,5) mu cu by (simp add: fs_ready_def fs_at_def u(4))
  ultimately show ?thesis using u(4,5) by blast
qed

section \<open>Whole calls\<close>

lemma size_only [simp]:
  "ptr D (k\<lparr>isize := x\<rparr>) = ptr D k" "file_blocks D (k\<lparr>isize := x\<rparr>) = file_blocks D k" "file_ok z start D (k\<lparr>isize := x\<rparr>) = file_ok z start D k"
  "fblock D (k\<lparr>isize := x\<rparr>) = fblock D k" "fbyte D (k\<lparr>isize := x\<rparr>) = fbyte D k"
proof -
  show p: "ptr D (k\<lparr>isize := x\<rparr>) = ptr D k" by (simp add: fun_eq_iff ptr_def)
  show f: "file_blocks D (k\<lparr>isize := x\<rparr>) = file_blocks D k" "fblock D (k\<lparr>isize := x\<rparr>) = fblock D k" by (simp_all add: fun_eq_iff file_blocks_def fblock_def p)
  show "file_ok z start D (k\<lparr>isize := x\<rparr>) = file_ok z start D k" "fbyte D (k\<lparr>isize := x\<rparr>) = fbyte D k"
    by (simp_all add: fun_eq_iff file_ok_def fbyte_def p f)
qed

lemma small_word: "n < 2 ^ 31 \<Longrightarrow> unat (of_nat n :: uint32) = n \<and> sint (of_nat n :: uint32) = int n"
  by (simp add: unat_of_nat signed_of_nat signed_take_bit_int_eq_self)

lemma readi_spec:
  fixes s :: "'z fs_state_scheme"
  assumes "fs_at dev p ip s" "unat off + r \<le> unat (isize (inodes s ip))" "unat off + r \<le> MAXFILE * BSIZE" "0 < avail s"
    "\<And>x. unat off \<le> x \<Longrightarrow> x < unat off + r \<Longrightarrow> ptr (seen dev s) (inodes s ip) (pslot (x div BSIZE)) \<noteq> 0"
  shows "\<exists>t. readi ip ToKernel off (of_nat r) s = Ok ((int r, map (fbyte (seen dev s) (inodes s ip)) [unat off..<unat off + r]), t) \<and> seen dev t = seen dev s"
proof -
  have M: "MAXFILE * BSIZE < 2 ^ 31" by (simp add: MAXFILE_def NDIRECT_def NINDIRECT_def BSIZE_def)
  let ?n = "of_nat r :: uint32"
  have n: "unat ?n = r" "sint ?n = int r" using small_word[of r] assms(3) M by simp_all
  have o: "unat (off + ?n) = unat off + r" using n(1) assms(3) M by (simp add: unat_word_ariths(1))
  obtain t where "readi_loop ip ToKernel off ?n 0 [] s = Ok ((?n, [] @ map (fbyte (seen dev s) (inodes s ip)) [unat off..<unat off + (unat ?n - unat (0::uint32))]), t)"
     "seen dev t = seen dev s" using readi_loop_spec[OF assms(1), of 0 ?n off "[]"] assms(3-5) n(1) by auto
  moreover have "\<not> off > isize (inodes s ip)" "\<not> off + ?n < off" "\<not> off + ?n > isize (inodes s ip)"
    using assms(2) o by (simp_all add: word_less_nat_alt)
  ultimately show ?thesis using n by (simp add: readi_def bnd_apply gets_apply ret_apply)
qed

lemma writei_spec:
  fixes s :: "'z fs_state_scheme" and off :: uint32 and bs :: "uchar list" and ip :: nat
  defines "k \<equiv> inodes s ip" and "n \<equiv> length bs"
  defines "a \<equiv> IBLOCK (inum k) (sb s)"
  assumes R: "fs_ready dev p ip s" and i: "unat (inum k) < unat (sb_ninodes (sb s))" "a < sb_size (sb s)"
    and o: "off \<le> isize k" "unat off + n \<le> MAXFILE * BSIZE" and r: "need s ip + (touched (unat off) n + 1) \<le> room s"
  shows "\<exists>l t. writei ip (FromKernel bs) off (of_nat n) s = Ok (int l, t) \<and> l \<le> n \<and> (l < n \<longrightarrow> disk_full dev t) \<and> fs_ready dev p ip t \<and> disk t = disk s \<and>
     inodes t ip = k\<lparr>isize := of_nat (max (unat (isize k)) (unat off + l)), addrs := addrs (inodes t ip)\<rparr> \<and> written dev ip (unat off) bs l s t \<and>
     seen dev t a = put (seen dev s a) (dinode_off (inum k)) (dinode_bytes (dinode_of (inodes t ip))) \<and>
     (\<forall>m. used (seen dev s) (sb s) m \<longrightarrow> m \<notin> {sb_bmapstart (sb s), a} \<union> file_blocks (seen dev s) k \<longrightarrow> seen dev t m = seen dev s m)"
proof -
  note d = fs_readyD[OF R]
  have M: "MAXFILE * BSIZE < 2 ^ 31" by (simp add: MAXFILE_def NDIRECT_def NINDIRECT_def BSIZE_def)
  let ?n = "of_nat n :: uint32"
  have n: "unat ?n = n" using small_word[of n] o(2) M by simp
  have on: "unat (off + ?n) = unat off + n" using n o(2) M by (simp add: unat_word_ariths(1))
  have pre: "0 \<le> ?n" "n = unat ?n - unat (0 :: uint32)" using n by simp_all
  obtain l t where t: "writei_loop ip (FromKernel bs) off ?n 0 s = Ok ((of_nat l, off + of_nat l), t)" "l \<le> n" "fs_ready dev p ip t"
     "fs_step dev ip s t" "need t ip + 1 \<le> room t" "l < n \<longrightarrow> disk_full dev t" "written dev ip (unat off) bs l s t"
    using writei_loop_spec[OF R pre[unfolded n_def] o(2)[unfolded n_def] r[unfolded n_def]] unfolding n_def[symmetric] by auto
  have ol: "unat (off + of_nat l) = unat off + l" "sint (of_nat l :: uint32) = int l"
    using small_word[of l] t(2) o(2) M by (simp_all add: unat_word_ariths(1))
  let ?k = "inodes t ip" and ?z = "of_nat (max (unat (isize k)) (unat off + l)) :: uint32"
  have st: "sb t = sb s" "disk t = disk s" "lstart (log t) = lstart (log s)" and ex: "extends (sb s) (seen dev s) k (seen dev t) ?k"
    using t(4) by (simp_all add: fs_step_def log_config_def k_def)
  then have "\<exists>A. ?k = k\<lparr>addrs := A\<rparr>" unfolding extends_def by blast
  then have ks: "isize ?k = isize k" "inum ?k = inum k" "?k\<lparr>isize := z\<rparr> = k\<lparr>isize := z, addrs := addrs ?k\<rparr>" for z by auto
  have zs: "(if off + of_nat l > isize ?k then ?k\<lparr>isize := off + of_nat l\<rparr> else ?k) = ?k\<lparr>isize := ?z\<rparr>"
    using ol(1) ks(1) by (auto simp: word_less_nat_alt max_def)
  let ?t = "t\<lparr>inodes := (inodes t)(ip := ?k\<lparr>isize := ?z\<rparr>)\<rparr>"
  have rt: "fs_ready dev p ip ?t" "0 < room ?t" using t(3,5) by (simp_all add: fs_ready_def fs_at_def)
  obtain u where u: "iupdate ip ?t = Ok ((), u)" "fs_ready dev p ip u" "same_rest ?t u"
     "seen dev u = (seen dev t)(a := put (seen dev t a) (dinode_off (inum k)) (dinode_bytes (dinode_of (?k\<lparr>isize := ?z\<rparr>))))"
    using iupdate_spec[OF rt(1) _ rt(2)] i ks(1,2) st(1) by (auto simp: a_def)
  note mu = more_fs[OF same_restD(4)[OF u(3)]] same_restD(1-3)[OF u(3)]
  have ma: "meta (sb s) (lstart (log s)) a" "a \<noteq> sb_bmapstart (sb s)" using i(1) d(3) by (auto simp: meta_def a_def layout_ok_def)
  have nf: "a \<notin> file_blocks (seen dev s) k" "used (seen dev s) (sb s) a" using file_okD(4)[OF d(4)] ma(1) d(3) i(2) by (auto simp: k_def layout_ok_def)
  then have sa: "seen dev t a = seen dev s a" using ex ma(2) by (auto simp: extends_def)
  note nm = new_meta[OF fs_readyD(3,4)[OF t(3), unfolded st(1,3)] ma]
  have "unat (of_nat (MAXFILE * BSIZE) :: uint32) = MAXFILE * BSIZE" using small_word[OF M] by blast
  then have ok: "\<not> off > isize k" "\<not> off + ?n < off" "\<not> off + ?n > of_nat (MAXFILE * BSIZE)"
    using o on by (simp_all only: word_less_nat_alt word_le_nat_alt not_less)
  have "writei ip (FromKernel bs) off ?n s = Ok (int l, u)"
    using t(1) u(1) ok ol(2) zs unfolding k_def by (simp add: writei_def bnd_apply thn_apply gets_apply modify_apply ret_apply)
  moreover have "l < n \<longrightarrow> disk_full dev u" using t(6) nm(4) mu st(1) by (simp add: disk_full_def u(4))
  moreover have "written dev ip (unat off) bs l s u"
    using t(7) nm(3,5) mu by (auto simp: written_def u(4) fbyte_def less_mult_imp_div_less)
  moreover have "seen dev u m = seen dev s m" if "used (seen dev s) (sb s) m" "m \<notin> {sb_bmapstart (sb s), a} \<union> file_blocks (seen dev s) k" for m
    using ex that by (simp add: u(4) extends_def)
  moreover have "inodes u ip = k\<lparr>isize := ?z, addrs := addrs (inodes u ip)\<rparr>" using mu ks(3) by simp
  moreover have "seen dev u a = put (seen dev s a) (dinode_off (inum k)) (dinode_bytes (dinode_of (inodes u ip)))" "disk u = disk s"
    using u(4) sa mu st(2) by simp_all
  ultimately show ?thesis using t(2) u(2) by blast
qed

lemma writei_refuses:
  "isize (inodes s ip) < off \<or> off + n < off \<or> of_nat (MAXFILE * BSIZE) < off + n \<Longrightarrow> writei ip src off n s = Ok (-1, s)"
  by (auto simp: writei_def bnd_apply gets_apply ret_apply)

section \<open>Files are arrays of bytes\<close>


text \<open>
  An example: the layout of \<^verbatim>\<open>mkfs\<close> with 100 blocks (the log from block 2, inodes from block 32, the free map in block 45, blocks 0 to 47 in use), an
  empty file with inode 1, and an open transaction.
\<close>

definition demo_map :: "uchar list" where
  "demo_map = replicate 6 (-1) @ replicate 1018 0"

definition demo_fs :: fs_state where
  "demo_fs = log_state.extend ((demo_log ring_buf (zero_disk(45 := demo_map)) 0)\<lparr>log := \<lparr>lstart = 2, lsize = 30, outstanding = 1, committing = False, ldev = 1,
       lh = \<lparr>lhn = 0, lhblock = \<lambda>i. 0\<rparr>\<rparr>\<rparr>)
     (fs_state.fields \<lparr>sb_magic = FSMAGIC, sb_size = 100, sb_nblocks = 54, sb_ninodes = 200, sb_nlog = 30, sb_logstart = 2, sb_inodestart = 32, sb_bmapstart = 45\<rparr>
       (\<lambda>i. \<lparr>idev = 1, inum = 1, iref = 1, ivalid = True, itype = 2, imajor = 0, iminor = 0, nlink = 1, isize = 0, addrs = replicate 13 0\<rparr>))"

lemmas demo_fs_defs = demo_fs_def log_state.extend_def fs_state.fields_def demo_log_def

lemma demo_fs_cold: "cold 1 0 demo_fs"
  using demo_cold[of "zero_disk(45 := demo_map)" 0]
  by (simp add: cold_def cache_defs live_def avail_def demo_fs_defs)

lemma demo_fs_seen: "seen 1 demo_fs = zero_disk(45 := demo_map)"
  by (subst cold_seen[OF demo_fs_cold]) (simp add: demo_fs_defs)

lemma demo_fs_txn: "in_txn 1 0 {} {} demo_fs"
proof -
  have c: "cache_ok 1 demo_fs" "\<forall>n. nrefs 1 demo_fs n = 0" "live 0 demo_fs {}" using demo_fs_cold by (simp_all add: cold_def)
  have d: "log demo_fs = \<lparr>lstart = 2, lsize = 30, outstanding = 1, committing = False, ldev = 1, lh = \<lparr>lhn = 0, lhblock = \<lambda>i. 0\<rparr>\<rparr>"
    "disk demo_fs = zero_disk(45 := demo_map)" by (simp_all add: demo_fs_defs)
  then have "txn_ok 1 demo_fs" using c(2)
    by (simp add: txn_ok_def SLOTS_def LOGSIZE_def MAXOPBLOCKS_def zero_disk_def zero_header BSIZE_def)
  then show ?thesis using c d by (simp add: in_txn_def logged_blocks_def cold_seen[OF demo_fs_cold])
qed

lemma demo_used: "unat n < 48 \<Longrightarrow> used (zero_disk(45 := demo_map)) (sb demo_fs) n"
proof -
  assume "unat n < 48"
  then have "unat n div 8 < 6" by (simp add: less_mult_imp_div_less)
  then have "demo_map ! (unat n div 8) = -1" by (simp add: demo_map_def nth_append)
  moreover have "sb_bmapstart (sb demo_fs) = 45" by (simp add: demo_fs_defs)
  ultimately show ?thesis by (simp add: used_def map_bit_iff)
qed

lemma demo_layout: "layout_ok (sb demo_fs) 2 (zero_disk(45 := demo_map))"
proof -
  have z: "sb_bmapstart (sb demo_fs) = 45" "sb_size (sb demo_fs) = 100" "sb_ninodes (sb demo_fs) = 200" "sb_inodestart (sb demo_fs) = 32"
    by (simp_all add: demo_fs_defs)
  have l: "in_log 2 n \<Longrightarrow> unat n < 32" for n
  proof -
    assume "in_log 2 n"
    then have "unat (n - 2) \<le> 29" by (simp add: in_log_def SLOTS_def LOGSIZE_def MAXOPBLOCKS_def)
    then have "unat (n - 2 + 2) \<le> 29 + 2" by (subst unat_word_ariths(1)) simp
    then show "unat n < 32" by simp
  qed
  have b: "unat (IBLOCK i (sb demo_fs)) = unat i div 16 + 32" "unat i div 16 < 13" if "unat i < 200" for i
  proof -
    show h: "unat i div 16 < 13" using that by simp
    have "unat (i div 16) = unat i div 16" by (simp add: unat_div_distrib)
    then show "unat (IBLOCK i (sb demo_fs)) = unat i div 16 + 32" using h by (simp add: IBLOCK_def z IPB_def BSIZE_def unat_word_ariths(1))
  qed
  have i: "\<not> in_log 2 (IBLOCK i (sb demo_fs)) \<and> IBLOCK i (sb demo_fs) \<noteq> 45" if "unat i < 200" for i
    using l[of "IBLOCK i (sb demo_fs)"] b[OF that] by (auto dest: arg_cong[of _ _ unat])
  have "unat n < 48" if "meta (sb demo_fs) 2 n" for n
    using that l[of n] b by (fastforce simp: meta_def z)
  then show ?thesis using i l[of 45] demo_used by (auto simp: layout_ok_def z BPB_def BSIZE_def demo_map_def)
qed

lemma demo_fs_ready: "fs_ready 1 0 0 demo_fs"
proof -
  have k: "idev (inodes demo_fs 0) = 1" "addrs (inodes demo_fs 0) = replicate 13 0" "log demo_fs = (log demo_fs)\<lparr>lstart := 2, outstanding := 1\<rparr>"
    by (simp_all add: demo_fs_defs)
  have "ptr D (inodes demo_fs 0) j = 0" for D j by (auto simp: ptr_def k(2) NDIRECT_def)
  then have "file_ok z start D (inodes demo_fs 0)" for z start D by (auto simp: file_ok_def file_blocks_def k(2) NDIRECT_def)
  moreover have "lstart (log demo_fs) = 2" "outstanding (log demo_fs) = 1" by (simp_all add: demo_fs_defs)
  ultimately show ?thesis using demo_layout demo_fs_txn k(1) by (simp add: fs_ready_def fs_at_def demo_fs_seen)
qed

lemma demo_fs_room: "need demo_fs 0 + (touched 0 3 + 1) \<le> room demo_fs"
proof -
  have "card {0::nat, 1, 2, 3} \<le> card (unused ring_buf)" by (rule card_mono) (auto simp: unused_def ring_buf_def NBUF_def)
  then have "4 \<le> avail demo_fs" by (simp add: avail_def demo_fs_defs)
  moreover have "log_room demo_fs = 29" by (simp add: log_room_def demo_fs_defs)
  moreover have "need demo_fs 0 \<le> 2" by (simp add: need_def)
  ultimately show ?thesis by (simp add: room_def touched_def BSIZE_def)
qed


end
