(* ===== verification/Spec2Isabelle.thy ===== *)
theory Spec2Isabelle
  imports Libtournament Vm_Map Trap Text_Tools Sh Umalloc Mkfs Crash_Safety Scheduler Pipe Line_Editor Virtio_Queue Peterson_Calls Fs_File
begin

text \<open>
  This is a verification library for an xv6 kernel for RISC-V that has been extended with Peterson locks, and for a user library
  that builds a tournament tree from them. Source paths are relative to \<^verbatim>\<open>src/\<close>.

  \<^bold>\<open>The program and its parts.\<close> The kernel manages physical pages (\<^verbatim>\<open>kernel/kalloc.c\<close>), page tables (\<^verbatim>\<open>kernel/vm.c\<close>), processes and harts
  (\<^verbatim>\<open>kernel/proc.c\<close>), spin locks and sleep locks (\<^verbatim>\<open>kernel/spinlock.c\<close>, \<^verbatim>\<open>kernel/sleeplock.c\<close>), and a stack of file system layers: disk driver, buffer
  cache, log, inodes and directories, open files and pipes (\<^verbatim>\<open>kernel/virtio_disk.c\<close>, \<^verbatim>\<open>kernel/bio.c\<close>, \<^verbatim>\<open>kernel/log.c\<close>, \<^verbatim>\<open>kernel/fs.c\<close>, \<^verbatim>\<open>kernel/file.c\<close>,
  \<^verbatim>\<open>kernel/pipe.c\<close>). Traps enter through \<^verbatim>\<open>kernel/trap.c\<close>, and system calls are dispatched by \<^verbatim>\<open>kernel/syscall.c\<close> to \<^verbatim>\<open>kernel/sysproc.c\<close> and
  \<^verbatim>\<open>kernel/sysfile.c\<close>. The addition is a table of Peterson locks (\<^verbatim>\<open>kernel/petersonlock.c\<close>) with four system calls; \<^verbatim>\<open>user/libtournament.c\<close> lets up to 16
  processes exclude each other with a tree of these locks. User programs come with a small library, an allocator, a shell and others;
  \<^verbatim>\<open>mkfs/mkfs.c\<close> builds the first file system.

  \<^bold>\<open>How C code is read.\<close> A routine is a function from the state to an \<open>outcome\<close> (theory \<open>Xv6_Prelude\<close>): \<open>Ok\<close> with result and new state, \<open>Panic\<close> for a
  kernel panic or a failed assertion, \<open>Undef\<close> for an access outside an array or through a null pointer, \<open>Wait\<close> when it spins or sleeps and cannot go
  on alone. The operators \<open>bnd\<close>, \<open>thn\<close>, \<open>seqs\<close>, \<open>whenb\<close> read as C statements in order. The state is a chain of records, one extension for each
  component, in the order of the theories; a routine is polymorphic in the components above its own. Integers that can wrap are words; \<^verbatim>\<open>int\<close>
  variables that cannot are \<open>int\<close> or \<open>nat\<close>. Memory is a function from 64-bit addresses to bytes, and page tables, the free list of pages and
  trapframes lie in it as bytes. Pointers to elements of static tables (buffers, inodes, files, processes) are their indices. A routine that
  switches to another thread is given in two parts, before and after the switch (\<open>sleep_enter\<close> and \<open>sleep_return\<close>, \<open>yield_enter\<close> and \<open>yield_return\<close>).

  \<^bold>\<open>Peterson locks.\<close> \<open>Petersonlock\<close> has the table and the five operations of \<^verbatim>\<open>kernel/petersonlock.c\<close>, and acquire and release once more as single memory
  accesses; the two agree. \<open>Lock_Tree\<close> interleaves processes that each take a sequence of locks, access by access; \<open>Libtournament\<close> has \<^verbatim>\<open>user/libtournament.c\<close>
  and proves, for every interleaving, mutual exclusion, that no call fails, and that some process can always move; it also shows what goes wrong
  when a lock of the tree is destroyed or when other programs own locks. \<open>Peterson_Calls\<close> and this theory follow such a call from the trap
  to the lock table and back to user space.

  \<^bold>\<open>Harts, locks, processes.\<close> \<open>Spinlock\<close>: \<^verbatim>\<open>kernel/spinlock.c\<close> with the nesting of interrupt disabling; exclusion over all interleavings. \<open>Proc\<close>, \<open>Kproc\<close>:
  \<^verbatim>\<open>kernel/proc.c\<close>, \<^verbatim>\<open>kernel/sysproc.c\<close> and the table of system calls. \<open>Sleeplock\<close>: \<^verbatim>\<open>kernel/sleeplock.c\<close>. \<open>Wakeup\<close> brings these routines into equations for a hart
  that finds its locks free, on which the proofs above it rest, and shows that a wakeup is not lost. \<open>Scheduler\<close> is a transition
  system over the critical sections of \<^verbatim>\<open>kernel/proc.c\<close>: a process runs on one hart at most. \<open>Trap\<close>: \<^verbatim>\<open>kernel/trap.c\<close>, \<^verbatim>\<open>kernel/plic.c\<close>,
  \<^verbatim>\<open>kernel/start.c\<close>, \<^verbatim>\<open>kernel/main.c\<close> and the control registers.

  \<^bold>\<open>Memory.\<close> \<open>Memory\<close>: \<^verbatim>\<open>kernel/riscv.h\<close>, \<^verbatim>\<open>kernel/memlayout.h\<close>. \<open>Kstring\<close>: \<^verbatim>\<open>kernel/string.c\<close>. \<open>Kalloc\<close>: \<^verbatim>\<open>kernel/kalloc.c\<close>; the allocator is a stack of pages, and no page is
  handed out twice. \<open>Vm\<close>: \<^verbatim>\<open>kernel/vm.c\<close>; \<open>Vm_Frame\<close> and \<open>Vm_Map\<close>: what its routines leave alone and what page tables mean, mapping and
  unmapping, copies between kernel and user memory.

  \<^bold>\<open>Devices.\<close> \<open>Uart\<close>: \<^verbatim>\<open>kernel/uart.c\<close>, \<^verbatim>\<open>kernel/printf.c\<close>. \<open>Console\<close>: \<^verbatim>\<open>kernel/console.c\<close>; \<open>Line_Editor\<close>: the input side refines an editor of lines. \<open>Virtio\<close>:
  \<^verbatim>\<open>kernel/virtio_disk.c\<close>; \<open>Virtio_Queue\<close>: a transfer takes three descriptors and gives them back. \<open>Ring\<close>: a locale for the circular buffers,
  interpreted for the console and for pipes.

  \<^bold>\<open>File system.\<close> \<open>Bytes\<close>: integers in blocks. \<open>Bio\<close>: \<^verbatim>\<open>kernel/bio.c\<close>; \<open>Bio_Inv\<close> and \<open>Bio_Live\<close> state its contract as locales (\<open>block_cache\<close>: what readers see;
  \<open>live_cache\<close>: that the routines return) and interpret them on the model. \<open>Log\<close>: \<^verbatim>\<open>kernel/log.c\<close>; \<open>Log_Crash\<close> and \<open>Crash_Safety\<close>: a power failure at any write of a
  commit or of a recovery leaves the old or the new contents. \<open>Fs\<close>: \<^verbatim>\<open>kernel/fs.c\<close>; \<open>Fs_Format\<close>, \<open>Fs_Txn\<close>, \<open>Fs_Alloc\<close>: formats on disk,
  blocks inside a transaction, allocation. \<open>Fs_Content\<close> says which blocks and bytes a file has; \<open>Fs_Bmap\<close>, \<open>Fs_Write\<close> and \<open>Fs_File\<close> follow \<^verbatim>\<open>bmap\<close>,
  \<^verbatim>\<open>writei\<close>, \<^verbatim>\<open>readi\<close> and \<^verbatim>\<open>iupdate\<close> through the cache and the log, with the entries of the log counted, and show that a file is an array of bytes
  (for disks whose free map is one block, as those of \<^verbatim>\<open>mkfs\<close>). \<open>File\<close>: \<^verbatim>\<open>kernel/file.c\<close>, \<^verbatim>\<open>kernel/pipe.c\<close>; \<open>Pipe\<close>: a pipe is a queue of bytes. \<open>Exec\<close>: \<^verbatim>\<open>kernel/exec.c\<close>;
  \<open>Sysfile\<close>: \<^verbatim>\<open>kernel/sysfile.c\<close>. \<open>Mkfs\<close>: \<^verbatim>\<open>mkfs/mkfs.c\<close>, whose formats the kernel reads.

  \<^bold>\<open>User programs.\<close> \<open>Ulib\<close>: \<^verbatim>\<open>user/ulib.c\<close>, \<^verbatim>\<open>user/printf.c\<close>. \<open>Umalloc\<close>: \<^verbatim>\<open>user/umalloc.c\<close>, with the invariant of its circular list. \<open>Grep\<close>: \<^verbatim>\<open>user/grep.c\<close>; the matcher
  against the language of the pattern. \<open>Text_Tools\<close>: \<^verbatim>\<open>user/cat.c\<close>, \<^verbatim>\<open>user/wc.c\<close>, \<^verbatim>\<open>user/echo.c\<close>. \<open>Sh\<close>: \<^verbatim>\<open>user/sh.c\<close>; the parser ends, and pipes are connected as they should be.

  \<^bold>\<open>Bounds and fuel.\<close> Loops over C counters are recursive functions with a termination proof. Walks along C strings and along the circular list of
  \<^verbatim>\<open>user/umalloc.c\<close>, which need not end on bad data, are partial functions with value \<open>None\<close> when they do not; the theorems say that they end. Only the walks
  through the list of buffers in \<^verbatim>\<open>kernel/bio.c\<close> take fuel: the list has \<open>NBUF\<close> elements and its head, so that \<open>NBUF + 1\<close> steps are enough, which the
  invariant of the cache is proved to imply.

  \<^bold>\<open>Not modelled.\<close> Assembly (\<^verbatim>\<open>kernel/*.S\<close>, \<^verbatim>\<open>user/initcode.S\<close>): instructions, not C. \<^verbatim>\<open>kernel/ramdisk.c\<close>: not linked into the kernel. \<^verbatim>\<open>user/usertests.c\<close>,
  \<^verbatim>\<open>user/grind.c\<close>, \<^verbatim>\<open>user/forktest.c\<close>, \<^verbatim>\<open>user/stressfs.c\<close>, \<^verbatim>\<open>user/test_peterson.c\<close>, \<^verbatim>\<open>user/tournament.c\<close>: programs that exercise the system. \<^verbatim>\<open>user/ls.c\<close>,
  \<^verbatim>\<open>user/rm.c\<close>, \<^verbatim>\<open>user/ln.c\<close>, \<^verbatim>\<open>user/mkdir.c\<close>, \<^verbatim>\<open>user/kill.c\<close>, \<^verbatim>\<open>user/init.c\<close>, \<^verbatim>\<open>user/zombie.c\<close>: a few system calls and messages each; the calls are modelled in the kernel. Devices appear by what the driver sees of them. The weak memory
  order between harts is not modelled: the code puts fences around the accesses in question, and accesses are taken to be sequentially consistent.
\<close>

section \<open>From user space to the lock table\<close>

text \<open>
  C3. A system call on a Peterson lock, from the trap to the return. The call is the operation of \<^verbatim>\<open>kernel/petersonlock.c\<close> on the table of the kernel, with the
  arguments of the registers cut to \<^verbatim>\<open>int\<close>: when the operation waits or goes wrong, so does the call. When it returns, the process goes on after its
  \<^verbatim>\<open>ecall\<close> in user mode, with the result in \<^verbatim>\<open>a0\<close>, its own page table, and all other memory outside the kernel's part of the trapframe as it was.
\<close>

theorem peterson_calls_reach_table:
  assumes "peterson_trap p s"
  shows "\<exists>post. bnd usertrap (\<lambda>e. bnd usertrapret (\<lambda>t. ret (e, t))) s =
      obind (peterson_call (int_arg (reg p TF_a7 s)) (int_arg (reg p TF_a0 s)) (int_arg (reg p TF_a1 s)) (peterson_locks s))
        (\<lambda>(r, ls). Ok ((TReturn, MAKE_SATP (pagetable (procs s p)), TRAMPOLINE + (symbol s ''userret'' - symbol s ''trampoline'')), post r ls)) \<and>
    (\<forall>r ls. peterson_locks (post r ls) = ls \<and> reg p TF_a0 (post r ls) = of_int r \<and> procs (post r ls) = procs s \<and>
       csrs (post r ls) (hart (kcore s)) Sepc = csrs s (hart (kcore s)) Sepc + 4 \<and> csrs (post r ls) (hart (kcore s)) Sstatus AND SSTATUS_SPP = 0 \<and>
       \<not> intr_get (kcore (post r ls)) \<and>
       (\<forall>x. \<not> in_range (trapframe (procs s p)) 40 x \<and> \<not> in_range (trapframe (procs s p) + TF_a0) 8 x \<longrightarrow> mem (post r ls) x = mem s x))"
proof -
  let ?h = "hart (kcore s)" and ?t = "trapframe (procs s p)"
  have q: "quiet p (kcore (trapped p s r ls))" for r ls
    using assms quiet_intr(1)[of p "settled (kcore s)"] by (simp add: trapped_def peterson_trap_def)
  have "\<forall>r ls. \<exists>u. usertrapret (trapped p s r ls) =
      Ok ((MAKE_SATP (pagetable (procs s p)), TRAMPOLINE + (symbol s ''userret'' - symbol s ''trampoline'')), u) \<and> leaving p (trapped p s r ls) u"
    using usertrapret_eq[OF q] by (simp add: trapped_def)
  then obtain post where post: "\<And>r ls. usertrapret (trapped p s r ls) =
      Ok ((MAKE_SATP (pagetable (procs s p)), TRAMPOLINE + (symbol s ''userret'' - symbol s ''trampoline'')), post r ls)"
    "\<And>r ls. leaving p (trapped p s r ls) (post r ls)" by metis
  have "bnd usertrap (\<lambda>e. bnd usertrapret (\<lambda>t. ret (e, t))) s =
      obind (peterson_call (int_arg (reg p TF_a7 s)) (int_arg (reg p TF_a0 s)) (int_arg (reg p TF_a1 s)) (peterson_locks s))
        (\<lambda>(r, ls). Ok ((TReturn, MAKE_SATP (pagetable (procs s p)), TRAMPOLINE + (symbol s ''userret'' - symbol s ''trampoline'')), post r ls))"
    by (auto simp: bnd_apply usertrap_peterson[OF assms] obind_assoc post(1) ret_apply intro!: obind_cong)
  moreover have "peterson_locks (post r ls) = ls \<and> reg p TF_a0 (post r ls) = of_int r \<and> procs (post r ls) = procs s \<and>
       csrs (post r ls) ?h Sepc = csrs s ?h Sepc + 4 \<and> csrs (post r ls) ?h Sstatus AND SSTATUS_SPP = 0 \<and> \<not> intr_get (kcore (post r ls)) \<and>
       (\<forall>x. \<not> in_range ?t 40 x \<and> \<not> in_range (?t + TF_a0) 8 x \<longrightarrow> mem (post r ls) x = mem s x)" for r ls
    using post(2)[of r ls] leaving_reg[OF post(2)[of r ls], of TF_a0]
    by (auto simp: trapped_def leaving_def reg_def load_store_field outside_frame store64_other)
  ultimately show ?thesis by blast
qed

definition demo_trap :: trap_state where
  "demo_trap = vdisk_state.extend (demo_vdisk\<lparr>mem := store64 (\<lambda>a. 0) TF_a7 22\<rparr>) (trap_state.fields (\<lambda>h r. if r = Scause then 8 else if r = Sepc then 0x100 else 0)
     (\<lambda>a. 0) (\<lambda>h. 0) (\<lambda>a. 0) (\<lambda>h i. 0) 0 True (\<lambda>n. 0))"

text \<open>A process asks for a lock and is given lock 0.\<close>

lemma demo_noff: "noff (mycpu demo_core) = 0"
  by (simp add: demo_core_def boot_core_def mycpu_def)

theorem peterson_calls_reach_table_witness:
  "\<exists>t s'. bnd usertrap (\<lambda>e. bnd usertrapret (\<lambda>t. ret (e, t))) demo_trap = Ok ((TReturn, t), s') \<and> reg 0 TF_a0 s' = 0 \<and> csrs s' 0 Sepc = 0x104 \<and>
     active (peterson_locks s' 0) = 1"
proof -
  note d = demo_trap_def vdisk_state.extend_def trap_state.fields_def demo_vdisk_def
  have t: "peterson_trap 0 demo_trap" using demo_core_ok demo_noff
    by (simp add: peterson_trap_def d demo_procs_def blank_proc_def int_arg_def reg_def)
  have n: "int_arg (reg 0 TF_a7 demo_trap) = 22" by (simp add: d demo_procs_def blank_proc_def int_arg_def reg_def)
  have c: "\<exists>ls. petersonlock_create (peterson_locks demo_trap) = (0, ls) \<and> active (ls 0) = 1"
    by (simp add: d petersonlock_create_def petersonlock_create_from.simps[of 0] test_and_set_active_def reset_lock_def MAX_PETERSON_LOCKS_def)
  have h: "hart (kcore demo_trap) = 0" "csrs demo_trap 0 Sepc = 0x100" by (simp_all add: d demo_core_def boot_core_def)
  from peterson_calls_reach_table[OF t] show ?thesis unfolding n h using c by (auto simp: peterson_call_def)
qed

end
